(* ===== verification/Prelude.thy ===== *)
theory Prelude imports Complex_Main "HOL-Library.Product_Lexorder" begin

text \<open>
  Shared vocabulary of the development: the exceptions of the Python code as values of
  \<open>py_error\<close>, results as the sum \<open>py_error + 'a\<close> with a bind that stops at the first
  exception, the float operations that can raise (\<open>**\<close> and \<open>/\<close>), text comparison as
  the database does it, and the list and map lemmas the component theories share.
  Python floats are read as real numbers: rounding and overflow to infinity are not
  modelled. Python integers are \<open>int\<close>; strings are lists of characters.
\<close>

section \<open>Exceptions and results\<close>

datatype py_error =
    ValueError | KeyError | TypeError | IndexError | AttributeError | ZeroDivisionError
  | ComplexPower \<comment> \<open>\<open>**\<close> of a negative base: the result is no float\<close>
  | OverflowError | RuntimeError | AllPresetsExhausted | AIRequestTimedOut
  | MasterKeyRequired | NoActivePreset | IntegrityError

type_synonym 'a py = "py_error + 'a"

fun py_bind :: "'a py \<Rightarrow> ('a \<Rightarrow> 'b py) \<Rightarrow> 'b py" where
  "py_bind (Inl e) f = Inl e"
| "py_bind (Inr x) f = f x"

lemma py_bind_Inr_iff: "py_bind m f = Inr y \<longleftrightarrow> (\<exists>x. m = Inr x \<and> f x = Inr y)"
  by (cases m) auto

lemma py_bind_Inl_iff: "py_bind m f = Inl e \<longleftrightarrow> m = Inl e \<or> (\<exists>x. m = Inr x \<and> f x = Inl e)"
  by (cases m) auto

lemma py_bind_InrE: "py_bind m f = Inr y \<Longrightarrow> (\<And>x. m = Inr x \<Longrightarrow> f x = Inr y \<Longrightarrow> P) \<Longrightarrow> P"
  by (auto simp: py_bind_Inr_iff)

text \<open>The exceptions a computation can raise, bounded by composition.\<close>

definition errs_in :: "py_error set \<Rightarrow> 'a py \<Rightarrow> bool" where
  "errs_in E m \<longleftrightarrow> (\<forall>e. m = Inl e \<longrightarrow> e \<in> E)"

lemma errs_in_Inr [simp]: "errs_in E (Inr x)"
  by (simp add: errs_in_def)

lemma errs_in_Inl [simp]: "errs_in E (Inl e) = (e \<in> E)"
  by (simp add: errs_in_def)

lemma errs_in_bind: "errs_in E m \<Longrightarrow> (\<And>x. m = Inr x \<Longrightarrow> errs_in E (f x)) \<Longrightarrow> errs_in E (py_bind m f)"
  by (cases m) auto

lemma errs_in_mono: "errs_in E m \<Longrightarrow> E \<subseteq> F \<Longrightarrow> errs_in F m"
  by (auto simp: errs_in_def)

lemma py_bind_assoc: "py_bind (py_bind m f) g = py_bind m (\<lambda>x. py_bind (f x) g)"
  by (cases m) auto

lemma map_sum_Inr_iff: "map_sum f g m = Inr y \<longleftrightarrow> (\<exists>x. m = Inr x \<and> g x = y)"
  by (cases m) auto

text \<open>A comprehension whose body can raise: the first exception wins.\<close>

fun py_mapM :: "('a \<Rightarrow> 'b py) \<Rightarrow> 'a list \<Rightarrow> 'b list py" where
  "py_mapM f [] = Inr []"
| "py_mapM f (x # xs) = py_bind (f x) (\<lambda>y. py_bind (py_mapM f xs) (\<lambda>ys. Inr (y # ys)))"

lemma py_mapM_Inr: "(\<And>x. x \<in> set xs \<Longrightarrow> f x = Inr (g x)) \<Longrightarrow> py_mapM f xs = Inr (map g xs)"
  by (induction xs) auto

lemma py_mapM_length: "py_mapM f xs = Inr ys \<Longrightarrow> length ys = length xs"
  by (induction xs arbitrary: ys) (auto simp: py_bind_Inr_iff)

lemma errs_in_mapM: "(\<And>x. x \<in> set xs \<Longrightarrow> errs_in E (f x)) \<Longrightarrow> errs_in E (py_mapM f xs)"
  by (induction xs) (auto intro!: errs_in_bind)

text \<open>A dictionary lookup \<open>d[k]\<close> raises \<open>KeyError\<close> for a missing key.\<close>

definition py_item :: "('k \<Rightarrow> 'v option) \<Rightarrow> 'k \<Rightarrow> 'v py" where
  "py_item d k = (case d k of None \<Rightarrow> Inl KeyError | Some v \<Rightarrow> Inr v)"

lemma py_item_simps [simp]:
  "d k = None \<Longrightarrow> py_item d k = Inl KeyError"
  "d k = Some v \<Longrightarrow> py_item d k = Inr v"
  by (simp_all add: py_item_def)

section \<open>Float operations that can raise\<close>

text \<open>
  \<open>a ** b\<close> on floats: a positive base is the real power; zero to a negative power
  raises; a negative base gives a complex number for the fractional exponents the
  program uses, and no later operation of the program accepts one.
\<close>

definition py_pow :: "real \<Rightarrow> real \<Rightarrow> real py" where
  "py_pow a b =
     (if 0 < a then Inr (a powr b)
      else if a = 0 then (if b < 0 then Inl ZeroDivisionError
                          else if b = 0 then Inr 1 else Inr 0)
      else Inl ComplexPower)"

definition py_div :: "real \<Rightarrow> real \<Rightarrow> real py" where
  "py_div a b = (if b = 0 then Inl ZeroDivisionError else Inr (a / b))"

lemma py_pow_pos [simp]: "0 < a \<Longrightarrow> py_pow a b = Inr (a powr b)"
  by (simp add: py_pow_def)

lemma py_pow_zero_neg [simp]: "b < 0 \<Longrightarrow> py_pow 0 b = Inl ZeroDivisionError"
  by (simp add: py_pow_def)

lemma py_div_nonzero [simp]: "b \<noteq> 0 \<Longrightarrow> py_div a b = Inr (a / b)"
  by (simp add: py_div_def)

text \<open>\<open>round(x)\<close> of a float: the nearest integer, ties to even.\<close>

definition py_round :: "real \<Rightarrow> int" where
  "py_round x = (let f = \<lfloor>x\<rfloor>; d = x - of_int f in
     if d < 1 / 2 then f else if d > 1 / 2 then f + 1 else if even f then f else f + 1)"

lemma py_round_le: "x \<le> of_int n \<Longrightarrow> py_round x \<le> n"
  unfolding py_round_def Let_def by (auto split: if_splits) linarith+

lemma py_round_ge: "of_int n \<le> x \<Longrightarrow> n \<le> py_round x"
  unfolding py_round_def Let_def by (auto split: if_splits) linarith+

section \<open>Option helpers\<close>

text \<open>\<open>x if x is not None else d\<close>, SQL's \<open>COALESCE(x, d)\<close>.\<close>

definition or_else :: "'a option \<Rightarrow> 'a \<Rightarrow> 'a" where
  "or_else m d = (case m of None \<Rightarrow> d | Some x \<Rightarrow> x)"

lemma or_else_simps [simp]: "or_else None d = d" "or_else (Some x) d = x"
  by (simp_all add: or_else_def)

section \<open>Tables as lists of rows\<close>

text \<open>
  A table is the list of its rows in insertion order. An \<open>UPDATE ... WHERE p\<close> maps the
  rows that satisfy \<open>p\<close>, and its \<open>rowcount\<close> is how many do; a \<open>DELETE\<close> filters.
\<close>

definition update_where :: "('r \<Rightarrow> bool) \<Rightarrow> ('r \<Rightarrow> 'r) \<Rightarrow> 'r list \<Rightarrow> 'r list" where
  "update_where p f rs = map (\<lambda>r. if p r then f r else r) rs"

definition delete_where :: "('r \<Rightarrow> bool) \<Rightarrow> 'r list \<Rightarrow> 'r list" where
  "delete_where p rs = filter (\<lambda>r. \<not> p r) rs"

definition count_where :: "('r \<Rightarrow> bool) \<Rightarrow> 'r list \<Rightarrow> nat" where
  "count_where p rs = length (filter p rs)"

lemma set_update_where:
  "set (update_where p f rs) = {if p r then f r else r | r. r \<in> set rs}"
  by (auto simp: update_where_def)

lemma ball_update_where:
  "(\<forall>x \<in> set (update_where p f rs). P x) \<longleftrightarrow> (\<forall>x \<in> set rs. P (if p x then f x else x))"
  by (induction rs) (simp_all add: update_where_def)

lemma length_update_where [simp]: "length (update_where p f rs) = length rs"
  by (simp add: update_where_def)

lemma map_update_where:
  "(\<And>r. r \<in> set rs \<Longrightarrow> p r \<Longrightarrow> k (f r) = k r) \<Longrightarrow> map k (update_where p f rs) = map k rs"
  by (simp add: update_where_def)

lemma filter_update_where:
  "(\<And>r. r \<in> set rs \<Longrightarrow> p r \<Longrightarrow> \<not> q (f r) \<and> \<not> q r) \<Longrightarrow>
   filter q (update_where p f rs) = filter q rs"
  by (induction rs) (auto simp: update_where_def)

lemma update_where_twice:
  "(\<And>r. p r \<Longrightarrow> p (f r)) \<Longrightarrow>
   update_where p g (update_where p f rs) = update_where p (\<lambda>r. g (f r)) rs"
  by (simp add: update_where_def)

lemma filter_not_update_where:
  "(\<And>r. p r \<Longrightarrow> p (f r)) \<Longrightarrow>
   filter (\<lambda>r. \<not> p r) (update_where p f rs) = filter (\<lambda>r. \<not> p r) rs"
  by (rule filter_update_where) auto

lemma set_delete_where [simp]: "set (delete_where p rs) = {r \<in> set rs. \<not> p r}"
  by (simp add: delete_where_def)

lemma count_where_0_iff: "count_where p rs = 0 \<longleftrightarrow> (\<forall>r \<in> set rs. \<not> p r)"
  by (simp add: count_where_def filter_empty_conv)

lemma find_Some_D: "find p rs = Some r \<Longrightarrow> r \<in> set rs \<and> p r"
  by (auto simp: find_Some_iff)

lemma find_update_where_Some:
  "\<lbrakk>find p rs = Some r; \<And>x. p x \<Longrightarrow> p (f x)\<rbrakk> \<Longrightarrow>
   find p (update_where p f rs) = Some (f r)"
  by (induction rs) (auto simp: update_where_def split: if_splits)

lemma find_update_where_map:
  "(\<And>x. p x \<Longrightarrow> p (f x)) \<Longrightarrow> find p (update_where p f rs) = map_option f (find p rs)"
  by (induction rs) (auto simp: update_where_def)

lemma find_update_where_other:
  "(\<And>x. p x \<Longrightarrow> \<not> q x) \<Longrightarrow> (\<And>x. p x \<Longrightarrow> \<not> q (f x)) \<Longrightarrow>
   find q (update_where p f rs) = find q rs"
  by (induction rs) (auto simp: update_where_def)

lemma find_delete_where_other:
  "(\<And>x. q x \<Longrightarrow> \<not> p x) \<Longrightarrow> find q (delete_where p rs) = find q rs"
  by (induction rs) (auto simp: delete_where_def)

lemma find_None_all: "find p rs = None \<longleftrightarrow> (\<forall>r \<in> set rs. \<not> p r)"
  by (auto simp: find_None_iff)

lemma find_append: "find p (xs @ ys) = (case find p xs of None \<Rightarrow> find p ys | Some x \<Rightarrow> Some x)"
  by (induction xs) auto

lemma length_filter_mono:
  "(\<And>x. x \<in> set xs \<Longrightarrow> q x \<Longrightarrow> p x) \<Longrightarrow> length (filter q xs) \<le> length (filter p xs)"
  by (induction xs) (auto intro: le_SucI)

lemma filter_length_less:
  "(\<And>x. x \<in> set xs \<Longrightarrow> q x \<Longrightarrow> p x) \<Longrightarrow> y \<in> set xs \<Longrightarrow> p y \<Longrightarrow> \<not> q y \<Longrightarrow>
   length (filter q xs) < length (filter p xs)"
proof (induction xs)
  case (Cons x xs)
  have le: "length (filter q xs) \<le> length (filter p xs)"
    using Cons.prems(1) by (intro length_filter_mono) auto
  show ?case
  proof (cases "y \<in> set xs")
    case True
    then show ?thesis using Cons by auto
  next
    case False
    then show ?thesis using Cons.prems le by auto
  qed
qed simp

section \<open>Quotients and remainders\<close>

lemma less_div_mod:
  fixes m n k :: nat
  assumes "0 < k"
  shows "m < n \<longleftrightarrow> m div k < n div k \<or> m div k = n div k \<and> m mod k < n mod k"
proof (cases "m div k" "n div k" rule: linorder_cases)
  case less
  then show ?thesis using div_le_mono [of n m k] by fastforce
next
  case equal
  then show ?thesis
    using mult_div_mod_eq [of k m] mult_div_mod_eq [of k n] by (metis add_less_cancel_left less_irrefl)
next
  case greater
  then show ?thesis using div_le_mono [of m n k] by fastforce
qed

lemma eq_div_mod: "(m::nat) = n \<longleftrightarrow> m div k = n div k \<and> m mod k = n mod k"
  by (metis div_mult_mod_eq)

section \<open>Decimal text\<close>

text \<open>\<open>str(n)\<close> of a Python integer, as the f-strings and \<open>str\<close> calls of the code use it.\<close>

fun nat_str :: "nat \<Rightarrow> string" where
  "nat_str n = (if n < 10 then [char_of (48 + n)] else nat_str (n div 10) @ [char_of (48 + n mod 10)])"

declare nat_str.simps [simp del]

definition int_str :: "int \<Rightarrow> string" where
  "int_str i = (if i < 0 then ''-'' @ nat_str (nat (- i)) else nat_str (nat i))"

definition is_digit :: "char \<Rightarrow> bool" where
  "is_digit c \<longleftrightarrow> 48 \<le> (of_char c :: nat) \<and> (of_char c :: nat) \<le> 57"

fun digits_val :: "nat \<Rightarrow> string \<Rightarrow> nat" where
  "digits_val a [] = a"
| "digits_val a (c # cs) = digits_val (10 * a + ((of_char c :: nat) - 48)) cs"

lemma digits_val_append: "digits_val a (xs @ ys) = digits_val (digits_val a xs) ys"
  by (induction xs arbitrary: a) auto

lemma nat_str_digits: "list_all is_digit (nat_str n)"
proof (induction n rule: nat_str.induct)
  case (1 n)
  show ?case
    by (subst nat_str.simps) (auto simp: "1.IH" is_digit_def of_char_of)
qed

lemma nat_str_nonempty [simp]: "nat_str n \<noteq> []"
  by (subst nat_str.simps) simp

lemma digits_val_nat_str: "digits_val 0 (nat_str n) = n"
proof (induction n rule: nat_str.induct)
  case (1 n)
  show ?case
    by (subst nat_str.simps) (auto simp: "1.IH" digits_val_append of_char_of)
qed

lemma nat_str_inj [simp]: "nat_str m = nat_str n \<longleftrightarrow> m = n"
  by (metis digits_val_nat_str)

lemma nat_str_no_char: "\<not> is_digit c \<Longrightarrow> c \<notin> set (nat_str n)"
  using nat_str_digits [of n] by (auto simp: list_all_iff)

lemma nat_str_not_minus [simp]: "nat_str n \<noteq> CHR ''-'' # xs"
  using nat_str_no_char [of "CHR ''-''" n] by (auto simp: is_digit_def)

lemma minus_not_nat_str [simp]: "CHR ''-'' # xs \<noteq> nat_str n"
  by (metis nat_str_not_minus)

lemma int_str_inj [simp]: "int_str i = int_str j \<longleftrightarrow> i = j"
  by (auto simp: int_str_def split: if_splits)

text \<open>
  \<open>int(text)\<close>: an optional sign and at least one digit; \<open>ValueError\<close> otherwise. (Python
  also strips white space and accepts underscores between digits; the texts the program
  stores have neither.)
\<close>

definition py_int_of :: "string \<Rightarrow> int py" where
  "py_int_of s =
     (case s of
        [] \<Rightarrow> Inl ValueError
      | c # cs \<Rightarrow>
          if c = CHR ''-'' then
            (if cs \<noteq> [] \<and> list_all is_digit cs then Inr (- int (digits_val 0 cs)) else Inl ValueError)
          else if c = CHR ''+'' then
            (if cs \<noteq> [] \<and> list_all is_digit cs then Inr (int (digits_val 0 cs)) else Inl ValueError)
          else (if list_all is_digit s then Inr (int (digits_val 0 s)) else Inl ValueError))"

lemma py_int_of_nat_str [simp]: "py_int_of (nat_str n) = Inr (int n)"
proof (cases "nat_str n")
  case Nil
  then show ?thesis by simp
next
  case (Cons c cs)
  have "c \<noteq> CHR ''-''" and "c \<noteq> CHR ''+''"
    using nat_str_no_char [of c n] Cons by (auto simp: is_digit_def)
  then show ?thesis
    using Cons nat_str_digits [of n] digits_val_nat_str [of n] by (simp add: py_int_of_def)
qed

lemma py_int_of_int_str [simp]: "py_int_of (int_str i) = Inr i"
  using nat_str_digits [of "nat (- i)"] digits_val_nat_str [of "nat (- i)"]
  by (simp add: int_str_def py_int_of_def [of "CHR ''-'' # _"])

end
