(* ===== verification/Calendar.thy ===== *)
theory Calendar
  imports Prelude "HOL-Library.Char_ord" "HOL-Library.List_Lexorder"
begin

text \<open>
  The part of Python's \<open>datetime\<close> module that the program uses. A \<open>date\<close> is its year,
  month and day; \<open>isoformat\<close> and \<open>fromisoformat\<close> convert to and from the text form in
  which every date column of the database stores it, and moving by one day is
  \<open>timedelta(days=1)\<close>. An instant is an integer number of microseconds since the epoch
  in UTC; a timestamp column holds the text of an instant or some other text. The time
  zone database is not part of the program: the local day of an instant and the first
  instant of a local day are fields of the \<open>clock\<close>.
\<close>

section \<open>Dates\<close>

type_synonym date = "nat \<times> nat \<times> nat"

definition is_leap :: "nat \<Rightarrow> bool" where
  "is_leap y \<longleftrightarrow> y mod 4 = 0 \<and> (y mod 100 \<noteq> 0 \<or> y mod 400 = 0)"

definition days_in_month :: "nat \<Rightarrow> nat \<Rightarrow> nat" where
  "days_in_month y m =
     (if m = 2 then (if is_leap y then 29 else 28)
      else if m \<in> {4, 6, 9, 11} then 30 else 31)"

fun valid_date :: "date \<Rightarrow> bool" where
  "valid_date (y, m, d) \<longleftrightarrow>
     1 \<le> y \<and> y \<le> 9999 \<and> 1 \<le> m \<and> m \<le> 12 \<and> 1 \<le> d \<and> d \<le> days_in_month y m"

lemma days_in_month_bounds: "28 \<le> days_in_month y m \<and> days_in_month y m \<le> 31"
  by (auto simp: days_in_month_def)

fun day_before :: "date \<Rightarrow> date py" where
  "day_before (y, m, d) =
     (if 1 < d then Inr (y, m, d - 1)
      else if 1 < m then Inr (y, m - 1, days_in_month y (m - 1))
      else if 1 < y then Inr (y - 1, 12, 31)
      else Inl OverflowError)"

fun day_after :: "date \<Rightarrow> date py" where
  "day_after (y, m, d) =
     (if d < days_in_month y m then Inr (y, m, d + 1)
      else if m < 12 then Inr (y, m + 1, 1)
      else if y < 9999 then Inr (y + 1, 1, 1)
      else Inl OverflowError)"

lemma days_in_month_december [simp]: "days_in_month y 12 = 31"
  by (simp add: days_in_month_def)

lemma days_in_month_pos [simp]: "Suc 0 \<le> days_in_month y m"
  using days_in_month_bounds [of y m] by simp

lemma day_before_total: "valid_date x \<Longrightarrow> x \<noteq> (1, 1, 1) \<Longrightarrow> \<exists>y. day_before x = Inr y"
  by (cases x) auto

lemma day_before_valid: "valid_date x \<Longrightarrow> day_before x = Inr y \<Longrightarrow> valid_date y"
  by (cases x) (auto split: if_splits)

lemma day_after_valid: "valid_date x \<Longrightarrow> day_after x = Inr y \<Longrightarrow> valid_date y"
  by (cases x) (auto split: if_splits)

lemma day_before_after: "valid_date x \<Longrightarrow> day_after x = Inr y \<Longrightarrow> day_before y = Inr x"
  by (cases x) (auto split: if_splits)

lemma day_after_before: "valid_date x \<Longrightarrow> day_before x = Inr y \<Longrightarrow> day_after y = Inr x"
  by (cases x) (auto split: if_splits)

lemma day_before_less: "valid_date x \<Longrightarrow> day_before x = Inr y \<Longrightarrow> y < x"
  by (cases x) (auto simp: less_prod_def split: if_splits)

section \<open>ISO text\<close>

definition digit_char :: "nat \<Rightarrow> char" where
  "digit_char n = char_of (48 + n mod 10)"

definition char_digit :: "char \<Rightarrow> nat" where
  "char_digit c = of_char c - 48"

definition pad2 :: "nat \<Rightarrow> string" where
  "pad2 n = [digit_char (n div 10), digit_char n]"

fun isoformat :: "date \<Rightarrow> string" where
  "isoformat (y, m, d) = pad2 (y div 100) @ pad2 y @ ''-'' @ pad2 m @ ''-'' @ pad2 d"

fun fromisoformat :: "string \<Rightarrow> date py" where
  "fromisoformat [a, b, c, e, h1, f, g, h2, i, j] =
     (if list_all is_digit [a, b, c, e, f, g, i, j] \<and> h1 = CHR ''-'' \<and> h2 = CHR ''-''
      then (let x = (1000 * char_digit a + 100 * char_digit b + 10 * char_digit c + char_digit e,
                     10 * char_digit f + char_digit g, 10 * char_digit i + char_digit j)
            in if valid_date x then Inr x else Inl ValueError)
      else Inl ValueError)"
| "fromisoformat _ = Inl ValueError"

lemma of_char_digit_char: "(of_char (digit_char n) :: nat) = 48 + n mod 10"
  by (simp add: digit_char_def of_char_of)

lemma is_digit_digit_char [simp]: "is_digit (digit_char n)"
  by (simp add: is_digit_def of_char_digit_char less_Suc_eq_le [symmetric])

lemma char_digit_digit_char [simp]: "char_digit (digit_char n) = n mod 10"
  by (simp add: char_digit_def of_char_digit_char)

lemma digit_char_char_digit:
  assumes "is_digit c"
  shows "digit_char (char_digit c) = c" and "char_digit c < 10"
proof -
  have b: "48 \<le> (of_char c :: nat)" "(of_char c :: nat) \<le> 57" using assms by (auto simp: is_digit_def)
  then show "char_digit c < 10" by (simp add: char_digit_def)
  then have "digit_char (char_digit c) = char_of (of_char c :: nat)"
    using b by (simp add: digit_char_def char_digit_def)
  then show "digit_char (char_digit c) = c" by simp
qed

lemma four_digits:
  assumes "y < (10000::nat)"
  shows "1000 * (y div 100 div 10 mod 10) + 100 * (y div 100 mod 10) + 10 * (y div 10 mod 10) + y mod 10 = y"
proof -
  have q: "y div 100 = y div 10 div 10" by (simp add: div_mult2_eq [symmetric])
  have l: "y div 10 div 10 div 10 mod 10 = y div 10 div 10 div 10"
    using assms by (simp add: div_mult2_eq [symmetric])
  have "10 * (y div 10) + y mod 10 = y" by simp
  moreover have "10 * (y div 10 div 10) + y div 10 mod 10 = y div 10" by simp
  moreover have "10 * (y div 10 div 10 div 10) + y div 10 div 10 mod 10 = y div 10 div 10" by simp
  ultimately show ?thesis unfolding q l by linarith
qed

lemma fromisoformat_isoformat: "valid_date x \<Longrightarrow> fromisoformat (isoformat x) = Inr x"
proof (cases x)
  case (fields y m d)
  assume v: "valid_date x"
  have y: "1000 * (y div 100 div 10 mod 10) + 100 * (y div 100 mod 10) + 10 * (y div 10 mod 10) + y mod 10 = y"
    using v fields by (intro four_digits) auto
  have m: "10 * (m div 10 mod 10) + m mod 10 = m" and d: "10 * (d div 10 mod 10) + d mod 10 = d"
    using v fields days_in_month_bounds [of y m] by auto
  show ?thesis using v y m d by (simp add: fields pad2_def Let_def)
qed

lemma isoformat_fromisoformat: "fromisoformat s = Inr x \<Longrightarrow> isoformat x = s \<and> valid_date x"
proof (induction s rule: fromisoformat.induct)
  case (1 a b c e h1 f g h2 i j)
  have dig: "list_all is_digit [a, b, c, e, f, g, i, j]" "h1 = CHR ''-''" "h2 = CHR ''-''"
    using "1" by (auto simp: Let_def split: if_splits)
  define y m d where "y = 1000 * char_digit a + 100 * char_digit b + 10 * char_digit c + char_digit e"
    and "m = 10 * char_digit f + char_digit g" and "d = 10 * char_digit i + char_digit j"
  have x: "x = (y, m, d)" and v: "valid_date x"
    using "1" by (auto simp: Let_def y_def m_def d_def split: if_splits)
  have b: "char_digit a < 10" "char_digit b < 10" "char_digit c < 10" "char_digit e < 10"
    "char_digit f < 10" "char_digit g < 10" "char_digit i < 10" "char_digit j < 10"
    using dig by (auto intro: digit_char_char_digit)
  have y': "y div 100 = 10 * char_digit a + char_digit b"
    using b by (simp add: y_def)
  have p2: "digit_char (10 * k + char_digit z) = z" if "is_digit z" for k z
    using digit_char_char_digit [OF that] by (simp add: digit_char_def)
  have eqs: "pad2 (y div 100) = [a, b]" "pad2 y = [c, e]" "pad2 m = [f, g]" "pad2 d = [i, j]"
  proof -
    show "pad2 (y div 100) = [a, b]" unfolding y' pad2_def
      using b dig p2 [of b "char_digit a"] digit_char_char_digit [of a] by simp
    have "y div 10 = 10 * (10 * char_digit a + char_digit b) + char_digit c" using b by (simp add: y_def)
    then have "digit_char (y div 10) = c" using dig by (simp only:) (rule p2, simp)
    moreover have "y = 10 * (100 * char_digit a + 10 * char_digit b + char_digit c) + char_digit e"
      by (simp add: y_def)
    then have "digit_char y = e" using dig by (simp only:) (rule p2, simp)
    ultimately show "pad2 y = [c, e]" by (simp add: pad2_def)
    show "pad2 m = [f, g]" and "pad2 d = [i, j]" unfolding pad2_def m_def d_def
      using b dig p2 digit_char_char_digit by simp_all
  qed
  then show ?case using dig v by (simp add: x)
qed auto

lemma isoformat_inj: "valid_date x \<Longrightarrow> valid_date y \<Longrightarrow> isoformat x = isoformat y \<longleftrightarrow> x = y"
  by (metis fromisoformat_isoformat sum.inject(2))

lemma length_isoformat [simp]: "length (isoformat x) = 10"
  by (cases x) (simp add: pad2_def)

text \<open>The text order the database compares by is the order of the dates.\<close>

lemma digit_char_less: "digit_char m < digit_char n \<longleftrightarrow> m mod 10 < n mod 10"
  by (simp add: less_char_def of_char_digit_char)

lemma digit_char_eq: "digit_char m = digit_char n \<longleftrightarrow> m mod 10 = n mod 10"
  by (metis char_digit_digit_char digit_char_def mod_mod_trivial)

lemma pad2_less:
  "m < 100 \<Longrightarrow> n < 100 \<Longrightarrow> pad2 m @ xs < pad2 n @ ys \<longleftrightarrow> m < n \<or> m = n \<and> xs < ys"
  using less_div_mod [of 10 m n] eq_div_mod [of m n 10]
  unfolding pad2_def by (simp add: digit_char_less digit_char_eq) blast

lemma pad2_mod: "pad2 (n mod 100) = pad2 n"
proof -
  have "n div 10 = (n mod 100 + 10 * (10 * (n div 100))) div 10" by simp
  also have "\<dots> = n mod 100 div 10 + 10 * (n div 100)" by (subst div_mult_self2) simp_all
  finally have "n mod 100 div 10 mod 10 = n div 10 mod 10" by simp
  moreover have "n mod 100 mod 10 = n mod 10" by (simp add: mod_mod_cancel)
  ultimately show ?thesis by (simp add: pad2_def digit_char_def)
qed

lemma isoformat_less:
  assumes "valid_date x" and "valid_date y"
  shows "isoformat x < isoformat y \<longleftrightarrow> x < y"
proof (cases x, cases y)
  fix a m d a' m' d' assume x: "x = (a, m, d)" and y: "y = (a', m', d')"
  have b: "a div 100 < 100" "a' div 100 < 100" "m < 100" "m' < 100" "d < 100" "d' < 100"
    using assms x y days_in_month_bounds [of a m] days_in_month_bounds [of a' m'] by auto
  have a: "pad2 (a div 100) @ pad2 a @ xs < pad2 (a' div 100) @ pad2 a' @ ys \<longleftrightarrow>
      a < a' \<or> a = a' \<and> xs < ys" for xs ys
  proof -
    have h: "pad2 (a div 100) @ pad2 a @ xs < pad2 (a' div 100) @ pad2 a' @ ys \<longleftrightarrow>
        a div 100 < a' div 100 \<or> a div 100 = a' div 100 \<and> pad2 a @ xs < pad2 a' @ ys"
      by (rule pad2_less [OF b(1,2)])
    have l: "pad2 a @ xs < pad2 a' @ ys \<longleftrightarrow> a mod 100 < a' mod 100 \<or> a mod 100 = a' mod 100 \<and> xs < ys"
      using pad2_less [of "a mod 100" "a' mod 100" xs ys] by (simp add: pad2_mod)
    show ?thesis unfolding h l less_div_mod [of 100 a a', simplified] eq_div_mod [of a a' 100] by argo
  qed
  show ?thesis
    using a [of "''-'' @ pad2 m @ ''-'' @ pad2 d" "''-'' @ pad2 m' @ ''-'' @ pad2 d'"]
      pad2_less [OF b(3,4)] pad2_less [OF b(5,6), of "[]" "[]"]
    by (auto simp: x y less_prod_def)
qed

section \<open>Instants and the clock\<close>

type_synonym instant = int

datatype stamp = Stamp instant | BadStamp string

text \<open>Parsing a timestamp column: the text of an instant, or \<open>ValueError\<close>.\<close>

fun parse_stamp :: "stamp \<Rightarrow> instant py" where
  "parse_stamp (Stamp t) = Inr t"
| "parse_stamp (BadStamp s) = Inl ValueError"

definition day_us :: int where
  "day_us = 86400000000"

record clock =
  utc_now :: instant
  today :: date \<comment> \<open>the day of the app's time zone at \<open>utc_now\<close>\<close>
  app_date :: "instant \<Rightarrow> date" \<comment> \<open>\<open>astimezone(APP_TZ).date()\<close>\<close>
  app_midnight :: "date \<Rightarrow> instant" \<comment> \<open>midnight of a day of the app's time zone\<close>
  utc_date :: "instant \<Rightarrow> date" \<comment> \<open>the UTC day of an instant\<close>
  utc_time :: "instant \<Rightarrow> string" \<comment> \<open>the text after the \<open>T\<close> of its ISO form\<close>
  sql_datetime_ok :: "string \<Rightarrow> bool" \<comment> \<open>SQLite's \<open>datetime(s) IS NOT NULL\<close>\<close>

definition today_iso :: "('a clock_scheme) \<Rightarrow> string" where
  "today_iso c = isoformat (today c)"

text \<open>The text a timestamp column holds, as the database compares it.\<close>

fun stamp_text :: "('a clock_scheme) \<Rightarrow> stamp \<Rightarrow> string" where
  "stamp_text c (Stamp t) = isoformat (utc_date c t) @ CHR ''T'' # utc_time c t"
| "stamp_text c (BadStamp s) = s"

lemma append_le_same_length:
  "length xs = length ys \<Longrightarrow> xs @ z # zs \<le> ys \<longleftrightarrow> xs < (ys :: string)"
  by (induction xs ys rule: list_induct2) auto

lemma stamp_text_le_date:
  "valid_date (utc_date c t) \<Longrightarrow> valid_date d \<Longrightarrow>
   stamp_text c (Stamp t) \<le> isoformat d \<longleftrightarrow> utc_date c t < d"
  by (simp add: append_le_same_length isoformat_less del: isoformat.simps)

end
