(* ===== verification/Json.thy ===== *)
theory Json imports Prelude begin

text \<open>
  JSON values as the program's Python code handles them: what \<open>json.loads\<close> returns, and the
  dynamically typed operations the code applies to it (\<open>.get\<close>, subscripts, truth value,
  \<open>int\<close>, arithmetic), each with the exception it raises on a value of the wrong type. The
  text of a JSON column is the value it denotes, or some text that is not JSON.
\<close>

datatype json =
    JNull
  | JBool bool
  | JInt int
  | JFloat real
  | JStr string
  | JArr "json list"
  | JObj "(string \<times> json) list"

datatype json_text = JsonText json | NotJson string

text \<open>\<open>json.loads\<close>; \<open>JSONDecodeError\<close> is a \<open>ValueError\<close>.\<close>

fun json_loads :: "json_text \<Rightarrow> json py" where
  "json_loads (JsonText j) = Inr j"
| "json_loads (NotJson _) = Inl ValueError"

fun truthy :: "json \<Rightarrow> bool" where
  "truthy JNull = False"
| "truthy (JBool b) = b"
| "truthy (JInt i) = (i \<noteq> 0)"
| "truthy (JFloat r) = (r \<noteq> 0)"
| "truthy (JStr s) = (s \<noteq> '''')"
| "truthy (JArr xs) = (xs \<noteq> [])"
| "truthy (JObj kvs) = (kvs \<noteq> [])"

text \<open>\<open>data.get(k)\<close>: only a dictionary has the method; a missing key gives \<open>None\<close>.\<close>

fun json_get :: "json \<Rightarrow> string \<Rightarrow> json py" where
  "json_get (JObj kvs) k = Inr (or_else (map_of kvs k) JNull)"
| "json_get _ k = Inl AttributeError"

text \<open>\<open>data[k]\<close> with a text key.\<close>

fun json_item :: "json \<Rightarrow> string \<Rightarrow> json py" where
  "json_item (JObj kvs) k = (case map_of kvs k of None \<Rightarrow> Inl KeyError | Some v \<Rightarrow> Inr v)"
| "json_item _ k = Inl TypeError"

text \<open>Iterating over a value: the keys of a dictionary, the characters of a text.\<close>

fun json_iter :: "json \<Rightarrow> json list py" where
  "json_iter (JArr xs) = Inr xs"
| "json_iter (JObj kvs) = Inr (map (JStr \<circ> fst) kvs)"
| "json_iter (JStr s) = Inr (map (\<lambda>ch. JStr [ch]) s)"
| "json_iter _ = Inl TypeError"

text \<open>\<open>int(x)\<close>: floats are cut towards zero, texts are parsed.\<close>

definition trunc_real :: "real \<Rightarrow> int" where
  "trunc_real r = (if r \<ge> 0 then \<lfloor>r\<rfloor> else \<lceil>r\<rceil>)"

fun json_int :: "json \<Rightarrow> int py" where
  "json_int (JInt i) = Inr i"
| "json_int (JBool b) = Inr (if b then 1 else 0)"
| "json_int (JFloat r) = Inr (trunc_real r)"
| "json_int (JStr s) = py_int_of s"
| "json_int _ = Inl TypeError"

text \<open>The numbers among the values: arithmetic on anything else raises \<open>TypeError\<close>.\<close>

fun json_num :: "json \<Rightarrow> real py" where
  "json_num (JInt i) = Inr (of_int i)"
| "json_num (JBool b) = Inr (if b then 1 else 0)"
| "json_num (JFloat r) = Inr r"
| "json_num _ = Inl TypeError"

text \<open>\<open>float(x)\<close>; the reading of a text is Python's and a parameter.\<close>

fun json_float :: "(string \<Rightarrow> real py) \<Rightarrow> json \<Rightarrow> real py" where
  "json_float read (JStr s) = read s"
| "json_float read j = json_num j"

text \<open>A value that may be missing.\<close>

definition json_opt :: "('a \<Rightarrow> json) \<Rightarrow> 'a option \<Rightarrow> json" where
  "json_opt f m = (case m of None \<Rightarrow> JNull | Some x \<Rightarrow> f x)"

lemma json_opt_simps [simp]: "json_opt f None = JNull" "json_opt f (Some x) = f x"
  by (simp_all add: json_opt_def)

text \<open>
  \<open>Cls(**obj)\<close>: the keys must be field names and cover the required ones. The result gives
  the value of every field, the defaults filled in.
\<close>

definition json_kwargs :: "string list \<Rightarrow> (string \<times> json) list \<Rightarrow> json \<Rightarrow> (string \<Rightarrow> json) py" where
  "json_kwargs required optional j =
     (case j of
        JObj kvs \<Rightarrow>
          (if fst ` set kvs \<subseteq> set required \<union> fst ` set optional \<and> set required \<subseteq> fst ` set kvs
           then Inr (\<lambda>k. case map_of kvs k of Some v \<Rightarrow> v | None \<Rightarrow> or_else (map_of optional k) JNull)
           else Inl TypeError)
      | _ \<Rightarrow> Inl TypeError)"

end
