(* ===== verification/Tables.thy ===== *)
theory Tables imports Calendar Json begin

text \<open>
  The database as one record: every table of \<open>services/db/schema.py\<close> that the modelled
  operations touch is a list of row records in insertion order (settings and plans, which
  are read by primary key only, are maps). A nullable column is an \<open>option\<close>. One
  \<open>transaction()\<close> is one function from the database to a result and a new database: it
  commits as a whole, and a raised exception leaves the database as it was. With the rows
  come \<open>services/db/settings.py\<close>, \<open>services/db/plans.py\<close> and \<open>config/plan_identity.py\<close>.
\<close>

section \<open>Rows\<close>

record user_row =
  u_id :: int
  u_username :: "string option"
  u_full_name :: "string option"
  u_target_lang :: "string option"
  u_goal :: "string option"
  u_level :: string
  u_plan :: "string option"
  u_streak :: "int option"
  u_last_active :: "string option"
  u_words_asked :: "int option"
  u_words_date :: "string option"
  u_tips_asked :: "int option"
  u_tips_date :: "string option"
  u_presentation :: "string option"
  u_first_exposure_mode :: "string option"
  u_review_mode :: "string option"
  u_onboarded :: int
  u_created_at :: stamp
  u_theme :: "string option"
  u_blocked :: "int option"

text \<open>
  The \<open>card_data\<close> column holds the text of a JSON object, or some other text. Of the object
  only its keys and the JSON texts of their values matter here.
\<close>

datatype card_text = CardObj "string \<Rightarrow> string option" | OtherText string

record word_row =
  w_id :: int
  w_user :: int
  w_word :: string
  w_lang :: string
  w_norm :: string
  w_card :: "card_text option"
  w_next_review :: "string option"
  w_status :: "string option"
  w_requested_at :: "stamp option"
  w_added_at :: "stamp option"
  w_fe_done :: "int option"
  w_stability :: "real option"
  w_difficulty :: "real option"
  w_source :: "string option"
  w_last_at :: "stamp option"
  w_next_at :: "stamp option"
  w_total :: int
  w_lapses :: int
  w_retry_at :: "stamp option"
  w_retry_attempts :: int

record event_row =
  e_id :: int
  e_word :: int
  e_user :: int
  e_grade :: "int option"
  e_activity :: string
  e_source :: string
  e_raw :: "string option"
  e_response_ms :: "int option"
  e_outcome :: string
  e_created :: stamp

record ledger_row =
  l_user :: int
  l_word :: int
  l_activity :: string
  l_graded_at :: stamp

record study_row =
  s_user :: int
  s_date :: string
  s_json :: json_text
  s_updated :: stamp

record report_row =
  rp_id :: int
  rp_user :: int
  rp_date :: string
  rp_created :: stamp
  rp_json :: json_text
  rp_admin :: int

record query_row =
  q_token :: string
  q_user :: int
  q_text :: string
  q_word :: string
  q_lang :: string
  q_json :: json_text
  q_created :: stamp
  q_expires :: stamp
  q_saved_at :: "stamp option"
  q_saved_word :: "int option"

record plan_row =
  p_price :: int
  p_query_quota :: int
  p_max_sessions :: int
  p_cards :: int
  p_active :: int
  p_sort :: int
  p_first_exposure_mode :: "string option"
  p_review_mode :: "string option"

record db =
  users :: "user_row list"
  words :: "word_row list"
  events :: "event_row list"
  ledger :: "ledger_row list"
  studies :: "study_row list"
  reports :: "report_row list"
  queries :: "query_row list"
  settings :: "string \<Rightarrow> string option"
  plans :: "string \<Rightarrow> plan_row option"
  next_word_id :: int \<comment> \<open>\<open>AUTOINCREMENT\<close>: never given out twice\<close>
  next_event_id :: int

text \<open>A fresh database: the tables are empty and the ids start at 1.\<close>

definition empty_db :: db where
  "empty_db = \<lparr>users = [], words = [], events = [], ledger = [], studies = [], reports = [],
     queries = [], settings = Map.empty, plans = Map.empty, next_word_id = 1, next_event_id = 1\<rparr>"

lemma empty_db_simps [simp]:
  "users empty_db = []" "words empty_db = []" "events empty_db = []" "ledger empty_db = []"
  "studies empty_db = []" "reports empty_db = []" "queries empty_db = []"
  "settings empty_db = Map.empty" "plans empty_db = Map.empty"
  "next_word_id empty_db = 1" "next_event_id empty_db = 1"
  by (simp_all add: empty_db_def)

section \<open>Settings\<close>

definition get_setting :: "db \<Rightarrow> string \<Rightarrow> string \<Rightarrow> string" where
  "get_setting s key dflt = (case settings s key of None \<Rightarrow> dflt | Some v \<Rightarrow> v)"

definition set_setting :: "db \<Rightarrow> string \<Rightarrow> string \<Rightarrow> db" where
  "set_setting s key val = s\<lparr>settings := (settings s)(key \<mapsto> val)\<rparr>"

text \<open>\<open>CAST(value AS INTEGER)\<close> of SQLite: the longest numeric prefix, 0 for other text.\<close>

definition sql_cast_int :: "string \<Rightarrow> int" where
  "sql_cast_int v =
     (case v of
        [] \<Rightarrow> 0
      | c # cs \<Rightarrow> if c = CHR ''-'' then - int (digits_val 0 (takeWhile is_digit cs))
                 else if c = CHR ''+'' then int (digits_val 0 (takeWhile is_digit cs))
                 else int (digits_val 0 (takeWhile is_digit v)))"

definition increment_setting_via_conn :: "db \<Rightarrow> string \<Rightarrow> int \<times> db" where
  "increment_setting_via_conn s key =
     (let new_val = (case settings s key of
                       None \<Rightarrow> ''1''
                     | Some v \<Rightarrow> int_str (sql_cast_int v + 1));
          s' = set_setting s key new_val;
          result = (if new_val \<noteq> '''' then
                      (case py_int_of new_val of Inr n \<Rightarrow> n | Inl _ \<Rightarrow> 1) else 1)
      in (result, s'))"

definition lower_char :: "char \<Rightarrow> char" where
  "lower_char c = (let n = (of_char c :: nat) in if 65 \<le> n \<and> n \<le> 90 then char_of (n + 32) else c)"

definition is_space :: "char \<Rightarrow> bool" where
  "is_space c \<longleftrightarrow> (of_char c :: nat) \<in> {9, 10, 11, 12, 13, 28, 29, 30, 31, 32}"

definition strip :: "string \<Rightarrow> string" where
  "strip s = rev (dropWhile is_space (rev (dropWhile is_space s)))"

definition get_bool_setting :: "db \<Rightarrow> string \<Rightarrow> bool \<Rightarrow> bool" where
  "get_bool_setting s key dflt =
     (map lower_char (strip (get_setting s key (if dflt then ''true'' else ''false'')))
        \<in> {''1'', ''true'', ''yes'', ''on''})"

definition set_bool_setting :: "db \<Rightarrow> string \<Rightarrow> bool \<Rightarrow> db" where
  "set_bool_setting s key val = set_setting s key (if val then ''true'' else ''false'')"

definition is_maintenance_mode :: "db \<Rightarrow> bool" where
  "is_maintenance_mode s = get_bool_setting s ''maintenance_mode'' False"

definition set_maintenance_mode :: "db \<Rightarrow> bool \<Rightarrow> db" where
  "set_maintenance_mode s active = set_bool_setting s ''maintenance_mode'' active"

section \<open>Plan identity\<close>

record plan_identity =
  pi_premium :: bool
  pi_rank :: int

definition PLANS :: "string \<Rightarrow> plan_identity option" where
  "PLANS = [''free'' \<mapsto> \<lparr>pi_premium = False, pi_rank = 0\<rparr>,
            ''bronze'' \<mapsto> \<lparr>pi_premium = True, pi_rank = 1\<rparr>,
            ''silver'' \<mapsto> \<lparr>pi_premium = True, pi_rank = 2\<rparr>,
            ''gold'' \<mapsto> \<lparr>pi_premium = True, pi_rank = 3\<rparr>,
            ''emerald'' \<mapsto> \<lparr>pi_premium = True, pi_rank = 4\<rparr>]"

definition FEATURE_MIN_RANK :: "string \<Rightarrow> int option" where
  "FEATURE_MIN_RANK = [''pronounce'' \<mapsto> 0, ''card_modes'' \<mapsto> 1, ''presentation'' \<mapsto> 1,
                       ''session_summary'' \<mapsto> 1]"

definition valid_plans :: "string set" where
  "valid_plans = dom PLANS"

definition is_premium :: "string \<Rightarrow> bool" where
  "is_premium plan = (case PLANS plan of None \<Rightarrow> False | Some entry \<Rightarrow> pi_premium entry)"

definition has_feature :: "string \<Rightarrow> string \<Rightarrow> bool" where
  "has_feature plan feature =
     (case PLANS plan of
        None \<Rightarrow> False
      | Some entry \<Rightarrow>
          (case FEATURE_MIN_RANK feature of
             None \<Rightarrow> False
           | Some min_rank \<Rightarrow> min_rank \<le> pi_rank entry))"

lemma valid_plans_eq: "valid_plans = {''free'', ''bronze'', ''silver'', ''gold'', ''emerald''}"
  by (auto simp: valid_plans_def PLANS_def)

section \<open>Plans table\<close>

definition PLAN_LIMITS :: "string \<Rightarrow> plan_row option" where
  "PLAN_LIMITS =
     (let mk = (\<lambda>price query sessions cards sort.
            \<lparr>p_price = price, p_query_quota = query, p_max_sessions = sessions, p_cards = cards,
             p_active = 1, p_sort = sort, p_first_exposure_mode = None, p_review_mode = None\<rparr>)
      in [''free'' \<mapsto> mk 0 2 2 3 0, ''bronze'' \<mapsto> mk 0 4 3 3 1, ''silver'' \<mapsto> mk 0 7 3 5 2,
          ''gold'' \<mapsto> mk 0 12 4 7 3, ''emerald'' \<mapsto> mk 0 20 5 9 4])"

definition get_plan :: "db \<Rightarrow> string \<Rightarrow> plan_row option" where
  "get_plan s name = plans s name"

definition valid_plan_name :: "db \<Rightarrow> string \<Rightarrow> bool" where
  "valid_plan_name s name = (get_plan s name \<noteq> None)"

definition upsert_plan :: "db \<Rightarrow> string \<Rightarrow> int \<Rightarrow> int \<Rightarrow> int \<Rightarrow> int \<Rightarrow> int \<Rightarrow> int \<Rightarrow> db py" where
  "upsert_plan s name price query_quota max_sessions cards sort_order is_active =
     (if name \<notin> valid_plans then Inl ValueError
      else let fields = (\<lambda>r. r\<lparr>p_price := price, p_query_quota := query_quota,
                  p_max_sessions := max_sessions, p_cards := cards, p_active := is_active,
                  p_sort := sort_order\<rparr>);
               old = or_else (plans s name)
                 \<lparr>p_price = 0, p_query_quota = 0, p_max_sessions = 1, p_cards = 1, p_active = 1,
                  p_sort = 0, p_first_exposure_mode = None, p_review_mode = None\<rparr>
           in Inr (s\<lparr>plans := (plans s)(name \<mapsto> fields old)\<rparr>))"

definition set_plan_active :: "db \<Rightarrow> string \<Rightarrow> bool \<Rightarrow> bool \<times> db" where
  "set_plan_active s name active =
     (case plans s name of
        None \<Rightarrow> (False, s)
      | Some r \<Rightarrow> (True, s\<lparr>plans := (plans s)(name \<mapsto> r\<lparr>p_active := (if active then 1 else 0)\<rparr>)\<rparr>))"

text \<open>The fall-back row of the free plan has no card-mode columns and is always active.\<close>

definition plan_spec :: "db \<Rightarrow> string \<Rightarrow> plan_row" where
  "plan_spec s plan =
     (case get_plan s plan of
        Some spec \<Rightarrow> if p_active spec \<noteq> 0 then spec else the (PLAN_LIMITS ''free'')
      | None \<Rightarrow> the (PLAN_LIMITS ''free''))"

definition effective_plan :: "string \<Rightarrow> bool \<Rightarrow> string" where
  "effective_plan plan bypass =
     (if bypass then ''gold'' else if plan \<in> valid_plans then plan else ''free'')"

text \<open>\<open>int(spec.get(k) or d)\<close>: a stored 0 counts as missing.\<close>

definition int_or :: "int \<Rightarrow> int \<Rightarrow> int" where
  "int_or v d = (if v = 0 then d else v)"

definition max_sessions_for_plan :: "db \<Rightarrow> string \<Rightarrow> int" where
  "max_sessions_for_plan s plan = int_or (p_max_sessions (plan_spec s plan)) 1"

definition cards_per_session_for_plan :: "db \<Rightarrow> string \<Rightarrow> int" where
  "cards_per_session_for_plan s plan = int_or (p_cards (plan_spec s plan)) 1"

definition daily_card_count_for_plan :: "db \<Rightarrow> string \<Rightarrow> int" where
  "daily_card_count_for_plan s plan = max_sessions_for_plan s plan * cards_per_session_for_plan s plan"

definition daily_word_query_limit_for_plan :: "db \<Rightarrow> string \<Rightarrow> int" where
  "daily_word_query_limit_for_plan s plan = int_or (p_query_quota (plan_spec s plan)) 0"

section \<open>A key-value interface\<close>

text \<open>
  What the clients of the settings table rely on: a written key reads back as written and
  no other key changes.
\<close>

locale kv_store =
  fixes kv_get :: "'s \<Rightarrow> 'k \<Rightarrow> 'v option"
    and kv_put :: "'s \<Rightarrow> 'k \<Rightarrow> 'v \<Rightarrow> 's"
  assumes get_put: "kv_get (kv_put s k v) k' = (if k' = k then Some v else kv_get s k')"
begin

lemma kv_get_put_same [simp]: "kv_get (kv_put s k v) k = Some v"
  by (simp add: get_put)

lemma kv_get_put_other: "k' \<noteq> k \<Longrightarrow> kv_get (kv_put s k v) k' = kv_get s k'"
  by (simp add: get_put)

lemma kv_put_put: "kv_get (kv_put (kv_put s k v) k v') = kv_get (kv_put s k v')"
  by (rule ext) (simp add: get_put)

lemma kv_put_commute:
  "k \<noteq> k' \<Longrightarrow> kv_get (kv_put (kv_put s k v) k' v') = kv_get (kv_put (kv_put s k' v') k v)"
  by (rule ext) (simp add: get_put)

end

interpretation settings_kv: kv_store "\<lambda>s k. settings s k" set_setting
  by unfold_locales (simp add: set_setting_def)

lemma get_setting_kv: "get_setting s key d = or_else (settings s key) d"
  by (simp add: get_setting_def or_else_def)

lemma set_setting_frame [simp]:
  "users (set_setting s k v) = users s" "words (set_setting s k v) = words s"
  "events (set_setting s k v) = events s" "ledger (set_setting s k v) = ledger s"
  "studies (set_setting s k v) = studies s" "reports (set_setting s k v) = reports s"
  "queries (set_setting s k v) = queries s" "plans (set_setting s k v) = plans s"
  by (simp_all add: set_setting_def)

lemma takeWhile_nat_str [simp]: "takeWhile is_digit (nat_str n) = nat_str n"
  using nat_str_digits [of n] by (simp add: list_all_iff)

lemma sql_cast_nat_str: "sql_cast_int (nat_str n) = int n"
proof (cases "nat_str n")
  case Nil
  then show ?thesis by simp
next
  case (Cons c cs)
  have "c \<noteq> CHR ''-''" and "c \<noteq> CHR ''+''"
    using nat_str_no_char [of c n] Cons by (auto simp: is_digit_def)
  then show ?thesis
    using Cons takeWhile_nat_str [of n] digits_val_nat_str [of n] by (simp add: sql_cast_int_def)
qed

lemma sql_cast_int_str [simp]: "sql_cast_int (int_str i) = i"
  using sql_cast_nat_str
  by (simp add: int_str_def sql_cast_int_def [of "CHR ''-'' # _"] digits_val_nat_str)

end
