(* ===== verification/Users.thy ===== *)
theory Users imports Tables begin

text \<open>
  \<open>services/db/users.py\<close> with \<open>services/streak/__init__.py\<close> and the daily counters of
  \<open>services/db/schema.py\<close>: user rows, card modes, the streak, the two per-user daily
  quotas, the statistics and the progress reset.
\<close>

section \<open>Environment\<close>

record env = clock +
  owner_id :: int
  owner_bypass_limits :: bool

definition is_owner :: "('a env_scheme) \<Rightarrow> int \<Rightarrow> bool" where
  "is_owner c uid = (owner_id c \<noteq> 0 \<and> uid = owner_id c)"

definition user_plan :: "('a env_scheme) \<Rightarrow> user_row \<Rightarrow> string" where
  "user_plan c row = effective_plan (case u_plan row of None \<Rightarrow> ''free''
                                       | Some p \<Rightarrow> if p = '''' then ''free'' else p)
                       (owner_bypass_limits c \<and> is_owner c (u_id row))"

definition get_user :: "db \<Rightarrow> int \<Rightarrow> user_row option" where
  "get_user s uid = find (\<lambda>r. u_id r = uid) (users s)"

definition update_user :: "db \<Rightarrow> int \<Rightarrow> (user_row \<Rightarrow> user_row) \<Rightarrow> db" where
  "update_user s uid f = s\<lparr>users := update_where (\<lambda>r. u_id r = uid) f (users s)\<rparr>"

section \<open>Card modes\<close>

definition CARD_TYPES :: "string set" where
  "CARD_TYPES = {''first_exposure'', ''review''}"

definition CARD_MODES :: "string set" where
  "CARD_MODES = {''staged'', ''immediate''}"

definition CARD_MODE_GATES :: "string set" where
  "CARD_MODE_GATES = {''all'', ''premium''}"

definition validate_card_type :: "string \<Rightarrow> unit py" where
  "validate_card_type t = (if t \<in> CARD_TYPES then Inr () else Inl ValueError)"

definition validate_card_mode :: "string \<Rightarrow> unit py" where
  "validate_card_mode m = (if m \<in> CARD_MODES then Inr () else Inl ValueError)"

definition validate_card_mode_gate :: "string \<Rightarrow> unit py" where
  "validate_card_mode_gate g = (if g \<in> CARD_MODE_GATES then Inr () else Inl ValueError)"

definition sanitize_mode :: "string option \<Rightarrow> string option" where
  "sanitize_mode v = (case v of Some m \<Rightarrow> if m \<in> CARD_MODES then Some m else None | None \<Rightarrow> None)"

text \<open>The columns \<open>{card_type}_mode\<close> of a users row and of a plans row.\<close>

definition user_mode_col :: "string \<Rightarrow> user_row \<Rightarrow> string option" where
  "user_mode_col t r = (if t = ''first_exposure'' then u_first_exposure_mode r else u_review_mode r)"

definition plan_mode_col :: "string \<Rightarrow> plan_row \<Rightarrow> string option" where
  "plan_mode_col t r = (if t = ''first_exposure'' then p_first_exposure_mode r else p_review_mode r)"

definition plan_or_free :: "string option \<Rightarrow> string" where
  "plan_or_free p = (case p of None \<Rightarrow> ''free'' | Some v \<Rightarrow> if v = '''' then ''free'' else v)"

definition resolve_card_mode :: "db \<Rightarrow> int \<Rightarrow> string \<Rightarrow> user_row option \<Rightarrow> string py" where
  "resolve_card_mode s uid card_type row0 =
     py_bind (validate_card_type card_type) (\<lambda>_.
       let row = (case row0 of None \<Rightarrow> get_user s uid | Some r \<Rightarrow> Some r);
           global = or_else (sanitize_mode (Some (get_setting s (card_type @ ''_mode'') ''''))) ''staged''
       in Inr (case row of
                 None \<Rightarrow> global
               | Some r \<Rightarrow>
                   (case sanitize_mode (user_mode_col card_type r) of
                      Some m \<Rightarrow> m
                    | None \<Rightarrow>
                        (case get_plan s (plan_or_free (u_plan r)) of
                           None \<Rightarrow> global
                         | Some p \<Rightarrow>
                             (case sanitize_mode (plan_mode_col card_type p) of
                                Some m \<Rightarrow> m | None \<Rightarrow> global)))))"

definition resolve_card_mode_gate :: "db \<Rightarrow> string \<Rightarrow> string py" where
  "resolve_card_mode_gate s card_type =
     py_bind (validate_card_type card_type) (\<lambda>_.
       let gate = get_setting s (card_type @ ''_mode_gate'') ''''
       in Inr (if gate \<in> CARD_MODE_GATES then gate else ''premium''))"

definition card_mode_available ::
    "('a env_scheme) \<Rightarrow> db \<Rightarrow> int \<Rightarrow> string \<Rightarrow> user_row option \<Rightarrow> bool py" where
  "card_mode_available c s uid card_type row0 =
     py_bind (resolve_card_mode_gate s card_type) (\<lambda>gate.
       if gate = ''all'' then Inr True
       else (case (case row0 of None \<Rightarrow> get_user s uid | Some r \<Rightarrow> Some r) of
               None \<Rightarrow> Inr False
             | Some r \<Rightarrow> Inr (has_feature (user_plan c r) ''card_modes'')))"

definition set_user_card_mode :: "db \<Rightarrow> int \<Rightarrow> string \<Rightarrow> string \<Rightarrow> db py" where
  "set_user_card_mode s uid card_type mode =
     py_bind (validate_card_type card_type) (\<lambda>_.
     py_bind (validate_card_mode mode) (\<lambda>_.
       Inr (update_user s uid (\<lambda>r. if card_type = ''first_exposure''
              then r\<lparr>u_first_exposure_mode := Some mode\<rparr>
              else r\<lparr>u_review_mode := Some mode\<rparr>))))"

definition set_plan_card_mode :: "db \<Rightarrow> string \<Rightarrow> string \<Rightarrow> string \<Rightarrow> db py" where
  "set_plan_card_mode s plan_name card_type mode =
     py_bind (validate_card_type card_type) (\<lambda>_.
     py_bind (validate_card_mode mode) (\<lambda>_.
       if \<not> valid_plan_name s plan_name then Inl ValueError
       else Inr (case plans s plan_name of
                   None \<Rightarrow> s
                 | Some p \<Rightarrow> s\<lparr>plans := (plans s)(plan_name \<mapsto>
                     (if card_type = ''first_exposure'' then p\<lparr>p_first_exposure_mode := Some mode\<rparr>
                      else p\<lparr>p_review_mode := Some mode\<rparr>))\<rparr>)))"

definition set_global_card_mode :: "db \<Rightarrow> string \<Rightarrow> string \<Rightarrow> db py" where
  "set_global_card_mode s card_type mode =
     py_bind (validate_card_type card_type) (\<lambda>_.
     py_bind (validate_card_mode mode) (\<lambda>_. Inr (set_setting s (card_type @ ''_mode'') mode)))"

definition set_card_mode_gate :: "db \<Rightarrow> string \<Rightarrow> string \<Rightarrow> db py" where
  "set_card_mode_gate s card_type gate =
     py_bind (validate_card_type card_type) (\<lambda>_.
     py_bind (validate_card_mode_gate gate) (\<lambda>_. Inr (set_setting s (card_type @ ''_mode_gate'') gate)))"

section \<open>User rows\<close>

definition new_user_row :: "('a clock_scheme) \<Rightarrow> int \<Rightarrow> string option \<Rightarrow> string option \<Rightarrow> user_row" where
  "new_user_row c uid username full_name =
     \<lparr>u_id = uid, u_username = username, u_full_name = full_name, u_target_lang = None, u_goal = None,
      u_level = ''beginner'', u_plan = Some ''free'', u_streak = Some 0, u_last_active = None,
      u_words_asked = Some 0, u_words_date = None, u_tips_asked = Some 0, u_tips_date = None,
      u_presentation = None, u_first_exposure_mode = None, u_review_mode = None, u_onboarded = 0,
      u_created_at = Stamp (utc_now c), u_theme = Some ''fire_temple'', u_blocked = Some 0\<rparr>"

text \<open>\<open>x or None\<close> and \<open>COALESCE(NULLIF(x, ''), old)\<close>.\<close>

definition none_if_empty :: "string option \<Rightarrow> string option" where
  "none_if_empty x = (if x = Some '''' then None else x)"

definition keep_if_empty :: "string option \<Rightarrow> string option \<Rightarrow> string option" where
  "keep_if_empty x old = (case none_if_empty x of None \<Rightarrow> old | Some v \<Rightarrow> Some v)"

text \<open>The arguments are \<open>None\<close> where the Python value is not a string.\<close>

definition create_user_if_needed ::
    "('a clock_scheme) \<Rightarrow> db \<Rightarrow> int \<Rightarrow> string option \<Rightarrow> string option \<Rightarrow> db" where
  "create_user_if_needed c s uid username0 full_name =
     (let username = or_else username0 '''';
          s1 = (if get_user s uid = None
                then s\<lparr>users := users s @ [new_user_row c uid (none_if_empty (Some username))
                                             (none_if_empty full_name)]\<rparr>
                else s)
      in if username \<noteq> '''' \<or> none_if_empty full_name \<noteq> None
         then update_user s1 uid (\<lambda>r. r\<lparr>u_username := keep_if_empty (Some username) (u_username r),
                                         u_full_name := keep_if_empty full_name (u_full_name r)\<rparr>)
         else s1)"

definition update_user_full_name :: "db \<Rightarrow> int \<Rightarrow> string option \<Rightarrow> db" where
  "update_user_full_name s uid full_name = update_user s uid (\<lambda>r. r\<lparr>u_full_name := full_name\<rparr>)"

definition set_user_lang_goal :: "db \<Rightarrow> int \<Rightarrow> string \<Rightarrow> string \<Rightarrow> db" where
  "set_user_lang_goal s uid lang goal =
     update_user s uid (\<lambda>r. r\<lparr>u_target_lang := Some lang, u_goal := Some goal\<rparr>)"

definition set_user_level :: "db \<Rightarrow> int \<Rightarrow> string \<Rightarrow> db" where
  "set_user_level s uid level = update_user s uid (\<lambda>r. r\<lparr>u_level := level, u_onboarded := 1\<rparr>)"

definition set_presentation_preference :: "db \<Rightarrow> int \<Rightarrow> string \<Rightarrow> db py" where
  "set_presentation_preference s uid preference =
     (if preference \<notin> {''brief'', ''detailed''} then Inl ValueError
      else Inr (update_user s uid (\<lambda>r. r\<lparr>u_presentation := Some preference\<rparr>)))"

definition set_user_lang :: "db \<Rightarrow> int \<Rightarrow> string \<Rightarrow> db" where
  "set_user_lang s uid lang = update_user s uid (\<lambda>r. r\<lparr>u_target_lang := Some lang\<rparr>)"

definition set_user_goal :: "db \<Rightarrow> int \<Rightarrow> string \<Rightarrow> db" where
  "set_user_goal s uid goal = update_user s uid (\<lambda>r. r\<lparr>u_goal := Some goal\<rparr>)"

definition set_plan :: "db \<Rightarrow> int \<Rightarrow> string \<Rightarrow> db py" where
  "set_plan s uid plan =
     (if \<not> valid_plan_name s plan then Inl ValueError
      else Inr (update_user s uid (\<lambda>r. r\<lparr>u_plan := Some plan\<rparr>)))"

definition set_user_blocked :: "db \<Rightarrow> int \<Rightarrow> db" where
  "set_user_blocked s uid = update_user s uid (\<lambda>r. r\<lparr>u_blocked := Some 1\<rparr>)"

definition reset_user_blocked :: "db \<Rightarrow> int \<Rightarrow> db" where
  "reset_user_blocked s uid = update_user s uid (\<lambda>r. r\<lparr>u_blocked := Some 0\<rparr>)"

definition THEMES :: "string set" where
  "THEMES = {''fire_temple'', ''star''}"

definition get_user_theme :: "db \<Rightarrow> int \<Rightarrow> user_row option \<Rightarrow> string" where
  "get_user_theme s uid row0 =
     (case (case row0 of None \<Rightarrow> get_user s uid | Some r \<Rightarrow> Some r) of
        None \<Rightarrow> ''fire_temple''
      | Some r \<Rightarrow> (case u_theme r of Some t \<Rightarrow> if t \<in> THEMES then t else ''fire_temple''
                                 | None \<Rightarrow> ''fire_temple''))"

definition set_user_theme :: "db \<Rightarrow> int \<Rightarrow> string \<Rightarrow> db py" where
  "set_user_theme s uid theme_id =
     (if theme_id \<notin> THEMES then Inl ValueError
      else Inr (update_user s uid (\<lambda>r. r\<lparr>u_theme := Some theme_id\<rparr>)))"

definition presentation_for_user :: "string \<Rightarrow> string \<Rightarrow> string option \<Rightarrow> string" where
  "presentation_for_user default_presentation plan preference =
     (if \<not> has_feature plan ''presentation'' then default_presentation
      else case preference of
             Some p \<Rightarrow> if p \<in> {''brief'', ''detailed''} then p else default_presentation
           | None \<Rightarrow> default_presentation)"

section \<open>Streak\<close>

definition next_streak :: "int \<Rightarrow> string option \<Rightarrow> string \<Rightarrow> int py" where
  "next_streak streak last_active_date today_text =
     (if last_active_date = Some today_text then Inr streak
      else py_bind (fromisoformat today_text) (\<lambda>d.
           py_bind (day_before d) (\<lambda>y.
             Inr (if last_active_date = Some (isoformat y) then streak + 1 else 1))))"

definition touch_streak_in_txn ::
    "('a clock_scheme) \<Rightarrow> db \<Rightarrow> int \<Rightarrow> string option \<Rightarrow> (int \<times> db) py" where
  "touch_streak_in_txn c s uid today_opt =
     (let day = (case none_if_empty today_opt of None \<Rightarrow> today_iso c | Some d \<Rightarrow> d) in
      case get_user s uid of
        None \<Rightarrow> Inr (0, s)
      | Some row \<Rightarrow>
          py_bind (next_streak (or_else (u_streak row) 0) (u_last_active row) day) (\<lambda>new_streak.
            Inr (new_streak,
                 update_user s uid (\<lambda>r. r\<lparr>u_streak := Some new_streak, u_last_active := Some day\<rparr>))))"

definition touch_streak :: "('a clock_scheme) \<Rightarrow> db \<Rightarrow> int \<Rightarrow> (int \<times> db) py" where
  "touch_streak c s uid = touch_streak_in_txn c s uid None"

section \<open>Daily counters\<close>

definition current_daily_count :: "('a clock_scheme) \<Rightarrow> int option \<Rightarrow> string option \<Rightarrow> int" where
  "current_daily_count c asked_value asked_date =
     (if asked_date \<noteq> Some (today_iso c) then 0 else or_else asked_value 0)"

definition can_consume_daily_count ::
    "('a clock_scheme) \<Rightarrow> int option \<Rightarrow> string option \<Rightarrow> int \<Rightarrow> bool \<Rightarrow> bool" where
  "can_consume_daily_count c asked_value asked_date daily_limit bypass =
     (if bypass \<or> daily_limit < 0 then True
      else current_daily_count c asked_value asked_date < daily_limit)"

definition can_ask_word :: "('a clock_scheme) \<Rightarrow> db \<Rightarrow> int \<Rightarrow> int \<Rightarrow> bool \<Rightarrow> bool" where
  "can_ask_word c s uid daily_limit bypass =
     (case get_user s uid of
        None \<Rightarrow> False
      | Some row \<Rightarrow> can_consume_daily_count c (u_words_asked row) (u_words_date row) daily_limit bypass)"

definition reserve_word_query ::
    "('a clock_scheme) \<Rightarrow> int \<Rightarrow> int \<Rightarrow> bool \<Rightarrow> db \<Rightarrow> bool \<times> db" where
  "reserve_word_query c uid daily_limit bypass s =
     (case get_user s uid of
        None \<Rightarrow> (False, s)
      | Some row \<Rightarrow>
          (let asked = current_daily_count c (u_words_asked row) (u_words_date row) in
           if \<not> bypass \<and> daily_limit \<ge> 0 \<and> asked \<ge> daily_limit then (False, s)
           else (True, update_user s uid (\<lambda>r. r\<lparr>u_words_asked := Some (asked + 1),
                                                u_words_date := Some (today_iso c)\<rparr>))))"

definition release_word_query :: "('a clock_scheme) \<Rightarrow> int \<Rightarrow> db \<Rightarrow> db" where
  "release_word_query c uid s =
     s\<lparr>users := update_where
        (\<lambda>r. u_id r = uid \<and> u_words_date r = Some (today_iso c) \<and> or_else (u_words_asked r) 0 > 0)
        (\<lambda>r. r\<lparr>u_words_asked := map_option (\<lambda>n. max (n - 1) 0) (u_words_asked r)\<rparr>) (users s)\<rparr>"

definition can_ask_grammar_tip :: "('a clock_scheme) \<Rightarrow> db \<Rightarrow> int \<Rightarrow> int \<Rightarrow> bool \<Rightarrow> bool" where
  "can_ask_grammar_tip c s uid daily_limit bypass =
     (case get_user s uid of
        None \<Rightarrow> False
      | Some row \<Rightarrow> can_consume_daily_count c (u_tips_asked row) (u_tips_date row) daily_limit bypass)"

definition reserve_grammar_tip ::
    "('a clock_scheme) \<Rightarrow> int \<Rightarrow> int \<Rightarrow> bool \<Rightarrow> db \<Rightarrow> bool \<times> db" where
  "reserve_grammar_tip c uid daily_limit bypass s =
     (case get_user s uid of
        None \<Rightarrow> (False, s)
      | Some row \<Rightarrow>
          (let asked = current_daily_count c (u_tips_asked row) (u_tips_date row) in
           if \<not> bypass \<and> daily_limit \<ge> 0 \<and> asked \<ge> daily_limit then (False, s)
           else (True, update_user s uid (\<lambda>r. r\<lparr>u_tips_asked := Some (asked + 1),
                                                u_tips_date := Some (today_iso c)\<rparr>))))"

definition release_grammar_tip :: "('a clock_scheme) \<Rightarrow> int \<Rightarrow> db \<Rightarrow> db" where
  "release_grammar_tip c uid s =
     s\<lparr>users := update_where
        (\<lambda>r. u_id r = uid \<and> u_tips_date r = Some (today_iso c) \<and> or_else (u_tips_asked r) 0 > 0)
        (\<lambda>r. r\<lparr>u_tips_asked := map_option (\<lambda>n. max (n - 1) 0) (u_tips_asked r)\<rparr>) (users s)\<rparr>"

record quota_status =
  wq_used :: int
  wq_limit :: int
  gt_used :: int
  gt_limit :: int

definition get_quota_status :: "('a clock_scheme) \<Rightarrow> db \<Rightarrow> int \<Rightarrow> quota_status option" where
  "get_quota_status c s uid =
     (case get_user s uid of
        None \<Rightarrow> None
      | Some row \<Rightarrow>
          (let limit = daily_word_query_limit_for_plan s (plan_or_free (u_plan row));
               wq = (if u_words_date row \<noteq> Some (today_iso c) then 0 else or_else (u_words_asked row) 0);
               gt = (if u_tips_date row \<noteq> Some (today_iso c) then 0 else or_else (u_tips_asked row) 0)
           in Some \<lparr>wq_used = wq, wq_limit = limit, gt_used = gt, gt_limit = limit\<rparr>))"

section \<open>Counts and statistics\<close>

definition all_active_users :: "db \<Rightarrow> user_row list" where
  "all_active_users s =
     filter (\<lambda>r. u_onboarded r = 1 \<and> (u_blocked r = None \<or> u_blocked r = Some 0)) (users s)"

definition count_users :: "db \<Rightarrow> nat" where
  "count_users s = length (users s)"

record users_overview =
  uo_total :: nat
  uo_onboarded :: "nat option" \<comment> \<open>\<open>SUM\<close> over no rows is NULL\<close>
  uo_blocked :: "nat option"

definition count_users_overview :: "db \<Rightarrow> users_overview" where
  "count_users_overview s =
     \<lparr>uo_total = length (users s),
      uo_onboarded = (if users s = [] then None else Some (count_where (\<lambda>r. u_onboarded r = 1) (users s))),
      uo_blocked = (if users s = [] then None else Some (count_where (\<lambda>r. u_blocked r = Some 1) (users s)))\<rparr>"

definition count_saved_words_total :: "db \<Rightarrow> nat" where
  "count_saved_words_total s = length (words s)"

definition count_review_events_total :: "db \<Rightarrow> int" where
  "count_review_events_total s =
     (if words s = [] then int (length (events s)) else sum_list (map w_total (words s)))"

definition count_study_sessions_total :: "db \<Rightarrow> nat" where
  "count_study_sessions_total s = length (studies s)"

definition count_first_exposure_completion :: "db \<Rightarrow> nat \<times> nat" where
  "count_first_exposure_completion s =
     (count_where (\<lambda>r. w_fe_done r = Some 1) (words s), length (words s))"

record learning_stats =
  ls_saved_words :: int
  ls_review_events :: int
  ls_study_sessions :: int
  ls_total :: int
  ls_learned :: int
  ls_not_exposed :: int
  ls_due :: int

definition stats_due :: "('a clock_scheme) \<Rightarrow> word_row \<Rightarrow> bool" where
  "stats_due c r = (case w_next_at r of None \<Rightarrow> False | Some st \<Rightarrow> stamp_text c st \<le> today_iso c)"

definition get_user_learning_stats :: "('a clock_scheme) \<Rightarrow> db \<Rightarrow> int \<Rightarrow> learning_stats" where
  "get_user_learning_stats c s uid =
     (let mine = filter (\<lambda>r. w_user r = uid) (words s);
          saved_words = int (length mine);
          review_events = sum_list (map w_total mine);
          session_reports = int (count_where (\<lambda>r. rp_user r = uid) (reports s));
          learned = int (count_where (\<lambda>r. w_fe_done r = Some 1) mine);
          due = int (count_where (stats_due c) mine)
      in \<lparr>ls_saved_words = saved_words, ls_review_events = review_events,
          ls_study_sessions = session_reports, ls_total = saved_words, ls_learned = learned,
          ls_not_exposed = max 0 (saved_words - learned), ls_due = due\<rparr>)"

text \<open>Top users: stable order by streak descending, then user id; NULL streaks sort last.\<close>

definition clamp_limit :: "int \<Rightarrow> int" where
  "clamp_limit l = (if l \<le> 0 then 20 else if l > 100 then 100 else l)"

definition get_top_users_by_streak :: "db \<Rightarrow> int \<Rightarrow> user_row list" where
  "get_top_users_by_streak s limit =
     take (nat (clamp_limit limit))
       (sort_key (\<lambda>r. (case u_streak r of None \<Rightarrow> (1::int, 0) | Some n \<Rightarrow> (0, - n), u_id r)) (users s))"

definition reset_user_progress :: "db \<Rightarrow> int \<Rightarrow> db" where
  "reset_user_progress s uid =
     s\<lparr>words := delete_where (\<lambda>r. w_user r = uid) (words s),
       events := delete_where (\<lambda>r. e_user r = uid) (events s),
       studies := delete_where (\<lambda>r. s_user r = uid) (studies s),
       reports := delete_where (\<lambda>r. rp_user r = uid) (reports s),
       users := update_where (\<lambda>r. u_id r = uid) (\<lambda>r. r\<lparr>u_streak := Some 0\<rparr>) (users s)\<rparr>"

text \<open>The spreadsheet guard of one exported cell.\<close>

definition csv_guard :: "string \<Rightarrow> string" where
  "csv_guard v = (case v of [] \<Rightarrow> v
     | ch # _ \<Rightarrow> if ch \<in> {CHR ''='', CHR ''+'', CHR ''-'', CHR 0x40} then CHR 0x27 # v else v)"

section \<open>Lemmas\<close>

lemma update_user_frame [simp]:
  "words (update_user s uid f) = words s" "events (update_user s uid f) = events s"
  "ledger (update_user s uid f) = ledger s" "studies (update_user s uid f) = studies s"
  "reports (update_user s uid f) = reports s" "queries (update_user s uid f) = queries s"
  "settings (update_user s uid f) = settings s" "plans (update_user s uid f) = plans s"
  "next_word_id (update_user s uid f) = next_word_id s"
  "next_event_id (update_user s uid f) = next_event_id s"
  by (simp_all add: update_user_def)

lemma get_user_update_same:
  "(\<And>r. u_id (f r) = u_id r) \<Longrightarrow> get_user (update_user s uid f) uid = map_option f (get_user s uid)"
  unfolding get_user_def update_user_def by (simp add: find_update_where_map)

lemma get_user_update_other:
  "(\<And>r. u_id (f r) = u_id r) \<Longrightarrow> uid' \<noteq> uid \<Longrightarrow> get_user (update_user s uid f) uid' = get_user s uid'"
  unfolding get_user_def update_user_def by (simp, rule find_update_where_other) auto

text \<open>The three cases of the streak, with the calendar made explicit.\<close>

lemma next_streak_same_day: "next_streak n (Some t) t = Inr n"
  by (simp add: next_streak_def)

lemma isoformat_no_self_before:
  "valid_date d \<Longrightarrow> day_before d = Inr y \<Longrightarrow> isoformat y \<noteq> isoformat d"
  using day_before_less day_before_valid isoformat_inj by (metis less_irrefl)

lemma next_streak_yesterday:
  assumes "valid_date d" and "day_before d = Inr y"
  shows "next_streak n (Some (isoformat y)) (isoformat d) = Inr (n + 1)"
  using assms isoformat_no_self_before [OF assms]
  by (simp add: next_streak_def fromisoformat_isoformat del: isoformat.simps)

lemma next_streak_gap:
  assumes "valid_date d" and "day_before d = Inr y"
    and "la \<noteq> Some (isoformat d)" and "la \<noteq> Some (isoformat y)"
  shows "next_streak n la (isoformat d) = Inr 1"
  using assms by (simp add: next_streak_def fromisoformat_isoformat del: isoformat.simps)

lemma touch_streak_eq:
  assumes "get_user s uid = Some r" and "next_streak (or_else (u_streak r) 0) (u_last_active r) (today_iso c) = Inr n"
  shows "touch_streak c s uid = Inr (n, update_user s uid
    (\<lambda>r. r\<lparr>u_streak := Some n, u_last_active := Some (today_iso c)\<rparr>))"
  using assms by (simp add: touch_streak_def touch_streak_in_txn_def none_if_empty_def)

lemma next_streak_total:
  assumes "valid_date d" and "d \<noteq> (1, 1, 1)"
  shows "\<exists>k. next_streak n la (isoformat d) = Inr k"
proof -
  obtain y where "day_before d = Inr y"
    using day_before_total assms by blast
  then show ?thesis
    using assms by (auto simp: next_streak_def fromisoformat_isoformat simp del: isoformat.simps)
qed

lemma touch_streak_total:
  assumes "valid_date (today c)" and "today c \<noteq> (1, 1, 1)"
  shows "\<exists>n s'. touch_streak c s uid = Inr (n, s')"
proof (cases "get_user s uid")
  case None
  then show ?thesis by (simp add: touch_streak_def touch_streak_in_txn_def Let_def)
next
  case (Some r)
  obtain k where "next_streak (or_else (u_streak r) 0) (u_last_active r) (today_iso c) = Inr k"
    using next_streak_total [OF assms] unfolding today_iso_def by blast
  then show ?thesis using touch_streak_eq [OF Some] by blast
qed

lemma touch_streak_result:
  assumes "touch_streak c s uid = Inr (n, s')" and "get_user s uid = Some r"
  shows "s' = update_user s uid (\<lambda>r. r\<lparr>u_streak := Some n, u_last_active := Some (today_iso c)\<rparr>)"
    and "get_user s' uid = Some (r\<lparr>u_streak := Some n, u_last_active := Some (today_iso c)\<rparr>)"
proof -
  show s': "s' = update_user s uid (\<lambda>r. r\<lparr>u_streak := Some n, u_last_active := Some (today_iso c)\<rparr>)"
    using assms by (auto simp: touch_streak_def touch_streak_in_txn_def none_if_empty_def Let_def py_bind_Inr_iff)
  show "get_user s' uid = Some (r\<lparr>u_streak := Some n, u_last_active := Some (today_iso c)\<rparr>)"
    unfolding s' using assms(2) by (simp add: get_user_update_same)
qed

section \<open>Properties\<close>

text \<open>A user active on a day who is active again keeps the streak that day, gains exactly
  one on the following day, and starts again from one after any longer pause.\<close>

theorem streak_counts_consecutive_days:
  assumes "touch_streak c1 s uid = Inr (n, s')" and "get_user s uid = Some r"
    and "valid_date (today c1)"
  shows "touch_streak c1 s' uid = Inr (n, s') \<and>
    (day_after (today c1) = Inr (today c2) \<longrightarrow> (\<exists>s2. touch_streak c2 s' uid = Inr (n + 1, s2))) \<and>
    (valid_date (today c3) \<and> today c1 < today c3 \<and> (\<forall>y. day_before (today c3) = Inr y \<longrightarrow> today c1 \<noteq> y) \<longrightarrow>
      (\<exists>s3. touch_streak c3 s' uid = Inr (1, s3)))"
proof -
  define r' where "r' = r\<lparr>u_streak := Some n, u_last_active := Some (today_iso c1)\<rparr>"
  have g: "get_user s' uid = Some r'"
    using touch_streak_result(2) [OF assms(1,2)] by (simp add: r'_def)
  have upd: "s' = update_user s uid (\<lambda>r. r\<lparr>u_streak := Some n, u_last_active := Some (today_iso c1)\<rparr>)"
    using touch_streak_result(1) [OF assms(1,2)] .
  have "touch_streak c1 s' uid = Inr (n, update_user s' uid
      (\<lambda>r. r\<lparr>u_streak := Some n, u_last_active := Some (today_iso c1)\<rparr>))"
    by (rule touch_streak_eq [OF g]) (simp add: r'_def next_streak_same_day)
  also have "update_user s' uid (\<lambda>r. r\<lparr>u_streak := Some n, u_last_active := Some (today_iso c1)\<rparr>) = s'"
    unfolding upd by (simp add: update_user_def update_where_def)
  finally have same: "touch_streak c1 s' uid = Inr (n, s')" .
  have following: "\<exists>s2. touch_streak c2 s' uid = Inr (n + 1, s2)" if "day_after (today c1) = Inr (today c2)"
    using touch_streak_eq [OF g, of c2 "n + 1"] that assms(3)
      next_streak_yesterday [of "today c2" "today c1" n]
    by (auto simp: r'_def today_iso_def day_after_valid day_before_after)
  have gap: "\<exists>s3. touch_streak c3 s' uid = Inr (1, s3)"
    if g3: "valid_date (today c3)" "today c1 < today c3" "\<forall>y. day_before (today c3) = Inr y \<longrightarrow> today c1 \<noteq> y"
  proof -
    have "(1, 1, 1) \<le> today c1" using assms(3) by (cases "today c1") auto
    then have "today c3 \<noteq> (1, 1, 1)" using g3(2) by auto
    then obtain y where "day_before (today c3) = Inr y" using day_before_total g3(1) by blast
    then have h: "valid_date (today c3)" "today c1 < today c3" "day_before (today c3) = Inr y" "today c1 \<noteq> y"
      using g3 by auto
    have "isoformat (today c1) \<noteq> isoformat (today c3)" and "isoformat (today c1) \<noteq> isoformat y"
      using h assms(3) isoformat_inj day_before_valid by (metis less_irrefl, metis)
    then show ?thesis
      using touch_streak_eq [OF g, of c3 1] next_streak_gap [OF h(1,3), of "u_last_active r'"]
      by (auto simp: r'_def today_iso_def simp del: isoformat.simps)
  qed
  show ?thesis using same following gap by blast
qed

text \<open>A clock that stands at one instant of one day, and a user row, for the witnesses.\<close>

definition clock_at :: "instant \<Rightarrow> date \<Rightarrow> clock" where
  "clock_at t d = \<lparr>utc_now = t, today = d, app_date = (\<lambda>_. d), app_midnight = (\<lambda>_. t),
     utc_date = (\<lambda>_. d), utc_time = (\<lambda>_. ''00:00:00+00:00''),
     sql_datetime_ok = (\<lambda>_. False)\<rparr>"

definition sample_user :: "string option \<Rightarrow> int \<Rightarrow> user_row" where
  "sample_user la n = (new_user_row (clock_at 0 (2026, 1, 1)) 1 None None)
     \<lparr>u_streak := Some n, u_last_active := la\<rparr>"

definition sample_user_db :: "string option \<Rightarrow> int \<Rightarrow> db" where
  "sample_user_db la n = empty_db\<lparr>users := [sample_user la n]\<rparr>"

lemma get_user_sample [simp]: "get_user (sample_user_db la n) 1 = Some (sample_user la n)"
  by (simp add: get_user_def sample_user_db_def sample_user_def new_user_row_def)

lemma sample_user_simps [simp]:
  "u_streak (sample_user la n) = Some n" "u_last_active (sample_user la n) = la"
  by (simp_all add: sample_user_def)

lemma clock_at_simps [simp]:
  "today (clock_at t d) = d" "utc_now (clock_at t d) = t" "app_date (clock_at t d) x = d"
  "utc_date (clock_at t d) x = d" "app_midnight (clock_at t d) y = t"
  by (simp_all add: clock_at_def)

theorem streak_counts_consecutive_days_witness:
  "\<exists>s1 s2. touch_streak (clock_at 0 (2026, 1, 31)) (sample_user_db (Some (isoformat (2026, 1, 30))) 4) 1 = Inr (5, s1) \<and>
     touch_streak (clock_at 0 (2026, 1, 31)) s1 1 = Inr (5, s1) \<and>
     touch_streak (clock_at 0 (2026, 2, 1)) s1 1 = Inr (6, s2)"
proof -
  let ?s = "sample_user_db (Some (isoformat (2026, 1, 30))) 4"
  have v: "valid_date (2026, 1, 31)" "day_before (2026, 1, 31) = Inr (2026, 1, 30)"
    "day_after (2026, 1, 31) = Inr (2026, 2, 1)"
    by (simp_all add: days_in_month_def)
  obtain s1 where t: "touch_streak (clock_at 0 (2026, 1, 31)) ?s 1 = Inr (5, s1)"
    using touch_streak_eq [of ?s 1 _ "clock_at 0 (2026, 1, 31)" 5]
      next_streak_yesterday [OF v(1,2), of 4]
    by (simp add: today_iso_def del: isoformat.simps valid_date.simps day_before.simps)
  show ?thesis
    using streak_counts_consecutive_days [OF t get_user_sample, of "clock_at 0 (2026, 2, 1)"] t v
    by auto
qed

text \<open>Resetting a user's progress zeroes every learning statistic of that user and leaves
  every other user's statistics as they were.\<close>

theorem reset_user_progress_stats:
  "get_user_learning_stats c (reset_user_progress s uid) uid =
     \<lparr>ls_saved_words = 0, ls_review_events = 0, ls_study_sessions = 0, ls_total = 0,
      ls_learned = 0, ls_not_exposed = 0, ls_due = 0\<rparr> \<and>
   (uid' \<noteq> uid \<longrightarrow> get_user_learning_stats c (reset_user_progress s uid) uid' = get_user_learning_stats c s uid')"
proof -
  have f: "filter (\<lambda>r. w_user r = uid') (delete_where (\<lambda>r. w_user r = uid) rs) =
      (if uid' = uid then [] else filter (\<lambda>r. w_user r = uid') rs)" for uid' and rs :: "word_row list"
    by (auto simp: delete_where_def intro!: filter_cong)
  have g: "count_where (\<lambda>r. rp_user r = uid') (delete_where (\<lambda>r. rp_user r = uid) rs) =
      (if uid' = uid then 0 else count_where (\<lambda>r. rp_user r = uid') rs)" for uid' and rs :: "report_row list"
    by (auto simp: delete_where_def count_where_def intro!: arg_cong [where f = length] filter_cong)
  have mine: "get_user_learning_stats c (reset_user_progress s uid) uid =
     \<lparr>ls_saved_words = 0, ls_review_events = 0, ls_study_sessions = 0, ls_total = 0,
      ls_learned = 0, ls_not_exposed = 0, ls_due = 0\<rparr>"
    by (simp add: get_user_learning_stats_def reset_user_progress_def f g)
      (simp add: count_where_def)
  have others: "uid' \<noteq> uid \<Longrightarrow> get_user_learning_stats c (reset_user_progress s uid) uid' = get_user_learning_stats c s uid'"
    by (simp add: get_user_learning_stats_def reset_user_progress_def f g)
  show ?thesis using mine others by blast
qed

theorem reset_user_progress_stats_witness:
  "get_user_learning_stats (clock_at 0 (2026, 1, 1)) (reset_user_progress (sample_user_db None 3) 1) 2 =
   get_user_learning_stats (clock_at 0 (2026, 1, 1)) (sample_user_db None 3) 2"
  using reset_user_progress_stats [of "clock_at 0 (2026, 1, 1)" "sample_user_db None 3" 1 2] by simp

text \<open>The dashboard's due count compares texts, so a card with a well-formed due timestamp is
  counted exactly when its UTC due day lies strictly before today; a card that fell due earlier
  today is not counted.\<close>

theorem stats_due_iff_before_today:
  assumes "w_next_at r = Some (Stamp t)" and "valid_date (utc_date c t)" and "valid_date (today c)"
  shows "stats_due c r \<longleftrightarrow> utc_date c t < today c"
  using assms by (simp add: stats_due_def today_iso_def stamp_text_le_date del: stamp_text.simps)

theorem stats_due_iff_before_today_witness:
  "\<not> stats_due (clock_at 0 (2026, 1, 1))
     \<lparr>w_id = 1, w_user = 1, w_word = ''a'', w_lang = ''en'', w_norm = ''a'', w_card = None,
      w_next_review = None, w_status = None, w_requested_at = None, w_added_at = None,
      w_fe_done = Some 1, w_stability = Some 1, w_difficulty = Some 5, w_source = None,
      w_last_at = None, w_next_at = Some (Stamp 0), w_total = 0, w_lapses = 0, w_retry_at = None,
      w_retry_attempts = 0\<rparr>" (is "\<not> stats_due ?c ?r")
  using stats_due_iff_before_today [of ?r 0 ?c] by (simp add: days_in_month_def)

end
