(* ===== verification/Fsrs.thy ===== *)
theory Fsrs imports Prelude begin

text \<open>
  \<open>services/fsrs_core.py\<close>: the FSRS-6 memory model. The configuration is a record; the
  weight dictionary with keys \<open>w0\<close> to \<open>w20\<close> is a function of the index; every formula
  is one definition over the reals, with the float exceptions as results.
\<close>

section \<open>Configuration\<close>

definition DSR_W :: "nat \<Rightarrow> real" where
  "DSR_W i = [0.212, 1.2931, 2.3065, 8.2956, 6.4133, 0.8334, 3.0194, 0.001, 1.8722, 0.1666,
              0.796, 1.4835, 0.0614, 0.2629, 1.6483, 0.6014, 1.8729, 0.5425, 0.0912, 0.0658,
              0.1542] ! i"

definition DESIRED_RETENTION_DEFAULT :: real where
  "DESIRED_RETENTION_DEFAULT = 0.9"

definition compute_factor :: "real \<Rightarrow> real py" where
  "compute_factor w20 = py_bind (py_div (- 1) w20) (\<lambda>e. py_bind (py_pow 0.9 e) (\<lambda>p. Inr (p - 1)))"

definition FIRST_EXPOSURE_STABILITY :: "int \<Rightarrow> real option" where
  "FIRST_EXPOSURE_STABILITY = [1 \<mapsto> 0.212, 2 \<mapsto> 1.5, 3 \<mapsto> 3, 4 \<mapsto> 12]"

record fsrs_config =
  weights :: "nat \<Rightarrow> real"
  first_exposure_stability :: "int \<Rightarrow> real option"
  desired_retention :: real
  maximum_interval :: int
  enable_short_term :: bool
  cfg_name :: string

definition DEFAULT_FSRS_CONFIG :: fsrs_config where
  "DEFAULT_FSRS_CONFIG =
     \<lparr> weights = DSR_W, first_exposure_stability = FIRST_EXPOSURE_STABILITY,
       desired_retention = DESIRED_RETENTION_DEFAULT, maximum_interval = 365,
       enable_short_term = True, cfg_name = ''default'' \<rparr>"

section \<open>Formulas\<close>

definition compute_retrievability :: "real \<Rightarrow> real \<Rightarrow> fsrs_config \<Rightarrow> real py" where
  "compute_retrievability elapsed_days stability config =
     (let s = max 0.1 stability; t = max 0 elapsed_days in
      py_bind (compute_factor (weights config 20)) (\<lambda>factor.
      py_pow (1 + factor * t / s) (- weights config 20)))"

definition compute_interval :: "real \<Rightarrow> real option \<Rightarrow> fsrs_config \<Rightarrow> real py" where
  "compute_interval stability dr config =
     (let s = max 0.1 stability; r = or_else dr DESIRED_RETENTION_DEFAULT in
      py_bind (compute_factor (weights config 20)) (\<lambda>factor.
      py_bind (py_div (- 1) (weights config 20)) (\<lambda>e.
      py_bind (py_pow r e) (\<lambda>p.
      py_bind (py_div (s * (p - 1)) factor) (\<lambda>interval.
      Inr (min interval (of_int (maximum_interval config))))))))"

definition initial_stability :: "int \<Rightarrow> fsrs_config \<Rightarrow> real py" where
  "initial_stability grade config =
     py_item [1 \<mapsto> weights config 0, 2 \<mapsto> weights config 1, 3 \<mapsto> weights config 2, 4 \<mapsto> weights config 3] grade"

definition initial_stability_first_exposure :: "int \<Rightarrow> fsrs_config \<Rightarrow> real py" where
  "initial_stability_first_exposure grade config = py_item (first_exposure_stability config) grade"

definition initial_difficulty :: "int \<Rightarrow> fsrs_config \<Rightarrow> real" where
  "initial_difficulty grade config =
     (let d0 = weights config 4 - exp (weights config 5 * (of_int grade - 1)) + 1
      in max 1 (min 10 d0))"

definition update_difficulty :: "real \<Rightarrow> int \<Rightarrow> fsrs_config \<Rightarrow> real" where
  "update_difficulty d grade config =
     (let delta_d = - weights config 6 * (of_int grade - 3);
          d_damped = d + delta_d * (10 - d) / 9;
          d0_easy = initial_difficulty 4 config;
          d_reverted = weights config 7 * d0_easy + (1 - weights config 7) * d_damped
      in max 1 (min 10 d_reverted))"

definition update_stability :: "real \<Rightarrow> real \<Rightarrow> real \<Rightarrow> int \<Rightarrow> fsrs_config \<Rightarrow> real py" where
  "update_stability d s0 r grade config =
     (let s = max 0.1 s0 in
      if grade = 1 then
        py_bind (py_pow d (- weights config 12)) (\<lambda>pd.
        py_bind (py_pow (s + 1) (weights config 13)) (\<lambda>ps.
        let s_new = weights config 11 * pd * (ps - 1) * exp (weights config 14 * (1 - r)) in
        if enable_short_term config then
          (let upper = s / exp (weights config 17 * weights config 18)
           in Inr (max 0.01 (min s_new upper)))
        else Inr (max 0.1 (min s_new s))))
      else
        (let hard_penalty = (if grade = 2 then weights config 15 else 1);
             easy_bonus = (if grade = 4 then weights config 16 else 1) in
         py_bind (py_pow s (- weights config 9)) (\<lambda>ps.
         let s_inc = 1 + exp (weights config 8) * (11 - d) * ps
                       * (exp (weights config 10 * (1 - r)) - 1) * hard_penalty * easy_bonus
         in Inr (s * max 1 s_inc))))"

definition short_term_stability :: "real \<Rightarrow> int \<Rightarrow> fsrs_config \<Rightarrow> real py" where
  "short_term_stability s grade config =
     py_bind (py_pow s (- weights config 19)) (\<lambda>ps.
       let s_inc = exp (weights config 17 * (of_int grade - 3 + weights config 18)) * ps;
           s_inc' = (if grade \<ge> 3 then max 1 s_inc else s_inc)
       in Inr (s * s_inc'))"

section \<open>The default weights\<close>

lemma DSR_W_simps [simp]:
  "DSR_W 0 = 0.212" "DSR_W 1 = 1.2931" "DSR_W (Suc 0) = 1.2931" "DSR_W 2 = 2.3065" "DSR_W 3 = 8.2956"
  "DSR_W 4 = 6.4133" "DSR_W 5 = 0.8334" "DSR_W 6 = 3.0194" "DSR_W 7 = 0.001"
  "DSR_W 8 = 1.8722" "DSR_W 9 = 0.1666" "DSR_W 10 = 0.796" "DSR_W 11 = 1.4835"
  "DSR_W 12 = 0.0614" "DSR_W 13 = 0.2629" "DSR_W 14 = 1.6483" "DSR_W 15 = 0.6014"
  "DSR_W 16 = 1.8729" "DSR_W 17 = 0.5425" "DSR_W 18 = 0.0912" "DSR_W 19 = 0.0658"
  "DSR_W 20 = 0.1542"
  by (simp_all add: DSR_W_def)

lemma DEFAULT_FSRS_CONFIG_simps [simp]:
  "weights DEFAULT_FSRS_CONFIG = DSR_W"
  "first_exposure_stability DEFAULT_FSRS_CONFIG = FIRST_EXPOSURE_STABILITY"
  "maximum_interval DEFAULT_FSRS_CONFIG = 365"
  "enable_short_term DEFAULT_FSRS_CONFIG = True"
  by (simp_all add: DEFAULT_FSRS_CONFIG_def)

section \<open>Forgetting curve and interval\<close>

text \<open>The factor as a real number, for a positive decay exponent.\<close>

definition factor_of :: "real \<Rightarrow> real" where
  "factor_of w20 = 0.9 powr (- 1 / w20) - 1"

lemma compute_factor_ok: "w20 \<noteq> 0 \<Longrightarrow> compute_factor w20 = Inr (factor_of w20)"
  by (simp add: compute_factor_def factor_of_def)

lemma powr_neg_gt_1: "0 < r \<Longrightarrow> r < 1 \<Longrightarrow> e < 0 \<Longrightarrow> 1 < (r::real) powr e"
  using powr_less_mono' [of r e 0] by simp

lemma factor_of_pos: "0 < w20 \<Longrightarrow> 0 < factor_of w20"
  using powr_neg_gt_1 [of "0.9" "- 1 / w20"] by (simp add: factor_of_def)

lemma retrievability_eq:
  assumes "0 < weights c 20"
  shows "compute_retrievability t s c =
    Inr ((1 + factor_of (weights c 20) * max 0 t / max 0.1 s) powr (- weights c 20))"
proof -
  have "0 \<le> factor_of (weights c 20) * max 0 t / max 0.1 s"
    using factor_of_pos [OF assms] by (intro divide_nonneg_pos mult_nonneg_nonneg) auto
  then have "0 < 1 + factor_of (weights c 20) * max 0 t / max 0.1 s" by linarith
  with assms show ?thesis
    by (simp add: compute_retrievability_def Let_def compute_factor_ok)
qed

lemma interval_eq:
  assumes "0 < weights c 20" and "0 < r"
  shows "compute_interval s (Some r) c =
    Inr (min (max 0.1 s * (r powr (- 1 / weights c 20) - 1) / factor_of (weights c 20))
             (of_int (maximum_interval c)))"
  using assms factor_of_pos [OF assms(1)]
  by (simp add: compute_interval_def Let_def compute_factor_ok)

lemma compute_interval_None:
  "compute_interval s None c = compute_interval s (Some DESIRED_RETENTION_DEFAULT) c"
  by (simp add: compute_interval_def)

lemma interval_default:
  "compute_interval s None DEFAULT_FSRS_CONFIG = Inr (min (max 0.1 s) 365)"
  using factor_of_pos [of "0.1542"]
  by (simp add: compute_interval_None interval_eq DESIRED_RETENTION_DEFAULT_def factor_of_def)

text \<open>The forgetting-curve base grows with time and shrinks with stability.\<close>

lemma curve_base_mono:
  fixes f :: real
  assumes "0 < f" and "t1 \<le> t2" and "s2 \<le> s1"
  shows "1 + f * max 0 t1 / max 0.1 s1 \<le> 1 + f * max 0 t2 / max 0.1 s2"
proof -
  have "f * max 0 t1 / max 0.1 s1 \<le> f * max 0 t2 / max 0.1 s2"
    using assms by (intro frac_le mult_left_mono) auto
  then show ?thesis by simp
qed

lemma curve_base_ge_1:
  fixes f :: real
  assumes "0 < f"
  shows "1 \<le> 1 + f * max 0 t / max 0.1 s"
  using assms by (simp add: divide_nonneg_pos less_imp_le)

section \<open>Difficulty and stability updates\<close>

lemma initial_difficulty_range: "1 \<le> initial_difficulty g c \<and> initial_difficulty g c \<le> 10"
  by (simp add: initial_difficulty_def Let_def)

lemma update_difficulty_range: "1 \<le> update_difficulty d g c \<and> update_difficulty d g c \<le> 10"
  by (simp add: update_difficulty_def Let_def)

lemma first_exposure_ok:
  assumes "g \<in> {1, 2, 3, 4}"
  shows "\<exists>s. initial_stability_first_exposure g DEFAULT_FSRS_CONFIG = Inr s \<and> 0 < s \<and> s \<le> 12"
proof -
  let ?s = "the (FIRST_EXPOSURE_STABILITY g)"
  have "initial_stability_first_exposure g DEFAULT_FSRS_CONFIG = Inr ?s \<and> 0 < ?s \<and> ?s \<le> 12"
    using assms by (auto simp: initial_stability_first_exposure_def FIRST_EXPOSURE_STABILITY_def)
  then show ?thesis by blast
qed

text \<open>A lapse: the new stability in closed form under the default configuration.\<close>

lemma update_stability_again_eq:
  assumes "0 < d"
  shows "update_stability d s r 1 DEFAULT_FSRS_CONFIG =
    Inr (max 0.01 (min (1.4835 * d powr (- 0.0614) * ((max 0.1 s + 1) powr 0.2629 - 1)
                         * exp (1.6483 * (1 - r)))
                       (max 0.1 s / exp (0.5425 * 0.0912))))"
  using assms by (simp add: update_stability_def Let_def add_pos_pos)

text \<open>A recall: the stability increase in closed form, for any configuration.\<close>

definition stability_inc :: "real \<Rightarrow> real \<Rightarrow> real \<Rightarrow> real \<Rightarrow> fsrs_config \<Rightarrow> real" where
  "stability_inc d s r factor c =
     1 + exp (weights c 8) * (11 - d) * s powr (- weights c 9)
         * (exp (weights c 10 * (1 - r)) - 1) * factor"

lemma update_stability_recall_eq:
  assumes "g \<noteq> 1"
  shows "update_stability d s r g c =
    Inr (max 0.1 s * max 1 (stability_inc d (max 0.1 s) r
      ((if g = 2 then weights c 15 else 1) * (if g = 4 then weights c 16 else 1)) c))"
  using assms by (simp add: update_stability_def Let_def stability_inc_def mult.assoc)

lemma stability_inc_mono:
  assumes "0 \<le> weights c 10" "r \<le> 1" "d \<le> 11" "f1 \<le> f2"
  shows "stability_inc d s r f1 c \<le> stability_inc d s r f2 c"
proof -
  have "0 \<le> exp (weights c 10 * (1 - r)) - 1" using assms by simp
  then show ?thesis
    using assms unfolding stability_inc_def by (intro add_left_mono mult_left_mono mult_nonneg_nonneg) auto
qed

lemma short_term_eq:
  assumes "0 < s"
  shows "short_term_stability s g c = Inr (s *
    (if g \<ge> 3 then max 1 (exp (weights c 17 * (of_int g - 3 + weights c 18)) * s powr (- weights c 19))
     else exp (weights c 17 * (of_int g - 3 + weights c 18)) * s powr (- weights c 19)))"
  using assms by (simp add: short_term_stability_def Let_def)

lemma short_term_pos:
  assumes "0 < s"
  shows "\<exists>s'. short_term_stability s g c = Inr s' \<and> 0 < s'"
  using assms by (auto simp: short_term_eq intro!: mult_pos_pos)

lemma update_stability_pos:
  assumes "0 < d"
  shows "\<exists>s'. update_stability d s r g DEFAULT_FSRS_CONFIG = Inr s' \<and> 0 < s'"
proof (cases "g = 1")
  case True
  then show ?thesis using update_stability_again_eq [OF assms, of s r] by auto
next
  case False
  then show ?thesis
    by (auto simp: update_stability_recall_eq intro!: mult_pos_pos)
qed

section \<open>Properties\<close>

text \<open>Under the default configuration the recall probability is always computed and is a
  probability: positive and at most one, for every elapsed time and stability, negative
  and zero inputs included.\<close>

theorem retrievability_in_unit:
  "\<exists>r. compute_retrievability t s DEFAULT_FSRS_CONFIG = Inr r \<and> 0 < r \<and> r \<le> 1"
proof -
  let ?b = "1 + factor_of 0.1542 * max 0 t / max 0.1 s"
  have "1 \<le> ?b" by (rule curve_base_ge_1) (rule factor_of_pos, simp)
  then have "?b powr (- 0.1542) \<le> 1" using powr_mono [of "- 0.1542" 0 ?b] by simp
  with \<open>1 \<le> ?b\<close> show ?thesis by (auto simp: retrievability_eq)
qed

text \<open>Recall decays with time and is better for a more stable memory.\<close>

theorem retrievability_mono:
  assumes "t1 \<le> t2" and "s2 \<le> s1"
    and "compute_retrievability t1 s1 DEFAULT_FSRS_CONFIG = Inr r1"
    and "compute_retrievability t2 s2 DEFAULT_FSRS_CONFIG = Inr r2"
  shows "r2 \<le> r1"
proof -
  let ?b = "\<lambda>t s. 1 + factor_of 0.1542 * max 0 t / max 0.1 s"
  have f: "0 < factor_of 0.1542" by (rule factor_of_pos) simp
  have "0 < ?b t1 s1" using curve_base_ge_1 [OF f, of t1 s1] by linarith
  moreover have "?b t1 s1 \<le> ?b t2 s2" by (rule curve_base_mono [OF f assms(1,2)])
  ultimately have "?b t2 s2 powr (- 0.1542) \<le> ?b t1 s1 powr (- 0.1542)"
    by (intro powr_mono2') auto
  with assms(3,4) show ?thesis by (simp add: retrievability_eq)
qed

theorem retrievability_mono_witness:
  "\<exists>r1 r2. compute_retrievability 1 5 DEFAULT_FSRS_CONFIG = Inr r1 \<and>
           compute_retrievability 2 3 DEFAULT_FSRS_CONFIG = Inr r2 \<and> r2 \<le> r1"
proof -
  obtain r1 where 1: "compute_retrievability 1 5 DEFAULT_FSRS_CONFIG = Inr r1"
    by (simp add: retrievability_eq)
  obtain r2 where 2: "compute_retrievability 2 3 DEFAULT_FSRS_CONFIG = Inr r2"
    by (simp add: retrievability_eq)
  from retrievability_mono [of 1 2 3 5 r1 r2] 1 2 show ?thesis by auto
qed

text \<open>The interval formula inverts the forgetting curve: after the computed interval, if
  the cap of 365 days did not cut it, recall has fallen exactly to the desired retention.\<close>

theorem interval_inverts_retrievability:
  assumes "0 < r" and "r < 1" and "0.1 \<le> s"
    and "compute_interval s (Some r) DEFAULT_FSRS_CONFIG = Inr i" and "i < 365"
  shows "compute_retrievability i s DEFAULT_FSRS_CONFIG = Inr r"
proof -
  let ?f = "factor_of 0.1542" and ?p = "r powr (- 1 / 0.1542)"
  have f: "0 < ?f" by (rule factor_of_pos) simp
  have p: "1 < ?p" using assms by (intro powr_neg_gt_1) auto
  from assms(1,3,4,5) have i: "i = s * (?p - 1) / ?f"
    by (simp add: interval_eq max_def min_def split: if_splits)
  with f p assms(3) have i0: "0 \<le> i" by simp
  have "?f * i / s = ?p - 1" using i f assms(3) by (simp add: field_simps)
  with i0 assms(3) have b: "1 + ?f * max 0 i / max 0.1 s = ?p" by (simp add: max_def)
  have "compute_retrievability i s DEFAULT_FSRS_CONFIG = Inr (?p powr (- 0.1542))"
    using retrievability_eq [of DEFAULT_FSRS_CONFIG i s] b by simp
  also have "?p powr (- 0.1542) = r"
    using assms(1) by (simp add: powr_powr)
  finally show ?thesis .
qed

theorem interval_inverts_retrievability_witness:
  "compute_interval 30 (Some 0.9) DEFAULT_FSRS_CONFIG = Inr 30 \<and>
   compute_retrievability 30 30 DEFAULT_FSRS_CONFIG = Inr 0.9"
proof -
  have i: "compute_interval 30 (Some 0.9) DEFAULT_FSRS_CONFIG = Inr 30"
    using interval_default [of 30] by (simp add: compute_interval_None DESIRED_RETENTION_DEFAULT_def)
  show ?thesis using i interval_inverts_retrievability [OF _ _ _ i] by simp
qed

text \<open>The scheduled interval is always computed, is positive and never exceeds the
  configured maximum of 365 days; at the default retention it is the stability itself.\<close>

theorem interval_bounds:
  "\<exists>i. compute_interval s None DEFAULT_FSRS_CONFIG = Inr i \<and> 0 < i \<and> i \<le> 365 \<and>
       i = min (max 0.1 s) 365"
  by (simp add: interval_default)

text \<open>A better grade never yields a harder card, at first exposure and at review, and
  every difficulty the model computes lies between 1 and 10.\<close>

theorem difficulty_antitone:
  assumes "g1 \<le> g2" and "d \<le> 10"
  shows "initial_difficulty g2 DEFAULT_FSRS_CONFIG \<le> initial_difficulty g1 DEFAULT_FSRS_CONFIG \<and>
    update_difficulty d g2 DEFAULT_FSRS_CONFIG \<le> update_difficulty d g1 DEFAULT_FSRS_CONFIG \<and>
    1 \<le> update_difficulty d g2 DEFAULT_FSRS_CONFIG \<and> update_difficulty d g1 DEFAULT_FSRS_CONFIG \<le> 10"
proof -
  have g: "of_int g1 \<le> (of_int g2 :: real)" using assms by simp
  have e: "exp (0.8334 * (of_int g1 - 1)) \<le> (exp (0.8334 * (of_int g2 - 1)) :: real)"
    using g by simp
  have k: "- 3.0194 * (of_int g2 - 3) * (10 - d) / 9 \<le> - 3.0194 * (of_int g1 - 3) * (10 - d) / 9"
    using g assms(2) by (intro divide_right_mono mult_right_mono) auto
  have "initial_difficulty g2 DEFAULT_FSRS_CONFIG \<le> initial_difficulty g1 DEFAULT_FSRS_CONFIG"
    unfolding initial_difficulty_def Let_def DEFAULT_FSRS_CONFIG_simps DSR_W_simps
    by (intro max.mono min.mono) (use e in linarith)+
  moreover have "update_difficulty d g2 DEFAULT_FSRS_CONFIG \<le> update_difficulty d g1 DEFAULT_FSRS_CONFIG"
    unfolding update_difficulty_def Let_def DEFAULT_FSRS_CONFIG_simps DSR_W_simps
    by (intro max.mono min.mono add_left_mono mult_left_mono order_refl k) auto
  ultimately show ?thesis using update_difficulty_range by simp
qed

theorem difficulty_antitone_witness:
  "initial_difficulty 4 DEFAULT_FSRS_CONFIG \<le> initial_difficulty 1 DEFAULT_FSRS_CONFIG \<and>
   update_difficulty 5 4 DEFAULT_FSRS_CONFIG \<le> update_difficulty 5 1 DEFAULT_FSRS_CONFIG"
  using difficulty_antitone [of 1 4 5] by simp

text \<open>The new stability is ordered by the grade: a lapse never raises it, a recall never
  lowers it, and Hard, Good and Easy give increasing stabilities. No input in range raises.\<close>

theorem stability_ordered_by_grade:
  assumes "0 < d" and "d \<le> 10" and "0.1 \<le> s" and "r \<le> 1"
  shows "\<exists>a h g e.
    update_stability d s r 1 DEFAULT_FSRS_CONFIG = Inr a \<and>
    update_stability d s r 2 DEFAULT_FSRS_CONFIG = Inr h \<and>
    update_stability d s r 3 DEFAULT_FSRS_CONFIG = Inr g \<and>
    update_stability d s r 4 DEFAULT_FSRS_CONFIG = Inr e \<and>
    0 < a \<and> a \<le> s \<and> s \<le> h \<and> h \<le> g \<and> g \<le> e"
proof -
  have s: "max 0.1 s = s" using assms by simp
  let ?i = "\<lambda>x. stability_inc d s r x DEFAULT_FSRS_CONFIG"
  have "?i 0.6014 \<le> ?i 1" and "?i 1 \<le> ?i 1.8729"
    using assms by (auto intro!: stability_inc_mono)
  then have "s * max 1 (?i 0.6014) \<le> s * max 1 (?i 1)" and "s * max 1 (?i 1) \<le> s * max 1 (?i 1.8729)"
    using assms by (auto intro!: mult_left_mono)
  moreover have "s * 1 \<le> s * max 1 (?i 0.6014)" using assms by (intro mult_left_mono) auto
  moreover have "s / exp (0.5425 * 0.0912) \<le> s / 1"
    using assms by (intro divide_left_mono) auto
  then have "max 0.01 (min x (s / exp (0.5425 * 0.0912))) \<le> s" for x
    using assms by auto
  ultimately show ?thesis
    using assms by (simp add: update_stability_again_eq update_stability_recall_eq s)
qed

theorem stability_ordered_by_grade_witness:
  "\<exists>a e. update_stability 5 3 0.9 1 DEFAULT_FSRS_CONFIG = Inr a \<and>
         update_stability 5 3 0.9 4 DEFAULT_FSRS_CONFIG = Inr e \<and> a \<le> 3 \<and> 3 \<le> e"
  using stability_ordered_by_grade [of 5 3 "0.9"] by force

end
