(* ===== verification/Words.thy ===== *)
theory Words imports Users Fsrs begin

text \<open>
  \<open>services/db/words.py\<close> with the row operations it composes: the review event insert of
  \<open>services/db/reviews.py\<close> and the session grade ledger of \<open>services/db/sessions.py\<close>.
  Every operation is one transaction on the database; the two grade operations combine the
  FSRS formulas, the scheduling columns, the ledger, the review event with its counters and
  the streak, all or nothing. Unicode normalisation and case folding are parameters.
\<close>

section \<open>Text normalisation\<close>

record unicode =
  nfc :: "string \<Rightarrow> string"
  casefold :: "string \<Rightarrow> string"

text \<open>\<open>s.split()\<close> and \<open>" ".join(parts)\<close>.\<close>

fun py_split_acc :: "string \<Rightarrow> string \<Rightarrow> string list" where
  "py_split_acc acc [] = (if acc = [] then [] else [rev acc])"
| "py_split_acc acc (ch # s) =
     (if is_space ch then (if acc = [] then py_split_acc [] s else rev acc # py_split_acc [] s)
      else py_split_acc (ch # acc) s)"

definition py_split :: "string \<Rightarrow> string list" where
  "py_split s = py_split_acc [] s"

fun join_sp :: "string list \<Rightarrow> string" where
  "join_sp [] = []"
| "join_sp [x] = x"
| "join_sp (x # y # xs) = x @ '' '' @ join_sp (y # xs)"

definition normalize_word :: "unicode \<Rightarrow> string \<Rightarrow> string" where
  "normalize_word u text = casefold u (join_sp (py_split (nfc u text)))"

section \<open>Saving and removing words\<close>

definition same_key :: "int \<Rightarrow> string \<Rightarrow> string \<Rightarrow> word_row \<Rightarrow> bool" where
  "same_key uid lang nkey r \<longleftrightarrow> w_user r = uid \<and> w_lang r = lang \<and> w_norm r = nkey"

definition new_word_row ::
    "('a clock_scheme) \<Rightarrow> int \<Rightarrow> int \<Rightarrow> string \<Rightarrow> string \<Rightarrow> string \<Rightarrow> card_text option \<Rightarrow> string \<Rightarrow> string \<Rightarrow> word_row" where
  "new_word_row c wid uid text lang nkey cjson next_review entry_source =
     \<lparr>w_id = wid, w_user = uid, w_word = text, w_lang = lang, w_norm = nkey, w_card = cjson,
      w_next_review = Some next_review, w_status = Some ''idle'', w_requested_at = None,
      w_added_at = Some (Stamp (utc_now c)), w_fe_done = Some 0, w_stability = Some 0,
      w_difficulty = Some 5, w_source = Some entry_source, w_last_at = None, w_next_at = None,
      w_total = 0, w_lapses = 0, w_retry_at = None, w_retry_attempts = 0\<rparr>"

text \<open>\<open>INSERT OR IGNORE\<close>: nothing happens when the unique key exists.\<close>

definition insert_word ::
    "('a clock_scheme) \<Rightarrow> db \<Rightarrow> int \<Rightarrow> string \<Rightarrow> string \<Rightarrow> string \<Rightarrow> card_text option \<Rightarrow> string \<Rightarrow> string \<Rightarrow> bool \<times> db" where
  "insert_word c s uid text lang nkey cjson next_review entry_source =
     (if \<exists>r \<in> set (words s). same_key uid lang nkey r then (False, s)
      else (True, s\<lparr>words := words s @ [new_word_row c (next_word_id s) uid text lang nkey cjson next_review entry_source],
                    next_word_id := next_word_id s + 1\<rparr>))"

definition add_saved_word ::
    "('a clock_scheme) \<Rightarrow> unicode \<Rightarrow> db \<Rightarrow> int \<Rightarrow> string \<Rightarrow> string \<Rightarrow> (string \<Rightarrow> string option) option \<Rightarrow> string
      \<Rightarrow> (bool \<times> db) py" where
  "add_saved_word c u s uid text lang card_data entry_source =
     (let normalized_word = normalize_word u text in
      if normalized_word = '''' then Inr (False, s)
      else let clean = join_sp (py_split text) in
        py_bind (day_after (today c)) (\<lambda>tomorrow.
          let serialized_card = map_option CardObj card_data;
              (inserted, s1) = insert_word c s uid clean lang normalized_word serialized_card
                                 (isoformat tomorrow) entry_source
          in if \<not> inserted \<and> serialized_card \<noteq> None
             then Inr (False, s1\<lparr>words := update_where (same_key uid lang normalized_word)
                    (\<lambda>r. r\<lparr>w_card := (case w_card r of None \<Rightarrow> serialized_card | Some x \<Rightarrow> Some x)\<rparr>)
                    (words s1)\<rparr>)
             else Inr (inserted, s1)))"

datatype toggle_result = Saved | Removed

definition toggle_review_word ::
    "('a clock_scheme) \<Rightarrow> unicode \<Rightarrow> db \<Rightarrow> int \<Rightarrow> string \<Rightarrow> string \<Rightarrow> (string \<Rightarrow> string option) option \<Rightarrow> string
      \<Rightarrow> (toggle_result \<times> db) py" where
  "toggle_review_word c u s uid text lang card_data entry_source =
     (let normalized_word = normalize_word u text in
      if normalized_word = '''' then Inr (Removed, s)
      else case find (same_key uid lang normalized_word) (words s) of
        Some existing \<Rightarrow>
          Inr (Removed, s\<lparr>words := delete_where (\<lambda>r. w_id r = w_id existing) (words s)\<rparr>)
      | None \<Rightarrow>
          py_bind (day_after (today c)) (\<lambda>tomorrow.
            Inr (Saved, snd (insert_word c s uid (join_sp (py_split text)) lang normalized_word
                   (map_option CardObj card_data) (isoformat tomorrow) entry_source))))"

definition own_word :: "int \<Rightarrow> int \<Rightarrow> word_row \<Rightarrow> bool" where
  "own_word wid uid r \<longleftrightarrow> w_id r = wid \<and> w_user r = uid"

definition update_saved_word_fields :: "db \<Rightarrow> int \<Rightarrow> int \<Rightarrow> (string \<Rightarrow> string option) \<Rightarrow> bool \<times> db" where
  "update_saved_word_fields s wid uid patch =
     (case find (own_word wid uid) (words s) of
        None \<Rightarrow> (False, s)
      | Some row \<Rightarrow>
          (let cjson = (case w_card row of
                         None \<Rightarrow> Some [''word'' \<mapsto> w_word row]
                       | Some (OtherText t) \<Rightarrow> if t = '''' then Some [''word'' \<mapsto> w_word row] else None
                       | Some (CardObj m) \<Rightarrow> Some m)
           in case cjson of
                None \<Rightarrow> (False, s)
              | Some m \<Rightarrow> (True, s\<lparr>words := update_where (own_word wid uid)
                                  (\<lambda>r. r\<lparr>w_card := Some (CardObj (m ++ patch))\<rparr>) (words s)\<rparr>)))"

definition get_saved_word :: "db \<Rightarrow> int \<Rightarrow> int option \<Rightarrow> word_row option" where
  "get_saved_word s wid uid =
     find (\<lambda>r. w_id r = wid \<and> (case uid of None \<Rightarrow> True | Some i \<Rightarrow> w_user r = i)) (words s)"

text \<open>Batches of at most 500 ids, then the rows in the order of the ids.\<close>

function chunks :: "nat \<Rightarrow> 'a list \<Rightarrow> 'a list list" where
  "chunks n xs = (if xs = [] then [] else take (max 1 n) xs # chunks n (drop (max 1 n) xs))"
  by pat_completeness auto
termination
  by (relation "measure (\<lambda>(n, xs). length xs)") auto

declare chunks.simps [simp del]

lemma concat_chunks: "concat (chunks n xs) = xs"
proof (induction n xs rule: chunks.induct)
  case (1 n xs)
  then show ?case by (subst chunks.simps) auto
qed

definition get_saved_words_by_ids :: "db \<Rightarrow> int list \<Rightarrow> int \<Rightarrow> word_row list" where
  "get_saved_words_by_ids s word_ids uid =
     (let fetched = concat (map (\<lambda>chunk. filter (\<lambda>r. w_user r = uid \<and> w_id r \<in> set chunk) (words s))
                             (chunks 500 word_ids));
          by_id = map_of (rev (map (\<lambda>r. (w_id r, r)) fetched))
      in List.map_filter by_id word_ids)"

definition delete_saved_word :: "db \<Rightarrow> int \<Rightarrow> int \<Rightarrow> bool \<times> db" where
  "delete_saved_word s wid uid =
     (if count_where (own_word wid uid) (words s) = 0 then (False, s)
      else (True, s\<lparr>words := delete_where (own_word wid uid) (words s),
                    events := delete_where (\<lambda>e. e_word e = wid \<and> e_user e = uid) (events s),
                    queries := update_where (\<lambda>q. q_saved_word q = Some wid \<and> q_user q = uid)
                      (\<lambda>q. q\<lparr>q_saved_word := None, q_saved_at := None\<rparr>) (queries s)\<rparr>))"

section \<open>Due words\<close>

definition row_effective_due :: "('a clock_scheme) \<Rightarrow> word_row \<Rightarrow> instant option" where
  "row_effective_due c row =
     (case (case w_next_at row of Some st \<Rightarrow> (case parse_stamp st of Inr t \<Rightarrow> Some t | Inl _ \<Rightarrow> None)
                                | None \<Rightarrow> None) of
        Some ts \<Rightarrow> if ts \<le> utc_now c then Some ts else None
      | None \<Rightarrow>
          (case none_if_empty (w_next_review row) of
             None \<Rightarrow> None
           | Some raw_date \<Rightarrow>
               (case fromisoformat raw_date of
                  Inl _ \<Rightarrow> None
                | Inr day \<Rightarrow> if day \<le> today c then Some (app_midnight c day) else None)))"

definition days_between :: "instant \<Rightarrow> instant \<Rightarrow> real" where
  "days_between later earlier = of_int (later - earlier) / of_int day_us"

definition row_elapsed_days :: "('a clock_scheme) \<Rightarrow> word_row \<Rightarrow> instant option \<Rightarrow> real" where
  "row_elapsed_days c row eff_due =
     (let base0 = (case w_last_at row of Some st \<Rightarrow> (case parse_stamp st of Inr t \<Rightarrow> Some t | Inl _ \<Rightarrow> None)
                                       | None \<Rightarrow> None);
          base = (case base0 of None \<Rightarrow> eff_due | Some t \<Rightarrow> Some t)
      in case base of None \<Rightarrow> 0 | Some t \<Rightarrow> max 0 (days_between (utc_now c) t))"

definition row_priority_key ::
    "('a clock_scheme) \<Rightarrow> word_row \<Rightarrow> instant \<Rightarrow> (real \<times> real \<times> instant \<times> int) py" where
  "row_priority_key c row eff_due =
     (let s0 = or_else (w_stability row) 0.1;
          s = (if s0 > 0 then s0 else 1 / 10 ^ 9);
          d = or_else (w_difficulty row) 5;
          elapsed = row_elapsed_days c row (Some eff_due)
      in py_bind (compute_retrievability elapsed s DEFAULT_FSRS_CONFIG) (\<lambda>r.
         Inr (r, - d, eff_due, w_id row)))"

definition reset_expired_pending_reviews :: "('a clock_scheme) \<Rightarrow> int \<Rightarrow> db \<Rightarrow> db" where
  "reset_expired_pending_reviews c grace_hours s =
     (let deadline = Stamp (utc_now c - grace_hours * 3600000000) in
      s\<lparr>words := update_where
          (\<lambda>r. w_status r = Some ''pending'' \<and>
               (case w_requested_at r of None \<Rightarrow> False | Some st \<Rightarrow> stamp_text c st \<le> stamp_text c deadline))
          (\<lambda>r. r\<lparr>w_status := Some ''idle'', w_requested_at := None\<rparr>) (words s)\<rparr>)"

text \<open>\<open>LIKE '____-__-__T%'\<close>; the pattern's letter matches in either case.\<close>

definition like_iso :: "string \<Rightarrow> bool" where
  "like_iso v \<longleftrightarrow> 11 \<le> length v \<and> v ! 4 = CHR ''-'' \<and> v ! 7 = CHR ''-'' \<and>
     (v ! 10 = CHR ''T'' \<or> v ! 10 = CHR ''t'')"

definition lang_matches :: "string option \<Rightarrow> word_row \<Rightarrow> bool" where
  "lang_matches lang r = (case none_if_empty lang of None \<Rightarrow> True | Some l \<Rightarrow> w_lang r = l)"

definition due_candidate :: "('a clock_scheme) \<Rightarrow> int \<Rightarrow> string option \<Rightarrow> word_row \<Rightarrow> bool" where
  "due_candidate c uid lang r \<longleftrightarrow>
     w_user r = uid \<and> or_else (w_fe_done r) 0 = 1 \<and> or_else (w_status r) ''idle'' \<noteq> ''pending'' \<and>
     w_retry_at r = None \<and> lang_matches lang r"

definition due_prefilter :: "('a clock_scheme) \<Rightarrow> word_row \<Rightarrow> bool" where
  "due_prefilter c r =
     (case w_next_at r of
        None \<Rightarrow> True
      | Some st \<Rightarrow> stamp_text c st \<le> stamp_text c (Stamp (utc_now c + day_us)) \<or>
                   \<not> like_iso (stamp_text c st) \<or>
                   (case st of Stamp _ \<Rightarrow> False | BadStamp v \<Rightarrow> \<not> sql_datetime_ok c v))"

definition due_words_for_user :: "('a clock_scheme) \<Rightarrow> db \<Rightarrow> int \<Rightarrow> string option \<Rightarrow> word_row list py" where
  "due_words_for_user c s uid lang =
     (let rows = filter (\<lambda>r. due_candidate c uid lang r \<and> due_prefilter c r) (words s);
          eligible = List.map_filter (\<lambda>r. map_option (\<lambda>t. (r, t)) (row_effective_due c r)) rows
      in py_bind (py_mapM (\<lambda>(r, t). py_bind (row_priority_key c r t) (\<lambda>k. Inr (k, r))) eligible)
           (\<lambda>keyed. Inr (map snd (sort_key fst keyed))))"

text \<open>
  \<open>limit\<close> is a Python integer; a non-positive one returns no row without a query. Rows with
  equal keys keep their insertion order.
\<close>

definition get_pre_first_exposure_words ::
    "('a clock_scheme) \<Rightarrow> db \<Rightarrow> int \<Rightarrow> string option \<Rightarrow> int option \<Rightarrow> word_row list" where
  "get_pre_first_exposure_words c s uid lang limit =
     (let rows = filter (\<lambda>r. w_user r = uid \<and> w_fe_done r = Some 0 \<and> lang_matches lang r) (words s);
          ordered = sort_key (\<lambda>r. (if w_source r = Some ''manual'' then 0 else (1::nat),
                        case w_added_at r of None \<Rightarrow> (1::nat, '''') | Some st \<Rightarrow> (0, stamp_text c st))) rows
      in case limit of
           None \<Rightarrow> ordered
         | Some l \<Rightarrow> if l \<le> 0 then [] else take (nat l) ordered)"

section \<open>Session grade ledger\<close>

definition mark_word_graded :: "db \<Rightarrow> int \<Rightarrow> int \<Rightarrow> string \<Rightarrow> instant \<Rightarrow> db" where
  "mark_word_graded s uid wid activity ts =
     (if \<exists>l \<in> set (ledger s). l_user l = uid \<and> l_word l = wid \<and> l_activity l = activity then s
      else s\<lparr>ledger := ledger s @ [\<lparr>l_user = uid, l_word = wid, l_activity = activity, l_graded_at = Stamp ts\<rparr>]\<rparr>)"

definition is_word_graded :: "db \<Rightarrow> int \<Rightarrow> int \<Rightarrow> string \<Rightarrow> bool" where
  "is_word_graded s uid wid activity \<longleftrightarrow>
     (\<exists>l \<in> set (ledger s). l_user l = uid \<and> l_word l = wid \<and> l_activity l = activity)"

definition clear_session_grades :: "db \<Rightarrow> int \<Rightarrow> db" where
  "clear_session_grades s uid = s\<lparr>ledger := delete_where (\<lambda>l. l_user l = uid) (ledger s)\<rparr>"

section \<open>Review events\<close>

definition is_lapse :: "int option \<Rightarrow> string \<Rightarrow> bool" where
  "is_lapse grade outcome = (case grade of Some g \<Rightarrow> g = 1 | None \<Rightarrow> outcome = ''again'')"

definition insert_review_event ::
    "db \<Rightarrow> int \<Rightarrow> int \<Rightarrow> int \<Rightarrow> string \<Rightarrow> string \<Rightarrow> string option \<Rightarrow> int option \<Rightarrow> instant \<Rightarrow> db" where
  "insert_review_event s wid uid grade activity grade_source raw_signal response_ms created_at =
     (let outcome = (if grade \<ge> 2 then ''recalled'' else ''again'');
          s1 = s\<lparr>events := events s @ [\<lparr>e_id = next_event_id s, e_word = wid, e_user = uid,
                    e_grade = Some grade, e_activity = activity, e_source = grade_source,
                    e_raw = raw_signal, e_response_ms = response_ms, e_outcome = outcome,
                    e_created = Stamp created_at\<rparr>],
                 next_event_id := next_event_id s + 1\<rparr>
      in s1\<lparr>words := update_where (own_word wid uid)
              (if is_lapse (Some grade) outcome
               then (\<lambda>r. r\<lparr>w_total := w_total r + 1, w_lapses := w_lapses r + 1\<rparr>)
               else (\<lambda>r. r\<lparr>w_total := w_total r + 1\<rparr>)) (words s1)\<rparr>)"

section \<open>Grading\<close>

record grade_result =
  g_ok :: bool
  g_reason :: string
  g_next_at :: "instant option"
  g_interval_s :: "int option"

definition grade_failed :: "string \<Rightarrow> grade_result" where
  "grade_failed reason = \<lparr>g_ok = False, g_reason = reason, g_next_at = None, g_interval_s = None\<rparr>"

definition validate_grade :: "int \<Rightarrow> unit py" where
  "validate_grade grade = (if grade \<in> {1, 2, 3, 4} then Inr () else Inl ValueError)"

definition trunc_seconds :: "int \<Rightarrow> int" where
  "trunc_seconds us = (if us \<ge> 0 then us div 1000000 else - ((- us) div 1000000))"

definition schedule :: "real \<Rightarrow> instant \<Rightarrow> (instant \<times> int) py" where
  "schedule stability now =
     py_bind (compute_interval stability None DEFAULT_FSRS_CONFIG) (\<lambda>interval_days.
       let next_review_at = (if interval_days < 1 then now + py_round (interval_days * of_int day_us)
                             else now + max 1 (py_round interval_days) * day_us)
       in Inr (next_review_at, trunc_seconds (next_review_at - now)))"

definition apply_scheduling_fields ::
    "db \<Rightarrow> int \<Rightarrow> int \<Rightarrow> real \<Rightarrow> real \<Rightarrow> instant \<Rightarrow> instant \<Rightarrow> string \<Rightarrow> int option \<Rightarrow> nat \<times> db" where
  "apply_scheduling_fields s wid uid stability difficulty now next_review_at next_review fe_done =
     (count_where (own_word wid uid) (words s),
      s\<lparr>words := update_where (own_word wid uid)
         (\<lambda>r. r\<lparr>w_fe_done := (case fe_done of None \<Rightarrow> w_fe_done r | Some v \<Rightarrow> Some v),
                w_last_at := Some (Stamp now), w_next_at := Some (Stamp next_review_at),
                w_next_review := Some next_review, w_stability := Some stability,
                w_difficulty := Some difficulty, w_status := Some ''idle'', w_requested_at := None,
                w_retry_at := None, w_retry_attempts := 0\<rparr>) (words s)\<rparr>)"

text \<open>
  What both grade operations do after the state guards, given the new stability and
  difficulty: schedule, write, mark the ledger, insert the event, touch the streak.
\<close>

definition finish_grade ::
    "('a clock_scheme) \<Rightarrow> db \<Rightarrow> int \<Rightarrow> int \<Rightarrow> int \<Rightarrow> string \<Rightarrow> real \<Rightarrow> real \<Rightarrow> int option \<Rightarrow>
     string option \<Rightarrow> string option \<Rightarrow> int option \<Rightarrow> bool \<Rightarrow> (grade_result \<times> db) py" where
  "finish_grade c s wid grade uid activity s_new d_new fe_done grade_source raw_signal response_ms with_streak =
     (let now = utc_now c in
      py_bind (schedule s_new now) (\<lambda>(next_review_at, interval_seconds).
        let (rowcount, s1) = apply_scheduling_fields s wid uid s_new d_new now next_review_at
                               (isoformat (app_date c next_review_at)) fe_done in
        if rowcount = 0 then Inr (grade_failed ''not_found'', s)
        else
          let s2 = mark_word_graded s1 uid wid activity now;
              s3 = (case grade_source of
                      None \<Rightarrow> s2
                    | Some src \<Rightarrow> insert_review_event s2 wid uid grade activity src raw_signal response_ms now)
          in py_bind (if with_streak then map_sum id snd (touch_streak_in_txn c s3 uid None) else Inr s3) (\<lambda>s4.
               Inr (\<lparr>g_ok = True, g_reason = '''', g_next_at = Some next_review_at,
                     g_interval_s = Some interval_seconds\<rparr>, s4))))"

definition grade_word_review ::
    "('a clock_scheme) \<Rightarrow> db \<Rightarrow> int \<Rightarrow> int \<Rightarrow> int \<Rightarrow> string option \<Rightarrow> string option \<Rightarrow> int option \<Rightarrow> bool
      \<Rightarrow> (grade_result \<times> db) py" where
  "grade_word_review c s wid grade uid grade_source raw_signal response_ms with_streak =
     py_bind (validate_grade grade) (\<lambda>_.
       case find (own_word wid uid) (words s) of
         None \<Rightarrow> Inr (grade_failed ''not_found'', s)
       | Some row \<Rightarrow>
           if or_else (w_fe_done row) 0 = 0 \<or> w_last_at row = None \<or> w_last_at row = Some (BadStamp '''')
           then Inr (grade_failed ''wrong_state'', s)
           else
             let s_old = or_else (w_stability row) 0.1; d_old = or_else (w_difficulty row) 5 in
             py_bind (parse_stamp (the (w_last_at row))) (\<lambda>last_review.
               let elapsed_days = max 0 (days_between (utc_now c) last_review);
                   d_new = update_difficulty d_old grade DEFAULT_FSRS_CONFIG in
               py_bind (if elapsed_days < 1 then short_term_stability s_old grade DEFAULT_FSRS_CONFIG
                        else py_bind (compute_retrievability elapsed_days s_old DEFAULT_FSRS_CONFIG)
                               (\<lambda>r. update_stability d_old s_old r grade DEFAULT_FSRS_CONFIG))
                 (\<lambda>s_new. finish_grade c s wid grade uid ''srs_review'' s_new d_new None
                            grade_source raw_signal response_ms with_streak)))"

definition grade_first_exposure ::
    "('a clock_scheme) \<Rightarrow> db \<Rightarrow> int \<Rightarrow> int \<Rightarrow> int \<Rightarrow> string option \<Rightarrow> string option \<Rightarrow> int option \<Rightarrow> bool
      \<Rightarrow> (grade_result \<times> db) py" where
  "grade_first_exposure c s wid grade uid grade_source raw_signal response_ms with_streak =
     py_bind (validate_grade grade) (\<lambda>_.
       case find (own_word wid uid) (words s) of
         None \<Rightarrow> Inr (grade_failed ''not_found'', s)
       | Some row \<Rightarrow>
           if or_else (w_fe_done row) 0 \<noteq> 0 then Inr (grade_failed ''wrong_state'', s)
           else
             py_bind (initial_stability_first_exposure grade DEFAULT_FSRS_CONFIG) (\<lambda>st.
               finish_grade c s wid grade uid ''first_exposure'' st
                 (initial_difficulty grade DEFAULT_FSRS_CONFIG) (Some 1)
                 grade_source raw_signal response_ms with_streak))"

text \<open>\<open>services/grade_service.py\<close>: dispatch on the activity.\<close>

definition grade_tap ::
    "('a clock_scheme) \<Rightarrow> db \<Rightarrow> int \<Rightarrow> int \<Rightarrow> int \<Rightarrow> string \<Rightarrow> string option \<Rightarrow> string option \<Rightarrow> int option \<Rightarrow> bool
      \<Rightarrow> (grade_result \<times> db) py" where
  "grade_tap c s wid grade uid activity grade_source raw_signal response_ms with_streak =
     (if activity \<notin> {''srs_review'', ''first_exposure''} then Inl ValueError
      else if activity = ''srs_review''
      then grade_word_review c s wid grade uid grade_source raw_signal response_ms with_streak
      else grade_first_exposure c s wid grade uid grade_source raw_signal response_ms with_streak)"

end
