(* ===== verification/Grading.thy ===== *)
theory Grading imports Words begin

text \<open>
  What the saved-word operations of \<open>Words\<close> guarantee: the invariant of the word table and
  its preservation by every operation, the effect of a grade on every branch, the life cycle
  of a card, the due list, the lifetime counters, and what removing a word leaves behind.
\<close>

section \<open>The word table invariant\<close>

definition word_key :: "word_row \<Rightarrow> int \<times> string \<times> string" where
  "word_key r = (w_user r, w_lang r, w_norm r)"

definition row_ok :: "word_row \<Rightarrow> bool" where
  "row_ok r \<longleftrightarrow> (or_else (w_fe_done r) 0 \<noteq> 0 \<longrightarrow>
     (\<exists>st d t. w_stability r = Some st \<and> 0 < st \<and> w_difficulty r = Some d \<and> 1 \<le> d \<and> d \<le> 10 \<and>
               w_last_at r = Some (Stamp t)))"

definition words_inv :: "db \<Rightarrow> bool" where
  "words_inv s \<longleftrightarrow> (\<forall>r \<in> set (words s). row_ok r \<and> w_id r < next_word_id s) \<and>
     distinct (map w_id (words s)) \<and> distinct (map word_key (words s))"

lemma words_inv_empty: "words_inv empty_db"
  by (simp add: words_inv_def)

lemma own_word_iff: "own_word wid uid r \<longleftrightarrow> w_id r = wid \<and> w_user r = uid"
  by (simp add: own_word_def)

lemma same_key_iff: "same_key uid lang k r \<longleftrightarrow> word_key r = (uid, lang, k)"
  by (auto simp: same_key_def word_key_def)

text \<open>An update that keeps identity and key, and makes good rows, keeps the invariant.\<close>

lemma words_inv_update:
  assumes "words_inv s" and "words s' = update_where p f (words s)" and "next_word_id s' = next_word_id s"
    and "\<And>r. w_id (f r) = w_id r" and "\<And>r. word_key (f r) = word_key r"
    and "\<And>r. r \<in> set (words s) \<Longrightarrow> p r \<Longrightarrow> row_ok r \<Longrightarrow> row_ok (f r)"
  shows "words_inv s'"
  using assms by (auto simp: words_inv_def map_update_where set_update_where)

lemma words_inv_delete:
  assumes "words_inv s" and "words s' = delete_where p (words s)" and "next_word_id s' = next_word_id s"
  shows "words_inv s'"
  using assms by (auto simp: words_inv_def delete_where_def distinct_map_filter)

lemma words_inv_same:
  "words_inv s \<Longrightarrow> words s' = words s \<Longrightarrow> next_word_id s' = next_word_id s \<Longrightarrow> words_inv s'"
  by (simp add: words_inv_def)

lemma row_ok_new: "row_ok (new_word_row c wid uid text lang k cjson nr src)"
  by (simp add: row_ok_def new_word_row_def)

lemma words_inv_insert:
  assumes "words_inv s"
  shows "words_inv (snd (insert_word c s uid text lang k cjson nr src))"
  using assms row_ok_new
  by (auto simp: insert_word_def words_inv_def new_word_row_def word_key_def same_key_def less_le
      intro: order.strict_trans)

section \<open>Scheduling\<close>

lemma schedule_ok:
  "\<exists>n. schedule st now = Inr (n, trunc_seconds (n - now)) \<and> now < n \<and> n \<le> now + 365 * day_us"
proof -
  define i where "i = min (max 0.1 st) (365::real)"
  have i: "0.1 \<le> i" "i \<le> 365" by (auto simp: i_def)
  have e: "compute_interval st None DEFAULT_FSRS_CONFIG = Inr i"
    by (simp add: interval_default i_def)
  let ?n = "if i < 1 then now + py_round (i * of_int day_us) else now + max 1 (py_round i) * day_us"
  have "8640000000 \<le> py_round (i * of_int day_us)"
    using i by (intro py_round_ge) (simp add: day_us_def)
  moreover have "py_round (i * of_int day_us) \<le> day_us" if "i < 1"
    using that by (intro py_round_le) (simp add: day_us_def)
  moreover have "py_round i \<le> 365" using i by (intro py_round_le) simp
  ultimately have "now < ?n" and "?n \<le> now + 365 * day_us"
    by (auto simp: day_us_def max_def)
  then show ?thesis by (simp add: schedule_def e Let_def)
qed

section \<open>The common tail of the two grade operations\<close>

text \<open>The row a successful grade writes.\<close>

definition graded_row ::
    "('a clock_scheme) \<Rightarrow> int \<Rightarrow> real \<Rightarrow> real \<Rightarrow> int option \<Rightarrow> instant \<Rightarrow> bool \<Rightarrow> word_row \<Rightarrow> word_row" where
  "graded_row c grade st d fe_done n with_event r =
     r\<lparr>w_fe_done := (case fe_done of None \<Rightarrow> w_fe_done r | Some v \<Rightarrow> Some v),
       w_last_at := Some (Stamp (utc_now c)), w_next_at := Some (Stamp n),
       w_next_review := Some (isoformat (app_date c n)), w_stability := Some st, w_difficulty := Some d,
       w_status := Some ''idle'', w_requested_at := None, w_retry_at := None, w_retry_attempts := 0,
       w_total := w_total r + (if with_event then 1 else 0),
       w_lapses := w_lapses r + (if with_event \<and> grade = 1 then 1 else 0)\<rparr>"

lemma is_lapse_grade: "is_lapse (Some g) x \<longleftrightarrow> g = 1"
  by (simp add: is_lapse_def)

lemma mark_word_graded_frame [simp]:
  "words (mark_word_graded s uid wid a t) = words s" "events (mark_word_graded s uid wid a t) = events s"
  "users (mark_word_graded s uid wid a t) = users s" "queries (mark_word_graded s uid wid a t) = queries s"
  "studies (mark_word_graded s uid wid a t) = studies s"
  "next_word_id (mark_word_graded s uid wid a t) = next_word_id s"
  "next_event_id (mark_word_graded s uid wid a t) = next_event_id s"
  by (simp_all add: mark_word_graded_def)

lemma mark_word_graded_marks: "is_word_graded (mark_word_graded s uid wid a t) uid wid a"
  by (auto simp: mark_word_graded_def is_word_graded_def)

lemma mark_word_graded_keeps: "is_word_graded s u v b \<Longrightarrow> is_word_graded (mark_word_graded s uid wid a t) u v b"
  by (auto simp: mark_word_graded_def is_word_graded_def)

lemma insert_review_event_frame [simp]:
  "users (insert_review_event s wid uid g a src raw ms t) = users s"
  "ledger (insert_review_event s wid uid g a src raw ms t) = ledger s"
  "queries (insert_review_event s wid uid g a src raw ms t) = queries s"
  "studies (insert_review_event s wid uid g a src raw ms t) = studies s"
  "next_word_id (insert_review_event s wid uid g a src raw ms t) = next_word_id s"
  by (simp_all add: insert_review_event_def Let_def)

lemma touch_streak_in_txn_frame:
  assumes "touch_streak_in_txn c s uid d = Inr (n, s')"
  shows "words s' = words s" "events s' = events s" "ledger s' = ledger s"
    "queries s' = queries s" "next_word_id s' = next_word_id s" "next_event_id s' = next_event_id s"
  using assms by (auto simp: touch_streak_in_txn_def Let_def py_bind_Inr_iff split: option.splits)

definition clock_ok :: "('a clock_scheme) \<Rightarrow> bool" where
  "clock_ok c \<longleftrightarrow> valid_date (today c) \<and> today c \<noteq> (1, 1, 1)"

lemma words_insert_event:
  "words (insert_review_event s wid uid g a src raw ms t) =
   update_where (own_word wid uid)
     (\<lambda>r. r\<lparr>w_total := w_total r + 1, w_lapses := w_lapses r + (if g = 1 then 1 else 0)\<rparr>) (words s)"
  by (simp add: insert_review_event_def Let_def is_lapse_grade update_where_def)

lemma finish_grade_ok:
  assumes "clock_ok c" and "find (own_word wid uid) (words s) = Some row"
  shows "\<exists>n s'. finish_grade c s wid g uid act st d fe src raw ms ws =
      Inr (\<lparr>g_ok = True, g_reason = '''', g_next_at = Some n, g_interval_s = Some (trunc_seconds (n - utc_now c))\<rparr>, s') \<and>
    utc_now c < n \<and> n \<le> utc_now c + 365 * day_us \<and>
    words s' = update_where (own_word wid uid) (graded_row c g st d fe n (src \<noteq> None)) (words s) \<and>
    next_word_id s' = next_word_id s \<and>
    length (events s') = length (events s) + (if src = None then 0 else 1) \<and>
    is_word_graded s' uid wid act"
proof -
  obtain n where n: "schedule st (utc_now c) = Inr (n, trunc_seconds (n - utc_now c))"
    "utc_now c < n" "n \<le> utc_now c + 365 * day_us"
    using schedule_ok by blast
  define s1 where "s1 = snd (apply_scheduling_fields s wid uid st d (utc_now c) n (isoformat (app_date c n)) fe)"
  define s2 where "s2 = mark_word_graded s1 uid wid act (utc_now c)"
  define s3 where "s3 = (case src of None \<Rightarrow> s2
    | Some x \<Rightarrow> insert_review_event s2 wid uid g act x raw ms (utc_now c))"
  have cnt: "count_where (own_word wid uid) (words s) \<noteq> 0"
    using find_Some_D [OF assms(2)] by (auto simp: count_where_0_iff)
  have s1: "next_word_id s1 = next_word_id s" "events s1 = events s"
    by (simp_all add: s1_def apply_scheduling_fields_def)
  have w1: "words s1 = update_where (own_word wid uid) (graded_row c g st d fe n False) (words s)"
    by (simp add: s1_def apply_scheduling_fields_def graded_row_def update_where_def)
  have w3: "words s3 = update_where (own_word wid uid) (graded_row c g st d fe n (src \<noteq> None)) (words s)"
    using w1
    by (cases src) (simp_all add: s3_def s2_def words_insert_event update_where_def own_word_def graded_row_def)
  have f3: "next_word_id s3 = next_word_id s" "length (events s3) = length (events s) + (if src = None then 0 else 1)"
    "is_word_graded s3 uid wid act"
    using s1 mark_word_graded_marks [of s1 uid wid act]
    by (auto simp: s3_def s2_def insert_review_event_def Let_def is_word_graded_def split: option.splits)
  obtain k s4 where t: "touch_streak_in_txn c s3 uid None = Inr (k, s4)"
    using touch_streak_total [of c s3 uid] assms(1) unfolding clock_ok_def touch_streak_def by blast
  define s5 where "s5 = (if ws then s4 else s3)"
  have f5: "words s5 = words s3" "events s5 = events s3" "ledger s5 = ledger s3" "next_word_id s5 = next_word_id s3"
    using touch_streak_in_txn_frame [OF t] by (simp_all add: s5_def)
  have a: "apply_scheduling_fields s wid uid st d (utc_now c) n (isoformat (app_date c n)) fe =
      (count_where (own_word wid uid) (words s), s1)"
    by (simp add: s1_def apply_scheduling_fields_def)
  have t5: "(if ws then map_sum id snd (touch_streak_in_txn c s3 uid None) else Inr s3) = Inr s5"
    by (simp add: t s5_def)
  have "finish_grade c s wid g uid act st d fe src raw ms ws = Inr (\<lparr>g_ok = True, g_reason = '''',
      g_next_at = Some n, g_interval_s = Some (trunc_seconds (n - utc_now c))\<rparr>, s5)"
    unfolding finish_grade_def Let_def n(1) a py_bind.simps prod.case s2_def [symmetric] s3_def [symmetric] t5
    using cnt by simp
  then show ?thesis using n w3 f3 f5 by (auto simp: is_word_graded_def)
qed


section \<open>A grade on a card in the right state never fails\<close>

text \<open>A card past its first exposure, as the row invariant has it.\<close>

lemma row_ok_exposed:
  assumes "row_ok r" and "or_else (w_fe_done r) 0 \<noteq> 0"
  obtains st d t where "w_stability r = Some st" "0 < st" "w_difficulty r = Some d" "1 \<le> d" "d \<le> 10"
    "w_last_at r = Some (Stamp t)"
  using assms by (auto simp: row_ok_def)

lemma row_ok_graded:
  "0 < st \<Longrightarrow> 1 \<le> d \<Longrightarrow> d \<le> 10 \<Longrightarrow> row_ok (graded_row c g st d fe n ev r)"
  by (simp add: row_ok_def graded_row_def)

text \<open>The new stability of a review, on whichever of the two formulas the elapsed time selects.\<close>

definition review_stability :: "real \<Rightarrow> real \<Rightarrow> real \<Rightarrow> int \<Rightarrow> real py" where
  "review_stability elapsed_days s_old d_old grade =
     (if elapsed_days < 1 then short_term_stability s_old grade DEFAULT_FSRS_CONFIG
      else py_bind (compute_retrievability elapsed_days s_old DEFAULT_FSRS_CONFIG)
             (\<lambda>r. update_stability d_old s_old r grade DEFAULT_FSRS_CONFIG))"

lemma review_stability_pos:
  assumes "0 < s_old" and "0 < d_old"
  shows "\<exists>st. review_stability e s_old d_old g = Inr st \<and> 0 < st"
  using assms short_term_pos update_stability_pos
  by (simp add: review_stability_def retrievability_eq)

lemma words_inv_graded:
  assumes "words_inv s" and "words s' = update_where (own_word wid uid) (graded_row c g st d fe n ev) (words s)"
    and "next_word_id s' = next_word_id s" and "0 < st" "1 \<le> d" "d \<le> 10"
  shows "words_inv s'"
  by (rule words_inv_update [OF assms(1,2,3)])
    (simp_all add: row_ok_graded assms(4-6), simp_all add: graded_row_def word_key_def)

text \<open>
  What a tap that was accepted did: the card is scheduled between now and a year from now,
  its memory state is in range, it is idle and exposed, the counters and the event log grew
  by the one event when the tap is a graded one, the ledger knows the word, and no other
  card changed.
\<close>

definition tap_done ::
    "('a clock_scheme) \<Rightarrow> db \<Rightarrow> int \<Rightarrow> int \<Rightarrow> int \<Rightarrow> string \<Rightarrow> string option \<Rightarrow> grade_result \<Rightarrow> db \<Rightarrow> bool" where
  "tap_done c s wid grade uid activity src res s' \<longleftrightarrow>
     (\<exists>n row row'. find (own_word wid uid) (words s) = Some row \<and>
        find (own_word wid uid) (words s') = Some row' \<and>
        g_ok res \<and> g_next_at res = Some n \<and> utc_now c < n \<and> n \<le> utc_now c + 365 * day_us \<and>
        w_next_at row' = Some (Stamp n) \<and> w_last_at row' = Some (Stamp (utc_now c)) \<and>
        w_status row' = Some ''idle'' \<and> or_else (w_fe_done row') 0 \<noteq> 0 \<and> row_ok row' \<and>
        w_total row' = w_total row + (if src = None then 0 else 1) \<and>
        w_lapses row' = w_lapses row + (if src \<noteq> None \<and> grade = 1 then 1 else 0)) \<and>
     filter (\<lambda>r. \<not> own_word wid uid r) (words s') = filter (\<lambda>r. \<not> own_word wid uid r) (words s) \<and>
     length (events s') = length (events s) + (if src = None then 0 else 1) \<and>
     is_word_graded s' uid wid activity \<and> words_inv s'"

lemma own_word_graded: "own_word wid uid (graded_row c g st d fe n ev r) = own_word wid uid r"
  by (simp add: own_word_def graded_row_def)

lemma graded_row_fields [simp]:
  "w_next_at (graded_row c g st d fe n ev r) = Some (Stamp n)"
  "w_last_at (graded_row c g st d fe n ev r) = Some (Stamp (utc_now c))"
  "w_status (graded_row c g st d fe n ev r) = Some ''idle''"
  "w_fe_done (graded_row c g st d fe n ev r) = (case fe of None \<Rightarrow> w_fe_done r | Some v \<Rightarrow> Some v)"
  "w_total (graded_row c g st d fe n ev r) = w_total r + (if ev then 1 else 0)"
  "w_lapses (graded_row c g st d fe n ev r) = w_lapses r + (if ev \<and> g = 1 then 1 else 0)"
  "w_id (graded_row c g st d fe n ev r) = w_id r" "word_key (graded_row c g st d fe n ev r) = word_key r"
  by (simp_all add: graded_row_def word_key_def)

lemma finish_grade_done:
  assumes "clock_ok c" and "words_inv s" and "find (own_word wid uid) (words s) = Some row"
    and "0 < st" "1 \<le> d" "d \<le> 10" and "or_else (case fe of None \<Rightarrow> w_fe_done row | Some v \<Rightarrow> Some v) 0 \<noteq> 0"
  shows "\<exists>res s'. finish_grade c s wid g uid act st d fe src raw ms ws = Inr (res, s') \<and>
    tap_done c s wid g uid act src res s'"
proof -
  let ?upd = "graded_row c g st d fe"
  obtain n s' where f: "finish_grade c s wid g uid act st d fe src raw ms ws =
      Inr (\<lparr>g_ok = True, g_reason = '''', g_next_at = Some n, g_interval_s = Some (trunc_seconds (n - utc_now c))\<rparr>, s')"
    and n: "utc_now c < n" "n \<le> utc_now c + 365 * day_us"
    and w: "words s' = update_where (own_word wid uid) (?upd n (src \<noteq> None)) (words s)"
    and r: "next_word_id s' = next_word_id s"
      "length (events s') = length (events s) + (if src = None then 0 else 1)"
      "is_word_graded s' uid wid act"
    using finish_grade_ok [OF assms(1,3)] by blast
  have "find (own_word wid uid) (words s') = Some (?upd n (src \<noteq> None) row)"
    unfolding w using assms(3) by (rule find_update_where_Some) (simp add: own_word_graded)
  moreover have "filter (\<lambda>r. \<not> own_word wid uid r) (words s') = filter (\<lambda>r. \<not> own_word wid uid r) (words s)"
    unfolding w by (rule filter_not_update_where) (simp add: own_word_graded)
  moreover have "words_inv s'"
    by (rule words_inv_graded [OF assms(2) w r(1) assms(4-6)])
  ultimately show ?thesis
    using f n r(2,3) assms(3,7) row_ok_graded [OF assms(4-6)]
    by (auto simp: tap_done_def)
qed

lemma grade_word_review_eq:
  assumes "find (own_word wid uid) (words s) = Some row" and "or_else (w_fe_done row) 0 \<noteq> 0"
    and "w_stability row = Some st" "w_difficulty row = Some d" "w_last_at row = Some (Stamp t)"
  shows "grade_word_review c s wid g uid src raw ms ws =
    py_bind (validate_grade g) (\<lambda>_. py_bind (review_stability (max 0 (days_between (utc_now c) t)) st d g)
      (\<lambda>s_new. finish_grade c s wid g uid ''srs_review'' s_new (update_difficulty d g DEFAULT_FSRS_CONFIG)
                 None src raw ms ws))"
  unfolding grade_word_review_def review_stability_def Let_def using assms by simp

lemma grade_word_review_done:
  assumes "clock_ok c" and "words_inv s" and "g \<in> {1, 2, 3, 4}"
    and "find (own_word wid uid) (words s) = Some row" and "or_else (w_fe_done row) 0 \<noteq> 0"
  shows "\<exists>res s'. grade_word_review c s wid g uid src raw ms ws = Inr (res, s') \<and>
    tap_done c s wid g uid ''srs_review'' src res s'"
proof -
  have "row_ok row" using assms(2,4) find_Some_D by (fastforce simp: words_inv_def)
  then obtain st d t where r: "w_stability row = Some st" "0 < st" "w_difficulty row = Some d" "1 \<le> d" "d \<le> 10"
    "w_last_at row = Some (Stamp t)"
    using assms(5) row_ok_exposed by blast
  let ?e = "max 0 (days_between (utc_now c) t)" and ?d = "update_difficulty d g DEFAULT_FSRS_CONFIG"
  obtain st' where st': "review_stability ?e st d g = Inr st'" "0 < st'"
    using review_stability_pos [of st d ?e g] r by auto
  have "grade_word_review c s wid g uid src raw ms ws =
      finish_grade c s wid g uid ''srs_review'' st' ?d None src raw ms ws"
    unfolding grade_word_review_eq [OF assms(4,5) r(1,3,6)] using assms(3) st'(1)
    by (simp add: validate_grade_def)
  then show ?thesis
    using finish_grade_done [OF assms(1,2,4) st'(2), of ?d None] update_difficulty_range assms(5) by simp
qed

lemma grade_first_exposure_done:
  assumes "clock_ok c" and "words_inv s" and "g \<in> {1, 2, 3, 4}"
    and "find (own_word wid uid) (words s) = Some row" and "or_else (w_fe_done row) 0 = 0"
  shows "\<exists>res s'. grade_first_exposure c s wid g uid src raw ms ws = Inr (res, s') \<and>
    tap_done c s wid g uid ''first_exposure'' src res s'"
proof -
  obtain st where st: "initial_stability_first_exposure g DEFAULT_FSRS_CONFIG = Inr st" "0 < st"
    using first_exposure_ok [OF assms(3)] by blast
  have "grade_first_exposure c s wid g uid src raw ms ws = finish_grade c s wid g uid ''first_exposure'' st
      (initial_difficulty g DEFAULT_FSRS_CONFIG) (Some 1) src raw ms ws"
    using assms(3-5) st(1) by (simp add: grade_first_exposure_def validate_grade_def)
  then show ?thesis
    using finish_grade_done [OF assms(1,2,4) st(2), of "initial_difficulty g DEFAULT_FSRS_CONFIG" "Some 1"]
      initial_difficulty_range by simp
qed

section \<open>A refused grade changes nothing\<close>

lemma finish_grade_refused:
  "finish_grade c s wid g uid act st d fe src raw ms ws = Inr (res, s') \<Longrightarrow> \<not> g_ok res \<Longrightarrow> s' = s"
  by (auto simp: finish_grade_def apply_scheduling_fields_def Let_def py_bind_Inr_iff split: if_splits)

lemma grade_word_review_refused:
  "grade_word_review c s wid g uid src raw ms ws = Inr (res, s') \<Longrightarrow> \<not> g_ok res \<Longrightarrow> s' = s"
  unfolding grade_word_review_def Let_def
  by (auto simp: py_bind_Inr_iff split: option.splits if_splits dest: finish_grade_refused)

lemma grade_first_exposure_refused:
  "grade_first_exposure c s wid g uid src raw ms ws = Inr (res, s') \<Longrightarrow> \<not> g_ok res \<Longrightarrow> s' = s"
  unfolding grade_first_exposure_def Let_def
  by (auto simp: py_bind_Inr_iff split: option.splits if_splits dest: finish_grade_refused)


section \<open>Looking words up and removing them\<close>

lemma words_inv_distinct: "words_inv s \<Longrightarrow> distinct (map w_id (words s))"
  by (simp add: words_inv_def)

lemma map_of_rows:
  assumes "distinct (map w_id rows)" and "set xs \<subseteq> set rows"
  shows "map_of (map (\<lambda>r. (w_id r, r)) xs) i = find (\<lambda>r. w_id r = i \<and> r \<in> set xs) rows"
proof (cases "\<exists>r \<in> set xs. w_id r = i")
  case True
  then obtain r where r: "r \<in> set xs" "w_id r = i" by blast
  have uniq: "r' = r" if "r' \<in> set rows" "w_id r' = i" for r'
    using that r assms by (metis distinct_map inj_onD subsetD)
  have "find (\<lambda>r. w_id r = i \<and> r \<in> set xs) rows \<noteq> None"
    using r assms(2) by (auto simp: find_None_iff)
  then have "find (\<lambda>r. w_id r = i \<and> r \<in> set xs) rows = Some r"
    using uniq find_Some_D by fastforce
  moreover obtain r' where m: "map_of (map (\<lambda>r. (w_id r, r)) xs) i = Some r'"
    using r by (cases "map_of (map (\<lambda>r. (w_id r, r)) xs) i") (auto simp: map_of_eq_None_iff image_iff)
  have "r' \<in> set xs" and "w_id r' = i" using map_of_SomeD [OF m] by auto
  then have "r' = r" using uniq assms(2) by blast
  with m have "map_of (map (\<lambda>r. (w_id r, r)) xs) i = Some r" by simp
  ultimately show ?thesis by simp
next
  case False
  then have "map_of (map (\<lambda>r. (w_id r, r)) xs) i = None"
    by (auto simp: map_of_eq_None_iff)
  moreover have "find (\<lambda>r. w_id r = i \<and> r \<in> set xs) rows = None"
    using False by (auto simp: find_None_iff)
  ultimately show ?thesis by simp
qed

lemma find_cong_set: "(\<And>x. x \<in> set xs \<Longrightarrow> p x = q x) \<Longrightarrow> find p xs = find q xs"
  by (induction xs) auto

lemma map_filter_cong_set: "(\<And>x. x \<in> set xs \<Longrightarrow> f x = g x) \<Longrightarrow> List.map_filter f xs = List.map_filter g xs"
  by (induction xs) (auto simp: List.map_filter_simps split: option.splits)

lemma fetched_rows:
  "set (concat (map (\<lambda>chunk. filter (\<lambda>r. w_user r = uid \<and> w_id r \<in> set chunk) rows) (chunks n ids))) =
   {r \<in> set rows. w_user r = uid \<and> w_id r \<in> set ids}"
proof -
  have "(\<Union>chunk \<in> set (chunks n ids). set chunk) = set ids" using concat_chunks [of n ids] unfolding set_concat [symmetric] by simp
  then show ?thesis by auto
qed

lemma get_saved_words_by_ids_eq:
  assumes "words_inv s"
  shows "get_saved_words_by_ids s ids uid = List.map_filter (\<lambda>i. get_saved_word s i (Some uid)) ids"
proof -
  let ?xs = "concat (map (\<lambda>chunk. filter (\<lambda>r. w_user r = uid \<and> w_id r \<in> set chunk) (words s)) (chunks 500 ids))"
  have set: "set (rev ?xs) = {r \<in> set (words s). w_user r = uid \<and> w_id r \<in> set ids}"
    using fetched_rows [of uid "words s" 500 ids] by simp
  have sub: "set (rev ?xs) \<subseteq> set (words s)" unfolding set by blast
  have look: "map_of (rev (map (\<lambda>r. (w_id r, r)) ?xs)) i = get_saved_word s i (Some uid)" if "i \<in> set ids" for i
    unfolding rev_map map_of_rows [OF words_inv_distinct [OF assms] sub] get_saved_word_def set
    using that by (auto intro!: find_cong_set)
  have "List.map_filter (map_of (rev (map (\<lambda>r. (w_id r, r)) ?xs))) ids =
      List.map_filter (\<lambda>i. get_saved_word s i (Some uid)) ids"
    using look by (rule map_filter_cong_set)
  then show ?thesis by (simp add: get_saved_words_by_ids_def Let_def)
qed

text \<open>Toggling a word on and off again.\<close>

lemma insert_word_fresh:
  assumes "\<forall>r \<in> set (words s). \<not> same_key uid lang k r"
  shows "insert_word c s uid text lang k cjson nr src = (True,
    s\<lparr>words := words s @ [new_word_row c (next_word_id s) uid text lang k cjson nr src],
      next_word_id := next_word_id s + 1\<rparr>)"
  using assms by (auto simp: insert_word_def)

lemma same_key_new: "same_key uid lang k (new_word_row c wid uid text lang k cjson nr src)"
  by (simp add: same_key_def new_word_row_def)

lemma toggle_removes:
  assumes "words_inv s" and "normalize_word u text = k" "k \<noteq> ''''"
    and "find (same_key uid lang k) (words s) = Some r"
  shows "\<exists>s'. toggle_review_word c u s uid text lang cd src = Inr (Removed, s') \<and>
    words s' = filter (\<lambda>x. w_id x \<noteq> w_id r) (words s) \<and> find (same_key uid lang k) (words s') = None"
proof -
  have "distinct (map word_key (words s))" using assms(1) by (simp add: words_inv_def)
  then have "\<forall>x \<in> set (words s). same_key uid lang k x \<longrightarrow> x = r"
    using find_Some_D [OF assms(4)] by (auto simp: same_key_iff distinct_map inj_on_def)
  then show ?thesis
    using assms(2-4) by (auto simp: toggle_review_word_def delete_where_def find_None_iff)
qed

text \<open>The rows that the query's text filter drops although Python would fall back to the day column: the
  stored text is no timestamp for Python, but it looks like one, SQLite's \<open>datetime\<close> accepts it (the
  30th of February, say, rolls over) and it is greater than the text of tomorrow.\<close>

definition hidden_by_filter :: "('a clock_scheme) \<Rightarrow> word_row \<Rightarrow> bool" where
  "hidden_by_filter c r \<longleftrightarrow>
     (case w_next_at r of Some (BadStamp v) \<Rightarrow>
        sql_datetime_ok c v \<and> like_iso v \<and> stamp_text c (Stamp (utc_now c + day_us)) < v
      | _ \<Rightarrow> False)"

lemma row_effective_due_prefilter:
  assumes "row_effective_due c r = Some t" and "\<And>a b. a \<le> b \<Longrightarrow> stamp_text c (Stamp a) \<le> stamp_text c (Stamp b)"
  shows "due_prefilter c r \<longleftrightarrow> \<not> hidden_by_filter c r"
proof (cases "w_next_at r")
  case None
  then show ?thesis by (simp add: due_prefilter_def hidden_by_filter_def)
next
  case (Some st)
  show ?thesis
  proof (cases st)
    case (Stamp x)
    then have "x \<le> utc_now c" using assms(1) Some
      by (auto simp: row_effective_due_def split: if_splits)
    then have "stamp_text c (Stamp x) \<le> stamp_text c (Stamp (utc_now c + day_us))"
      by (intro assms(2)) (simp add: day_us_def)
    then show ?thesis using Some Stamp by (simp add: due_prefilter_def hidden_by_filter_def del: stamp_text.simps)
  next
    case (BadStamp v)
    then show ?thesis using Some
      by (auto simp: due_prefilter_def hidden_by_filter_def not_le simp del: stamp_text.simps(1))
  qed
qed

lemma row_priority_key_total: "\<exists>k. row_priority_key c r t = Inr k"
  by (simp add: row_priority_key_def Let_def retrievability_eq)

text \<open>The key of a row on which it never raises.\<close>

definition priority_of :: "('a clock_scheme) \<Rightarrow> word_row \<Rightarrow> instant \<Rightarrow> real \<times> real \<times> instant \<times> int" where
  "priority_of c r t = (case row_priority_key c r t of Inr k \<Rightarrow> k | Inl _ \<Rightarrow> (0, 0, 0, 0))"

lemma row_priority_key_eq: "row_priority_key c r t = Inr (priority_of c r t)"
  using row_priority_key_total [of c r t] by (auto simp: priority_of_def)

lemma due_words_eq:
  "due_words_for_user c s uid lang = Inr (map snd (sort_key fst (map (\<lambda>(r, t). (priority_of c r t, r))
     (List.map_filter (\<lambda>r. map_option (\<lambda>t. (r, t)) (row_effective_due c r))
        (filter (\<lambda>r. due_candidate c uid lang r \<and> due_prefilter c r) (words s))))))"
proof -
  have "py_mapM (\<lambda>(r, t). py_bind (row_priority_key c r t) (\<lambda>k. Inr (k, r))) xs =
      Inr (map (\<lambda>(r, t). (priority_of c r t, r)) xs)" for xs
    by (rule py_mapM_Inr) (auto simp: row_priority_key_eq)
  then show ?thesis by (simp add: due_words_for_user_def Let_def)
qed

lemma set_map_filter: "set (List.map_filter f xs) = {y. \<exists>x \<in> set xs. f x = Some y}"
  by (auto simp: List.map_filter_def image_iff) (metis option.sel)


section \<open>Properties\<close>

text \<open>C1: a tap on a card has exactly the documented outcomes, in every state that keeps the
  table invariant: an unknown activity or a grade outside 1 to 4 raises \<open>ValueError\<close>; a word
  that is not the user's is \<open>not_found\<close>; a review of a card before its first exposure, and a
  first exposure of a card after it, are \<open>wrong_state\<close>, and in all these cases the database
  stays as it was; every other tap is accepted and done completely. No float error of the
  memory model escapes.\<close>

theorem grade_tap_outcome:
  assumes "clock_ok c" and "words_inv s"
  shows "if activity \<notin> {''srs_review'', ''first_exposure''} \<or> g \<notin> {1, 2, 3, 4}
    then grade_tap c s wid g uid activity src raw ms ws = Inl ValueError
    else case find (own_word wid uid) (words s) of
      None \<Rightarrow> grade_tap c s wid g uid activity src raw ms ws = Inr (grade_failed ''not_found'', s)
    | Some row \<Rightarrow>
        if (activity = ''srs_review'') = (or_else (w_fe_done row) 0 = 0)
        then grade_tap c s wid g uid activity src raw ms ws = Inr (grade_failed ''wrong_state'', s)
        else \<exists>res s'. grade_tap c s wid g uid activity src raw ms ws = Inr (res, s') \<and>
               tap_done c s wid g uid activity src res s'"
proof (cases "activity \<notin> {''srs_review'', ''first_exposure''} \<or> g \<notin> {1, 2, 3, 4}")
  case True
  then show ?thesis
    by (auto simp: grade_tap_def grade_word_review_def grade_first_exposure_def validate_grade_def)
next
  case False
  then have g: "g \<in> {1, 2, 3, 4}" and v: "validate_grade g = Inr ()"
    and a: "activity = ''srs_review'' \<or> activity = ''first_exposure''" by (auto simp: validate_grade_def)
  show ?thesis
  proof (cases "find (own_word wid uid) (words s)")
    case None
    then show ?thesis using False a v
      by (auto simp: grade_tap_def grade_word_review_def grade_first_exposure_def)
  next
    case (Some row)
    show ?thesis
    proof (cases "or_else (w_fe_done row) 0 = 0")
      case True
      then show ?thesis using False a v Some grade_first_exposure_done [OF assms g Some True]
        by (auto simp: grade_tap_def grade_word_review_def)
    next
      case exposed: False
      then show ?thesis using False a v Some grade_word_review_done [OF assms g Some exposed]
        by (auto simp: grade_tap_def grade_first_exposure_def)
    qed
  qed
qed

text \<open>A database with one fresh card and its owner, for the witnesses.\<close>

definition fresh_card_db :: db where
  "fresh_card_db = (sample_user_db None 0)\<lparr>words :=
     [new_word_row (clock_at 0 (2026, 1, 1)) 7 1 ''salt'' ''en'' ''salt'' None ''2026-01-02'' ''manual''],
     next_word_id := 8\<rparr>"

lemma fresh_card_inv: "words_inv fresh_card_db"
  by (simp add: fresh_card_db_def words_inv_def row_ok_new) (simp add: new_word_row_def)

lemma clock_ok_at: "clock_ok (clock_at t (2026, 1, 1))"
  by (simp add: clock_ok_def days_in_month_def)

lemma fresh_card_find:
  "find (own_word 7 1) (words fresh_card_db) =
   Some (new_word_row (clock_at 0 (2026, 1, 1)) 7 1 ''salt'' ''en'' ''salt'' None ''2026-01-02'' ''manual'')"
  by (simp add: fresh_card_db_def own_word_def new_word_row_def)

lemma fresh_card_unexposed [simp]: "w_fe_done (new_word_row c i u a b k cj nr src) = Some 0"
  by (simp add: new_word_row_def)

theorem grade_tap_outcome_witness:
  "(\<exists>res s'. grade_tap (clock_at 0 (2026, 1, 1)) fresh_card_db 7 3 1 ''first_exposure'' (Some ''button'') None None True
      = Inr (res, s') \<and>
    tap_done (clock_at 0 (2026, 1, 1)) fresh_card_db 7 3 1 ''first_exposure'' (Some ''button'') res s') \<and>
   grade_tap (clock_at 0 (2026, 1, 1)) fresh_card_db 7 3 1 ''srs_review'' None None None True =
     Inr (grade_failed ''wrong_state'', fresh_card_db)"
  using grade_tap_outcome [OF clock_ok_at [of 0] fresh_card_inv, of "''first_exposure''" 3 7 1 "Some ''button''" None None True]
    grade_tap_outcome [OF clock_ok_at [of 0] fresh_card_inv, of "''srs_review''" 3 7 1 None None None True]
  by (simp add: fresh_card_find)

text \<open>The first exposure of a card happens once. After an accepted one, a second is refused
  as \<open>wrong_state\<close> at any later time, and a review, refused before, is now accepted.\<close>

theorem first_exposure_happens_once:
  assumes "clock_ok c" and "clock_ok c2" and "words_inv s" and "g2 \<in> {1, 2, 3, 4}"
    and "grade_first_exposure c s wid g uid src raw ms ws = Inr (res, s')" and "g_ok res"
  shows "grade_first_exposure c2 s' wid g2 uid src2 raw2 ms2 ws2 = Inr (grade_failed ''wrong_state'', s') \<and>
    grade_word_review c s wid g2 uid src2 raw2 ms2 ws2 = Inr (grade_failed ''wrong_state'', s) \<and>
    (\<exists>res2 s2. grade_word_review c2 s' wid g2 uid src2 raw2 ms2 ws2 = Inr (res2, s2) \<and> g_ok res2)"
proof -
  have g: "g \<in> {1, 2, 3, 4}"
    using assms(5) by (auto simp: grade_first_exposure_def py_bind_Inr_iff validate_grade_def split: if_splits)
  obtain row where row: "find (own_word wid uid) (words s) = Some row" "or_else (w_fe_done row) 0 = 0"
    using assms(5,6) by (auto simp: grade_first_exposure_def grade_failed_def py_bind_Inr_iff split: option.splits if_splits)
  have accepted: "tap_done c s wid g uid ''first_exposure'' src res s'"
    using grade_first_exposure_done [OF assms(1,3) g row, of src raw ms ws] assms(5) by auto
  then obtain row' where row': "find (own_word wid uid) (words s') = Some row'" "or_else (w_fe_done row') 0 \<noteq> 0"
    and inv: "words_inv s'" by (auto simp: tap_done_def)
  have v: "validate_grade g2 = Inr ()" using assms(4) by (simp add: validate_grade_def)
  have "\<exists>res2 s2. grade_word_review c2 s' wid g2 uid src2 raw2 ms2 ws2 = Inr (res2, s2) \<and> g_ok res2"
    using grade_word_review_done [OF assms(2) inv assms(4) row', of src2 raw2 ms2 ws2]
    by (auto simp: tap_done_def)
  then show ?thesis
    using row row' v by (simp add: grade_first_exposure_def grade_word_review_def)
qed

theorem first_exposure_happens_once_witness:
  "\<exists>res s' res2 s2. grade_first_exposure (clock_at 0 (2026, 1, 1)) fresh_card_db 7 3 1 None None None False = Inr (res, s') \<and>
     grade_first_exposure (clock_at 9 (2026, 1, 1)) s' 7 2 1 None None None False = Inr (grade_failed ''wrong_state'', s') \<and>
     grade_word_review (clock_at 9 (2026, 1, 1)) s' 7 2 1 None None None False = Inr (res2, s2)"
proof -
  obtain res s' where f: "grade_first_exposure (clock_at 0 (2026, 1, 1)) fresh_card_db 7 3 1 None None None False = Inr (res, s')"
    and d: "tap_done (clock_at 0 (2026, 1, 1)) fresh_card_db 7 3 1 ''first_exposure'' None res s'"
    using grade_first_exposure_done [OF clock_ok_at [of 0] fresh_card_inv _ fresh_card_find, of 3 None None None False] by auto
  have "g_ok res" using d by (auto simp: tap_done_def)
  then show ?thesis
    using f first_exposure_happens_once [OF clock_ok_at [of 0] clock_ok_at [of 9] fresh_card_inv _ f, of 2 None None None False]
    by auto
qed


text \<open>Fetching words by id in batches of 500 returns, in the order of the ids, exactly what
  looking each id up on its own returns: the user's own rows, the missing ids skipped.\<close>

theorem get_saved_words_by_ids_direct:
  assumes "words_inv s"
  shows "get_saved_words_by_ids s ids uid = map the (filter (\<lambda>r. r \<noteq> None) (map (\<lambda>i. get_saved_word s i (Some uid)) ids))"
  unfolding get_saved_words_by_ids_eq [OF assms]
  by (induction ids) (auto simp: List.map_filter_simps)

theorem get_saved_words_by_ids_direct_witness:
  "map w_id (get_saved_words_by_ids fresh_card_db [9, 7, 3] 1) = [7]"
  unfolding get_saved_words_by_ids_direct [OF fresh_card_inv]
  by (simp add: get_saved_word_def fresh_card_db_def new_word_row_def)

text \<open>C29: which cards the due list holds. It never raises, and its rows, least recallable card first,
  are exactly the user's exposed, idle, not retrying cards of the language whose due time has come,
  except those that \<open>hidden_by_filter\<close> names: a card whose stored timestamp Python cannot read is due
  by its day column, but the query's text filter has already dropped it when SQLite can read the
  text and the text lies after tomorrow. (The hypothesis: timestamps compare as texts the way they
  compare in time, as the ISO texts that the program writes do.)\<close>

theorem due_words_complete_and_sorted:
  assumes "\<And>a b. a \<le> b \<Longrightarrow> stamp_text c (Stamp a) \<le> stamp_text c (Stamp b)"
  shows "\<exists>rows. due_words_for_user c s uid lang = Inr rows \<and>
    set rows = {r \<in> set (words s). due_candidate c uid lang r \<and> row_effective_due c r \<noteq> None \<and> \<not> hidden_by_filter c r} \<and>
    length rows = count_where (\<lambda>r. due_candidate c uid lang r \<and> row_effective_due c r \<noteq> None \<and> \<not> hidden_by_filter c r) (words s) \<and>
    sorted (map (\<lambda>r. priority_of c r (the (row_effective_due c r))) rows)"
proof -
  let ?due = "\<lambda>r. due_candidate c uid lang r \<and> row_effective_due c r \<noteq> None \<and> \<not> hidden_by_filter c r"
  let ?el = "List.map_filter (\<lambda>r. map_option (\<lambda>t. (r, t)) (row_effective_due c r))
      (filter (\<lambda>r. due_candidate c uid lang r \<and> due_prefilter c r) (words s))"
  let ?keyed = "map (\<lambda>(r, t). (priority_of c r t, r)) ?el"
  let ?rows = "map snd (sort_key fst ?keyed)"
  have el: "?el = map (\<lambda>r. (r, the (row_effective_due c r))) (filter ?due (words s))"
  proof -
    have "due_prefilter c r \<longleftrightarrow> \<not> hidden_by_filter c r" if "row_effective_due c r = Some t" for r t
      using row_effective_due_prefilter [OF that assms] .
    then have "filter (\<lambda>r. due_candidate c uid lang r \<and> due_prefilter c r \<and> row_effective_due c r \<noteq> None) (words s) =
        filter ?due (words s)"
      by (intro filter_cong) auto
    then show ?thesis
      by (simp add: List.map_filter_def conj_ac cong: conj_cong) (auto intro!: map_cong)
  qed
  have keyed: "k = priority_of c r (the (row_effective_due c r))" if "(k, r) \<in> set ?keyed" for k r
    using that unfolding el by auto
  have keys: "map (\<lambda>r. priority_of c r (the (row_effective_due c r))) ?rows = map fst (sort_key fst ?keyed)"
    unfolding map_map
  proof (rule map_cong [OF refl])
    fix x assume "x \<in> set (sort_key fst ?keyed)"
    then have "(fst x, snd x) \<in> set ?keyed" by simp
    then show "((\<lambda>r. priority_of c r (the (row_effective_due c r))) \<circ> snd) x = fst x"
      using keyed [of "fst x" "snd x"] by simp
  qed
  have "sorted (map (\<lambda>r. priority_of c r (the (row_effective_due c r))) ?rows)"
    unfolding keys by (rule sorted_sort_key)
  moreover have "set ?rows = {r \<in> set (words s). ?due r}"
    unfolding el by (auto simp: image_iff)
  moreover have "length ?rows = count_where ?due (words s)"
    unfolding el by (simp add: count_where_def)
  ultimately show ?thesis using due_words_eq [of c s uid lang] by blast
qed

text \<open>Two cards due since yesterday by their day column: one has no timestamp, the other one that only
  SQLite reads.\<close>

definition due_clock :: clock where
  "due_clock = (clock_at 0 (2026, 1, 3))\<lparr>sql_datetime_ok := (\<lambda>v. v = ''2099-02-30T00:00:00'')\<rparr>"

definition due_card :: "int \<Rightarrow> stamp option \<Rightarrow> word_row" where
  "due_card i t = (new_word_row (clock_at 0 (2026, 1, 1)) i 1 ''salt'' ''en'' ''salt'' None ''2026-01-02'' ''manual'')
     \<lparr>w_fe_done := Some 1, w_next_at := t\<rparr>"

definition due_db :: db where
  "due_db = fresh_card_db\<lparr>words := [due_card 7 None, due_card 8 (Some (BadStamp ''2099-02-30T00:00:00''))]\<rparr>"

theorem due_words_complete_and_sorted_witness:
  "due_words_for_user due_clock due_db 1 None = Inr [due_card 7 None] \<and>
   row_effective_due due_clock (due_card 8 (Some (BadStamp ''2099-02-30T00:00:00''))) = Some 0"
proof -
  have mono: "stamp_text due_clock (Stamp a) \<le> stamp_text due_clock (Stamp b)" if "a \<le> b" for a b
    by (simp add: due_clock_def clock_at_def)
  have h: "hidden_by_filter due_clock (due_card 8 (Some (BadStamp ''2099-02-30T00:00:00'')))"
    "\<not> hidden_by_filter due_clock (due_card 7 None)" by code_simp+
  have e: "row_effective_due due_clock (due_card 8 (Some (BadStamp ''2099-02-30T00:00:00''))) = Some 0"
    "row_effective_due due_clock (due_card 7 None) = Some 0" by code_simp+
  have c: "due_candidate due_clock 1 None (due_card 7 None)"
    by (simp add: due_candidate_def due_card_def new_word_row_def lang_matches_def none_if_empty_def)
  obtain rows where rows: "due_words_for_user due_clock due_db 1 None = Inr rows"
    "set rows = {r \<in> set (words due_db). due_candidate due_clock 1 None r \<and> row_effective_due due_clock r \<noteq> None \<and> \<not> hidden_by_filter due_clock r}"
    "length rows = count_where (\<lambda>r. due_candidate due_clock 1 None r \<and> row_effective_due due_clock r \<noteq> None \<and> \<not> hidden_by_filter due_clock r) (words due_db)"
    using due_words_complete_and_sorted [OF mono, of due_db 1 None] by blast
  have "length rows = 1" using rows(3) h e c by (simp add: due_db_def count_where_def)
  moreover have "set rows = {due_card 7 None}" using rows(2) h e c by (auto simp: due_db_def)
  ultimately have "rows = [due_card 7 None]" by (cases rows) auto
  with rows(1) e(1) show ?thesis by simp
qed

text \<open>Adding a word with the toggle and toggling it again gives the table back as it was; the
  word is there in between, under its normal form, scheduled for the day after.\<close>

theorem toggle_twice_restores:
  assumes "words_inv s" and "day_after (today c) = Inr tomorrow" and "normalize_word u text \<noteq> ''''"
    and "\<forall>r \<in> set (words s). \<not> same_key uid lang (normalize_word u text) r"
  shows "\<exists>s1 s2 r. toggle_review_word c u s uid text lang cd src = Inr (Saved, s1) \<and>
    find (same_key uid lang (normalize_word u text)) (words s1) = Some r \<and>
    w_next_review r = Some (isoformat tomorrow) \<and> w_word r = join_sp (py_split text) \<and>
    toggle_review_word c u s1 uid text lang cd src = Inr (Removed, s2) \<and> words s2 = words s"
proof -
  let ?k = "normalize_word u text"
  let ?r = "new_word_row c (next_word_id s) uid (join_sp (py_split text)) lang ?k (map_option CardObj cd)
      (isoformat tomorrow) src"
  let ?s1 = "s\<lparr>words := words s @ [?r], next_word_id := next_word_id s + 1\<rparr>"
  have f0: "find (same_key uid lang ?k) (words s) = None" using assms(4) by (simp add: find_None_iff)
  then have t1: "toggle_review_word c u s uid text lang cd src = Inr (Saved, ?s1)"
    using f0 assms(2,3) by (simp add: toggle_review_word_def Let_def insert_word_fresh [OF assms(4)])
  have f1: "find (same_key uid lang ?k) (words ?s1) = Some ?r"
    by (simp add: find_append f0 same_key_new)
  have "\<forall>r \<in> set (words s). w_id r \<noteq> next_word_id s" using assms(1) by (auto simp: words_inv_def)
  then have "delete_where (\<lambda>r. w_id r = w_id ?r) (words ?s1) = words s"
    by (simp add: delete_where_def new_word_row_def)
  then show ?thesis using t1 f1 assms(3)
    by (auto simp: toggle_review_word_def new_word_row_def simp del: isoformat.simps)
qed

text \<open>Identity as Unicode normalisation: ASCII text, kept as it is.\<close>

definition ascii_text :: unicode where
  "ascii_text = \<lparr>nfc = id, casefold = map lower_char\<rparr>"

lemma normalize_salt: "normalize_word ascii_text '' Salt '' = ''salt''"
  by code_simp

theorem toggle_twice_restores_witness:
  "\<exists>s1 s2. toggle_review_word (clock_at 0 (2026, 1, 31)) ascii_text empty_db 1 '' Salt '' ''en'' None ''manual'' = Inr (Saved, s1) \<and>
     toggle_review_word (clock_at 0 (2026, 1, 31)) ascii_text s1 1 '' Salt '' ''en'' None ''manual'' = Inr (Removed, s2) \<and> words s2 = []"
proof -
  have d: "day_after (today (clock_at 0 (2026, 1, 31))) = Inr (2026, 2, 1)"
    by (simp add: days_in_month_def)
  show ?thesis
    using toggle_twice_restores [OF words_inv_empty d, of ascii_text "'' Salt ''" 1 "''en''" None "''manual''"]
    by (auto simp: normalize_salt)
qed

end
