(* ===== verification/Reviews.thy ===== *)
theory Reviews imports Grading "HOL-Library.Multiset" begin

text \<open>
  The queries and the pruning of \<open>services/db/reviews.py\<close>. The rows of \<open>review_events\<close> are
  ranked per card by the text of \<open>created_at\<close> and then the id, newest first. The three
  passes of the pruning check one deadline before every batch: \<open>budget\<close> is the number of
  checks that still come before it (\<open>None\<close>: no deadline), and since time does not go back, a
  check after a failed one fails as well.
\<close>

section \<open>Recent events\<close>

definition event_key :: "('a clock_scheme) \<Rightarrow> event_row \<Rightarrow> string \<times> int" where
  "event_key c e = (stamp_text c (e_created e), e_id e)"

text \<open>\<open>ROW_NUMBER() OVER (PARTITION BY ... ORDER BY created_at DESC, id DESC)\<close> minus one.\<close>

definition newer_count :: "('a clock_scheme) \<Rightarrow> event_row list \<Rightarrow> event_row \<Rightarrow> nat" where
  "newer_count c rows e =
     count_where (\<lambda>e'. e_user e' = e_user e \<and> e_word e' = e_word e \<and> event_key c e < event_key c e') rows"

text \<open>\<open>list(dict.fromkeys(ids))\<close>: the first occurrences, in order.\<close>

definition dict_fromkeys :: "'a list \<Rightarrow> 'a list" where
  "dict_fromkeys xs = rev (remdups (rev xs))"

definition group_event :: "event_row \<Rightarrow> (int \<Rightarrow> event_row list option) \<Rightarrow> int \<Rightarrow> event_row list option" where
  "group_event row grouped = grouped(e_word row \<mapsto> or_else (grouped (e_word row)) [] @ [row])"

definition recent_chunk :: "('a clock_scheme) \<Rightarrow> db \<Rightarrow> int \<Rightarrow> int \<Rightarrow> int list \<Rightarrow> event_row list" where
  "recent_chunk c s uid per_word chunk =
     (let mine = filter (\<lambda>e. e_user e = uid \<and> e_word e \<in> set chunk) (events s);
          ranked = filter (\<lambda>e. int (newer_count c mine e) + 1 \<le> per_word) mine
      in sort_key e_word (rev (sort_key (event_key c) ranked)))"

definition recent_events_for_words ::
    "('a clock_scheme) \<Rightarrow> db \<Rightarrow> int list \<Rightarrow> int \<Rightarrow> int \<Rightarrow> int \<Rightarrow> event_row list option" where
  "recent_events_for_words c s word_ids uid per_word =
     (let grouped = fold (\<lambda>chunk g. fold group_event (recent_chunk c s uid per_word chunk) g)
                      (chunks 500 (dict_fromkeys word_ids)) Map.empty
      in (\<lambda>wid. map_option (take (nat per_word)) (grouped wid)))"

text \<open>The larger of the stored lifetime counter and the number of rows.\<close>

definition count_review_events_for_card :: "db \<Rightarrow> int \<Rightarrow> int \<Rightarrow> int" where
  "count_review_events_for_card s uid wid =
     (let cnt = int (count_where (\<lambda>e. e_word e = wid \<and> e_user e = uid) (events s));
          stored = (case find (own_word wid uid) (words s) of None \<Rightarrow> 0 | Some r \<Rightarrow> w_total r)
      in max cnt stored)"

section \<open>Pruning\<close>

type_synonym totals = "((int \<times> int) \<times> (int \<times> int)) list"

text \<open>The dictionary of totals, in insertion order.\<close>

fun add_total :: "int \<times> int \<Rightarrow> int \<Rightarrow> totals \<Rightarrow> totals" where
  "add_total k lapse [] = [(k, (1, lapse))]"
| "add_total k lapse ((k', (n, l)) # tot) =
     (if k' = k then (k', (n + 1, l + lapse)) # tot else (k', (n, l)) # add_total k lapse tot)"

definition count_event :: "event_row \<Rightarrow> totals \<Rightarrow> totals" where
  "count_event e = add_total (e_user e, e_word e) (if is_lapse (e_grade e) (e_outcome e) then 1 else 0)"

text \<open>\<open>SELECT ... WHERE id > last ORDER BY id LIMIT scan\<close>.\<close>

definition page_after :: "event_row list \<Rightarrow> int \<Rightarrow> nat \<Rightarrow> event_row list" where
  "page_after evs last_seen scan = take scan (sort_key e_id (filter (\<lambda>e. last_seen < e_id e) evs))"

lemma page_after_D: "e \<in> set (page_after evs i n) \<Longrightarrow> e \<in> set evs \<and> i < e_id e"
  by (auto simp: page_after_def dest: in_set_takeD)

text \<open>Pass 1.\<close>

function prune_totals :: "nat \<Rightarrow> event_row list \<Rightarrow> int \<Rightarrow> nat option \<Rightarrow> totals \<Rightarrow> totals \<times> nat option" where
  "prune_totals scan evs last_seen budget tot =
     (if budget = Some 0 then (tot, budget)
      else let budget' = map_option (\<lambda>k. k - 1) budget;
               rows = page_after evs last_seen scan
           in if rows = [] then (tot, budget')
              else let tot' = fold count_event rows tot
                   in if length rows < scan then (tot', budget')
                      else prune_totals scan evs (e_id (last rows)) budget' tot')"
  by pat_completeness auto
termination
proof (relation "measure (\<lambda>(scan, evs, last_seen, _, _). length (filter (\<lambda>e. last_seen < e_id e) evs))", simp)
  fix scan evs last_seen budget tot x rows xa
  assume "rows = page_after evs last_seen scan" and "rows \<noteq> []"
  then have l: "last rows \<in> set evs" "last_seen < e_id (last rows)"
    using page_after_D last_in_set by blast+
  then have "length (filter (\<lambda>e. e_id (last rows) < e_id e) evs) < length (filter (\<lambda>e. last_seen < e_id e) evs)"
    by (intro filter_length_less [of evs _ _ "last rows"]) auto
  then show "((scan, evs, e_id (last rows), x, xa), scan, evs, last_seen, budget, tot)
    \<in> measure (\<lambda>(scan, evs, last_seen, _, _). length (filter (\<lambda>e. last_seen < e_id e) evs))"
    by simp
qed

declare prune_totals.simps [simp del]


text \<open>Pass 2: raise each card's counters to the totals, never lower them.\<close>

definition reconcile :: "(int \<times> int) \<times> (int \<times> int) \<Rightarrow> word_row list \<Rightarrow> word_row list" where
  "reconcile item rows =
     (case item of ((uid, wid), (lifetime, lapses)) \<Rightarrow>
        update_where (own_word wid uid)
          (\<lambda>r. r\<lparr>w_total := (if w_total r < lifetime then lifetime else w_total r),
                 w_lapses := (if w_lapses r < lapses then lapses else w_lapses r)\<rparr>) rows)"

fun prune_reconcile :: "totals list \<Rightarrow> nat option \<Rightarrow> word_row list \<Rightarrow> word_row list \<times> nat option" where
  "prune_reconcile [] budget rows = (rows, budget)"
| "prune_reconcile (chunk # rest) budget rows =
     (if budget = Some 0 then (rows, budget)
      else prune_reconcile rest (map_option (\<lambda>k. k - 1) budget) (fold reconcile chunk rows))"

text \<open>Pass 3: the next batch of victims, and the loop that deletes batch after batch.\<close>

definition victims :: "('a clock_scheme) \<Rightarrow> int \<Rightarrow> stamp \<Rightarrow> nat \<Rightarrow> event_row list \<Rightarrow> int \<Rightarrow> event_row list" where
  "victims c keep_per_card cutoff scan evs last_id =
     (let later = filter (\<lambda>e. last_id < e_id e) evs
      in take scan (sort_key e_id
           (filter (\<lambda>e. keep_per_card < int (newer_count c later e) + 1 \<and>
                        stamp_text c (e_created e) < stamp_text c cutoff) later)))"

lemma victims_D:
  "e \<in> set (victims c keep cutoff scan evs i) \<Longrightarrow> e \<in> set evs \<and> i < e_id e \<and>
   keep \<le> int (newer_count c (filter (\<lambda>e. i < e_id e) evs) e) \<and> stamp_text c (e_created e) < stamp_text c cutoff"
  by (auto simp: victims_def Let_def dest!: in_set_takeD)

function prune_victims ::
    "('a clock_scheme) \<Rightarrow> int \<Rightarrow> stamp \<Rightarrow> nat \<Rightarrow> event_row list \<Rightarrow> int \<Rightarrow> nat option \<Rightarrow> nat \<Rightarrow> event_row list \<times> nat" where
  "prune_victims c keep_per_card cutoff scan evs last_id budget deleted =
     (if budget = Some 0 then (evs, deleted)
      else let rows = victims c keep_per_card cutoff scan evs last_id
           in if rows = [] then (evs, deleted)
              else let chunk_ids = map e_id rows;
                       evs' = delete_where (\<lambda>e. e_id e \<in> set chunk_ids) evs
                   in if length chunk_ids < scan then (evs', deleted + length chunk_ids)
                      else prune_victims c keep_per_card cutoff scan evs' (last chunk_ids)
                             (map_option (\<lambda>k. k - 1) budget) (deleted + length chunk_ids))"
  by pat_completeness auto
termination
proof (relation "measure (\<lambda>(c, keep, cutoff, scan, evs, _, _, _). length evs)", simp)
  fix c :: "'a clock_scheme" and keep_per_card cutoff scan evs last_id budget and deleted :: nat and rows chunk_ids evs'
  assume "rows = victims c keep_per_card cutoff scan evs last_id" and "rows \<noteq> []"
    and "chunk_ids = map e_id rows" and "evs' = delete_where (\<lambda>e. e_id e \<in> set chunk_ids) evs"
  then have r: "hd rows \<in> set rows" and v: "rows = victims c keep_per_card cutoff scan evs last_id"
    and e: "evs' = filter (\<lambda>e. e_id e \<notin> set (map e_id rows)) evs"
    by (simp_all add: delete_where_def)
  have "hd rows \<in> set evs" using r v victims_D by blast
  then have "length (filter (\<lambda>e. e_id e \<notin> set (map e_id rows)) evs) < length (filter (\<lambda>_. True) evs)"
    using r by (intro filter_length_less [of evs _ _ "hd rows"]) auto
  then show "((c, keep_per_card, cutoff, scan, evs', last chunk_ids, map_option (\<lambda>k. k - 1) budget,
      deleted + length chunk_ids), c, keep_per_card, cutoff, scan, evs, last_id, budget, deleted)
    \<in> measure (\<lambda>(c, keep, cutoff, scan, evs, _, _, _). length evs)"
    by (simp add: e)
qed

declare prune_victims.simps [simp del]

definition prune_old_review_events ::
    "('a clock_scheme) \<Rightarrow> int \<Rightarrow> int \<Rightarrow> int \<Rightarrow> nat option \<Rightarrow> db \<Rightarrow> nat \<times> db" where
  "prune_old_review_events c retention_days keep_per_card batch budget s =
     (let cutoff = Stamp (utc_now c - retention_days * day_us);
          scan = nat (max 1 batch);
          (totals, budget1) = prune_totals scan (events s) 0 budget [];
          (words', budget2) = prune_reconcile (chunks scan totals) budget1 (words s);
          (events', deleted) = prune_victims c keep_per_card cutoff scan (events s) 0 budget2 0
      in (deleted, s\<lparr>words := words', events := events'\<rparr>))"


section \<open>Ranks\<close>

lemma event_key_inj: "event_key c e = event_key c e' \<Longrightarrow> e_id e = e_id e'"
  by (simp add: event_key_def)

lemma fold_group_event:
  "fold group_event rows g w =
   (let new = filter (\<lambda>e. e_word e = w) rows in
    if new = [] then g w else Some (or_else (g w) [] @ new))"
  by (induction rows arbitrary: g) (auto simp: group_event_def Let_def or_else_def split: option.splits)

text \<open>In a strictly descending list, the elements with fewer than \<open>k\<close> greater ones are the first \<open>k\<close>.\<close>

lemma take_by_rank:
  fixes f :: "'a \<Rightarrow> 'b::linorder"
  assumes "sorted_wrt (\<lambda>x y. f y < f x) ys"
  shows "filter (\<lambda>e. length (filter (\<lambda>e'. f e < f e') ys) < k) ys = take k ys"
  using assms
proof (induction ys arbitrary: k)
  case (Cons y ys)
  have y: "filter (\<lambda>e'. f y < f e') ys = []" using Cons.prems by (auto simp: filter_empty_conv)
  show ?case
  proof (cases k)
    case (Suc k')
    have "filter (\<lambda>e. length (filter (\<lambda>e'. f e < f e') (y # ys)) < k) ys =
        filter (\<lambda>e. length (filter (\<lambda>e'. f e < f e') ys) < k') ys"
      using Cons.prems Suc by (intro filter_cong) auto
    then show ?thesis using Cons Suc y by simp
  qed simp
qed simp

text \<open>Deleting only rows with at least \<open>k\<close> greater ones keeps \<open>k\<close> rows above any bound that had \<open>k\<close>.\<close>

lemma rank_threshold:
  fixes S :: "'a::linorder set"
  assumes "finite S" and "k \<le> card S"
  shows "card {e \<in> S. card {e' \<in> S. e < e'} < k} = k"
  using assms
proof (induction arbitrary: k rule: finite_linorder_min_induct)
  case empty
  then show ?case by simp
next
  case (insert b A)
  have A: "{e' \<in> insert b A. e < e'} = {e' \<in> A. e < e'}" if "e \<in> A" for e
    using insert.hyps that by auto
  have b: "{e' \<in> insert b A. b < e'} = A" using insert.hyps by auto
  have split: "{e \<in> insert b A. card {e' \<in> insert b A. e < e'} < k} =
      {e \<in> A. card {e' \<in> A. e < e'} < k} \<union> (if card A < k then {b} else {})"
    using A b by auto
  have nb: "b \<notin> A" using insert.hyps by auto
  show ?case
  proof (cases "card A < k")
    case True
    then have k: "k = Suc (card A)" using insert.prems insert.hyps nb by simp
    have "card {e' \<in> A. e < e'} \<le> card A" for e
      using insert.hyps by (intro card_mono) auto
    then have "{e \<in> A. card {e' \<in> A. e < e'} < k} = A" using k by (auto simp: le_imp_less_Suc)
    then show ?thesis using split True nb k insert.hyps by simp
  next
    case False
    then show ?thesis using split insert.IH [of k] by simp
  qed
qed

text \<open>The number of newer rows, as the size of a set of keys.\<close>

lemma count_where_card:
  assumes "distinct (map e_id E)"
  shows "count_where p E = card (event_key c ` {e \<in> set E. p e})"
proof -
  have "inj_on e_id (set E)" using assms by (simp add: distinct_map)
  then have "inj_on (event_key c) {e \<in> set E. p e}"
    unfolding inj_on_def using event_key_inj by blast
  then have "card (event_key c ` {e \<in> set E. p e}) = card {e \<in> set E. p e}" by (rule card_image)
  also have "\<dots> = length (filter p E)"
    using assms by (subst distinct_card [symmetric]) (auto simp: distinct_map)
  finally show ?thesis by (simp add: count_where_def)
qed

definition card_above :: "('a clock_scheme) \<Rightarrow> event_row list \<Rightarrow> int \<Rightarrow> int \<Rightarrow> string \<times> int \<Rightarrow> nat" where
  "card_above c E uid wid x = count_where (\<lambda>e. e_user e = uid \<and> e_word e = wid \<and> x < event_key c e) E"

lemma newer_count_above: "newer_count c E e = card_above c E (e_user e) (e_word e) (event_key c e)"
  by (simp add: newer_count_def card_above_def)

lemma above_survives:
  assumes d: "distinct (map e_id E)" and k: "k \<le> card_above c E uid wid x"
    and keep: "\<And>e. e \<in> set E \<Longrightarrow> \<not> q e \<Longrightarrow> k \<le> newer_count c E e"
  shows "k \<le> card_above c (filter q E) uid wid x"
proof -
  let ?P = "\<lambda>e. e_user e = uid \<and> e_word e = wid \<and> x < event_key c e"
  let ?S = "event_key c ` {e \<in> set E. ?P e}"
  have "k \<le> card ?S" using k unfolding card_above_def count_where_card [OF d, of _ c] .
  then have "card {y \<in> ?S. card {y' \<in> ?S. y < y'} < k} = k" by (intro rank_threshold) auto
  moreover have "{y \<in> ?S. card {y' \<in> ?S. y < y'} < k} \<subseteq> event_key c ` {e \<in> set (filter q E). ?P e}"
  proof
    fix y assume "y \<in> {y \<in> ?S. card {y' \<in> ?S. y < y'} < k}"
    then obtain e where e: "e \<in> set E" "?P e" "y = event_key c e" "card {y' \<in> ?S. event_key c e < y'} < k" by blast
    have "{y' \<in> ?S. event_key c e < y'} = event_key c ` {e' \<in> set E. e_user e' = e_user e \<and> e_word e' = e_word e \<and> event_key c e < event_key c e'}"
      using e(2) by (auto intro: less_trans)
    then have "newer_count c E e < k"
      using e(4) unfolding newer_count_def count_where_card [OF d, of _ c] by simp
    then show "y \<in> event_key c ` {e \<in> set (filter q E). ?P e}"
      using keep [OF e(1)] e by auto
  qed
  then have "card {y \<in> ?S. card {y' \<in> ?S. y < y'} < k} \<le> card (event_key c ` {e \<in> set (filter q E). ?P e})"
    by (intro card_mono) auto
  moreover have "distinct (map e_id (filter q E))" using d by (simp add: distinct_map_filter)
  ultimately show ?thesis by (simp add: card_above_def count_where_card [of _ _ c])
qed


section \<open>The event table invariant\<close>

definition events_ok :: "db \<Rightarrow> bool" where
  "events_ok s \<longleftrightarrow> distinct (map e_id (events s)) \<and>
     (\<forall>e \<in> set (events s). 0 < e_id e \<and> e_id e < next_event_id s) \<and> 0 < next_event_id s"

section \<open>Pass 1 counts every event\<close>

lemma sorted_pages:
  assumes "sorted_wrt (\<lambda>x y. f x < (f y :: int)) ys" and "0 < n" and "n \<le> length ys"
  shows "filter (\<lambda>e. f (last (take n ys)) < f e) ys = drop n ys"
  using assms
proof (induction ys arbitrary: n)
  case (Cons y ys)
  show ?case
  proof (cases "n = 1")
    case True
    then show ?thesis using Cons.prems by (auto simp: filter_id_conv)
  next
    case False
    then obtain m where m: "n = Suc m" "0 < m" "m \<le> length ys"
      using Cons.prems by (cases n) auto
    then have ne: "take m ys \<noteq> []" by auto
    then have "last (take m ys) \<in> set ys" by (meson in_set_takeD last_in_set)
    then have "\<not> f (last (take m ys)) < f y" using Cons.prems by auto
    then show ?thesis using Cons m ne by simp
  qed
qed simp

definition by_id_after :: "event_row list \<Rightarrow> int \<Rightarrow> event_row list" where
  "by_id_after evs i = sort_key e_id (filter (\<lambda>e. i < e_id e) evs)"

lemma by_id_strict:
  assumes "distinct (map e_id evs)"
  shows "sorted_wrt (\<lambda>x y. e_id x < e_id y) (by_id_after evs i)"
proof -
  have m: "mset (map e_id (by_id_after evs i)) = mset (map e_id (filter (\<lambda>e. i < e_id e) evs))"
    by (simp only: by_id_after_def mset_map mset_sort)
  have "distinct (map e_id (filter (\<lambda>e. i < e_id e) evs))" using assms by (simp add: distinct_map_filter)
  then have "distinct (map e_id (by_id_after evs i))" using m by (metis mset_eq_imp_distinct_iff)
  moreover have "sorted (map e_id (by_id_after evs i))" by (simp add: by_id_after_def)
  ultimately have "sorted_wrt (<) (map e_id (by_id_after evs i))" by (simp add: strict_sorted_iff)
  then show ?thesis by (simp add: sorted_wrt_map)
qed

lemma by_id_next_page:
  assumes "distinct (map e_id evs)" and "0 < n" and "n \<le> length (by_id_after evs i)"
  shows "by_id_after evs (e_id (last (page_after evs i n))) = drop n (by_id_after evs i)"
proof -
  let ?l = "last (take n (by_id_after evs i))"
  have "take n (by_id_after evs i) \<noteq> []" using assms(2,3) by auto
  then have "?l \<in> set (by_id_after evs i)" by (meson in_set_takeD last_in_set)
  then have li: "i < e_id ?l" by (auto simp: by_id_after_def)
  have "by_id_after evs (e_id ?l) = filter (\<lambda>e. e_id ?l < e_id e) (by_id_after evs i)"
    using li by (auto simp: by_id_after_def filter_sort intro!: arg_cong [where f = "sort_key e_id"] filter_cong)
  also have "\<dots> = drop n (by_id_after evs i)"
    by (rule sorted_pages [OF by_id_strict [OF assms(1)] assms(2,3)])
  finally show ?thesis by (simp add: page_after_def by_id_after_def)
qed

lemma prune_totals_counts:
  assumes "prune_totals scan evs i budget tot = (tot', b)" and "distinct (map e_id evs)" and "0 < scan"
    and "b \<noteq> Some 0"
  shows "tot' = fold count_event (by_id_after evs i) tot"
  using assms
proof (induction scan evs i budget tot rule: prune_totals.induct)
  case (1 scan evs i budget tot)
  have page: "page_after evs i scan = take scan (by_id_after evs i)"
    by (simp add: page_after_def by_id_after_def)
  show ?case
  proof (cases "budget = Some 0 \<or> page_after evs i scan = []")
    case True
    then show ?thesis using "1.prems" page
      by (auto simp: prune_totals.simps [of scan] Let_def split: if_splits)
  next
    case False
    show ?thesis
    proof (cases "length (page_after evs i scan) < scan")
      case True
      then show ?thesis using False "1.prems" page
        by (auto simp: prune_totals.simps [of scan] Let_def split: if_splits)
    next
      case long: False
      let ?p = "page_after evs i scan"
      have "prune_totals scan evs (e_id (last ?p)) (map_option (\<lambda>k. k - 1) budget) (fold count_event ?p tot) = (tot', b)"
        using "1.prems"(1) False long by (simp add: prune_totals.simps [of scan evs i] Let_def)
      then have "tot' = fold count_event (by_id_after evs (e_id (last ?p))) (fold count_event ?p tot)"
        using False long "1.prems"(2-4) by (intro "1.IH") auto
      also have "by_id_after evs (e_id (last ?p)) = drop scan (by_id_after evs i)"
        using long page "1.prems" by (intro by_id_next_page) auto
      finally show ?thesis unfolding page by (simp add: fold_append [symmetric, THEN fun_cong, unfolded o_def])
    qed
  qed
qed

definition total_of :: "totals \<Rightarrow> int \<times> int \<Rightarrow> int \<times> int" where
  "total_of tot k = or_else (map_of tot k) (0, 0)"

lemma map_of_add_total:
  "map_of (add_total k lapse tot) k' =
   (if k' = k then Some (fst (total_of tot k) + 1, snd (total_of tot k) + lapse) else map_of tot k')"
  by (induction k lapse tot rule: add_total.induct) (auto simp: total_of_def)

lemma total_of_add:
  "total_of (add_total k lapse tot) k' =
   (if k' = k then (fst (total_of tot k) + 1, snd (total_of tot k) + lapse) else total_of tot k')"
  unfolding total_of_def map_of_add_total by (simp add: total_of_def)

lemma dom_count_events:
  "dom (map_of (fold count_event rows tot)) = dom (map_of tot) \<union> (\<lambda>e. (e_user e, e_word e)) ` set rows"
  by (induction rows arbitrary: tot) (auto simp: count_event_def map_of_add_total dom_def)

definition lapse_row :: "event_row \<Rightarrow> bool" where
  "lapse_row e = is_lapse (e_grade e) (e_outcome e)"

lemma total_of_counts:
  "total_of (fold count_event rows tot) (uid, wid) =
   (fst (total_of tot (uid, wid)) + int (count_where (\<lambda>e. e_word e = wid \<and> e_user e = uid) rows),
    snd (total_of tot (uid, wid)) + int (count_where (\<lambda>e. e_word e = wid \<and> e_user e = uid \<and> lapse_row e) rows))"
  by (induction rows arbitrary: tot)
    (auto simp: count_event_def total_of_add count_where_def lapse_row_def)

lemma distinct_keys_count:
  "distinct (map fst tot) \<Longrightarrow> distinct (map fst (fold count_event rows tot))"
proof (induction rows arbitrary: tot)
  case (Cons e rows)
  have "distinct (map fst (add_total k l tot))" if "distinct (map fst tot)" for k l and tot :: totals
    using that
  proof (induction k l tot rule: add_total.induct)
    case (2 k l k' n m tot)
    have "fst ` set (add_total k l tot) \<subseteq> insert k (fst ` set tot)"
      by (induction k l tot rule: add_total.induct) auto
    then show ?case using 2 by auto
  qed simp
  then show ?case using Cons by (simp add: count_event_def)
qed simp


section \<open>Pass 2 only raises counters\<close>

definition grows :: "word_row \<Rightarrow> word_row \<Rightarrow> bool" where
  "grows r r' \<longleftrightarrow> r'\<lparr>w_total := w_total r, w_lapses := w_lapses r\<rparr> = r \<and>
     w_total r \<le> w_total r' \<and> w_lapses r \<le> w_lapses r'"

lemma grows_refl [simp]: "grows r r"
  by (simp add: grows_def)

lemma grows_trans: "grows r r' \<Longrightarrow> grows r' r'' \<Longrightarrow> grows r r''"
proof -
  assume a: "grows r r'" "grows r' r''"
  have "r''\<lparr>w_total := w_total r, w_lapses := w_lapses r\<rparr> =
      (r''\<lparr>w_total := w_total r', w_lapses := w_lapses r'\<rparr>)\<lparr>w_total := w_total r, w_lapses := w_lapses r\<rparr>" by simp
  also have "\<dots> = r" using a by (simp add: grows_def del: word_row.update_convs)
  finally show ?thesis using a by (simp add: grows_def)
qed

lemma grows_cols: "grows r r' \<Longrightarrow> r'\<lparr>w_total := 0, w_lapses := 0\<rparr> = r\<lparr>w_total := 0, w_lapses := 0\<rparr>"
  by (cases r; cases r') (simp add: grows_def)

lemma grows_own_word: "grows r r' \<Longrightarrow> own_word wid uid r' = own_word wid uid r"
  by (cases r; cases r') (auto simp: grows_def own_word_def)

lemma reconcile_grows: "list_all2 grows rows (reconcile item rows)"
  by (auto simp: reconcile_def update_where_def list_all2_conv_all_nth grows_def split: prod.splits)

lemma list_grows_trans: "list_all2 grows a b \<Longrightarrow> list_all2 grows b c \<Longrightarrow> list_all2 grows a c"
  by (rule list_all2_trans [OF grows_trans])

lemma list_grows_refl: "list_all2 grows rows rows"
  by (simp add: list_all2_refl)

lemma fold_reconcile_grows: "list_all2 grows rows (fold reconcile items rows)"
proof (induction items arbitrary: rows)
  case Nil
  then show ?case by (simp add: list_grows_refl)
next
  case (Cons item items)
  show ?case using list_grows_trans [OF reconcile_grows Cons.IH] by simp
qed

lemma prune_reconcile_grows: "prune_reconcile cs budget rows = (rows', b) \<Longrightarrow> list_all2 grows rows rows'"
proof (induction cs budget rows rule: prune_reconcile.induct)
  case (2 chunk rest budget rows)
  then show ?case
    by (auto split: if_splits simp: list_grows_refl intro: list_grows_trans [OF fold_reconcile_grows])
qed (simp add: list_grows_refl)

lemma prune_reconcile_all:
  "prune_reconcile cs budget rows = (rows', b) \<Longrightarrow> b \<noteq> Some 0 \<Longrightarrow> rows' = fold reconcile (concat cs) rows"
  by (induction cs budget rows rule: prune_reconcile.induct) (auto split: if_splits)

lemma prune_reconcile_nil_budget: "prune_reconcile cs (Some 0) rows = (rows, Some 0)"
  by (cases cs) auto

lemma list_grows_find:
  assumes "list_all2 grows rows rows'" and "find (own_word wid uid) rows = Some r"
  shows "\<exists>r'. find (own_word wid uid) rows' = Some r' \<and> grows r r'"
  using assms by (induction rows rows' rule: list_all2_induct) (auto simp: grows_own_word split: if_splits)

lemma list_grows_find_None:
  assumes "list_all2 grows rows rows'" and "find (own_word wid uid) rows = None"
  shows "find (own_word wid uid) rows' = None"
  using assms by (induction rows rows' rule: list_all2_induct) (auto simp: grows_own_word split: if_splits)

lemma reconcile_find:
  assumes "find (own_word wid uid) (reconcile ((uid, wid), (n, l)) rows) = Some r"
  shows "n \<le> w_total r \<and> l \<le> w_lapses r"
proof -
  have "find (own_word wid uid) (update_where (own_word wid uid) f rows) = map_option f (find (own_word wid uid) rows)"
    if "\<And>x. w_id (f x) = w_id x \<and> w_user (f x) = w_user x" for f
    by (rule find_update_where_map) (simp add: own_word_def that)
  then show ?thesis using assms by (auto simp: reconcile_def)
qed

lemma fold_reconcile_reaches:
  assumes "((uid, wid), (n, l)) \<in> set items" and "find (own_word wid uid) (fold reconcile items rows) = Some r"
  shows "n \<le> w_total r \<and> l \<le> w_lapses r"
  using assms
proof (induction items arbitrary: rows)
  case (Cons item items)
  show ?case
  proof (cases "((uid, wid), (n, l)) \<in> set items")
    case False
    then have item: "item = ((uid, wid), (n, l))" using Cons.prems by auto
    let ?rows = "reconcile item rows"
    obtain r0 where r0: "find (own_word wid uid) ?rows = Some r0"
      using Cons.prems(2) list_grows_find_None [OF fold_reconcile_grows, of wid uid ?rows items]
      by (cases "find (own_word wid uid) ?rows") auto
    then have "n \<le> w_total r0 \<and> l \<le> w_lapses r0"
      unfolding item by (rule reconcile_find)
    moreover obtain r' where "find (own_word wid uid) (fold reconcile items ?rows) = Some r'" "grows r0 r'"
      using list_grows_find [OF fold_reconcile_grows r0] by blast
    ultimately show ?thesis using Cons.prems(2) by (auto simp: grows_def)
  qed (use Cons in auto)
qed simp

section \<open>Pass 3 deletes only surplus old events\<close>

definition surplus :: "('a clock_scheme) \<Rightarrow> int \<Rightarrow> stamp \<Rightarrow> event_row list \<Rightarrow> event_row \<Rightarrow> bool" where
  "surplus c keep cutoff rest e \<longleftrightarrow>
     stamp_text c (e_created e) < stamp_text c cutoff \<and> keep \<le> int (newer_count c rest e)"

lemma card_above_filter_le: "card_above c (filter q E) u v x \<le> card_above c E u v x"
  by (auto simp: card_above_def count_where_def intro!: length_filter_mono)

lemma victim_surplus:
  assumes "e \<in> set (victims c keep cutoff scan evs i)"
  shows "surplus c keep cutoff evs e"
proof -
  have "int (newer_count c (filter (\<lambda>e. i < e_id e) evs) e) \<le> int (newer_count c evs e)"
    unfolding newer_count_above by (simp add: card_above_filter_le)
  then show ?thesis using victims_D [OF assms] by (simp add: surplus_def del: stamp_text.simps)
qed

lemma distinct_victims:
  assumes "distinct (map e_id evs)"
  shows "distinct (map e_id (victims c keep cutoff scan evs i))"
proof -
  have "distinct (map e_id (sort_key e_id (filter p (filter q evs))))" for p q
    using assms by (metis distinct_map_filter mset_eq_imp_distinct_iff mset_map mset_sort)
  then show ?thesis by (simp add: victims_def Let_def take_map [symmetric] distinct_take)
qed

lemma prune_victims_safe:
  assumes "prune_victims c keep cutoff scan evs i budget n = (evs', n')" and "distinct (map e_id evs)"
  shows "(\<exists>q. evs' = filter q evs) \<and> (\<forall>u v x. keep \<le> int (card_above c evs u v x) \<longrightarrow> keep \<le> int (card_above c evs' u v x)) \<and>
    (\<forall>e \<in> set evs. e \<in> set evs' \<or> surplus c keep cutoff evs' e) \<and> n' + length evs' = n + length evs"
  using assms
proof (induction c keep cutoff scan evs i budget n rule: prune_victims.induct)
  case (1 c keep cutoff scan evs i budget n)
  let ?v = "victims c keep cutoff scan evs i"
  let ?q = "\<lambda>e. e_id e \<notin> e_id ` set ?v"
  show ?case
  proof (cases "budget = Some 0 \<or> ?v = []")
    case True
    then have "evs' = evs \<and> n' = n" using "1.prems"(1)
      unfolding prune_victims.simps [of c keep cutoff scan evs i budget n] Let_def by (auto split: if_splits)
    then show ?thesis by (auto intro!: exI [of _ "\<lambda>_. True"])
  next
    case False
    let ?e1 = "filter ?q evs" and ?n1 = "n + length ?v"
    have e1: "delete_where (\<lambda>e. e_id e \<in> set (map e_id ?v)) evs = ?e1"
      by (simp add: delete_where_def)
    have d1: "distinct (map e_id ?e1)" using "1.prems"(2) by (simp add: distinct_map_filter)
    have vic: "surplus c keep cutoff evs e" if a: "e \<in> set evs" and b: "\<not> ?q e" for e
    proof -
      obtain v where v: "v \<in> set ?v" "e_id e = e_id v" using b by auto
      then have "e = v" using a victims_D [OF v(1)] "1.prems"(2) by (auto simp: distinct_map inj_on_def)
      then show ?thesis using victim_surplus v(1) by blast
    qed
    have above1: "keep \<le> int (card_above c ?e1 u v x)" if "keep \<le> int (card_above c evs u v x)" for u v x
    proof -
      have "nat keep \<le> card_above c ?e1 u v x"
        using vic that by (intro above_survives [OF "1.prems"(2)]) (auto simp: surplus_def nat_le_iff)
      then show ?thesis by (simp add: nat_le_iff)
    qed
    have gone1: "e \<in> set ?e1 \<or> surplus c keep cutoff ?e1 e" if "e \<in> set evs" for e
      using vic [OF that] above1 that by (auto simp: surplus_def newer_count_above)
    have "set ?v \<subseteq> set evs" using victims_D by blast
    moreover have "filter (\<lambda>e. \<not> ?q e) evs = filter (\<lambda>e. e \<in> set ?v) evs"
      using "1.prems"(2) victims_D [of _ c keep cutoff scan evs i] by (auto simp: distinct_map inj_on_def intro!: filter_cong)
    moreover have "length (filter (\<lambda>e. e \<in> set ?v) evs) = length ?v"
    proof -
      have "distinct evs" "distinct ?v"
        using "1.prems"(2) distinct_victims [OF "1.prems"(2), of c keep cutoff scan i] by (auto simp: distinct_map)
      moreover have "set (filter (\<lambda>e. e \<in> set ?v) evs) = set ?v" using \<open>set ?v \<subseteq> set evs\<close> by auto
      ultimately show ?thesis by (metis distinct_card distinct_filter)
    qed
    ultimately have len: "?n1 + length ?e1 = n + length evs"
      using sum_length_filter_compl [of ?q evs] by simp
    show ?thesis
    proof (cases "length ?v < scan")
      case True
      then have "evs' = ?e1 \<and> n' = ?n1" using False "1.prems"(1)
        unfolding prune_victims.simps [of c keep cutoff scan evs i budget n] Let_def delete_where_def
        by (auto split: if_splits)
      then show ?thesis using above1 gone1 len by blast
    next
      case long: False
      have "prune_victims c keep cutoff scan ?e1 (last (map e_id ?v)) (map_option (\<lambda>k. k - 1) budget) ?n1 = (evs', n')"
        using False long "1.prems"(1)
        unfolding prune_victims.simps [of c keep cutoff scan evs i budget n] Let_def delete_where_def
        by (auto split: if_splits)
      then have IH: "(\<exists>q. evs' = filter q ?e1) \<and> (\<forall>u v x. keep \<le> int (card_above c ?e1 u v x) \<longrightarrow> keep \<le> int (card_above c evs' u v x)) \<and>
          (\<forall>e \<in> set ?e1. e \<in> set evs' \<or> surplus c keep cutoff evs' e) \<and> n' + length evs' = ?n1 + length ?e1"
        using False long d1 by (intro "1.IH" [OF _ refl _ refl refl, unfolded e1 length_map]) auto
      have later: "surplus c keep cutoff ?e1 e \<Longrightarrow> surplus c keep cutoff evs' e" for e
        using IH unfolding surplus_def newer_count_above by blast
      have "\<forall>e \<in> set evs. e \<in> set evs' \<or> surplus c keep cutoff evs' e"
        using gone1 IH later by blast
      moreover have "\<exists>q. evs' = filter q evs" using IH by (auto simp: filter_filter)
      ultimately show ?thesis using IH above1 len by auto
    qed
  qed
qed


section \<open>The whole pruning\<close>

lemma prune_victims_no_budget: "prune_victims c keep cutoff scan evs i (Some 0) n = (evs, n)"
  by (subst prune_victims.simps) simp

lemma prune_reconcile_budget:
  "prune_reconcile cs budget rows = (rows', b) \<Longrightarrow> b \<noteq> Some 0 \<Longrightarrow> budget \<noteq> Some 0 \<or> cs = []"
  by (cases cs) auto

lemma prune_reconcile_None: "snd (prune_reconcile cs None rows) = None"
  by (induction cs arbitrary: rows) auto

lemma prune_cases:
  assumes "prune_old_review_events c days keep batch budget s = (n, s')" and "events_ok s"
  obtains (stopped) "events s' = events s" "n = 0" "list_all2 grows (words s) (words s')"
      "s' = s\<lparr>words := words s', events := events s'\<rparr>"
  | (ran) b where "words s' = fold reconcile (fold count_event (sort_key e_id (events s)) []) (words s)"
      "prune_victims c keep (Stamp (utc_now c - days * day_us)) (nat (max 1 batch)) (events s) 0 b 0 = (events s', n)"
      "list_all2 grows (words s) (words s')" "s' = s\<lparr>words := words s', events := events s'\<rparr>"
proof -
  let ?scan = "nat (max 1 batch)"
  obtain tot b1 where p1: "prune_totals ?scan (events s) 0 budget [] = (tot, b1)" by fastforce
  obtain ws b2 where p2: "prune_reconcile (chunks ?scan tot) b1 (words s) = (ws, b2)" by fastforce
  obtain evs k where p3: "prune_victims c keep (Stamp (utc_now c - days * day_us)) ?scan (events s) 0 b2 0 = (evs, k)"
    by fastforce
  have s': "s' = s\<lparr>words := ws, events := evs\<rparr>" "n = k"
    using assms(1) p1 p2 p3 by (auto simp: prune_old_review_events_def Let_def)
  have g: "list_all2 grows (words s) ws" by (rule prune_reconcile_grows [OF p2])
  show ?thesis
  proof (cases "b2 = Some 0")
    case True
    then show ?thesis using stopped p3 s' g by (simp add: prune_victims_no_budget)
  next
    case False
    have all: "filter (\<lambda>e. 0 < e_id e) (events s) = events s"
      using assms(2) by (auto simp: events_ok_def)
    have tot: "tot = fold count_event (sort_key e_id (events s)) []"
    proof (cases "b1 = Some 0")
      case True
      then have "prune_reconcile (chunks ?scan tot) (Some 0) (words s) = (ws, b2)" using p2 by simp
      then have "b2 = Some 0" by (simp add: prune_reconcile_nil_budget)
      then show ?thesis using False by simp
    next
      case b1: False
      then show ?thesis using prune_totals_counts [OF p1] assms(2) all
        by (simp add: events_ok_def by_id_after_def)
    qed
    have "ws = fold reconcile tot (words s)"
      using prune_reconcile_all [OF p2 False] by (simp add: concat_chunks)
    then show ?thesis using ran p3 s' g tot by simp
  qed
qed

lemma prune_totals_None: "snd (prune_totals scan evs i None tot) = None"
proof (induction scan evs i "None :: nat option" tot rule: prune_totals.induct)
  case (1 scan evs i tot)
  show ?case by (subst prune_totals.simps) (use "1.hyps" in \<open>simp add: Let_def\<close>)
qed

section \<open>A run to the end\<close>

text \<open>Events of a card whose ids grow with their time, as rows have that are appended under a clock that does
  not go back. Without this the keyset window \<open>WHERE id > ?\<close> of a later batch can hide a newer event with a
  smaller id, and a victim is ranked too high and stays.\<close>

definition in_time_order :: "('a clock_scheme) \<Rightarrow> event_row list \<Rightarrow> bool" where
  "in_time_order c evs \<longleftrightarrow>
     (\<forall>e \<in> set evs. \<forall>e' \<in> set evs. e_user e' = e_user e \<and> e_word e' = e_word e \<and> event_key c e < event_key c e' \<longrightarrow> e_id e < e_id e')"

lemma newer_in_window:
  assumes "in_time_order c evs" and "e \<in> set evs" and "i < e_id e"
  shows "newer_count c (filter (\<lambda>e. i < e_id e) evs) e = newer_count c evs e"
proof -
  have "filter (\<lambda>x. (e_user x = e_user e \<and> e_word x = e_word e \<and> event_key c e < event_key c x) \<and> i < e_id x) evs =
      filter (\<lambda>x. e_user x = e_user e \<and> e_word x = e_word e \<and> event_key c e < event_key c x) evs"
    using assms unfolding in_time_order_def by (intro filter_cong) fastforce+
  then show ?thesis by (simp add: newer_count_def count_where_def conj_commute)
qed

lemma surplus_before: "surplus c keep cutoff (filter q evs) e \<Longrightarrow> surplus c keep cutoff evs e"
  using card_above_filter_le [of c q evs "e_user e" "e_word e" "event_key c e"]
  by (auto simp: surplus_def newer_count_above)

lemma victims_are_first:
  assumes "in_time_order c evs"
  shows "victims c keep cutoff scan evs i =
    take scan (sort_key e_id (filter (\<lambda>e. i < e_id e \<and> surplus c keep cutoff evs e) evs))"
proof -
  have "filter (\<lambda>e. keep < int (newer_count c (filter (\<lambda>e. i < e_id e) evs) e) + 1 \<and> stamp_text c (e_created e) < stamp_text c cutoff)
      (filter (\<lambda>e. i < e_id e) evs) = filter (\<lambda>e. i < e_id e \<and> surplus c keep cutoff evs e) evs"
    unfolding filter_filter using newer_in_window [OF assms] by (intro filter_cong) (auto simp: surplus_def)
  then show ?thesis by (simp add: victims_def Let_def)
qed

lemma not_among_first:
  assumes d: "distinct (map e_id xs)" and e: "e \<in> set xs" "e_id e \<notin> set (map e_id (take n (sort_key e_id xs)))"
    and ne: "take n (sort_key e_id xs) \<noteq> []"
  shows "e_id (last (take n (sort_key e_id xs))) < e_id e"
proof -
  let ?ys = "sort_key e_id xs"
  have "e \<in> set (take n ?ys @ drop n ?ys)" using e(1) by (simp only: append_take_drop_id) simp
  then have "e \<in> set (take n ?ys) \<or> e \<in> set (drop n ?ys)" by (simp only: set_append Un_iff)
  then have "e \<in> set (drop n ?ys)" using e(2) by (metis image_eqI set_map)
  moreover have "last (take n ?ys) \<in> set (take n ?ys)" using ne by (rule last_in_set)
  moreover have "sorted (map e_id (take n ?ys @ drop n ?ys))" by (simp only: append_take_drop_id) simp
  ultimately have "e_id (last (take n ?ys)) \<le> e_id e" by (auto simp only: map_append sorted_append set_map)
  moreover have "e_id (last (take n ?ys)) \<noteq> e_id e"
    using e(2) \<open>last (take n ?ys) \<in> set (take n ?ys)\<close> by (metis image_eqI set_map)
  ultimately show ?thesis by simp
qed

lemma prune_victims_complete:
  assumes "prune_victims c keep cutoff scan evs i None n = (evs', n')" and "distinct (map e_id evs)" and "in_time_order c evs"
    and "0 < scan" and "\<forall>e \<in> set evs. e_id e \<le> i \<longrightarrow> \<not> surplus c keep cutoff evs e"
  shows "\<forall>e \<in> set evs'. \<not> surplus c keep cutoff evs' e"
  using assms
proof (induction c keep cutoff scan evs i "None :: nat option" n rule: prune_victims.induct)
  case (1 c keep cutoff scan evs i n)
  let ?f = "filter (\<lambda>e. i < e_id e \<and> surplus c keep cutoff evs e) evs"
  let ?v = "victims c keep cutoff scan evs i"
  let ?e1 = "filter (\<lambda>e. e_id e \<notin> set (map e_id ?v)) evs"
  have v: "?v = take scan (sort_key e_id ?f)" by (rule victims_are_first [OF "1.prems"(3)])
  have del: "delete_where (\<lambda>e. e_id e \<in> set (map e_id ?v)) evs = ?e1" by (simp add: delete_where_def)
  have d: "distinct (map e_id ?f)" using "1.prems"(2) by (simp add: distinct_map_filter)
  have left: "e \<in> set ?f \<and> e_id e \<notin> set (map e_id ?v)" if "e \<in> set ?e1" "surplus c keep cutoff ?e1 e" for e
  proof -
    have m: "e \<in> set evs" "e_id e \<notin> set (map e_id ?v)" using that(1) by simp_all
    then have "i < e_id e" using surplus_before [OF that(2)] "1.prems"(5) by (meson not_le)
    then show ?thesis using m surplus_before [OF that(2)] by simp
  qed
  show ?case
  proof (cases "?v = []")
    case True
    then have "evs' = evs" using "1.prems"(1)
      unfolding prune_victims.simps [of c keep cutoff scan evs i None n] Let_def by (auto split: if_splits)
    have "take scan (sort_key e_id ?f) = []" using True unfolding v .
    then have "sort_key e_id ?f = []" using "1.prems"(4) by simp
    then have "?f = []" by (metis set_empty set_sort)
    then have "\<forall>e \<in> set evs. \<not> (i < e_id e \<and> surplus c keep cutoff evs e)" unfolding filter_empty_conv .
    with "1.prems"(5) show ?thesis unfolding \<open>evs' = evs\<close> by (meson not_le)
  next
    case ne: False
    show ?thesis
    proof (cases "length ?v < scan")
      case True
      then have e: "evs' = ?e1" using ne "1.prems"(1)
        unfolding prune_victims.simps [of c keep cutoff scan evs i None n] Let_def delete_where_def by (auto split: if_splits)
      have "length (take scan (sort_key e_id ?f)) < scan" using True unfolding v .
      then have "take scan (sort_key e_id ?f) = sort_key e_id ?f" by simp
      then have same: "set ?v = set ?f" unfolding v by (metis set_sort)
      show ?thesis unfolding e
      proof (intro ballI notI)
        fix x assume "x \<in> set ?e1" "surplus c keep cutoff ?e1 x"
        from left [OF this] show False unfolding set_map same by blast
      qed
    next
      case False
      have run: "prune_victims c keep cutoff scan ?e1 (last (map e_id ?v)) None (n + length ?v) = (evs', n')"
        using ne False "1.prems"(1)
        unfolding prune_victims.simps [of c keep cutoff scan evs i None n] Let_def delete_where_def by (auto split: if_splits)
      have "last (map e_id ?v) < e_id e" if "e \<in> set ?e1" "surplus c keep cutoff ?e1 e" for e
        using not_among_first [OF d, of e scan] left [OF that] ne unfolding v by (simp add: last_map)
      then have low: "\<forall>e \<in> set ?e1. e_id e \<le> last (map e_id ?v) \<longrightarrow> \<not> surplus c keep cutoff ?e1 e" by fastforce
      have o: "in_time_order c ?e1" using "1.prems"(3) by (simp add: in_time_order_def)
      have d1: "distinct (map e_id ?e1)" using "1.prems"(2) by (simp add: distinct_map_filter)
      show ?thesis
        using ne False run d1 o "1.prems"(4) low
        by (intro "1.hyps" [OF _ refl _ refl refl, unfolded del length_map option.map]) auto
    qed
  qed
qed

text \<open>Run to its end, the pruning leaves no event that its rule would delete.\<close>

lemma prune_leaves_no_surplus:
  assumes "prune_old_review_events c days keep batch None s = (n, s')" and "events_ok s" and "in_time_order c (events s)"
  shows "\<forall>e \<in> set (events s'). \<not> surplus c keep (Stamp (utc_now c - days * day_us)) (events s') e"
proof -
  let ?scan = "nat (max 1 batch)"
  obtain tot where p1: "prune_totals ?scan (events s) 0 None [] = (tot, None)"
    using prune_totals_None [of ?scan "events s" 0 "[]"] by (metis prod.collapse)
  obtain ws where p2: "prune_reconcile (chunks ?scan tot) None (words s) = (ws, None)"
    using prune_reconcile_None [of "chunks ?scan tot" "words s"] by (metis prod.collapse)
  obtain evs k where p3: "prune_victims c keep (Stamp (utc_now c - days * day_us)) ?scan (events s) 0 None 0 = (evs, k)"
    by fastforce
  have "s' = s\<lparr>words := ws, events := evs\<rparr>"
    using assms(1) p1 p2 p3 by (auto simp: prune_old_review_events_def Let_def)
  moreover have "\<forall>e \<in> set evs. \<not> surplus c keep (Stamp (utc_now c - days * day_us)) evs e"
    using assms(2) by (intro prune_victims_complete [OF p3 _ assms(3)]) (auto simp: events_ok_def)
  ultimately show ?thesis by simp
qed

lemma count_where_sort: "count_where p (sort_key f xs) = count_where p xs"
  by (simp add: count_where_def filter_sort)

lemma events_totals:
  fixes s :: db
  defines "tot \<equiv> fold count_event (sort_key e_id (events s)) []"
  assumes "0 < count_where (\<lambda>e. e_word e = wid \<and> e_user e = uid) (events s)"
  shows "((uid, wid), (int (count_where (\<lambda>e. e_word e = wid \<and> e_user e = uid) (events s)),
    int (count_where (\<lambda>e. e_word e = wid \<and> e_user e = uid \<and> lapse_row e) (events s)))) \<in> set tot"
proof -
  have "\<exists>e \<in> set (events s). e_word e = wid \<and> e_user e = uid"
    using assms(2) by (auto simp: count_where_def filter_empty_conv)
  then have "(uid, wid) \<in> dom (map_of tot)" by (auto simp: tot_def dom_count_events)
  then obtain v where v: "map_of tot (uid, wid) = Some v" by blast
  have "total_of tot (uid, wid) = (int (count_where (\<lambda>e. e_word e = wid \<and> e_user e = uid) (events s)),
      int (count_where (\<lambda>e. e_word e = wid \<and> e_user e = uid \<and> lapse_row e) (events s)))"
    unfolding tot_def total_of_counts by (simp add: total_of_def count_where_sort)
  with v map_of_SomeD [OF v] show ?thesis by (simp add: total_of_def)
qed

section \<open>Properties\<close>

text \<open>C21: pruning deletes an event only when it is older than the retention time and at least
  \<open>keep_per_card\<close> newer events of the same card survive; every other event stays, the number
  reported is the number deleted, and no scheduling column of a word changes. This holds
  wherever the deadline cuts the run off.\<close>

theorem prune_keeps_recent_events:
  assumes "prune_old_review_events c days keep batch budget s = (n, s')" and "events_ok s"
  shows "set (events s') \<subseteq> set (events s) \<and>
    (\<forall>e \<in> set (events s). e \<in> set (events s') \<or>
       (stamp_text c (e_created e) < stamp_text c (Stamp (utc_now c - days * day_us)) \<and>
        keep \<le> int (newer_count c (events s') e))) \<and>
    length (events s) = length (events s') + n \<and>
    map (\<lambda>r. r\<lparr>w_total := 0, w_lapses := 0\<rparr>) (words s') = map (\<lambda>r. r\<lparr>w_total := 0, w_lapses := 0\<rparr>) (words s)"
proof -
  have cols: "map (\<lambda>r. r\<lparr>w_total := 0, w_lapses := 0\<rparr>) b = map (\<lambda>r. r\<lparr>w_total := 0, w_lapses := 0\<rparr>) a"
    if "list_all2 grows a b" for a b
    using that by (induction a b rule: list_all2_induct) (auto dest: grows_cols)
  show ?thesis
    using assms
  proof (cases rule: prune_cases)
    case stopped
    then show ?thesis using cols by auto
  next
    case (ran b)
    have "distinct (map e_id (events s))" using assms(2) by (simp add: events_ok_def)
    from prune_victims_safe [OF ran(2) this] show ?thesis
      using cols [OF ran(3)] by (auto simp: surplus_def simp del: stamp_text.simps)
  qed
qed

text \<open>Pruning never lowers what the badge of a saved card counts: the number of reviews shown
  after any run, cut off or not, is at least the number before, the missing rows having been
  added to the card's lifetime counter first.\<close>

theorem prune_never_lowers_count:
  assumes "prune_old_review_events c days keep batch budget s = (n, s')" and "events_ok s"
    and "find (own_word wid uid) (words s) = Some r"
  shows "count_review_events_for_card s uid wid \<le> count_review_events_for_card s' uid wid"
  using assms(1,2)
proof (cases rule: prune_cases)
  case stopped
  obtain r' where "find (own_word wid uid) (words s') = Some r'" "grows r r'"
    using list_grows_find [OF stopped(3) assms(3)] by blast
  then show ?thesis using assms(3) stopped(1) by (auto simp: count_review_events_for_card_def Let_def grows_def)
next
  case (ran b)
  let ?n = "int (count_where (\<lambda>e. e_word e = wid \<and> e_user e = uid) (events s))"
  obtain r' where r': "find (own_word wid uid) (words s') = Some r'" "grows r r'"
    using list_grows_find [OF ran(3) assms(3)] by blast
  have "?n \<le> max 0 (w_total r')"
  proof (cases "?n = 0")
    case False
    then have "?n \<le> w_total r'"
      using fold_reconcile_reaches [OF events_totals, of wid uid s] r'(1) ran(1) by simp
    then show ?thesis by simp
  qed simp
  then show ?thesis using assms(3) r' by (auto simp: count_review_events_for_card_def Let_def grows_def)
qed


text \<open>A clock with two days, before and after instant 0, and a card with three events, for the witnesses.\<close>

definition two_day_clock :: clock where
  "two_day_clock = (clock_at (200 * day_us) (2026, 6, 1))\<lparr>utc_date := (\<lambda>t. if t < 0 then (2025, 12, 31) else (2026, 1, 1))\<rparr>"

definition sample_event :: "int \<Rightarrow> int \<Rightarrow> instant \<Rightarrow> event_row" where
  "sample_event i g t = \<lparr>e_id = i, e_word = 7, e_user = 1, e_grade = Some g, e_activity = ''srs_review'',
     e_source = ''button'', e_raw = None, e_response_ms = None,
     e_outcome = (if g \<ge> 2 then ''recalled'' else ''again''), e_created = Stamp t\<rparr>"

definition three_events_db :: db where
  "three_events_db = fresh_card_db\<lparr>events := [sample_event 1 1 (- 2), sample_event 2 3 (- 1), sample_event 3 3 5],
     next_event_id := 4\<rparr>"

lemma three_events_ok: "events_ok three_events_db"
  by (simp add: events_ok_def three_events_db_def sample_event_def)

lemma two_day_text: "stamp_text two_day_clock (Stamp t) =
    (if t < 0 then ''2025-12-31T00:00:00+00:00'' else ''2026-01-01T00:00:00+00:00'')"
proof -
  have "isoformat (2025, 12, 31) @ CHR ''T'' # ''00:00:00+00:00'' = ''2025-12-31T00:00:00+00:00''"
    "isoformat (2026, 1, 1) @ CHR ''T'' # ''00:00:00+00:00'' = ''2026-01-01T00:00:00+00:00''"
    by code_simp+
  then show ?thesis by (simp add: two_day_clock_def clock_at_def del: isoformat.simps)
qed

lemma two_day_less: "''2025-12-31T00:00:00+00:00'' < ''2026-01-01T00:00:00+00:00''"
  by code_simp

lemma two_day_not_less: "\<not> ''2026-01-01T00:00:00+00:00'' < ''2025-12-31T00:00:00+00:00''"
  by code_simp

lemma three_events_victims:
  "victims two_day_clock 1 (Stamp (200 * day_us - 90 * day_us)) 500 (events three_events_db) 0 =
   [sample_event 1 1 (- 2), sample_event 2 3 (- 1)]"
  by (simp add: victims_def three_events_db_def newer_count_def count_where_def sample_event_def event_key_def
      two_day_text two_day_less two_day_not_less less_prod_def day_us_def del: stamp_text.simps)

lemma three_events_pruned: "fst (prune_old_review_events two_day_clock 90 1 500 None three_events_db) = 2"
proof -
  have now: "utc_now two_day_clock = 200 * day_us" by (simp add: two_day_clock_def)
  have t: "snd (prune_totals 500 (events three_events_db) 0 None []) = None"
    by (subst prune_totals.simps) (simp add: Let_def page_after_def three_events_db_def sample_event_def)
  have v: "snd (prune_victims two_day_clock 1 (Stamp (200 * day_us - 90 * day_us)) 500 (events three_events_db) 0 None 0) = 2"
    by (subst prune_victims.simps) (simp only: three_events_victims Let_def, simp)
  show ?thesis
    using v by (simp add: prune_old_review_events_def Let_def split_beta now t prune_reconcile_None)
qed

theorem prune_keeps_recent_events_witness:
  "length (events (snd (prune_old_review_events two_day_clock 90 1 500 None three_events_db))) = 1"
  using prune_keeps_recent_events [OF prod.collapse [symmetric] three_events_ok, of two_day_clock 90 1 500 None]
  unfolding three_events_pruned by (simp add: three_events_db_def)

theorem prune_never_lowers_count_witness:
  "3 \<le> count_review_events_for_card (snd (prune_old_review_events two_day_clock 90 1 500 None three_events_db)) 1 7"
proof -
  have w: "find (own_word 7 1) (words three_events_db) =
      Some (new_word_row (clock_at 0 (2026, 1, 1)) 7 1 ''salt'' ''en'' ''salt'' None ''2026-01-02'' ''manual'')"
    using fresh_card_find by (simp add: three_events_db_def)
  have "count_review_events_for_card three_events_db 1 7 = 3" by code_simp
  then show ?thesis
    using prune_never_lowers_count [OF prod.collapse [symmetric] three_events_ok w, of two_day_clock 90 1 500 None] by simp
qed

section \<open>Recent events\<close>

text \<open>The specification: the events of one card of one user, newest first.\<close>

definition newest_first :: "('a clock_scheme) \<Rightarrow> db \<Rightarrow> int \<Rightarrow> int \<Rightarrow> event_row list" where
  "newest_first c s uid wid =
     rev (sort_key (event_key c) (filter (\<lambda>e. e_user e = uid \<and> e_word e = wid) (events s)))"

lemma newest_first_strict:
  assumes "distinct (map e_id (events s))"
  shows "sorted_wrt (\<lambda>x y. event_key c y < event_key c x) (newest_first c s uid wid)"
proof -
  let ?E = "filter (\<lambda>e. e_user e = uid \<and> e_word e = wid) (events s)"
  have "inj_on e_id (set (events s))" using assms by (simp add: distinct_map)
  then have "inj_on e_id (set ?E)" by (rule inj_on_subset) auto
  then have "inj_on (event_key c) (set ?E)"
    unfolding inj_on_def using event_key_inj by blast
  moreover have "distinct ?E" using assms by (simp add: distinct_map)
  ultimately have "distinct (map (event_key c) (sort_key (event_key c) ?E))" by (simp add: distinct_map)
  then have "sorted_wrt (<) (map (event_key c) (sort_key (event_key c) ?E))" by (simp add: strict_sorted_iff)
  then show ?thesis by (simp add: newest_first_def sorted_wrt_rev sorted_wrt_map)
qed

lemma filter_word_chunk:
  assumes "distinct (map e_id (events s))"
  shows "filter (\<lambda>e. e_word e = wid) (recent_chunk c s uid k chunk) =
    (if wid \<in> set chunk then take (nat k) (newest_first c s uid wid) else [])"
proof (cases "wid \<in> set chunk")
  case False
  then show ?thesis by (auto simp: recent_chunk_def Let_def filter_empty_conv)
next
  case True
  let ?E = "filter (\<lambda>e. e_user e = uid \<and> e_word e = wid) (events s)"
  let ?mine = "filter (\<lambda>e. e_user e = uid \<and> e_word e \<in> set chunk) (events s)"
  let ?N = "newest_first c s uid wid"
  let ?low = "\<lambda>e. length (filter (\<lambda>e'. event_key c e < event_key c e') ?N) < nat k"
  have rank: "newer_count c ?mine e = length (filter (\<lambda>e'. event_key c e < event_key c e') ?N)"
    if "e_user e = uid" "e_word e = wid" for e
  proof -
    have "newer_count c ?mine e = length (filter (\<lambda>e'. event_key c e < event_key c e') ?E)"
      using that True by (auto simp: newer_count_def count_where_def intro!: arg_cong [where f = length] filter_cong)
    then show ?thesis by (simp add: newest_first_def rev_filter [symmetric] filter_sort)
  qed
  have "filter (\<lambda>e. e_word e = wid) (filter (\<lambda>e. int (newer_count c ?mine e) + 1 \<le> k) ?mine) = filter ?low ?E"
    unfolding filter_filter using True rank by (intro filter_cong) auto
  then have "filter (\<lambda>e. e_word e = wid) (recent_chunk c s uid k chunk) = rev (sort_key (event_key c) (filter ?low ?E))"
    unfolding recent_chunk_def Let_def sort_key_stable rev_filter [symmetric] filter_sort by simp
  also have "\<dots> = filter ?low ?N"
    by (simp add: newest_first_def rev_filter [symmetric] filter_sort)
  also have "\<dots> = take (nat k) ?N"
    by (rule take_by_rank [OF newest_first_strict [OF assms]])
  finally show ?thesis using True by simp
qed

lemma fold_chunks:
  assumes "distinct (map e_id (events s))" and "distinct (concat cs)"
  shows "fold (\<lambda>chunk g. fold group_event (recent_chunk c s uid k chunk) g) cs g wid =
    (let new = take (nat k) (newest_first c s uid wid) in
     if wid \<in> set (concat cs) \<and> new \<noteq> [] then Some (or_else (g wid) [] @ new) else g wid)"
  using assms(2)
proof (induction cs arbitrary: g)
  case (Cons ch cs)
  then show ?case
    by (auto simp: fold_group_event filter_word_chunk [OF assms(1)] Let_def)
qed (simp add: Let_def)

lemma dict_fromkeys_simps [simp]: "set (dict_fromkeys xs) = set xs" "distinct (dict_fromkeys xs)"
  by (simp_all add: dict_fromkeys_def)

text \<open>The recent events of a set of words, read in batches and cut per word by a window
  function, are for every asked word the first \<open>per_word\<close> of its events, newest first, and
  nothing for a word without events; asking for a word twice changes nothing.\<close>

theorem recent_events_are_newest:
  assumes "events_ok s"
  shows "recent_events_for_words c s ids uid k wid =
    (if wid \<in> set ids \<and> take (nat k) (newest_first c s uid wid) \<noteq> []
     then Some (take (nat k) (newest_first c s uid wid)) else None)"
proof -
  have d: "distinct (map e_id (events s))" using assms by (simp add: events_ok_def)
  have c: "concat (chunks 500 (dict_fromkeys ids)) = dict_fromkeys ids" by (rule concat_chunks)
  have "distinct (concat (chunks 500 (dict_fromkeys ids)))" unfolding c by simp
  then show ?thesis
    unfolding recent_events_for_words_def Let_def fold_chunks [OF d \<open>distinct (concat _)\<close>] c by simp
qed

theorem recent_events_are_newest_witness:
  "map_option (map e_id) (recent_events_for_words two_day_clock three_events_db [7, 9, 7] 1 2 7) = Some [3, 2]"
proof -
  have "take (nat 2) (newest_first two_day_clock three_events_db 1 7) = [sample_event 3 3 5, sample_event 2 3 (- 1)]"
    by (simp add: newest_first_def three_events_db_def sample_event_def event_key_def two_day_text
        two_day_less two_day_not_less less_eq_prod_def less_prod_def numeral_eq_Suc del: stamp_text.simps)
  then show ?thesis
    unfolding recent_events_are_newest [OF three_events_ok] by (simp add: sample_event_def)
qed

end
