(* ===== verification/Lifecycle.thy ===== *)
theory Lifecycle imports Reviews begin

text \<open>
  The saved words as a state machine: every operation of \<open>services/db/words.py\<close>, the tap of
  \<open>services/grade_service.py\<close>, the pruning and the progress reset as one step relation on the
  database, and the invariants of all reachable databases.
\<close>

declare isoformat.simps [simp del] stamp_text.simps [simp del]

section \<open>The effect of an accepted tap\<close>

definition tap_events ::
    "('a clock_scheme) \<Rightarrow> db \<Rightarrow> int \<Rightarrow> int \<Rightarrow> int \<Rightarrow> string \<Rightarrow> string option \<Rightarrow> string option \<Rightarrow> int option \<Rightarrow> event_row list" where
  "tap_events c s wid g uid act src raw ms =
     (case src of None \<Rightarrow> [] | Some x \<Rightarrow>
        [\<lparr>e_id = next_event_id s, e_word = wid, e_user = uid, e_grade = Some g, e_activity = act, e_source = x,
          e_raw = raw, e_response_ms = ms, e_outcome = (if g \<ge> 2 then ''recalled'' else ''again''),
          e_created = Stamp (utc_now c)\<rparr>])"

definition tap_shape ::
    "('a clock_scheme) \<Rightarrow> db \<Rightarrow> int \<Rightarrow> int \<Rightarrow> int \<Rightarrow> string \<Rightarrow> string option \<Rightarrow> string option \<Rightarrow> int option \<Rightarrow> db \<Rightarrow> bool" where
  "tap_shape c s wid g uid act src raw ms s' \<longleftrightarrow>
     (\<exists>st d fe n. words s' = update_where (own_word wid uid) (graded_row c g st d fe n (src \<noteq> None)) (words s)) \<and>
     events s' = events s @ tap_events c s wid g uid act src raw ms \<and>
     next_event_id s' = next_event_id s + (if src = None then 0 else 1) \<and> next_word_id s' = next_word_id s"

lemma finish_grade_shape:
  assumes "finish_grade c s wid g uid act st d fe src raw ms ws = Inr (res, s')"
  shows "s' = s \<or> tap_shape c s wid g uid act src raw ms s'"
proof -
  obtain n i where sch: "schedule st (utc_now c) = Inr (n, i)" using schedule_ok by blast
  define s1 where "s1 = snd (apply_scheduling_fields s wid uid st d (utc_now c) n (isoformat (app_date c n)) fe)"
  define s2 where "s2 = mark_word_graded s1 uid wid act (utc_now c)"
  define s3 where "s3 = (case src of None \<Rightarrow> s2 | Some x \<Rightarrow> insert_review_event s2 wid uid g act x raw ms (utc_now c))"
  have a: "apply_scheduling_fields s wid uid st d (utc_now c) n (isoformat (app_date c n)) fe =
      (count_where (own_word wid uid) (words s), s1)" by (simp add: s1_def apply_scheduling_fields_def)
  have f: "events s1 = events s" "next_event_id s1 = next_event_id s" "next_word_id s1 = next_word_id s"
    by (simp_all add: s1_def apply_scheduling_fields_def)
  have w: "words s3 = update_where (own_word wid uid) (graded_row c g st d fe n (src \<noteq> None)) (words s)"
    by (cases src) (simp_all add: s3_def s2_def s1_def words_insert_event apply_scheduling_fields_def graded_row_def
        update_where_def own_word_def)
  have s3: "tap_shape c s wid g uid act src raw ms s3"
    using f w by (cases src) (auto simp: s3_def s2_def tap_shape_def tap_events_def insert_review_event_def Let_def)
  have "s' = s \<or> s' = s3 \<or> (\<exists>k. touch_streak_in_txn c s3 uid None = Inr (k, s'))"
    using assms unfolding finish_grade_def Let_def sch py_bind.simps prod.case a s2_def [symmetric] s3_def [symmetric]
    by (auto simp: py_bind_Inr_iff map_sum_Inr_iff split: if_splits)
  moreover have "tap_shape c s wid g uid act src raw ms s'" if "touch_streak_in_txn c s3 uid None = Inr (k, s')" for k
    using s3 unfolding tap_shape_def touch_streak_in_txn_frame [OF that] .
  ultimately show ?thesis using s3 by blast
qed

lemma grade_tap_shape:
  assumes "grade_tap c s wid g uid act src raw ms ws = Inr (res, s')"
  shows "s' = s \<or> tap_shape c s wid g uid act src raw ms s'"
  using assms unfolding grade_tap_def grade_word_review_def grade_first_exposure_def Let_def
  by (auto simp: py_bind_Inr_iff split: if_splits option.splits dest: finish_grade_shape)


section \<open>Steps\<close>

inductive word_step :: "db \<Rightarrow> db \<Rightarrow> bool" where
  add: "add_saved_word (c :: clock) u s uid text lang cd src = Inr (b, s') \<Longrightarrow> word_step s s'"
| toggle: "toggle_review_word (c :: clock) u s uid text lang cd src = Inr (res, s') \<Longrightarrow> word_step s s'"
| patch: "update_saved_word_fields s wid uid p = (b, s') \<Longrightarrow> word_step s s'"
| delete: "delete_saved_word s wid uid = (b, s') \<Longrightarrow> word_step s s'"
| expire: "reset_expired_pending_reviews (c :: clock) h s = s' \<Longrightarrow> word_step s s'"
| tap: "clock_ok (c :: clock) \<Longrightarrow> grade_tap c s wid g uid act src raw ms ws = Inr (r, s') \<Longrightarrow> word_step s s'"
| forget: "clear_session_grades s uid = s' \<Longrightarrow> word_step s s'"
| prune: "prune_old_review_events (c :: clock) days keep batch budget s = (n, s') \<Longrightarrow> word_step s s'"
| reset: "reset_user_progress s uid = s' \<Longrightarrow> word_step s s'"
| touch: "touch_streak (c :: clock) s uid = Inr (n, s') \<Longrightarrow> word_step s s'"

inductive reachable :: "db \<Rightarrow> bool" where
  start: "reachable empty_db"
| step: "reachable s \<Longrightarrow> word_step s s' \<Longrightarrow> reachable s'"

inductive_cases word_stepE: "word_step s s'"

section \<open>The history invariant\<close>

text \<open>The events of one card, and those of them that are lapses.\<close>

definition events_of :: "db \<Rightarrow> word_row \<Rightarrow> nat" where
  "events_of s r = count_where (\<lambda>e. e_word e = w_id r \<and> e_user e = w_user r) (events s)"

definition lapses_of :: "db \<Rightarrow> word_row \<Rightarrow> nat" where
  "lapses_of s r = count_where (\<lambda>e. e_word e = w_id r \<and> e_user e = w_user r \<and> lapse_row e) (events s)"

definition counters_ok :: "db \<Rightarrow> word_row \<Rightarrow> bool" where
  "counters_ok s r \<longleftrightarrow> int (events_of s r) \<le> w_total r \<and> int (lapses_of s r) \<le> w_lapses r \<and> w_lapses r \<le> w_total r"

definition history_inv :: "db \<Rightarrow> bool" where
  "history_inv s \<longleftrightarrow> events_ok s \<and> (\<forall>e \<in> set (events s). e_word e < next_word_id s) \<and>
     (\<forall>r \<in> set (words s). counters_ok s r)"

lemma history_inv_empty: "history_inv empty_db"
  by (simp add: history_inv_def events_ok_def)

lemma count_where_filter_le: "count_where p (filter q xs) \<le> count_where p xs"
  by (auto simp: count_where_def intro!: length_filter_mono)

text \<open>Steps that drop events and rows, and only raise counters.\<close>

lemma history_inv_shrink:
  assumes "history_inv s" and "events s' = filter q (events s)"
    and "next_event_id s' = next_event_id s" and "next_word_id s' = next_word_id s"
    and "\<And>r'. r' \<in> set (words s') \<Longrightarrow> \<exists>r \<in> set (words s). w_id r' = w_id r \<and> w_user r' = w_user r \<and>
      w_total r \<le> w_total r' \<and> w_lapses r \<le> w_lapses r' \<and> w_lapses r' \<le> w_total r'"
  shows "history_inv s'"
proof -
  have "counters_ok s' r'" if r': "r' \<in> set (words s')" for r'
  proof -
    obtain r where r: "r \<in> set (words s)" "w_id r' = w_id r" "w_user r' = w_user r" "w_total r \<le> w_total r'"
      "w_lapses r \<le> w_lapses r'" "w_lapses r' \<le> w_total r'" using assms(5) [OF r'] by blast
    have "counters_ok s r" using assms(1) r(1) by (simp add: history_inv_def)
    moreover have "events_of s' r' \<le> events_of s r" and "lapses_of s' r' \<le> lapses_of s r"
      unfolding events_of_def lapses_of_def r(2,3) assms(2) by (rule count_where_filter_le)+
    ultimately show ?thesis using r by (simp add: counters_ok_def)
  qed
  then show ?thesis
    using assms(1-4) by (auto simp: history_inv_def events_ok_def distinct_map_filter)
qed

lemma history_inv_same_events:
  assumes "history_inv s" and "events s' = events s" "next_event_id s' = next_event_id s" "next_word_id s' = next_word_id s"
    and "\<And>r'. r' \<in> set (words s') \<Longrightarrow> \<exists>r \<in> set (words s). w_id r' = w_id r \<and> w_user r' = w_user r \<and>
      w_total r' = w_total r \<and> w_lapses r' = w_lapses r"
  shows "history_inv s'"
proof (rule history_inv_shrink [OF assms(1), of s' "\<lambda>_. True"])
  fix r' assume "r' \<in> set (words s')"
  then obtain r where r: "r \<in> set (words s)" "w_id r' = w_id r" "w_user r' = w_user r"
    "w_total r' = w_total r" "w_lapses r' = w_lapses r" using assms(5) by blast
  then have "w_lapses r \<le> w_total r" using assms(1) by (auto simp: history_inv_def counters_ok_def)
  with r show "\<exists>r \<in> set (words s). w_id r' = w_id r \<and> w_user r' = w_user r \<and>
      w_total r \<le> w_total r' \<and> w_lapses r \<le> w_lapses r' \<and> w_lapses r' \<le> w_total r'" by auto
qed (use assms in simp_all)

lemma history_inv_insert:
  assumes "history_inv s"
  shows "history_inv (snd (insert_word c s uid text lang k cj nr src))"
proof (cases "\<exists>r \<in> set (words s). same_key uid lang k r")
  case True
  then show ?thesis using assms by (simp add: insert_word_def)
next
  case False
  let ?r = "new_word_row c (next_word_id s) uid text lang k cj nr src"
  have "\<forall>e \<in> set (events s). e_word e \<noteq> next_word_id s" using assms by (auto simp: history_inv_def)
  then have "events_of s ?r = 0" "lapses_of s ?r = 0"
    by (auto simp: events_of_def lapses_of_def count_where_0_iff new_word_row_def)
  then have "counters_ok s ?r" by (simp add: counters_ok_def new_word_row_def)
  moreover have "counters_ok (snd (insert_word c s uid text lang k cj nr src)) r = counters_ok s r" for r
    using False by (simp add: insert_word_def counters_ok_def events_of_def lapses_of_def)
  ultimately show ?thesis
    using False assms by (auto simp: insert_word_def history_inv_def events_ok_def counters_ok_def events_of_def lapses_of_def)
qed

lemma history_inv_tap:
  assumes "history_inv s" and "tap_shape c s wid g uid act src raw ms s'" and "words_inv s"
    and "find (own_word wid uid) (words s) \<noteq> None"
  shows "history_inv s'"
proof -
  obtain st d fe n where w: "words s' = update_where (own_word wid uid) (graded_row c g st d fe n (src \<noteq> None)) (words s)"
    and e: "events s' = events s @ tap_events c s wid g uid act src raw ms"
    and ids: "next_event_id s' = next_event_id s + (if src = None then 0 else 1)" "next_word_id s' = next_word_id s"
    using assms(2) by (auto simp: tap_shape_def)
  have wid: "wid < next_word_id s"
    using assms(3,4) find_Some_D by (fastforce simp: words_inv_def own_word_def)
  have user: "w_user (graded_row c g st d fe n ev r) = w_user r" for ev r by (simp add: graded_row_def)
  have cnt: "events_of s' r = events_of s r + (if src \<noteq> None \<and> own_word wid uid r then 1 else 0)"
    "lapses_of s' r = lapses_of s r + (if src \<noteq> None \<and> own_word wid uid r \<and> g = 1 then 1 else 0)" for r
    unfolding events_of_def lapses_of_def count_where_def e
    by (auto simp: tap_events_def own_word_def lapse_row_def is_lapse_def split: option.splits)
  have "counters_ok s' r'" if mem: "r' \<in> set (words s')" for r'
  proof -
    obtain r where r: "r \<in> set (words s)" and r': "r' = (if own_word wid uid r then graded_row c g st d fe n (src \<noteq> None) r else r)"
      using mem unfolding w set_update_where by blast
    have same: "events_of s r' = events_of s r" "lapses_of s r' = lapses_of s r" "own_word wid uid r' = own_word wid uid r"
      by (simp_all add: r' events_of_def lapses_of_def user own_word_graded)
    have "counters_ok s r" using assms(1) r by (simp add: history_inv_def)
    then show ?thesis unfolding counters_ok_def cnt same by (auto simp: r')
  qed
  moreover have "events_ok s'"
    using assms(1) e ids by (auto simp: history_inv_def events_ok_def tap_events_def split: option.splits)
  moreover have "\<forall>x \<in> set (events s'). e_word x < next_word_id s'"
    using assms(1) wid e ids by (auto simp: history_inv_def tap_events_def split: option.splits)
  ultimately show ?thesis by (simp add: history_inv_def)
qed


section \<open>Every step keeps the invariants\<close>

definition cards_inv :: "db \<Rightarrow> bool" where
  "cards_inv s \<longleftrightarrow> words_inv s \<and> history_inv s"

lemma cards_inv_insert: "cards_inv s \<Longrightarrow> cards_inv (snd (insert_word c s uid text lang k cj nr src))"
  by (simp add: cards_inv_def words_inv_insert history_inv_insert)

text \<open>An update of the word rows that touches neither identity, memory state nor counters.\<close>

lemma cards_inv_update:
  assumes "cards_inv s" and "words s' = update_where p f (words s)" and "events s' = events s"
    and "next_word_id s' = next_word_id s" and "next_event_id s' = next_event_id s"
    and "\<And>r. w_id (f r) = w_id r" and "\<And>r. word_key (f r) = word_key r"
    and "\<And>r. w_total (f r) = w_total r" and "\<And>r. w_lapses (f r) = w_lapses r" and "\<And>r. row_ok r \<Longrightarrow> row_ok (f r)"
  shows "cards_inv s'"
proof -
  have user: "w_user (f r) = w_user r" for r using assms(7) [of r] by (simp add: word_key_def)
  have "words_inv s'"
    using assms(1,10) by (intro words_inv_update [OF _ assms(2,4,6,7)]) (auto simp: cards_inv_def)
  moreover have "history_inv s'"
  proof (rule history_inv_same_events)
    show "history_inv s" using assms(1) by (simp add: cards_inv_def)
    fix r' assume "r' \<in> set (words s')"
    then obtain r where "r \<in> set (words s)" "r' = (if p r then f r else r)"
      unfolding assms(2) set_update_where by blast
    then show "\<exists>r \<in> set (words s). w_id r' = w_id r \<and> w_user r' = w_user r \<and> w_total r' = w_total r \<and> w_lapses r' = w_lapses r"
      using assms(6,8,9) user by (intro bexI [of _ r]) auto
  qed (use assms in simp_all)
  ultimately show ?thesis by (simp add: cards_inv_def)
qed

lemma cards_inv_updated:
  assumes "cards_inv s"
    and "\<And>r. w_id (f r) = w_id r" and "\<And>r. word_key (f r) = word_key r"
    and "\<And>r. w_total (f r) = w_total r" and "\<And>r. w_lapses (f r) = w_lapses r" and "\<And>r. row_ok r \<Longrightarrow> row_ok (f r)"
  shows "cards_inv (s\<lparr>words := update_where p f (words s)\<rparr>)"
  by (rule cards_inv_update [OF assms(1), of _ p f]) (simp_all add: assms)

lemma cards_inv_delete:
  assumes "cards_inv s" and "words s' = delete_where p (words s)" and "events s' = filter q (events s)"
    and "next_word_id s' = next_word_id s" and "next_event_id s' = next_event_id s"
  shows "cards_inv s'"
proof -
  have "words_inv s'" using assms by (intro words_inv_delete [of s s' p]) (auto simp: cards_inv_def)
  moreover have "history_inv s'"
    using assms by (intro history_inv_shrink [of s s' q])
      (auto simp: cards_inv_def history_inv_def counters_ok_def intro!: bexI)
  ultimately show ?thesis by (simp add: cards_inv_def)
qed

lemma cards_inv_same:
  assumes "cards_inv s" and "words s' = words s" "events s' = events s" "next_word_id s' = next_word_id s"
    "next_event_id s' = next_event_id s"
  shows "cards_inv s'"
  using assms by (auto simp: cards_inv_def history_inv_def events_ok_def counters_ok_def events_of_def
      lapses_of_def intro: words_inv_same)

lemma add_saved_word_inv:
  assumes "cards_inv s" and "add_saved_word c u s uid text lang cd src = Inr (b, s')"
  shows "cards_inv s'"
proof -
  let ?k = "normalize_word u text"
  let ?ins = "\<lambda>t. insert_word c s uid (join_sp (py_split text)) lang ?k (map_option CardObj cd) (isoformat t) src"
  let ?fill = "\<lambda>r. r\<lparr>w_card := (case w_card r of None \<Rightarrow> map_option CardObj cd | Some x \<Rightarrow> Some x)\<rparr>"
  consider "s' = s" | t where "s' = snd (?ins t)"
    | t where "s' = (snd (?ins t))\<lparr>words := update_where (same_key uid lang ?k) ?fill (words (snd (?ins t)))\<rparr>"
    using assms(2) that unfolding add_saved_word_def Let_def
    by (auto simp: py_bind_Inr_iff split_beta eq_snd_iff split: if_splits)
  then show ?thesis
  proof cases
    case 1
    then show ?thesis using assms(1) by simp
  next
    case 2
    then show ?thesis using cards_inv_insert [OF assms(1)] by simp
  next
    case 3
    show ?thesis unfolding 3
      by (rule cards_inv_updated [OF cards_inv_insert [OF assms(1)]]) (simp_all add: word_key_def row_ok_def)
  qed
qed

lemma toggle_inv:
  assumes "cards_inv s" and "toggle_review_word c u s uid text lang cd src = Inr (res, s')"
  shows "cards_inv s'"
  using assms cards_inv_insert [OF assms(1)]
    cards_inv_delete [OF assms(1), of "s\<lparr>words := delete_where p (words s)\<rparr>" p "\<lambda>_. True" for p]
  by (auto simp: toggle_review_word_def Let_def py_bind_Inr_iff split: if_splits option.splits)

lemma patch_inv:
  assumes "cards_inv s" and "update_saved_word_fields s wid uid p = (b, s')"
  shows "cards_inv s'"
proof -
  have "s' = s \<or> (\<exists>m. s' = s\<lparr>words := update_where (own_word wid uid) (\<lambda>r. r\<lparr>w_card := m\<rparr>) (words s)\<rparr>)"
    using assms(2) by (auto simp: update_saved_word_fields_def Let_def split: option.splits card_text.splits if_splits)
  moreover have "cards_inv (s\<lparr>words := update_where (own_word wid uid) (\<lambda>r. r\<lparr>w_card := m\<rparr>) (words s)\<rparr>)" for m
    by (rule cards_inv_updated [OF assms(1)]) (simp_all add: word_key_def row_ok_def)
  ultimately show ?thesis using assms(1) by auto
qed

lemma expire_inv: "cards_inv s \<Longrightarrow> cards_inv (reset_expired_pending_reviews c h s)"
  unfolding reset_expired_pending_reviews_def Let_def
  by (rule cards_inv_updated, assumption) (simp_all add: word_key_def row_ok_def)

lemma delete_inv: "cards_inv s \<Longrightarrow> delete_saved_word s wid uid = (b, s') \<Longrightarrow> cards_inv s'"
  by (auto simp: delete_saved_word_def delete_where_def [of _ "events s"] split: if_splits elim!: cards_inv_delete)

lemma reset_inv: "cards_inv s \<Longrightarrow> cards_inv (reset_user_progress s uid)"
  by (rule cards_inv_delete) (simp_all add: reset_user_progress_def delete_where_def [of _ "events s"])


text \<open>What a row that only grew in its counters keeps.\<close>

lemma grows_fields:
  assumes "grows r r'"
  shows "w_id r' = w_id r" "w_user r' = w_user r" "word_key r' = word_key r" "row_ok r' = row_ok r"
proof -
  have e: "r'\<lparr>w_total := w_total r, w_lapses := w_lapses r\<rparr> = r" using assms by (simp add: grows_def)
  show "w_id r' = w_id r" "w_user r' = w_user r" "word_key r' = word_key r" "row_ok r' = row_ok r"
    using arg_cong [OF e, of w_id] arg_cong [OF e, of w_user] arg_cong [OF e, of word_key] arg_cong [OF e, of row_ok]
    by (simp_all add: word_key_def row_ok_def)
qed

lemma list_grows_map:
  assumes "list_all2 grows rows rows'" and "\<And>r r'. grows r r' \<Longrightarrow> f r' = f r"
  shows "map f rows' = map f rows"
  using assms(1) by (induction rows rows' rule: list_all2_induct) (auto simp: assms(2))

lemma list_grows_member:
  assumes "list_all2 grows rows rows'" and "r' \<in> set rows'"
  shows "\<exists>r \<in> set rows. grows r r'"
  using assms by (induction rows rows' rule: list_all2_induct) auto

text \<open>Lapses stay below reviews: so do the totals that pass 1 hands to pass 2.\<close>

definition totals_ok :: "totals \<Rightarrow> bool" where
  "totals_ok tot \<longleftrightarrow> (\<forall>x \<in> set tot. snd (snd x) \<le> fst (snd x))"

lemma totals_ok_add: "totals_ok tot \<Longrightarrow> l \<le> 1 \<Longrightarrow> totals_ok (add_total k l tot)"
  by (induction k l tot rule: add_total.induct) (simp_all add: totals_ok_def)

lemma totals_ok_fold: "totals_ok tot \<Longrightarrow> totals_ok (fold count_event es tot)"
  by (induction es arbitrary: tot) (simp_all add: count_event_def totals_ok_add)

lemma prune_totals_ok: "prune_totals scan evs i budget tot = (tot', b) \<Longrightarrow> totals_ok tot \<Longrightarrow> totals_ok tot'"
proof (induction scan evs i budget tot rule: prune_totals.induct)
  case (1 scan evs i budget tot)
  show ?case
    using "1.prems" "1.IH" [OF _ refl refl _ refl]
    unfolding prune_totals.simps [of scan evs i budget tot] Let_def
    by (auto simp: totals_ok_fold split: if_splits)
qed

lemma reconcile_lapses:
  assumes "\<forall>r \<in> set rows. w_lapses r \<le> w_total r" and "totals_ok items"
  shows "\<forall>r \<in> set (fold reconcile items rows). w_lapses r \<le> w_total r"
  using assms
proof (induction items arbitrary: rows)
  case (Cons item items)
  obtain u v n l where i: "item = ((u, v), (n, l))" by (metis surj_pair)
  have le: "l \<le> n" using Cons.prems(2) by (simp add: totals_ok_def i)
  have "\<forall>r \<in> set (reconcile item rows). w_lapses r \<le> w_total r"
    using Cons.prems(1) le by (auto simp: i reconcile_def update_where_def)
  then show ?case using Cons by (simp add: totals_ok_def)
qed simp

lemma prune_reconcile_lapses:
  assumes "prune_reconcile cs budget rows = (rows', b)" and "\<forall>r \<in> set rows. w_lapses r \<le> w_total r"
    and "totals_ok (concat cs)"
  shows "\<forall>r \<in> set rows'. w_lapses r \<le> w_total r"
  using assms
proof (induction cs budget rows rule: prune_reconcile.induct)
  case (2 chunk rest budget rows)
  have "totals_ok chunk" "totals_ok (concat rest)" using "2.prems"(3) by (auto simp: totals_ok_def)
  then show ?case using 2 reconcile_lapses by (auto split: if_splits)
qed simp

lemma prune_inv:
  assumes "cards_inv s" and p: "prune_old_review_events c days keep batch budget s = (n, s')"
  shows "cards_inv s'"
proof -
  have h: "history_inv s" and ok: "events_ok s" and wi: "words_inv s"
    using assms(1) by (auto simp: cards_inv_def history_inv_def)
  have lapses: "\<forall>r \<in> set (words s'). w_lapses r \<le> w_total r"
  proof -
    obtain tot b1 where t: "prune_totals (nat (max 1 batch)) (events s) 0 budget [] = (tot, b1)" by fastforce
    obtain ws b2 where r: "prune_reconcile (chunks (nat (max 1 batch)) tot) b1 (words s) = (ws, b2)" by fastforce
    have "totals_ok (concat (chunks (nat (max 1 batch)) tot))"
      unfolding concat_chunks by (rule prune_totals_ok [OF t]) (simp add: totals_ok_def)
    moreover have "\<forall>r \<in> set (words s). w_lapses r \<le> w_total r"
      using h by (auto simp: history_inv_def counters_ok_def)
    ultimately have "\<forall>r \<in> set ws. w_lapses r \<le> w_total r" using prune_reconcile_lapses [OF r] by blast
    then show ?thesis using p t r by (auto simp: prune_old_review_events_def Let_def split: prod.splits)
  qed
  have facts: "list_all2 grows (words s) (words s') \<and> s' = s\<lparr>words := words s', events := events s'\<rparr> \<and>
      (\<exists>q. events s' = filter q (events s))"
    using p ok
  proof (cases rule: prune_cases)
    case stopped
    then show ?thesis by (auto intro!: exI [of _ "\<lambda>_. True"])
  next
    case (ran b)
    have "distinct (map e_id (events s))" using ok by (simp add: events_ok_def)
    from prune_victims_safe [OF ran(2) this] show ?thesis using ran by blast
  qed
  then obtain q where g: "list_all2 grows (words s) (words s')" and q: "events s' = filter q (events s)"
    and same: "next_word_id s' = next_word_id s" "next_event_id s' = next_event_id s"
    by (metis db.select_convs db.surjective db.update_convs)
  have "history_inv s'"
    using h q same(2,1)
  proof (rule history_inv_shrink)
    fix r' assume r': "r' \<in> set (words s')"
    then obtain r where "r \<in> set (words s)" "grows r r'" using list_grows_member [OF g] by blast
    then show "\<exists>r \<in> set (words s). w_id r' = w_id r \<and> w_user r' = w_user r \<and> w_total r \<le> w_total r' \<and>
        w_lapses r \<le> w_lapses r' \<and> w_lapses r' \<le> w_total r'"
      using lapses r' grows_fields [of r r'] by (intro bexI [of _ r]) (auto simp: grows_def)
  qed
  moreover have "words_inv s'"
  proof -
    have "map w_id (words s') = map w_id (words s)" "map word_key (words s') = map word_key (words s)"
      by (rule list_grows_map [OF g], erule grows_fields)+
    moreover have "row_ok r' \<and> w_id r' < next_word_id s'" if "r' \<in> set (words s')" for r'
      using list_grows_member [OF g that] wi same(1) grows_fields by (fastforce simp: words_inv_def)
    ultimately show ?thesis using wi by (simp add: words_inv_def)
  qed
  ultimately show ?thesis by (simp add: cards_inv_def)
qed


lemma grade_tap_unknown:
  assumes "grade_tap c s wid g uid act src raw ms ws = Inr (res, s')" and "find (own_word wid uid) (words s) = None"
  shows "s' = s"
  using assms by (auto simp: grade_tap_def grade_word_review_def grade_first_exposure_def py_bind_Inr_iff split: if_splits)

lemma grade_tap_words_inv:
  assumes "clock_ok c" and "words_inv s" and "grade_tap c s wid g uid act src raw ms ws = Inr (res, s')"
  shows "words_inv s'"
proof (cases "g_ok res")
  case False
  then have "s' = s" using assms(3) grade_word_review_refused grade_first_exposure_refused
    by (auto simp: grade_tap_def split: if_splits)
  then show ?thesis using assms(2) by simp
next
  case True
  have g: "g \<in> {1, 2, 3, 4}"
    using assms(3) by (auto simp: grade_tap_def grade_word_review_def grade_first_exposure_def validate_grade_def
        py_bind_Inr_iff split: if_splits)
  obtain row where row: "find (own_word wid uid) (words s) = Some row"
    using True assms(3) by (cases "find (own_word wid uid) (words s)")
      (auto simp: grade_tap_def grade_word_review_def grade_first_exposure_def grade_failed_def py_bind_Inr_iff split: if_splits)
  have "act = ''srs_review'' \<and> or_else (w_fe_done row) 0 \<noteq> 0 \<or> act = ''first_exposure'' \<and> or_else (w_fe_done row) 0 = 0"
    using True assms(3) row
    by (auto simp: grade_tap_def grade_word_review_def grade_first_exposure_def grade_failed_def py_bind_Inr_iff split: if_splits)
  then show ?thesis
    using grade_word_review_done [OF assms(1,2) g row, of src raw ms ws]
      grade_first_exposure_done [OF assms(1,2) g row, of src raw ms ws] assms(3)
    by (auto simp: grade_tap_def tap_done_def)
qed

lemma tap_inv:
  assumes "cards_inv s" and "clock_ok c" and "grade_tap c s wid g uid act src raw ms ws = Inr (res, s')"
  shows "cards_inv s'"
proof (cases "find (own_word wid uid) (words s)")
  case None
  then show ?thesis using grade_tap_unknown [OF assms(3)] assms(1) by simp
next
  case (Some row)
  have "words_inv s'" using grade_tap_words_inv [OF assms(2) _ assms(3)] assms(1) by (simp add: cards_inv_def)
  moreover have "history_inv s'"
    using grade_tap_shape [OF assms(3)] history_inv_tap [of s c wid g uid act src raw ms s'] Some assms(1)
    by (auto simp: cards_inv_def)
  ultimately show ?thesis by (simp add: cards_inv_def)
qed

lemma touch_inv:
  assumes "cards_inv s" and "touch_streak c s uid = Inr (n, s')"
  shows "cards_inv s'"
proof -
  have t: "touch_streak_in_txn c s uid None = Inr (n, s')" using assms(2) by (simp add: touch_streak_def)
  show ?thesis by (rule cards_inv_same [OF assms(1)]) (rule touch_streak_in_txn_frame [OF t])+
qed

lemma cards_inv_step: "word_step s s' \<Longrightarrow> cards_inv s \<Longrightarrow> cards_inv s'"
proof (induction rule: word_step.induct)
  case (forget s uid s')
  then show ?case by (auto simp: clear_session_grades_def elim!: cards_inv_same)
qed (auto intro: add_saved_word_inv toggle_inv patch_inv delete_inv expire_inv tap_inv prune_inv reset_inv touch_inv)

lemma reachable_inv: "reachable s \<Longrightarrow> cards_inv s"
  by (induction rule: reachable.induct)
    (auto simp: words_inv_empty history_inv_empty cards_inv_def [of empty_db] intro: cards_inv_step)

section \<open>Properties\<close>

text \<open>C19: in every database reachable from an empty one by any sequence of the word operations,
  ids and (user, language, word) keys are unique, every card past its first exposure has a
  positive stability, a difficulty in 1 to 10 and a review time, event ids are unique, and each
  card's lifetime counters are at least what its events show, with no more lapses than reviews.\<close>

theorem reachable_cards_inv:
  assumes "reachable s"
  shows "words_inv s \<and> events_ok s \<and> (\<forall>r \<in> set (words s). counters_ok s r)"
  using reachable_inv [OF assms] by (simp add: cards_inv_def history_inv_def)

text \<open>A word added on the last day of January.\<close>

definition one_word_db :: db where
  "one_word_db = snd (insert_word (clock_at 0 (2026, 1, 31)) empty_db 1 ''salt'' ''en'' ''salt'' None ''2026-02-01'' ''manual'')"

lemma one_word_added:
  "add_saved_word (clock_at 0 (2026, 1, 31)) ascii_text empty_db 1 '' Salt '' ''en'' None ''manual'' = Inr (True,
     snd (insert_word (clock_at 0 (2026, 1, 31)) empty_db 1 ''Salt'' ''en'' ''salt'' None (isoformat (2026, 2, 1)) ''manual''))"
proof -
  have "join_sp (py_split '' Salt '') = ''Salt''" by code_simp
  then show ?thesis
    by (simp add: add_saved_word_def normalize_salt Let_def split_beta days_in_month_def insert_word_def numeral_2_eq_2)
qed

theorem reachable_cards_inv_witness:
  "\<exists>s. add_saved_word (clock_at 0 (2026, 1, 31)) ascii_text empty_db 1 '' Salt '' ''en'' None ''manual'' = Inr (True, s) \<and>
     length (words s) = 1 \<and> words_inv s"
proof -
  let ?s = "snd (insert_word (clock_at 0 (2026, 1, 31)) empty_db 1 ''Salt'' ''en'' ''salt'' None (isoformat (2026, 2, 1)) ''manual'')"
  have "reachable ?s" by (rule reachable.step [OF reachable.start word_step.add [OF one_word_added]])
  from reachable_cards_inv [OF this] show ?thesis using one_word_added by (simp add: insert_word_def)
qed

text \<open>For every saved card of a reachable database the review count shown on its badge is its
  lifetime counter: the fall-back to counting event rows is never needed, not even after a
  pruning.\<close>

theorem badge_counts_lifetime_reviews:
  assumes "reachable s" and "find (own_word wid uid) (words s) = Some r"
  shows "count_review_events_for_card s uid wid = w_total r"
proof -
  have "r \<in> set (words s)" "w_id r = wid" "w_user r = uid"
    using find_Some_D [OF assms(2)] by (auto simp: own_word_def)
  moreover have "history_inv s" using reachable_inv [OF assms(1)] by (simp add: cards_inv_def)
  ultimately have "int (count_where (\<lambda>e. e_word e = wid \<and> e_user e = uid) (events s)) \<le> w_total r"
    by (auto simp: history_inv_def counters_ok_def events_of_def)
  then show ?thesis using assms(2) by (simp add: count_review_events_for_card_def)
qed

theorem badge_counts_lifetime_reviews_witness:
  "\<exists>s. word_step empty_db s \<and> count_review_events_for_card s 1 1 = 0"
proof -
  let ?s = "snd (insert_word (clock_at 0 (2026, 1, 31)) empty_db 1 ''Salt'' ''en'' ''salt'' None (isoformat (2026, 2, 1)) ''manual'')"
  have st: "word_step empty_db ?s" by (rule word_step.add [OF one_word_added])
  have f: "find (own_word 1 1) (words ?s) =
      Some (new_word_row (clock_at 0 (2026, 1, 31)) 1 1 ''Salt'' ''en'' ''salt'' None (isoformat (2026, 2, 1)) ''manual'')"
    by (simp add: insert_word_def own_word_def new_word_row_def)
  show ?thesis
    using badge_counts_lifetime_reviews [OF reachable.step [OF reachable.start st] f] st by (auto simp: new_word_row_def)
qed

text \<open>C40: What deleting a word does, and what it leaves behind. \<open>delete_saved_word\<close> removes the row and
  the user's review events of it and clears the user's query pointers to it; that is all it does:
  the rows of other words, the other events and queries, the grade ledger and the stored study
  sessions are as they were, so a ledger row or a stored session that names the word still names it
  afterwards. Removing the same word with the toggle deletes the row and nothing else at all: its
  events and query pointers stay too, although nothing can ever own them again.\<close>

theorem delete_cascades_toggle_does_not:
  assumes "reachable s" and "find (same_key uid lang (normalize_word u text)) (words s) = Some r"
    and "normalize_word u text \<noteq> ''''"
  shows "(\<exists>s'. delete_saved_word s (w_id r) uid = (True, s') \<and>
      (\<forall>x \<in> set (words s'). w_id x \<noteq> w_id r) \<and> (\<forall>e \<in> set (events s'). e_word e = w_id r \<longrightarrow> e_user e \<noteq> uid) \<and>
      (\<forall>q \<in> set (queries s'). q_saved_word q = Some (w_id r) \<longrightarrow> q_user q \<noteq> uid) \<and>
      words s' = filter (\<lambda>x. w_id x \<noteq> w_id r) (words s) \<and>
      filter (\<lambda>e. e_word e \<noteq> w_id r) (events s') = filter (\<lambda>e. e_word e \<noteq> w_id r) (events s) \<and>
      events s' = filter (\<lambda>e. \<not> (e_word e = w_id r \<and> e_user e = uid)) (events s) \<and>
      queries s' = map (\<lambda>q. if q_saved_word q = Some (w_id r) \<and> q_user q = uid
        then q\<lparr>q_saved_word := None, q_saved_at := None\<rparr> else q) (queries s) \<and>
      ledger s' = ledger s \<and> studies s' = studies s \<and>
      s' = s\<lparr>words := words s', events := events s', queries := queries s'\<rparr>) \<and>
    (\<exists>s'. toggle_review_word c u s uid text lang cd src = Inr (Removed, s') \<and>
      words s' = filter (\<lambda>x. w_id x \<noteq> w_id r) (words s) \<and> events s' = events s \<and> queries s' = queries s \<and>
      s' = s\<lparr>words := words s'\<rparr>)"
proof -
  let ?s' = "s\<lparr>words := filter (\<lambda>x. w_id x \<noteq> w_id r) (words s),
      events := delete_where (\<lambda>e. e_word e = w_id r \<and> e_user e = uid) (events s),
      queries := update_where (\<lambda>q. q_saved_word q = Some (w_id r) \<and> q_user q = uid)
        (\<lambda>q. q\<lparr>q_saved_word := None, q_saved_at := None\<rparr>) (queries s)\<rparr>"
  have inv: "words_inv s" using reachable_inv [OF assms(1)] by (simp add: cards_inv_def)
  have r: "r \<in> set (words s)" "w_user r = uid" using find_Some_D [OF assms(2)] by (auto simp: same_key_def)
  have own: "own_word (w_id r) uid x \<longleftrightarrow> w_id x = w_id r" if "x \<in> set (words s)" for x
    using that r words_inv_distinct [OF inv] by (auto simp: own_word_def distinct_map inj_on_def)
  have "count_where (own_word (w_id r) uid) (words s) \<noteq> 0"
    using r own by (auto simp: count_where_0_iff)
  moreover have del: "delete_where (own_word (w_id r) uid) (words s) = filter (\<lambda>x. w_id x \<noteq> w_id r) (words s)"
    unfolding delete_where_def by (rule filter_cong) (simp_all add: own)
  ultimately have d: "delete_saved_word s (w_id r) uid = (True, ?s')" by (simp add: delete_saved_word_def)
  have q: "\<forall>q \<in> set (queries ?s'). q_saved_word q = Some (w_id r) \<longrightarrow> q_user q \<noteq> uid"
    by (simp add: ball_update_where)
  have e: "filter (\<lambda>e. e_word e \<noteq> w_id r) (events ?s') = filter (\<lambda>e. e_word e \<noteq> w_id r) (events s)"
    by (auto simp: delete_where_def intro!: filter_cong)
  have qs: "queries ?s' = map (\<lambda>q. if q_saved_word q = Some (w_id r) \<and> q_user q = uid
      then q\<lparr>q_saved_word := None, q_saved_at := None\<rparr> else q) (queries s)"
    by (simp add: update_where_def)
  have "toggle_review_word c u s uid text lang cd src = Inr (Removed, s\<lparr>words := filter (\<lambda>x. w_id x \<noteq> w_id r) (words s)\<rparr>)"
    using assms(2,3) by (simp add: toggle_review_word_def delete_where_def)
  then have t: "\<exists>s'. toggle_review_word c u s uid text lang cd src = Inr (Removed, s') \<and>
      words s' = filter (\<lambda>x. w_id x \<noteq> w_id r) (words s) \<and> events s' = events s \<and> queries s' = queries s \<and>
      s' = s\<lparr>words := words s'\<rparr>"
    by (intro exI [of _ "s\<lparr>words := filter (\<lambda>x. w_id x \<noteq> w_id r) (words s)\<rparr>"] conjI) simp_all
  have es: "events ?s' = filter (\<lambda>e. \<not> (e_word e = w_id r \<and> e_user e = uid)) (events s)"
    by (simp add: delete_where_def)
  have es': "\<forall>x \<in> set (events ?s'). e_word x = w_id r \<longrightarrow> e_user x \<noteq> uid" by (simp add: delete_where_def)
  have ws: "\<forall>x \<in> set (words ?s'). w_id x \<noteq> w_id r" by simp
  have rest: "words ?s' = filter (\<lambda>x. w_id x \<noteq> w_id r) (words s)" "ledger ?s' = ledger s" "studies ?s' = studies s"
    "?s' = s\<lparr>words := words ?s', events := events ?s', queries := queries ?s'\<rparr>" by simp_all
  show ?thesis by (rule conjI [OF exI [of _ ?s'] t]) (intro conjI d ws es' q e es qs rest)
qed

theorem delete_cascades_toggle_does_not_witness:
  "\<exists>s s1 s2. reachable s \<and> map w_id (words s) = [1] \<and> delete_saved_word s 1 1 = (True, s1) \<and> words s1 = [] \<and>
     toggle_review_word (clock_at 0 (2026, 1, 31)) ascii_text s 1 '' Salt '' ''en'' None ''manual'' = Inr (Removed, s2) \<and>
     words s2 = [] \<and> s2 = s\<lparr>words := []\<rparr>"
proof -
  let ?r = "new_word_row (clock_at 0 (2026, 1, 31)) 1 1 ''Salt'' ''en'' ''salt'' None (isoformat (2026, 2, 1)) ''manual''"
  let ?s = "snd (insert_word (clock_at 0 (2026, 1, 31)) empty_db 1 ''Salt'' ''en'' ''salt'' None (isoformat (2026, 2, 1)) ''manual'')"
  have re: "reachable ?s" by (rule reachable.step [OF reachable.start word_step.add [OF one_word_added]])
  have f: "find (same_key 1 ''en'' (normalize_word ascii_text '' Salt '')) (words ?s) = Some ?r"
    by (simp add: normalize_salt insert_word_def same_key_def new_word_row_def)
  have i: "w_id ?r = 1" "map w_id (words ?s) = [1]" "filter (\<lambda>x. w_id x \<noteq> 1) (words ?s) = []"
    by (simp_all add: insert_word_def new_word_row_def)
  note th = delete_cascades_toggle_does_not [OF re f, of "clock_at 0 (2026, 1, 31)" None "''manual''", unfolded i(1)]
  have n: "normalize_word ascii_text '' Salt '' \<noteq> ''''" by (simp add: normalize_salt)
  obtain s1 where s1: "delete_saved_word ?s 1 1 = (True, s1)" "words s1 = []"
    by (rule exE [OF conjunct1 [OF th [OF n]]], elim conjE) (rule that, assumption, erule trans [OF _ i(3)])
  obtain s2 where s2: "toggle_review_word (clock_at 0 (2026, 1, 31)) ascii_text ?s 1 '' Salt '' ''en'' None ''manual'' = Inr (Removed, s2)"
    "words s2 = []" "s2 = ?s\<lparr>words := words s2\<rparr>"
    by (rule exE [OF conjunct2 [OF th [OF n]]], elim conjE)
      (rule that, assumption, erule trans [OF _ i(3)], assumption)
  have "s2 = ?s\<lparr>words := []\<rparr>" using s2(3) unfolding s2(2) .
  with re i(2) s1 s2(1,2) show ?thesis by (intro exI conjI)
qed

end
