(* ===== verification/Quota.thy ===== *)
theory Quota imports Lifecycle begin

text \<open>
  Daily quotas and the rate guard: \<open>services/scheduling.py\<close> (session slots kept in the settings
  table under one key per user and day, the purge of old keys, the in-memory sliding window per
  user and action) and the kind-dispatched facade \<open>services/quota_service.py\<close>. The contract the
  three kinds of quota share is the locale \<open>quota_gate\<close>, interpreted for each of them.
\<close>

section \<open>Session slots\<close>

definition session_key :: "('a clock_scheme) \<Rightarrow> int \<Rightarrow> string" where
  "session_key c uid = ''sessions_used_'' @ int_str uid @ ''_'' @ today_iso c"

definition int_or_zero :: "string \<Rightarrow> int" where
  "int_or_zero raw = (case py_int_of raw of Inr n \<Rightarrow> n | Inl _ \<Rightarrow> 0)"

definition get_used :: "('a clock_scheme) \<Rightarrow> db \<Rightarrow> int \<Rightarrow> int" where
  "get_used c s uid = int_or_zero (get_setting s (session_key c uid) ''0'')"

record session_budget =
  sb_total :: int
  sb_remaining :: int
  sb_used :: int
  sb_plan :: string

definition daily_session_budget :: "('a clock_scheme) \<Rightarrow> db \<Rightarrow> int \<Rightarrow> string \<Rightarrow> session_budget" where
  "daily_session_budget c s uid plan =
     (let total_n = max_sessions_for_plan s plan; used = get_used c s uid
      in \<lparr>sb_total = total_n, sb_remaining = max 0 (total_n - used), sb_used = used, sb_plan = plan\<rparr>)"

definition consume_session_slot :: "('a clock_scheme) \<Rightarrow> int \<Rightarrow> string \<Rightarrow> db \<Rightarrow> bool \<times> db" where
  "consume_session_slot c uid plan s =
     (let limit = max_sessions_for_plan s plan; key = session_key c uid;
          used = (case settings s key of None \<Rightarrow> 0 | Some v \<Rightarrow> int_or_zero v)
      in if used \<ge> limit then (False, s) else (True, set_setting s key (int_str (used + 1))))"

definition release_session_slot :: "('a clock_scheme) \<Rightarrow> int \<Rightarrow> db \<Rightarrow> db" where
  "release_session_slot c uid s =
     (let key = session_key c uid;
          used = (case settings s key of None \<Rightarrow> 0 | Some v \<Rightarrow> int_or_zero v)
      in if used \<le> 0
         then (case settings s key of
                 None \<Rightarrow> s
               | Some v \<Rightarrow> if v \<noteq> ''0'' then set_setting s key ''0'' else s)
         else set_setting s key (int_str (used - 1)))"

text \<open>
  The keys \<open>^sessions_used_(digits)_(dddd-dd-dd)$\<close>: the date part of a key of that shape.
\<close>

definition is_date_text :: "string \<Rightarrow> bool" where
  "is_date_text d \<longleftrightarrow> length d = 10 \<and> d ! 4 = CHR ''-'' \<and> d ! 7 = CHR ''-'' \<and>
     list_all is_digit (take 4 d) \<and> list_all is_digit (take 2 (drop 5 d)) \<and> list_all is_digit (drop 8 d)"

definition slot_key_date :: "string \<Rightarrow> string option" where
  "slot_key_date key =
     (let pre = ''sessions_used_'' in
      if take (length pre) key \<noteq> pre then None
      else let body = drop (length pre) key;
               uid = takeWhile is_digit body; tl_part = dropWhile is_digit body
           in if uid \<noteq> '''' \<and> tl_part \<noteq> '''' \<and> hd tl_part = CHR ''_'' \<and> is_date_text (tl tl_part)
              then Some (tl tl_part) else None)"

text \<open>
  \<open>rows\<close> are the keys of the settings table, as the query lists them; \<open>range\<close> with a step
  of zero raises \<open>ValueError\<close>, a negative step runs no batch.
\<close>

fun delete_batches :: "nat option \<Rightarrow> string list list \<Rightarrow> (string \<Rightarrow> string option) \<Rightarrow> nat
    \<Rightarrow> (string \<Rightarrow> string option) \<times> nat" where
  "delete_batches budget [] kv deleted = (kv, deleted)"
| "delete_batches budget (chunk # rest) kv deleted =
     (if budget = Some 0 then (kv, deleted)
      else delete_batches (map_option (\<lambda>k. k - 1) budget) rest (kv |` (- set chunk))
             (deleted + length (filter (\<lambda>k. kv k \<noteq> None) chunk)))"

definition purge_old_session_slot_keys ::
    "('a clock_scheme) \<Rightarrow> int \<Rightarrow> nat option \<Rightarrow> string list \<Rightarrow> db \<Rightarrow> (nat \<times> db) py" where
  "purge_old_session_slot_keys c batch budget rows s =
     py_bind (day_before (today c)) (\<lambda>yesterday.
       let keep_from = isoformat yesterday;
           stale = filter (\<lambda>k. case slot_key_date k of Some d \<Rightarrow> d < keep_from | None \<Rightarrow> False) rows
       in if batch = 0 then Inl ValueError
          else let (kv, deleted) = delete_batches budget (if batch < 0 then [] else chunks (nat batch) stale) (settings s) 0
               in Inr (deleted, s\<lparr>settings := kv\<rparr>))"

section \<open>The facade\<close>

definition QUOTA_KINDS :: "string set" where
  "QUOTA_KINDS = {''word'', ''grammar_tip'', ''session_slot''}"

definition require_limit :: "int option \<Rightarrow> int py" where
  "require_limit daily_limit = (case daily_limit of None \<Rightarrow> Inl ValueError | Some l \<Rightarrow> Inr l)"

definition check_kind :: "string \<Rightarrow> string py" where
  "check_kind kind = (if kind \<notin> QUOTA_KINDS then Inl ValueError else Inr kind)"

definition quota_can ::
    "('a clock_scheme) \<Rightarrow> string \<Rightarrow> int \<Rightarrow> int option \<Rightarrow> string \<Rightarrow> bool \<Rightarrow> db \<Rightarrow> bool py" where
  "quota_can c kind uid daily_limit plan bypass s =
     py_bind (check_kind kind) (\<lambda>_.
       if kind = ''word'' then py_bind (require_limit daily_limit) (\<lambda>l. Inr (can_ask_word c s uid l bypass))
       else if kind = ''grammar_tip'' then py_bind (require_limit daily_limit) (\<lambda>l. Inr (can_ask_grammar_tip c s uid l bypass))
       else Inr (sb_remaining (daily_session_budget c s uid plan) > 0))"

definition quota_reserve ::
    "('a clock_scheme) \<Rightarrow> string \<Rightarrow> int \<Rightarrow> int option \<Rightarrow> string \<Rightarrow> bool \<Rightarrow> db \<Rightarrow> (bool \<times> db) py" where
  "quota_reserve c kind uid daily_limit plan bypass s =
     py_bind (check_kind kind) (\<lambda>_.
       if kind = ''word'' then py_bind (require_limit daily_limit) (\<lambda>l. Inr (reserve_word_query c uid l bypass s))
       else if kind = ''grammar_tip'' then py_bind (require_limit daily_limit) (\<lambda>l. Inr (reserve_grammar_tip c uid l bypass s))
       else Inr (consume_session_slot c uid plan s))"

definition quota_consume ::
    "('a clock_scheme) \<Rightarrow> string \<Rightarrow> int \<Rightarrow> int option \<Rightarrow> string \<Rightarrow> bool \<Rightarrow> db \<Rightarrow> (bool \<times> db) py" where
  "quota_consume c kind uid daily_limit plan bypass s = quota_reserve c kind uid daily_limit plan bypass s"

definition quota_release :: "('a clock_scheme) \<Rightarrow> string \<Rightarrow> int \<Rightarrow> db \<Rightarrow> db py" where
  "quota_release c kind uid s =
     py_bind (check_kind kind) (\<lambda>_.
       if kind = ''word'' then Inr (release_word_query c uid s)
       else if kind = ''grammar_tip'' then Inr (release_grammar_tip c uid s)
       else Inr (release_session_slot c uid s))"

section \<open>The rate guard\<close>

type_synonym buckets = "int \<times> string \<Rightarrow> real list option"

definition RATE_WINDOW_SECONDS :: real where
  "RATE_WINDOW_SECONDS = 10"

definition RATE_LIMIT :: nat where
  "RATE_LIMIT = 5"

definition RATE_LIMITS :: "string \<Rightarrow> nat option" where
  "RATE_LIMITS = [''study_start'' \<mapsto> 5, ''query_ask'' \<mapsto> 5, ''grammar_tip'' \<mapsto> 5,
     ''srs_grade_review'' \<mapsto> 5, ''srs_grade_first'' \<mapsto> 5, ''srs_grade'' \<mapsto> 5]"

definition limit_for :: "string \<Rightarrow> nat" where
  "limit_for action = or_else (RATE_LIMITS action) RATE_LIMIT"

definition prune :: "real list \<Rightarrow> real \<Rightarrow> real list" where
  "prune bucket now_ts = dropWhile (\<lambda>t. t \<le> now_ts - RATE_WINDOW_SECONDS) bucket"

definition is_rate_limited :: "buckets \<Rightarrow> int \<Rightarrow> string \<Rightarrow> real \<Rightarrow> bool \<times> buckets" where
  "is_rate_limited b uid action now =
     (case b (uid, action) of
        None \<Rightarrow> (False, b)
      | Some bucket \<Rightarrow>
          (if bucket = [] then (False, b)
           else let bucket' = prune bucket now
                in if bucket' = [] then (False, b((uid, action) := None))
                   else (limit_for action \<le> length bucket', b((uid, action) \<mapsto> bucket'))))"

definition try_acquire_per_user_slot :: "buckets \<Rightarrow> int \<Rightarrow> string \<Rightarrow> real \<Rightarrow> bool \<times> buckets" where
  "try_acquire_per_user_slot b uid action ts =
     (let bucket = prune (or_else (b (uid, action)) []) ts
      in if limit_for action \<le> length bucket
         then (False, if bucket = [] then b((uid, action) := None) else b((uid, action) \<mapsto> bucket))
         else (True, b((uid, action) \<mapsto> bucket @ [ts])))"

definition record_per_user_action :: "buckets \<Rightarrow> int \<Rightarrow> string \<Rightarrow> real \<Rightarrow> buckets" where
  "record_per_user_action b uid action ts =
     b((uid, action) \<mapsto> prune (or_else (b (uid, action)) []) ts @ [ts])"

definition check_per_user_rate :: "buckets \<Rightarrow> int \<Rightarrow> string \<Rightarrow> real \<Rightarrow> bool \<times> buckets" where
  "check_per_user_rate b uid action now =
     (let (limited, b') = is_rate_limited b uid action now in (\<not> limited, b'))"

section \<open>The contract of a quota\<close>

text \<open>
  A quota as its clients see it: how much is used, a gate that takes one unit below the limit and
  refuses at it without any effect, and a release that gives one unit back, never below zero.
\<close>

locale quota_gate =
  fixes used :: "'s \<Rightarrow> int" and limit :: int and reserve :: "'s \<Rightarrow> bool \<times> 's" and release :: "'s \<Rightarrow> 's"
    and inv :: "'s \<Rightarrow> bool"
  assumes used_nonneg: "inv s \<Longrightarrow> 0 \<le> used s"
    and reserve_below: "inv s \<Longrightarrow> used s < limit \<Longrightarrow> \<exists>s'. reserve s = (True, s') \<and> used s' = used s + 1 \<and> inv s'"
    and reserve_at: "inv s \<Longrightarrow> limit \<le> used s \<Longrightarrow> reserve s = (False, s)"
    and release_one: "inv s \<Longrightarrow> used (release s) = max 0 (used s - 1) \<and> inv (release s)"
begin

text \<open>How many of \<open>n\<close> attempts in a row are granted.\<close>

primrec granted :: "nat \<Rightarrow> 's \<Rightarrow> nat" where
  "granted 0 s = 0"
| "granted (Suc n) s = (let (ok, s') = reserve s in (if ok then 1 else 0) + granted n s')"

lemma granted_exactly: "inv s \<Longrightarrow> granted n s = min n (nat (limit - used s))"
proof (induction n arbitrary: s)
  case (Suc n)
  show ?case
  proof (cases "used s < limit")
    case True
    obtain s' where s': "reserve s = (True, s')" "used s' = used s + 1" "inv s'"
      using reserve_below [OF Suc.prems True] by blast
    have "nat (limit - used s) = Suc (nat (limit - used s'))" using True s'(2) by simp
    then show ?thesis using Suc.IH [OF s'(3)] s'(1) by simp
  next
    case False
    then have "reserve s = (False, s)" using reserve_at [OF Suc.prems] by simp
    then show ?thesis using Suc.IH [OF Suc.prems] False by simp
  qed
qed simp

lemma reserve_release: "inv s \<Longrightarrow> reserve s = (True, s') \<Longrightarrow> used (release s') = used s"
  using reserve_below [of s] reserve_at [of s] release_one [of s'] used_nonneg [of s]
  by (cases "used s < limit") auto

lemma never_over:
  assumes "inv s" and "used s \<le> max 0 limit"
  shows "used (snd (reserve s)) \<le> max 0 limit" and "used (release s) \<le> max 0 limit"
  using assms reserve_below [OF assms(1)] reserve_at [OF assms(1)] release_one [OF assms(1)]
  by (cases "used s < limit"; force)+

lemma reserve_iff: "inv s \<Longrightarrow> fst (reserve s) \<longleftrightarrow> used s < limit"
  using reserve_below [of s] reserve_at [of s] by (cases "used s < limit") auto

end

section \<open>The three kinds meet the contract\<close>

definition word_used :: "('a clock_scheme) \<Rightarrow> int \<Rightarrow> db \<Rightarrow> int" where
  "word_used c uid s = (case get_user s uid of None \<Rightarrow> 0
     | Some r \<Rightarrow> current_daily_count c (u_words_asked r) (u_words_date r))"

definition tip_used :: "('a clock_scheme) \<Rightarrow> int \<Rightarrow> db \<Rightarrow> int" where
  "tip_used c uid s = (case get_user s uid of None \<Rightarrow> 0
     | Some r \<Rightarrow> current_daily_count c (u_tips_asked r) (u_tips_date r))"

definition word_inv :: "('a clock_scheme) \<Rightarrow> int \<Rightarrow> db \<Rightarrow> bool" where
  "word_inv c uid s \<longleftrightarrow> get_user s uid \<noteq> None \<and> 0 \<le> word_used c uid s"

definition tip_inv :: "('a clock_scheme) \<Rightarrow> int \<Rightarrow> db \<Rightarrow> bool" where
  "tip_inv c uid s \<longleftrightarrow> get_user s uid \<noteq> None \<and> 0 \<le> tip_used c uid s"

definition slot_inv :: "('a clock_scheme) \<Rightarrow> int \<Rightarrow> string \<Rightarrow> int \<Rightarrow> db \<Rightarrow> bool" where
  "slot_inv c uid plan limit s \<longleftrightarrow> max_sessions_for_plan s plan = limit \<and> 0 \<le> get_used c s uid"

lemma find_update_where_if:
  "(\<And>r. p r \<Longrightarrow> q (f r) = q r) \<Longrightarrow>
   find q (update_where p f rs) = map_option (\<lambda>r. if p r then f r else r) (find q rs)"
  by (induction rs) (auto simp: update_where_def)

lemma get_user_release_word:
  "get_user (release_word_query c uid s) uid' = map_option
     (\<lambda>r. if u_id r = uid \<and> u_words_date r = Some (today_iso c) \<and> or_else (u_words_asked r) 0 > 0
          then r\<lparr>u_words_asked := map_option (\<lambda>n. max (n - 1) 0) (u_words_asked r)\<rparr> else r) (get_user s uid')"
  unfolding get_user_def release_word_query_def by (simp add: find_update_where_if)

lemma get_user_release_tip:
  "get_user (release_grammar_tip c uid s) uid' = map_option
     (\<lambda>r. if u_id r = uid \<and> u_tips_date r = Some (today_iso c) \<and> or_else (u_tips_asked r) 0 > 0
          then r\<lparr>u_tips_asked := map_option (\<lambda>n. max (n - 1) 0) (u_tips_asked r)\<rparr> else r) (get_user s uid')"
  unfolding get_user_def release_grammar_tip_def by (simp add: find_update_where_if)

lemma get_user_id: "get_user s uid = Some r \<Longrightarrow> u_id r = uid"
  using find_Some_D by (fastforce simp: get_user_def)

interpretation word_gate: quota_gate "word_used c uid" "int n" "reserve_word_query c uid (int n) False"
    "release_word_query c uid" "word_inv c uid" for c :: "'a clock_scheme" and uid :: int and n :: nat
proof unfold_locales
  fix s assume inv: "word_inv c uid s"
  then obtain r where r: "get_user s uid = Some r" and u: "0 \<le> word_used c uid s" by (auto simp: word_inv_def)
  show "0 \<le> word_used c uid s" by (rule u)
  show "\<exists>s'. reserve_word_query c uid (int n) False s = (True, s') \<and> word_used c uid s' = word_used c uid s + 1 \<and> word_inv c uid s'"
    if "word_used c uid s < int n"
    using that r u by (auto simp: reserve_word_query_def Let_def word_used_def word_inv_def get_user_update_same current_daily_count_def)
  show "reserve_word_query c uid (int n) False s = (False, s)" if "int n \<le> word_used c uid s"
    using that r by (simp add: reserve_word_query_def Let_def word_used_def)
  show "word_used c uid (release_word_query c uid s) = max 0 (word_used c uid s - 1) \<and> word_inv c uid (release_word_query c uid s)"
    using r u get_user_id [OF r]
    by (cases "u_words_asked r") (auto simp: word_used_def word_inv_def get_user_release_word current_daily_count_def)
qed

interpretation tip_gate: quota_gate "tip_used c uid" "int n" "reserve_grammar_tip c uid (int n) False"
    "release_grammar_tip c uid" "tip_inv c uid" for c :: "'a clock_scheme" and uid :: int and n :: nat
proof unfold_locales
  fix s assume inv: "tip_inv c uid s"
  then obtain r where r: "get_user s uid = Some r" and u: "0 \<le> tip_used c uid s" by (auto simp: tip_inv_def)
  show "0 \<le> tip_used c uid s" by (rule u)
  show "\<exists>s'. reserve_grammar_tip c uid (int n) False s = (True, s') \<and> tip_used c uid s' = tip_used c uid s + 1 \<and> tip_inv c uid s'"
    if "tip_used c uid s < int n"
    using that r u by (auto simp: reserve_grammar_tip_def Let_def tip_used_def tip_inv_def get_user_update_same current_daily_count_def)
  show "reserve_grammar_tip c uid (int n) False s = (False, s)" if "int n \<le> tip_used c uid s"
    using that r by (simp add: reserve_grammar_tip_def Let_def tip_used_def)
  show "tip_used c uid (release_grammar_tip c uid s) = max 0 (tip_used c uid s - 1) \<and> tip_inv c uid (release_grammar_tip c uid s)"
    using r u get_user_id [OF r]
    by (cases "u_tips_asked r") (auto simp: tip_used_def tip_inv_def get_user_release_tip current_daily_count_def)
qed

text \<open>The session slots: the settings table as a key-value store.\<close>

lemma int_or_zero_int_str [simp]: "int_or_zero (int_str i) = i"
  by (simp add: int_or_zero_def)

lemma zero_text: "int_or_zero ''0'' = 0"
  by (simp add: int_or_zero_def py_int_of_def is_digit_def)

lemma get_used_eq: "get_used c s uid = (case settings s (session_key c uid) of None \<Rightarrow> 0 | Some v \<Rightarrow> int_or_zero v)"
  by (simp add: get_used_def get_setting_def zero_text split: option.split)

lemma get_used_set [simp]: "get_used c (set_setting s (session_key c uid) (int_str i)) uid = i"
  by (simp add: get_used_eq settings_kv.kv_get_put_same)

lemma max_sessions_set [simp]: "max_sessions_for_plan (set_setting s k v) plan = max_sessions_for_plan s plan"
  by (simp add: max_sessions_for_plan_def plan_spec_def get_plan_def)

lemma session_key_inj: "session_key c uid = session_key c uid' \<longleftrightarrow> uid = uid'"
  by (simp add: session_key_def)

interpretation slot_gate: quota_gate "\<lambda>s. get_used c s uid" limit "consume_session_slot c uid plan"
    "release_session_slot c uid" "slot_inv c uid plan limit"
    for c :: "'a clock_scheme" and uid limit :: int and plan :: string
proof unfold_locales
  fix s assume inv: "slot_inv c uid plan limit s"
  then have l: "max_sessions_for_plan s plan = limit" and u: "0 \<le> get_used c s uid" by (auto simp: slot_inv_def)
  show "0 \<le> get_used c s uid" by (rule u)
  show "\<exists>s'. consume_session_slot c uid plan s = (True, s') \<and> get_used c s' uid = get_used c s uid + 1 \<and> slot_inv c uid plan limit s'"
    if "get_used c s uid < limit"
    using that l u by (auto simp: consume_session_slot_def Let_def get_used_eq [symmetric] slot_inv_def)
  show "consume_session_slot c uid plan s = (False, s)" if "limit \<le> get_used c s uid"
    using that l by (simp add: consume_session_slot_def Let_def get_used_eq [symmetric])
  have zero: "get_used c (set_setting s (session_key c uid) ''0'') uid = 0"
    by (simp add: get_used_eq settings_kv.kv_get_put_same zero_text)
  show "get_used c (release_session_slot c uid s) uid = max 0 (get_used c s uid - 1) \<and> slot_inv c uid plan limit (release_session_slot c uid s)"
  proof (cases "get_used c s uid \<le> 0")
    case True
    then have "get_used c s uid = 0" using u by simp
    then show ?thesis using l u zero
      by (auto simp: release_session_slot_def Let_def get_used_eq [symmetric] slot_inv_def split: option.split)
  next
    case False
    then show ?thesis using l
      by (simp add: release_session_slot_def Let_def get_used_eq [symmetric] slot_inv_def)
  qed
qed

section \<open>Properties\<close>

text \<open>How many of \<open>n\<close> reservations in a row the facade grants.\<close>

fun quota_granted ::
    "('a clock_scheme) \<Rightarrow> string \<Rightarrow> int \<Rightarrow> int option \<Rightarrow> string \<Rightarrow> nat \<Rightarrow> db \<Rightarrow> nat py" where
  "quota_granted c kind uid daily_limit plan 0 s = Inr 0"
| "quota_granted c kind uid daily_limit plan (Suc n) s =
     py_bind (quota_reserve c kind uid daily_limit plan False s) (\<lambda>(ok, s').
     py_bind (quota_granted c kind uid daily_limit plan n s') (\<lambda>k. Inr ((if ok then 1 else 0) + k)))"

lemma quota_reserve_kinds:
  "quota_reserve c ''word'' uid (Some l) plan bypass s = Inr (reserve_word_query c uid l bypass s)"
  "quota_reserve c ''grammar_tip'' uid (Some l) plan bypass s = Inr (reserve_grammar_tip c uid l bypass s)"
  "quota_reserve c ''session_slot'' uid dl plan bypass s = Inr (consume_session_slot c uid plan s)"
  by (simp_all add: quota_reserve_def check_kind_def QUOTA_KINDS_def require_limit_def)

lemma quota_granted_word:
  "quota_granted c ''word'' uid (Some (int l)) plan n s = Inr (quota_gate.granted (reserve_word_query c uid (int l) False) n s)"
  by (induction n arbitrary: s) (simp_all add: quota_reserve_kinds split_beta word_gate.granted.simps)

lemma quota_granted_tip:
  "quota_granted c ''grammar_tip'' uid (Some (int l)) plan n s = Inr (quota_gate.granted (reserve_grammar_tip c uid (int l) False) n s)"
  by (induction n arbitrary: s) (simp_all add: quota_reserve_kinds split_beta tip_gate.granted.simps)

lemma quota_granted_slot:
  "quota_granted c ''session_slot'' uid dl plan n s = Inr (quota_gate.granted (consume_session_slot c uid plan) n s)"
  by (induction n arbitrary: s) (simp_all add: quota_reserve_kinds split_beta slot_gate.granted.simps)

text \<open>C6: of any number of attempts in a row on a fresh day each kind of quota grants exactly as
  many as its limit allows, never one more and never one less: word queries and grammar tips
  up to the limit handed in, study sessions up to the plan's number.\<close>

theorem quota_grants_exactly_limit:
  assumes "get_user s uid \<noteq> None" and "word_used c uid s = 0" "tip_used c uid s = 0" "get_used c s uid = 0"
  shows "quota_granted c ''word'' uid (Some (int l)) plan n s = Inr (min n l) \<and>
    quota_granted c ''grammar_tip'' uid (Some (int l)) plan n s = Inr (min n l) \<and>
    quota_granted c ''session_slot'' uid None plan n s = Inr (min n (nat (max_sessions_for_plan s plan)))"
proof -
  have "word_inv c uid s" "tip_inv c uid s" "slot_inv c uid plan (max_sessions_for_plan s plan) s"
    using assms by (auto simp: word_inv_def tip_inv_def slot_inv_def)
  then show ?thesis
    unfolding quota_granted_word quota_granted_tip quota_granted_slot
    using word_gate.granted_exactly [of c uid s l n] tip_gate.granted_exactly [of c uid s l n]
      slot_gate.granted_exactly [of c uid plan _ s n] assms(2-4) by simp
qed

theorem quota_grants_exactly_limit_witness:
  "quota_granted (clock_at 0 (2026, 1, 1)) ''word'' 1 (Some 2) ''free'' 5 (sample_user_db None 3) = Inr 2 \<and>
   quota_granted (clock_at 0 (2026, 1, 1)) ''session_slot'' 1 None ''free'' 5 (sample_user_db None 3) = Inr 2"
proof -
  have m: "max_sessions_for_plan (sample_user_db None 3) ''free'' = 2"
    by (simp add: max_sessions_for_plan_def plan_spec_def get_plan_def sample_user_db_def PLAN_LIMITS_def int_or_def Let_def)
  have u: "word_used (clock_at 0 (2026, 1, 1)) 1 (sample_user_db None 3) = 0" "tip_used (clock_at 0 (2026, 1, 1)) 1 (sample_user_db None 3) = 0"
    "get_used (clock_at 0 (2026, 1, 1)) (sample_user_db None 3) 1 = 0"
    by (simp_all add: word_used_def tip_used_def current_daily_count_def sample_user_def new_user_row_def get_used_eq sample_user_db_def get_user_def)
  show ?thesis
    using quota_grants_exactly_limit [OF _ u, of 2 "''free''" 5] m by simp
qed

text \<open>The read-only hint of the facade agrees with the gate: asked in the same state, it says yes
  exactly when the reservation would be granted, for every kind, limit, plan and bypass, and
  raises the same error on a bad request.\<close>

theorem quota_hint_agrees_with_gate:
  "quota_can c kind uid daily_limit plan bypass s = map_sum id fst (quota_reserve c kind uid daily_limit plan bypass s)"
proof -
  have "can_ask_word c s uid l bypass = fst (reserve_word_query c uid l bypass s)" for l
    by (auto simp: can_ask_word_def reserve_word_query_def can_consume_daily_count_def Let_def split: option.split)
  moreover have "can_ask_grammar_tip c s uid l bypass = fst (reserve_grammar_tip c uid l bypass s)" for l
    by (auto simp: can_ask_grammar_tip_def reserve_grammar_tip_def can_consume_daily_count_def Let_def split: option.split)
  moreover have "(0 < sb_remaining (daily_session_budget c s uid plan)) = fst (consume_session_slot c uid plan s)"
    by (auto simp: daily_session_budget_def consume_session_slot_def Let_def get_used_eq)
  ultimately show ?thesis
    by (auto simp: quota_can_def quota_reserve_def check_kind_def require_limit_def split: option.split)
qed

text \<open>A release gives back exactly one unit and never goes below zero, so it undoes one
  reservation; it is not idempotent: two releases after two reservations give both back.\<close>

theorem release_undoes_one_reserve:
  assumes "word_inv c uid s" and "reserve_word_query c uid (int l) False s = (True, s')"
    and "slot_inv c uid plan m s2" and "consume_session_slot c uid plan s2 = (True, s2')"
  shows "word_used c uid (release_word_query c uid s') = word_used c uid s \<and>
    word_used c uid (release_word_query c uid (release_word_query c uid s')) = max 0 (word_used c uid s - 1) \<and>
    get_used c (release_session_slot c uid s2') uid = get_used c s2 uid \<and>
    get_used c (release_session_slot c uid (release_session_slot c uid s2')) uid = max 0 (get_used c s2 uid - 1)"
proof -
  have inv: "word_inv c uid s'"
    using word_gate.reserve_below [OF assms(1), of l] word_gate.reserve_at [OF assms(1), of l] assms(2)
    by (cases "word_used c uid s < int l") auto
  have inv2: "slot_inv c uid plan m s2'"
    using slot_gate.reserve_below [OF assms(3)] slot_gate.reserve_at [OF assms(3)] assms(4)
    by (cases "get_used c s2 uid < m") auto
  have r1: "word_inv c uid (release_word_query c uid s')" and r2: "slot_inv c uid plan m (release_session_slot c uid s2')"
    using word_gate.release_one [OF inv] slot_gate.release_one [OF inv2] by auto
  show ?thesis
    using word_gate.reserve_release [OF assms(1,2)] slot_gate.reserve_release [OF assms(3,4)]
      word_gate.release_one [OF r1] slot_gate.release_one [OF r2] by simp
qed

theorem release_undoes_one_reserve_witness:
  "\<exists>s'. reserve_word_query (clock_at 0 (2026, 1, 1)) 1 2 False (sample_user_db None 3) = (True, s') \<and>
     word_used (clock_at 0 (2026, 1, 1)) 1 (release_word_query (clock_at 0 (2026, 1, 1)) 1 s') = 0"
proof -
  let ?c = "clock_at 0 (2026, 1, 1)" and ?s = "sample_user_db None 3"
  have m: "max_sessions_for_plan ?s ''free'' = 2"
    by (simp add: max_sessions_for_plan_def plan_spec_def get_plan_def sample_user_db_def PLAN_LIMITS_def int_or_def Let_def)
  have u: "word_used ?c 1 ?s = 0" "get_used ?c ?s 1 = 0"
    by (simp_all add: word_used_def current_daily_count_def sample_user_def new_user_row_def get_used_eq sample_user_db_def get_user_def)
  have w: "word_inv ?c 1 ?s" and v: "slot_inv ?c 1 ''free'' 2 ?s" using u m by (simp_all add: word_inv_def slot_inv_def)
  obtain s1 where s1: "reserve_word_query ?c 1 (int 2) False ?s = (True, s1)"
    using word_gate.reserve_below [OF w, of 2] u by auto
  obtain s2 where s2: "consume_session_slot ?c 1 ''free'' ?s = (True, s2)"
    using slot_gate.reserve_below [OF v] u by auto
  show ?thesis using release_undoes_one_reserve [OF w s1 v s2] s1 u by auto
qed

text \<open>One user's session slots are not another's: consuming and releasing for one user leaves
  the count of every other user, and the keys of different users never collide.\<close>

theorem session_slots_are_separate:
  assumes "uid' \<noteq> uid"
  shows "get_used c (snd (consume_session_slot c uid plan s)) uid' = get_used c s uid' \<and>
    get_used c (release_session_slot c uid s) uid' = get_used c s uid' \<and>
    session_key c uid' \<noteq> session_key c uid"
proof -
  have k: "session_key c uid' \<noteq> session_key c uid" using assms by (simp add: session_key_inj)
  then show ?thesis
    by (auto simp: consume_session_slot_def release_session_slot_def Let_def get_used_eq settings_kv.kv_get_put_other split: option.split)
qed

theorem session_slots_are_separate_witness:
  "get_used (clock_at 0 (2026, 1, 1)) (snd (consume_session_slot (clock_at 0 (2026, 1, 1)) 12 ''free'' empty_db)) 1 =
   get_used (clock_at 0 (2026, 1, 1)) empty_db 1"
  using session_slots_are_separate [of 1 12 "clock_at 0 (2026, 1, 1)" "''free''" empty_db] by simp

section \<open>The sliding window\<close>

text \<open>The times that are granted, of a list of attempts.\<close>

fun acquired :: "buckets \<Rightarrow> int \<Rightarrow> string \<Rightarrow> real list \<Rightarrow> real list" where
  "acquired b uid action [] = []"
| "acquired b uid action (t # ts) =
     (let (ok, b') = try_acquire_per_user_slot b uid action t
      in if ok then t # acquired b' uid action ts else acquired b' uid action ts)"

definition window_ok :: "nat \<Rightarrow> real list \<Rightarrow> bool" where
  "window_ok l ts \<longleftrightarrow> (\<forall>t. length (filter (\<lambda>x. t - RATE_WINDOW_SECONDS < x \<and> x \<le> t) ts) \<le> l)"

lemma prune_filter: "sorted bucket \<Longrightarrow> prune bucket t = filter (\<lambda>x. t - RATE_WINDOW_SECONDS < x) bucket"
proof (induction bucket)
  case (Cons x xs)
  show ?case
  proof (cases "x \<le> t - RATE_WINDOW_SECONDS")
    case True
    then show ?thesis using Cons by (simp add: prune_def)
  next
    case False
    then have "filter (\<lambda>x. t - RATE_WINDOW_SECONDS < x) xs = xs"
      using Cons.prems by (force simp: filter_id_conv)
    then show ?thesis using False by (simp add: prune_def)
  qed
qed (simp add: prune_def)

lemma acquired_window:
  assumes "sorted G" and "\<forall>x \<in> set G. x \<le> T" and "or_else (b (uid, action)) [] = filter (\<lambda>x. c < x) G"
    and "c \<le> T - RATE_WINDOW_SECONDS" and "window_ok (limit_for action) G" and "sorted ts" and "\<forall>t \<in> set ts. T \<le> t"
  shows "window_ok (limit_for action) (G @ acquired b uid action ts)"
  using assms
proof (induction ts arbitrary: b G T c)
  case (Cons t ts)
  let ?B = "filter (\<lambda>x. t - RATE_WINDOW_SECONDS < x) G"
  have p: "prune (or_else (b (uid, action)) []) t = ?B"
  proof -
    have "sorted (or_else (b (uid, action)) [])" unfolding Cons.prems(3) using Cons.prems(1) by (simp add: sorted_wrt_filter)
    then have "prune (or_else (b (uid, action)) []) t = filter (\<lambda>x. t - RATE_WINDOW_SECONDS < x) (filter (\<lambda>x. c < x) G)"
      unfolding Cons.prems(3) by (rule prune_filter)
    also have "\<dots> = ?B" using Cons.prems(4,7) by (auto intro!: filter_cong)
    finally show ?thesis .
  qed
  have T: "T \<le> t" and later: "sorted ts" "\<forall>u \<in> set ts. t \<le> u" using Cons.prems(6,7) by auto
  have le: "\<forall>x \<in> set G. x \<le> t" using Cons.prems(2) T by fastforce
  show ?case
  proof (cases "limit_for action \<le> length ?B")
    case True
    define b' where "b' = (if ?B = [] then b((uid, action) := None) else b((uid, action) \<mapsto> ?B))"
    have a: "try_acquire_per_user_slot b uid action t = (False, b')"
      using True p by (simp add: try_acquire_per_user_slot_def Let_def b'_def)
    have "or_else (b' (uid, action)) [] = ?B" by (simp add: b'_def)
    then show ?thesis
      using Cons.IH [of G t b' "t - RATE_WINDOW_SECONDS"] Cons.prems(1,5) le later a by simp
  next
    case False
    define b' where "b' = b((uid, action) \<mapsto> ?B @ [t])"
    have a: "try_acquire_per_user_slot b uid action t = (True, b')"
      using False p by (simp add: try_acquire_per_user_slot_def Let_def b'_def)
    have g: "sorted (G @ [t])" using Cons.prems(1) le by (simp add: sorted_append)
    have bb: "or_else (b' (uid, action)) [] = filter (\<lambda>x. t - RATE_WINDOW_SECONDS < x) (G @ [t])"
      by (simp add: b'_def RATE_WINDOW_SECONDS_def)
    have w: "window_ok (limit_for action) (G @ [t])"
      unfolding window_ok_def
    proof
      fix u
      show "length (filter (\<lambda>x. u - RATE_WINDOW_SECONDS < x \<and> x \<le> u) (G @ [t])) \<le> limit_for action"
      proof (cases "t \<le> u")
        case True
        have "length (filter (\<lambda>x. u - RATE_WINDOW_SECONDS < x \<and> x \<le> u) G) \<le> length ?B"
          using True by (intro length_filter_mono) auto
        then show ?thesis using False by auto
      next
        case False
        then show ?thesis using Cons.prems(5) by (simp add: window_ok_def)
      qed
    qed
    show ?thesis
      using Cons.IH [of "G @ [t]" t b' "t - RATE_WINDOW_SECONDS"] g le bb w later a by simp
  qed
qed simp

text \<open>However often a user taps, in no ten seconds are more actions of one kind let through than
  the limit of that action, at any point of any run in which time does not go back.\<close>

theorem rate_guard_window:
  assumes "sorted ts"
  shows "length (filter (\<lambda>x. t - 10 < x \<and> x \<le> t) (acquired (\<lambda>_. None) uid action ts)) \<le> limit_for action"
proof (cases ts)
  case (Cons t0 rest)
  have "window_ok (limit_for action) ([] @ acquired (\<lambda>_. None) uid action ts)"
    by (rule acquired_window [where T = t0 and c = "t0 - RATE_WINDOW_SECONDS"])
      (use assms Cons in \<open>auto simp: window_ok_def\<close>)
  then show ?thesis by (simp add: window_ok_def RATE_WINDOW_SECONDS_def)
qed simp

theorem rate_guard_window_witness:
  "length (filter (\<lambda>x. 7 - 10 < x \<and> x \<le> 7) (acquired (\<lambda>_. None) 1 ''study_start'' [1, 2, 3, 4, 5, 6, 7])) \<le> 5"
proof -
  have s: "sorted [1, 2, 3, 4, 5, 6, 7 :: real]" by simp
  have l: "limit_for ''study_start'' = 5" by (simp add: limit_for_def RATE_LIMITS_def)
  show ?thesis using rate_guard_window [OF s, of 7 1 "''study_start''"] unfolding l .
qed

text \<open>Checking first tells what acquiring would do: at the same moment the read-only check says
  yes exactly when the slot is then granted, and it changes nothing another action can see.\<close>

theorem rate_check_agrees:
  "fst (check_per_user_rate b uid action now) = fst (try_acquire_per_user_slot b uid action now) \<and>
   fst (try_acquire_per_user_slot (snd (check_per_user_rate b uid action now)) uid action now) =
     fst (try_acquire_per_user_slot b uid action now) \<and>
   (k \<noteq> (uid, action) \<longrightarrow> snd (check_per_user_rate b uid action now) k = b k)"
proof -
  have l: "0 < limit_for action"
    by (auto simp: limit_for_def RATE_LIMITS_def RATE_LIMIT_def or_else_def)
  have pp: "prune (prune x now) now = prune x now" for x
    by (auto simp: prune_def dropWhile_idem)
  show ?thesis
  proof (cases "b (uid, action)")
    case None
    then show ?thesis using l
      by (simp add: check_per_user_rate_def is_rate_limited_def try_acquire_per_user_slot_def Let_def prune_def)
  next
    case (Some bucket)
    show ?thesis
    proof (cases "prune bucket now = []")
      case True
      have "prune [] now = []" by (simp add: prune_def)
      then show ?thesis using l Some True
        by (cases "bucket = []") (simp_all add: check_per_user_rate_def is_rate_limited_def try_acquire_per_user_slot_def Let_def)
    next
      case False
      then have "bucket \<noteq> []" by (auto simp: prune_def)
      then show ?thesis using Some False
        by (simp add: check_per_user_rate_def is_rate_limited_def try_acquire_per_user_slot_def Let_def pp)
    qed
  qed
qed

theorem rate_check_agrees_witness:
  "fst (try_acquire_per_user_slot (\<lambda>_. None) 7 ''quiz'' 0) = fst (check_per_user_rate (\<lambda>_. None) 7 ''quiz'' 0) \<and>
   snd (check_per_user_rate (\<lambda>_. None) 7 ''quiz'' 0) (8, ''quiz'') = None"
  using rate_check_agrees [of "\<lambda>_. None" 7 "''quiz''" 0 "(8, ''quiz'')"] by simp

end
