(* ===== verification/SessionEngine.thy ===== *)
theory SessionEngine imports Lifecycle begin

text \<open>
  The session engine: the node type of \<open>services/session/__init__.py\<close>, the grade policies of
  \<open>grade_policy.py\<close>, the tier iteration of \<open>tier_registry.py\<close> and the session assembly of
  \<open>assembly.py\<close>. Node fields are dynamically typed, as in the code: after a restart they come
  from JSON.
\<close>

section \<open>Grade policies\<close>

record grade_policy =
  gp_activity :: string
  gp_source :: string
  gp_mapping :: "(json \<times> int) list"

definition button_mapping :: "(json \<times> int) list" where
  "button_mapping = [(JInt 1, 1), (JInt 2, 2), (JInt 3, 3), (JInt 4, 4)]"

definition judged_mapping :: "(json \<times> int) list" where
  "judged_mapping = [(JStr ''incorrect'', 1), (JStr ''partial'', 2), (JStr ''correct'', 3), (JStr ''perfect'', 4)]"

definition GRADE_POLICIES :: "string \<Rightarrow> grade_policy option" where
  "GRADE_POLICIES =
     [''srs_review'' \<mapsto> \<lparr>gp_activity = ''srs_review'', gp_source = ''direct_button'', gp_mapping = button_mapping\<rparr>,
      ''first_exposure'' \<mapsto> \<lparr>gp_activity = ''first_exposure'', gp_source = ''direct_button'', gp_mapping = button_mapping\<rparr>,
      ''new_ai_card'' \<mapsto> \<lparr>gp_activity = ''new_ai_card'', gp_source = ''ai_judgment'', gp_mapping = button_mapping\<rparr>,
      ''ai_quiz'' \<mapsto> \<lparr>gp_activity = ''ai_quiz'', gp_source = ''ai_judgment'', gp_mapping = judged_mapping\<rparr>,
      ''sentence_write'' \<mapsto> \<lparr>gp_activity = ''sentence_write'', gp_source = ''ai_judgment'', gp_mapping = judged_mapping\<rparr>]"

text \<open>
  A dictionary key: numbers are equal by value, whatever their type, and containers cannot be
  looked up.
\<close>

definition key_eq :: "json \<Rightarrow> json \<Rightarrow> bool" where
  "key_eq a b = (case (json_num a, json_num b) of (Inr x, Inr y) \<Rightarrow> x = y | _ \<Rightarrow> a = b)"

definition hashable :: "json \<Rightarrow> bool" where
  "hashable j = (case j of JArr _ \<Rightarrow> False | JObj _ \<Rightarrow> False | _ \<Rightarrow> True)"

definition resolve_grade :: "string \<Rightarrow> json \<Rightarrow> int py" where
  "resolve_grade activity_type source_value =
     (case GRADE_POLICIES activity_type of
        None \<Rightarrow> Inl ValueError
      | Some policy \<Rightarrow>
          (if \<not> hashable source_value then Inl TypeError
           else case find (\<lambda>kv. key_eq (fst kv) source_value) (gp_mapping policy) of
                  None \<Rightarrow> Inl KeyError
                | Some kv \<Rightarrow> Inr (snd kv)))"

section \<open>Nodes and tiers\<close>

record session_node =
  n_activity :: json
  n_tier :: json
  n_card :: json
  n_source_id :: json
  n_meta :: json
  n_policy :: json
  n_schema :: json

type_synonym tier_candidate = "word_row \<times> string \<times> int \<times> string"

definition iter_tier_candidates :: "word_row list \<Rightarrow> word_row list \<Rightarrow> int set \<Rightarrow> tier_candidate list" where
  "iter_tier_candidates due_rows fe_rows excluded =
     map (\<lambda>row. (row, ''srs_review'', 1, ''srs_review'')) (filter (\<lambda>row. w_id row \<notin> excluded) due_rows) @
     map (\<lambda>row. (row, ''first_exposure'', 2, ''first_exposure'')) (filter (\<lambda>row. w_id row \<notin> excluded) fe_rows)"

fun make_tier_node :: "tier_candidate \<Rightarrow> int \<Rightarrow> string option \<Rightarrow> session_node" where
  "make_tier_node (row, activity_type, source_tier, grade_policy_ref) uid target_lang =
     \<lparr>n_activity = JStr activity_type, n_tier = JInt source_tier,
      n_card = JObj [(''word'', JStr (w_word row))], n_source_id = JInt (w_id row),
      n_meta = JObj [(''user_id'', JInt uid), (''target_lang'', json_opt JStr target_lang)],
      n_policy = JStr grade_policy_ref, n_schema = JNull\<rparr>"

text \<open>The loop with its break once \<open>max_nodes\<close> nodes are there.\<close>

fun collect_nodes :: "int \<Rightarrow> string option \<Rightarrow> int \<Rightarrow> tier_candidate list \<Rightarrow> session_node list \<Rightarrow> session_node list" where
  "collect_nodes uid lang max_nodes [] nodes = nodes"
| "collect_nodes uid lang max_nodes (cand # cands) nodes =
     (if max_nodes \<le> int (length nodes) then nodes
      else collect_nodes uid lang max_nodes cands (nodes @ [make_tier_node cand uid lang]))"

definition build_tier12_nodes ::
    "int \<Rightarrow> string option \<Rightarrow> int \<Rightarrow> word_row list \<Rightarrow> word_row list \<Rightarrow> session_node list" where
  "build_tier12_nodes uid lang max_nodes due_rows fe_rows =
     collect_nodes uid lang max_nodes (iter_tier_candidates due_rows fe_rows {}) []"

definition next_tier_node ::
    "int \<Rightarrow> string option \<Rightarrow> int set \<Rightarrow> word_row list \<Rightarrow> word_row list \<Rightarrow> session_node option" where
  "next_tier_node uid lang exclude_ids due_rows fe_rows =
     (case iter_tier_candidates due_rows fe_rows exclude_ids of
        [] \<Rightarrow> None
      | cand # _ \<Rightarrow> Some (make_tier_node cand uid lang))"

section \<open>Assembly\<close>

definition build_session_list ::
    "('a clock_scheme) \<Rightarrow> db \<Rightarrow> int \<Rightarrow> string option \<Rightarrow> string option \<Rightarrow> string option \<Rightarrow> string \<Rightarrow> int
      \<Rightarrow> (session_node list \<times> json) py" where
  "build_session_list c s uid target_lang goal level plan max_nodes =
     py_bind (due_words_for_user c s uid target_lang) (\<lambda>due.
       let nodes1 = build_tier12_nodes uid target_lang max_nodes due [];
           remaining1 = max_nodes - int (length nodes1);
           nodes = (if int (length nodes1) < max_nodes
                    then nodes1 @ build_tier12_nodes uid target_lang remaining1 []
                                    (get_pre_first_exposure_words c s uid target_lang (Some remaining1))
                    else nodes1);
           remaining = max_nodes - int (length nodes);
           tier3_context = (if remaining > 0
             then JObj [(''user_id'', JInt uid), (''target_lang'', json_opt JStr target_lang),
                        (''goal'', json_opt JStr goal), (''level'', json_opt JStr level),
                        (''plan'', JStr plan), (''remaining_slots'', JInt remaining)]
             else JObj [])
       in Inr (nodes, tier3_context))"

text \<open>The third tier is a stub that generates nothing.\<close>

definition generate_tier3_node :: "int \<Rightarrow> string option \<Rightarrow> session_node option" where
  "generate_tier3_node uid lang = None"

section \<open>Lemmas\<close>

lemma collect_nodes_eq:
  "collect_nodes uid lang m cands nodes =
   nodes @ take (nat (m - int (length nodes))) (map (\<lambda>cand. make_tier_node cand uid lang) cands)"
proof (induction cands arbitrary: nodes)
  case (Cons cand cands)
  show ?case
  proof (cases "m \<le> int (length nodes)")
    case False
    then have "nat (m - int (length nodes)) = Suc (nat (m - int (length nodes) - 1))" by simp
    then show ?thesis using False Cons.IH [of "nodes @ [make_tier_node cand uid lang]"] by (simp add: algebra_simps)
  qed simp
qed simp

lemma build_tier12_nodes_eq:
  "build_tier12_nodes uid lang m due fe =
   take (nat m) (map (\<lambda>cand. make_tier_node cand uid lang) (iter_tier_candidates due fe {}))"
  by (simp add: build_tier12_nodes_def collect_nodes_eq)

text \<open>The two kinds of nodes.\<close>

definition review_node :: "int \<Rightarrow> string option \<Rightarrow> word_row \<Rightarrow> session_node" where
  "review_node uid lang row = make_tier_node (row, ''srs_review'', 1, ''srs_review'') uid lang"

definition exposure_node :: "int \<Rightarrow> string option \<Rightarrow> word_row \<Rightarrow> session_node" where
  "exposure_node uid lang row = make_tier_node (row, ''first_exposure'', 2, ''first_exposure'') uid lang"

lemma node_ids [simp]:
  "n_source_id (review_node uid lang row) = JInt (w_id row)"
  "n_source_id (exposure_node uid lang row) = JInt (w_id row)"
  by (simp_all add: review_node_def exposure_node_def)

lemma candidate_nodes:
  "map (\<lambda>cand. make_tier_node cand uid lang) (iter_tier_candidates due fe ex) =
   map (review_node uid lang) (filter (\<lambda>r. w_id r \<notin> ex) due) @
   map (exposure_node uid lang) (filter (\<lambda>r. w_id r \<notin> ex) fe)"
  by (simp add: iter_tier_candidates_def comp_def review_node_def [abs_def] exposure_node_def [abs_def]
      del: make_tier_node.simps)

lemma build_tier12_nodes_split:
  "build_tier12_nodes uid lang m due fe =
   take (nat m) (map (review_node uid lang) due @ map (exposure_node uid lang) fe)"
  by (simp add: build_tier12_nodes_eq candidate_nodes)

lemma next_tier_node_split:
  "next_tier_node uid lang ex due fe =
   (case map (review_node uid lang) (filter (\<lambda>r. w_id r \<notin> ex) due) @
         map (exposure_node uid lang) (filter (\<lambda>r. w_id r \<notin> ex) fe) of
      [] \<Rightarrow> None | node # _ \<Rightarrow> Some node)"
  unfolding next_tier_node_def candidate_nodes [symmetric]
  by (cases "iter_tier_candidates due fe ex") simp_all

section \<open>Properties\<close>

text \<open>Every activity type with a policy resolves its four signals to the grades 1 to 4, each
  exactly once and in order; an unknown activity raises \<open>ValueError\<close>, an unknown signal
  \<open>KeyError\<close>, and a container \<open>TypeError\<close>; no other result is possible.\<close>

theorem resolve_grade_cases:
  "case GRADE_POLICIES act of
     None \<Rightarrow> resolve_grade act v = Inl ValueError
   | Some p \<Rightarrow> map snd (gp_mapping p) = [1, 2, 3, 4] \<and>
       (\<forall>kv \<in> set (gp_mapping p). resolve_grade act (fst kv) = Inr (snd kv)) \<and>
       resolve_grade act v \<in> {Inr 1, Inr 2, Inr 3, Inr 4, Inl KeyError, Inl TypeError} \<and>
       (resolve_grade act v = Inl TypeError) = (\<not> hashable v)"
proof (cases "GRADE_POLICIES act")
  case None
  then show ?thesis by (simp add: resolve_grade_def)
next
  case (Some p)
  then have p: "gp_mapping p = button_mapping \<or> gp_mapping p = judged_mapping"
    by (auto simp: GRADE_POLICIES_def split: if_splits)
  then have m: "map snd (gp_mapping p) = [1, 2, 3, 4]"
    by (auto simp: button_mapping_def judged_mapping_def)
  have r: "\<forall>kv \<in> set (gp_mapping p). resolve_grade act (fst kv) = Inr (snd kv)"
    using p Some by (auto simp: resolve_grade_def button_mapping_def judged_mapping_def hashable_def key_eq_def)
  have f: "find q (gp_mapping p) = Some kv \<Longrightarrow> snd kv \<in> {1, 2, 3, 4}" for q kv
    using p find_Some_D [of q "gp_mapping p" kv] by (auto simp: button_mapping_def judged_mapping_def)
  have "resolve_grade act v \<in> {Inr 1, Inr 2, Inr 3, Inr 4, Inl KeyError, Inl TypeError} \<and>
      (resolve_grade act v = Inl TypeError) = (\<not> hashable v)"
    using Some f by (auto simp: resolve_grade_def split: option.split)
  then show ?thesis unfolding Some option.case using m r by blast
qed

theorem resolve_grade_cases_witness:
  "resolve_grade ''ai_quiz'' (JStr ''partial'') = Inr 2 \<and> resolve_grade ''ai_quiz'' (JArr []) = Inl TypeError"
  using resolve_grade_cases [of "''ai_quiz''" "JArr []"]
  by (simp add: GRADE_POLICIES_def judged_mapping_def hashable_def)

text \<open>What a pre-exposure query returns: never more than asked, and only unexposed rows.\<close>

lemma pre_exposure_rows:
  assumes "r \<in> set (get_pre_first_exposure_words c s uid lang limit)"
  shows "r \<in> set (words s) \<and> w_user r = uid \<and> w_fe_done r = Some 0"
  using assms by (auto simp: get_pre_first_exposure_words_def Let_def split: option.splits if_splits dest!: in_set_takeD)

lemma pre_exposure_limit:
  "0 < m \<Longrightarrow> get_pre_first_exposure_words c s uid lang (Some m) =
     take (nat m) (get_pre_first_exposure_words c s uid lang None)"
  by (simp add: get_pre_first_exposure_words_def Let_def)

lemma build_session_list_nodes:
  assumes "due_words_for_user c s uid lang = Inr due"
  shows "\<exists>nodes ctx. build_session_list c s uid lang goal level plan m = Inr (nodes, ctx) \<and>
    nodes = take (nat m) (map (review_node uid lang) due @
      map (exposure_node uid lang) (get_pre_first_exposure_words c s uid lang None)) \<and>
    (if int (length nodes) < m then json_get ctx ''remaining_slots'' = Inr (JInt (m - int (length nodes)))
     else ctx = JObj [])"
proof -
  let ?fe = "get_pre_first_exposure_words c s uid lang None"
  let ?n1 = "take (nat m) (map (review_node uid lang) due)"
  let ?nodes = "take (nat m) (map (review_node uid lang) due @ map (exposure_node uid lang) ?fe)"
  have n1: "build_tier12_nodes uid lang m due [] = ?n1" by (simp add: build_tier12_nodes_split)
  have n: "(if int (length ?n1) < m then ?n1 @ build_tier12_nodes uid lang (m - int (length ?n1)) []
      (get_pre_first_exposure_words c s uid lang (Some (m - int (length ?n1)))) else ?n1) = ?nodes"
  proof (cases "int (length ?n1) < m")
    case True
    then have short: "length due < nat m" by (simp add: min_def split: if_splits)
    have "nat (m - int (length due)) = nat m - length due" by simp
    then show ?thesis using True short
      by (simp add: build_tier12_nodes_split pre_exposure_limit take_map)
  next
    case False
    then have "nat m \<le> length due" by (auto simp: min_def split: if_splits)
    then show ?thesis using False by simp
  qed
  show ?thesis
    unfolding build_session_list_def assms py_bind.simps Let_def n1 n
    by (auto simp: json_opt_def)
qed

lemma map_filter_pairs:
  "map fst (List.map_filter (\<lambda>r. map_option (\<lambda>t. (r, t)) (f r)) xs) = filter (\<lambda>r. f r \<noteq> None) xs"
  by (induction xs) (auto simp: List.map_filter_simps split: option.splits)

lemma words_inv_unique:
  assumes "words_inv s" and "r \<in> set (words s)" "r' \<in> set (words s)" "w_id r = w_id r'"
  shows "r = r'"
  using words_inv_distinct [OF assms(1)] assms(2-4) unfolding distinct_map inj_on_def by blast

lemma due_words_subset:
  assumes "due_words_for_user c s uid lang = Inr due" and "words_inv s"
  shows "set due \<subseteq> {r \<in> set (words s). or_else (w_fe_done r) 0 = 1}" and "distinct (map w_id due)"
proof -
  let ?el = "List.map_filter (\<lambda>r. map_option (\<lambda>t. (r, t)) (row_effective_due c r))
        (filter (\<lambda>r. due_candidate c uid lang r \<and> due_prefilter c r) (words s))"
  let ?keyed = "map (\<lambda>(r, t). (priority_of c r t, r)) ?el"
  have due: "due = map snd (sort_key fst ?keyed)" using assms(1) due_words_eq [of c s uid lang] by simp
  have rows: "map snd ?keyed = filter (\<lambda>r. row_effective_due c r \<noteq> None)
      (filter (\<lambda>r. due_candidate c uid lang r \<and> due_prefilter c r) (words s))"
    unfolding map_map by (simp add: comp_def split_beta map_filter_pairs)
  then have "set (map snd ?keyed) \<subseteq> {r \<in> set (words s). or_else (w_fe_done r) 0 = 1}"
    unfolding rows by (auto simp: due_candidate_def)
  then show "set due \<subseteq> {r \<in> set (words s). or_else (w_fe_done r) 0 = 1}"
    unfolding due by (simp only: set_map set_sort)
  have "mset (map w_id due) = mset (map w_id (map snd ?keyed))" unfolding due by (simp only: mset_map mset_sort)
  moreover have "distinct (map w_id (map snd ?keyed))"
    unfolding rows using words_inv_distinct [OF assms(2)] by (simp add: distinct_map_filter)
  ultimately show "distinct (map w_id due)" using mset_eq_imp_distinct_iff by blast
qed

lemma distinct_session_rows:
  assumes "words_inv s" and "due_words_for_user c s uid lang = Inr due"
  shows "distinct (map w_id (due @ get_pre_first_exposure_words c s uid lang None))"
proof -
  let ?fe = "get_pre_first_exposure_words c s uid lang None"
  let ?rows = "filter (\<lambda>r. w_user r = uid \<and> w_fe_done r = Some 0 \<and> lang_matches lang r) (words s)"
  have "distinct (map w_id ?rows)" using words_inv_distinct [OF assms(1)] by (simp add: distinct_map_filter)
  moreover have "mset (map w_id ?fe) = mset (map w_id ?rows)"
    by (simp only: get_pre_first_exposure_words_def Let_def option.case mset_map mset_sort)
  ultimately have fe: "distinct (map w_id ?fe)" using mset_eq_imp_distinct_iff by blast
  have "w_id r \<noteq> w_id r'" if "r \<in> set due" "r' \<in> set ?fe" for r r'
  proof
    assume "w_id r = w_id r'"
    moreover have "r \<in> set (words s)" "or_else (w_fe_done r) 0 = 1"
      using that(1) due_words_subset(1) [OF assms(2,1)] by auto
    moreover have "r' \<in> set (words s)" "w_fe_done r' = Some 0" using pre_exposure_rows [OF that(2)] by auto
    ultimately have "r = r'" using words_inv_unique [OF assms(1)] by blast
    then show False using \<open>or_else (w_fe_done r) 0 = 1\<close> \<open>w_fe_done r' = Some 0\<close> by simp
  qed
  then show ?thesis using fe due_words_subset(2) [OF assms(2,1)] by auto
qed

text \<open>An assembled session is the first \<open>max_nodes\<close> cards of the due list followed by the
  unseen words, so a new word appears only when every due card is in; it is never longer than
  asked, and the context for the third tier reports exactly the slots that stayed free.\<close>

theorem session_list_priority:
  assumes "due_words_for_user c s uid lang = Inr due"
  shows "\<exists>nodes ctx. build_session_list c s uid lang goal level plan m = Inr (nodes, ctx) \<and>
    nodes = take (nat m) (map (review_node uid lang) due @
      map (exposure_node uid lang) (get_pre_first_exposure_words c s uid lang None)) \<and>
    int (length nodes) \<le> max 0 m \<and>
    (if int (length nodes) < m then json_get ctx ''remaining_slots'' = Inr (JInt (m - int (length nodes)))
     else ctx = JObj [])"
proof -
  obtain nodes ctx where b: "build_session_list c s uid lang goal level plan m = Inr (nodes, ctx)"
    and n: "nodes = take (nat m) (map (review_node uid lang) due @
      map (exposure_node uid lang) (get_pre_first_exposure_words c s uid lang None))"
    and ctx: "if int (length nodes) < m then json_get ctx ''remaining_slots'' = Inr (JInt (m - int (length nodes)))
      else ctx = JObj []"
    using build_session_list_nodes [OF assms, of goal level plan m] by blast
  have "int (length nodes) \<le> max 0 m" unfolding n by simp
  with b n ctx show ?thesis by blast
qed

theorem session_list_priority_witness:
  "\<exists>ctx. build_session_list (clock_at 0 (2026, 1, 3)) fresh_card_db 1 None None None ''free'' 3 =
     Inr ([exposure_node 1 None (hd (words fresh_card_db))], ctx) \<and>
     json_get ctx ''remaining_slots'' = Inr (JInt 2)"
proof -
  have d: "due_words_for_user (clock_at 0 (2026, 1, 3)) fresh_card_db 1 None = Inr []"
    by (simp add: due_words_eq fresh_card_db_def new_word_row_def due_candidate_def)
  have f: "get_pre_first_exposure_words (clock_at 0 (2026, 1, 3)) fresh_card_db 1 None None = words fresh_card_db"
    by (simp add: get_pre_first_exposure_words_def Let_def fresh_card_db_def new_word_row_def lang_matches_def none_if_empty_def)
  have w: "words fresh_card_db = [hd (words fresh_card_db)]" by (simp add: fresh_card_db_def)
  have n: "take (nat 3) (map (review_node 1 None) [] @ map (exposure_node 1 None) (words fresh_card_db)) =
      [exposure_node 1 None (hd (words fresh_card_db))]"
    by (subst w) simp
  show ?thesis
    using session_list_priority [OF d, of None None "''free''" 3] unfolding f n by simp
qed

lemma filter_not_taken:
  assumes "distinct (map f xs)"
  shows "filter (\<lambda>x. f x \<notin> f ` set (take k xs)) xs = drop k xs"
proof -
  let ?P = "\<lambda>x. f x \<notin> f ` set (take k xs)"
  have d: "distinct (map f (take k xs @ drop k xs))" using assms by simp
  have "filter ?P (take k xs) = []" by (auto simp: filter_empty_conv)
  moreover have "filter ?P (drop k xs) = drop k xs"
    using d unfolding map_append distinct_append set_map by (auto simp: filter_id_conv)
  ultimately show ?thesis by (metis append_Nil append_take_drop_id filter_append)
qed

text \<open>C30: the refill cannot diverge from the build: asked again and again for the next card not
  yet in the session, it hands out exactly the cards of the assembled list, in the same order,
  and stops where the list stops.\<close>

theorem refill_follows_build:
  assumes "distinct (map w_id (due @ fe))"
  shows "next_tier_node uid lang (w_id ` set (take k (due @ fe))) due fe =
    (let nodes = build_tier12_nodes uid lang (int (length due + length fe)) due fe in
     if k < length nodes then Some (nodes ! k) else None)"
proof -
  let ?all = "map (review_node uid lang) due @ map (exposure_node uid lang) fe"
  let ?ex = "w_id ` set (take k (due @ fe))"
  have dis: "w_id ` set due \<inter> w_id ` set fe = {}" using assms by simp
  have "map (review_node uid lang) (filter (\<lambda>r. w_id r \<notin> ?ex) due) @
      map (exposure_node uid lang) (filter (\<lambda>r. w_id r \<notin> ?ex) fe) = drop k ?all"
  proof (cases "k \<le> length due")
    case True
    then have ex: "?ex = w_id ` set (take k due)" by simp
    have "filter (\<lambda>r. w_id r \<notin> ?ex) due = drop k due"
      unfolding ex using assms by (intro filter_not_taken) simp
    moreover have "filter (\<lambda>r. w_id r \<notin> ?ex) fe = fe"
      unfolding ex filter_id_conv using dis set_take_subset [of k due] by blast
    ultimately show ?thesis using True by (simp add: drop_map)
  next
    case False
    then have ex: "?ex = w_id ` set due \<union> w_id ` set (take (k - length due) fe)" by auto
    have "filter (\<lambda>r. w_id r \<notin> ?ex) due = []" unfolding ex by (auto simp: filter_empty_conv)
    moreover have "filter (\<lambda>r. w_id r \<notin> ?ex) fe = filter (\<lambda>r. w_id r \<notin> w_id ` set (take (k - length due) fe)) fe"
      unfolding ex using dis by (intro filter_cong refl) blast
    moreover have "\<dots> = drop (k - length due) fe" using assms by (intro filter_not_taken) simp
    ultimately show ?thesis using False by (simp add: drop_map)
  qed
  then have "next_tier_node uid lang ?ex due fe = (case drop k ?all of [] \<Rightarrow> None | node # _ \<Rightarrow> Some node)"
    by (simp only: next_tier_node_split)
  moreover have "build_tier12_nodes uid lang (int (length due + length fe)) due fe = ?all"
    by (simp add: build_tier12_nodes_split)
  moreover have "(case drop k ?all of [] \<Rightarrow> None | node # _ \<Rightarrow> Some node) = (if k < length ?all then Some (?all ! k) else None)"
  proof (cases "k < length ?all")
    case True
    then show ?thesis by (simp only: Cons_nth_drop_Suc [symmetric] list.case if_True)
  next
    case False
    then show ?thesis by simp
  qed
  ultimately show ?thesis by (simp only: Let_def)
qed

theorem refill_follows_build_witness:
  "next_tier_node 1 None (w_id ` set (take 1 (words fresh_card_db @ []))) (words fresh_card_db) [] = None \<and>
   next_tier_node 1 None (w_id ` set (take 0 (words fresh_card_db @ []))) (words fresh_card_db) [] =
     Some (review_node 1 None (hd (words fresh_card_db)))"
proof -
  have d: "distinct (map w_id (words fresh_card_db @ []))" by (simp add: fresh_card_db_def)
  show ?thesis
    using refill_follows_build [OF d, of 1 None 1] refill_follows_build [OF d, of 1 None 0]
    by (simp add: build_tier12_nodes_split fresh_card_db_def)
qed

text \<open>No card can appear twice in an assembled session, not even across the two tiers.\<close>

theorem session_list_no_repeats:
  assumes "words_inv s" and "build_session_list c s uid lang goal level plan m = Inr (nodes, ctx)"
  shows "distinct (map n_source_id nodes)"
proof -
  obtain due where due: "due_words_for_user c s uid lang = Inr due"
    using assms(2) by (auto simp: build_session_list_def py_bind_Inr_iff)
  let ?fe = "get_pre_first_exposure_words c s uid lang None"
  obtain nodes' ctx' where b: "build_session_list c s uid lang goal level plan m = Inr (nodes', ctx')"
    "nodes' = take (nat m) (map (review_node uid lang) due @ map (exposure_node uid lang) ?fe)"
    using build_session_list_nodes [OF due] by blast
  then have "map n_source_id nodes = take (nat m) (map JInt (map w_id (due @ ?fe)))"
    using assms(2) by (simp add: take_map [symmetric] comp_def)
  moreover have "distinct (map JInt (map w_id (due @ ?fe)))"
    unfolding distinct_map [of JInt] using distinct_session_rows [OF assms(1) due] by (simp add: inj_on_def)
  ultimately show ?thesis by (simp only: distinct_take)
qed

theorem session_list_no_repeats_witness:
  "\<exists>nodes ctx. build_session_list (clock_at 0 (2026, 1, 3)) fresh_card_db 1 None None None ''free'' 3 = Inr (nodes, ctx) \<and>
     distinct (map n_source_id nodes) \<and> length nodes = 1"
proof -
  have d: "due_words_for_user (clock_at 0 (2026, 1, 3)) fresh_card_db 1 None = Inr []"
    by (simp add: due_words_eq fresh_card_db_def new_word_row_def due_candidate_def)
  have "length (get_pre_first_exposure_words (clock_at 0 (2026, 1, 3)) fresh_card_db 1 None None) = 1"
    by (simp add: get_pre_first_exposure_words_def Let_def fresh_card_db_def new_word_row_def lang_matches_def none_if_empty_def)
  then show ?thesis
    using build_session_list_nodes [OF d, of None None "''free''" 3] session_list_no_repeats [OF fresh_card_inv] by fastforce
qed

end
