(* ===== verification/SessionStore.thy ===== *)
theory SessionStore imports SessionEngine "HOL-Library.AList" begin

text \<open>
  The stored study session: the row operations of \<open>services/db/sessions.py\<close> with the batched
  midnight sweep, and \<open>services/session/store.py\<close>: the session state, its JSON codec, saving,
  loading and discarding, and the advance steps with their rollbacks.
\<close>

section \<open>Rows\<close>

definition save_study_session :: "('a clock_scheme) \<Rightarrow> db \<Rightarrow> int \<Rightarrow> string \<Rightarrow> json_text \<Rightarrow> db" where
  "save_study_session c s uid session_date state_json =
     (let row = \<lparr>s_user = uid, s_date = session_date, s_json = state_json, s_updated = Stamp (utc_now c)\<rparr>
      in if \<exists>r \<in> set (studies s). s_user r = uid
         then s\<lparr>studies := update_where (\<lambda>r. s_user r = uid) (\<lambda>_. row) (studies s)\<rparr>
         else s\<lparr>studies := studies s @ [row]\<rparr>)"

definition load_study_session :: "db \<Rightarrow> int \<Rightarrow> (string \<times> json_text) option" where
  "load_study_session s uid =
     (case find (\<lambda>r. s_user r = uid) (studies s) of
        None \<Rightarrow> None
      | Some row \<Rightarrow> Some (s_date row, s_json row))"

definition clear_study_session :: "db \<Rightarrow> int \<Rightarrow> db" where
  "clear_study_session s uid = s\<lparr>studies := delete_where (\<lambda>r. s_user r = uid) (studies s)\<rparr>"

definition invalidate_stale_study_session :: "db \<Rightarrow> int \<Rightarrow> db" where
  "invalidate_stale_study_session s uid = clear_session_grades (clear_study_session s uid) uid"

section \<open>Batched deletion\<close>

text \<open>
  \<open>DELETE ... WHERE rowid IN (SELECT rowid ... WHERE p LIMIT n)\<close>, a negative limit being none,
  in a loop that ends with the first short batch or at the deadline (\<open>budget\<close> counts the
  checks before it).
\<close>

fun delete_first :: "nat \<Rightarrow> ('r \<Rightarrow> bool) \<Rightarrow> 'r list \<Rightarrow> 'r list" where
  "delete_first 0 p rows = rows"
| "delete_first (Suc n) p [] = []"
| "delete_first (Suc n) p (r # rows) = (if p r then delete_first n p rows else r # delete_first (Suc n) p rows)"

definition batch_size :: "int \<Rightarrow> ('r \<Rightarrow> bool) \<Rightarrow> 'r list \<Rightarrow> nat" where
  "batch_size batch p rows = (if batch < 0 then count_where p rows else min (nat batch) (count_where p rows))"

partial_function (option) purge_loop ::
    "('r \<Rightarrow> bool) \<Rightarrow> int \<Rightarrow> nat option \<Rightarrow> 'r list \<Rightarrow> nat \<Rightarrow> ('r list \<times> nat \<times> nat option) option" where
  "purge_loop p batch budget rows counted =
     (if budget = Some 0 then Some (rows, counted, budget)
      else let n = batch_size batch p rows; rows' = delete_first n p rows; budget' = map_option (\<lambda>k. k - 1) budget
           in if int n < batch then Some (rows', counted + n, budget')
              else purge_loop p batch budget' rows' (counted + n))"

definition purge_stale_study_sessions ::
    "('a clock_scheme) \<Rightarrow> int \<Rightarrow> nat option \<Rightarrow> db \<Rightarrow> ((nat \<times> nat) \<times> db) py option" where
  "purge_stale_study_sessions c batch budget s =
     (case day_before (today c) of
        Inl e \<Rightarrow> Some (Inl e)
      | Inr yesterday \<Rightarrow>
          (let day_cutoff = isoformat yesterday;
               ledger_cutoff = Stamp (utc_now c - 2 * day_us)
           in Option.bind (purge_loop (\<lambda>r. s_date r < day_cutoff) batch budget (studies s) 0)
                (\<lambda>(studies', n1, budget1).
              map_option (\<lambda>(ledger', n2, _). Inr ((n1, n2), s\<lparr>studies := studies', ledger := ledger'\<rparr>))
                (purge_loop (\<lambda>l. stamp_text c (l_graded_at l) < stamp_text c ledger_cutoff) batch budget1 (ledger s) 0))))"

section \<open>Session state\<close>

record session_state =
  ss_nodes :: "session_node list"
  ss_total :: json
  ss_tier3 :: json
  ss_msg_id :: json
  ss_plan :: json
  ss_graded :: json
  ss_before :: "(int \<times> real) list"
  ss_revealed :: bool
  ss_prompt_type :: "string option"
  ss_prompt_word :: "int option"
  ss_date :: json

definition SRS_PROMPT_TYPES :: "string set" where
  "SRS_PROMPT_TYPES = {''standard'', ''fill_blank'', ''meaning'', ''synonym'', ''direct_translate''}"

definition node_to_json :: "session_node \<Rightarrow> json" where
  "node_to_json n = JObj
     [(''activity_type'', n_activity n), (''source_tier'', n_tier n), (''card_data'', n_card n),
      (''source_id'', n_source_id n), (''activity_meta'', n_meta n), (''grade_policy_ref'', n_policy n),
      (''interaction_schema'', n_schema n)]"

definition node_from_json :: "json \<Rightarrow> session_node py" where
  "node_from_json j =
     py_bind (json_kwargs [''activity_type'', ''source_tier'', ''card_data'']
                [(''source_id'', JNull), (''activity_meta'', JObj []), (''grade_policy_ref'', JNull),
                 (''interaction_schema'', JNull)] j)
       (\<lambda>f. Inr \<lparr>n_activity = f ''activity_type'', n_tier = f ''source_tier'', n_card = f ''card_data'',
                 n_source_id = f ''source_id'', n_meta = f ''activity_meta'', n_policy = f ''grade_policy_ref'',
                 n_schema = f ''interaction_schema''\<rparr>)"

definition state_to_json :: "session_state \<Rightarrow> json" where
  "state_to_json st = JObj
     [(''nodes'', JArr (map node_to_json (ss_nodes st))), (''total_cards'', ss_total st),
      (''tier3_context'', ss_tier3 st), (''study_msg_id'', ss_msg_id st), (''plan'', ss_plan st),
      (''graded_word_ids'', ss_graded st),
      (''before_stability'', JObj (map (\<lambda>(k, v). (int_str k, JFloat v)) (ss_before st))),
      (''revealed'', JBool (ss_revealed st)), (''active_prompt_type'', json_opt JStr (ss_prompt_type st)),
      (''active_prompt_word_id'', json_opt JInt (ss_prompt_word st)), (''session_date'', ss_date st)]"

definition is_valid_prompt_type :: "json \<Rightarrow> bool" where
  "is_valid_prompt_type v = (case v of JStr t \<Rightarrow> t \<in> SRS_PROMPT_TYPES | _ \<Rightarrow> False)"

definition or_value :: "json \<Rightarrow> json \<Rightarrow> json" where
  "or_value v d = (if truthy v then v else d)"

definition stability_from_json :: "(string \<Rightarrow> real py) \<Rightarrow> json \<Rightarrow> (int \<times> real) list py" where
  "stability_from_json read v =
     (case v of
        JObj kvs \<Rightarrow>
          py_bind (py_mapM (\<lambda>(k, x). py_bind (py_int_of k) (\<lambda>i. py_bind (json_float read x) (\<lambda>r. Inr (i, r)))) kvs)
            (\<lambda>items. Inr (fold (\<lambda>(k, x). AList.update k x) items []))
      | _ \<Rightarrow> Inl AttributeError)"

definition state_from_json :: "(string \<Rightarrow> real py) \<Rightarrow> json_text \<Rightarrow> session_state py" where
  "state_from_json read raw =
     py_bind (json_loads raw) (\<lambda>data.
     py_bind (json_get data ''active_prompt_word_id'') (\<lambda>raw_prompt_wid.
     py_bind (json_get data ''active_prompt_type'') (\<lambda>raw_prompt.
     py_bind (json_get data ''revealed'') (\<lambda>raw_revealed.
       let prompt_wid0 = (if raw_prompt_wid = JNull then None
                          else case json_int raw_prompt_wid of Inr i \<Rightarrow> Some i | Inl _ \<Rightarrow> None);
           prompt_type = (case raw_prompt of JStr t \<Rightarrow> if is_valid_prompt_type raw_prompt then Some t else None | _ \<Rightarrow> None);
           prompt_wid = (if prompt_type = None then None else prompt_wid0);
           revealed = (truthy raw_revealed \<and> prompt_type \<noteq> None \<and> prompt_wid \<noteq> None)
       in py_bind (py_bind (json_item data ''nodes'') json_iter) (\<lambda>raw_nodes.
          py_bind (py_mapM node_from_json raw_nodes) (\<lambda>nodes.
          py_bind (json_item data ''total_cards'') (\<lambda>total.
          py_bind (json_item data ''tier3_context'') (\<lambda>tier3.
          py_bind (json_item data ''study_msg_id'') (\<lambda>msg_id.
          py_bind (json_item data ''plan'') (\<lambda>plan.
          py_bind (json_get data ''graded_word_ids'') (\<lambda>graded.
          py_bind (py_bind (json_get data ''before_stability'') (\<lambda>v. stability_from_json read (or_value v (JObj [])))) (\<lambda>before.
          py_bind (json_get data ''session_date'') (\<lambda>date.
            Inr \<lparr>ss_nodes = nodes, ss_total = total, ss_tier3 = tier3, ss_msg_id = msg_id, ss_plan = plan,
                 ss_graded = or_value graded (JArr []), ss_before = before, ss_revealed = revealed,
                 ss_prompt_type = prompt_type, ss_prompt_word = prompt_wid,
                 ss_date = or_value date (JStr '''')\<rparr>)))))))))))))"

definition save_session :: "('a clock_scheme) \<Rightarrow> db \<Rightarrow> int \<Rightarrow> session_state \<Rightarrow> string \<Rightarrow> db" where
  "save_session c s uid st day = save_study_session c s uid day (JsonText (state_to_json st))"

definition clear_session :: "db \<Rightarrow> int \<Rightarrow> db" where
  "clear_session s uid = clear_study_session s uid"

definition load_session :: "(string \<Rightarrow> real py) \<Rightarrow> db \<Rightarrow> int \<Rightarrow> string \<Rightarrow> (session_state option \<times> db) py" where
  "load_session read s uid day =
     (case load_study_session s uid of
        None \<Rightarrow> Inr (None, s)
      | Some (session_date, state_json) \<Rightarrow>
          (if session_date \<noteq> day then Inr (None, invalidate_stale_study_session s uid)
           else case state_from_json read state_json of
                  Inl e \<Rightarrow> (if e \<in> {KeyError, TypeError, ValueError}
                           then Inr (None, invalidate_stale_study_session s uid) else Inl e)
                | Inr st \<Rightarrow> (if ss_nodes st = [] then Inr (None, invalidate_stale_study_session s uid)
                            else Inr (Some st, s))))"

section \<open>Advancing and undoing\<close>

type_synonym frozen = "bool \<times> string option \<times> int option"

definition pop_next :: "session_state \<Rightarrow> (session_node option \<times> frozen) \<times> session_state" where
  "pop_next st =
     (let saved = (ss_revealed st, ss_prompt_type st, ss_prompt_word st);
          popped = (case ss_nodes st of [] \<Rightarrow> None | n # _ \<Rightarrow> Some n)
      in ((popped, saved), st\<lparr>ss_nodes := tl (ss_nodes st), ss_revealed := False,
                              ss_prompt_type := None, ss_prompt_word := None\<rparr>))"

definition rollback_pop :: "session_state \<Rightarrow> session_node option \<Rightarrow> frozen \<Rightarrow> session_state" where
  "rollback_pop st popped saved =
     (let nodes = (case popped of None \<Rightarrow> ss_nodes st | Some n \<Rightarrow> n # ss_nodes st);
          (revealed, prompt_type, prompt_word) = saved
      in st\<lparr>ss_nodes := nodes, ss_revealed := revealed, ss_prompt_type := prompt_type, ss_prompt_word := prompt_word\<rparr>)"

text \<open>\<open>total_cards += 1\<close>: a number grows, anything else cannot be added to.\<close>

definition json_add :: "json \<Rightarrow> int \<Rightarrow> json py" where
  "json_add j k =
     (case j of
        JInt i \<Rightarrow> Inr (JInt (i + k))
      | JBool b \<Rightarrow> Inr (JInt ((if b then 1 else 0) + k))
      | JFloat r \<Rightarrow> Inr (JFloat (r + of_int k))
      | _ \<Rightarrow> Inl TypeError)"

definition push_tier3 :: "session_state \<Rightarrow> session_node \<Rightarrow> session_state py" where
  "push_tier3 st node = py_bind (json_add (ss_total st) 1) (\<lambda>total.
     Inr (st\<lparr>ss_nodes := ss_nodes st @ [node], ss_total := total\<rparr>))"

definition rollback_tier3_push :: "session_state \<Rightarrow> session_state py" where
  "rollback_tier3_push st =
     (if ss_nodes st = [] then Inl IndexError
      else py_bind (json_add (ss_total st) (- 1)) (\<lambda>total.
        Inr (st\<lparr>ss_nodes := butlast (ss_nodes st), ss_total := total\<rparr>)))"


section \<open>The sweep\<close>

lemma delete_first_count: "count_where p (delete_first n p rows) = count_where p rows - n"
  by (induction n p rows rule: delete_first.induct) (auto simp: count_where_def)

lemma delete_first_others: "filter (\<lambda>r. \<not> p r) (delete_first n p rows) = filter (\<lambda>r. \<not> p r) rows"
  by (induction n p rows rule: delete_first.induct) auto

lemma delete_first_all: "count_where p rows \<le> n \<Longrightarrow> delete_first n p rows = filter (\<lambda>r. \<not> p r) rows"
  by (induction n p rows rule: delete_first.induct) (auto simp: count_where_def filter_empty_conv filter_id_conv)

lemma purge_loop_all:
  assumes "0 < batch"
  shows "purge_loop p batch None rows k = Some (filter (\<lambda>r. \<not> p r) rows, k + count_where p rows, None)"
proof (induction "count_where p rows" arbitrary: rows k rule: less_induct)
  case less
  let ?n = "batch_size batch p rows"
  have n: "?n = min (nat batch) (count_where p rows)" using assms by (simp add: batch_size_def)
  show ?case
  proof (cases "int ?n < batch")
    case True
    then have "?n = count_where p rows" using n by (simp add: min_def split: if_splits)
    then show ?thesis using True by (subst purge_loop.simps) (simp add: Let_def delete_first_all)
  next
    case False
    then have full: "?n = nat batch" "nat batch \<le> count_where p rows" using n by (auto simp: min_def split: if_splits)
    have "purge_loop p batch None rows k = purge_loop p batch None (delete_first ?n p rows) (k + ?n)"
      using False by (subst purge_loop.simps) (simp add: Let_def)
    also have "\<dots> = Some (filter (\<lambda>r. \<not> p r) (delete_first ?n p rows), k + ?n + count_where p (delete_first ?n p rows), None)"
      using full assms by (intro less) (simp add: delete_first_count)
    finally show ?thesis using full by (simp add: delete_first_count delete_first_others)
  qed
qed

lemma purge_loop_stuck:
  assumes "batch \<le> 0"
  shows "purge_loop p batch None rows k = None"
proof (cases "purge_loop p batch None rows k")
  case (Some y)
  have "\<not> (None = (None :: nat option) \<and> batch \<le> 0)"
    by (rule purge_loop.raw_induct [where P = "\<lambda>p batch budget rows k y. \<not> (budget = None \<and> batch \<le> 0)", OF _ Some])
      (fastforce simp: Let_def split: if_splits)
  then show ?thesis using assms by simp
qed

text \<open>With a deadline every run ends, and it deletes only rows it was asked to.\<close>

lemma purge_loop_deadline:
  "\<exists>rows' n b. purge_loop p batch (Some m) rows k = Some (rows', k + n, b) \<and>
     filter (\<lambda>r. \<not> p r) rows' = filter (\<lambda>r. \<not> p r) rows \<and> set rows' \<subseteq> set rows"
proof (induction m arbitrary: rows k)
  case 0
  show ?case by (subst purge_loop.simps) auto
next
  case (Suc m)
  have sub: "set (delete_first n p rows) \<subseteq> set rows" for n
    by (induction n p rows rule: delete_first.induct) auto
  let ?n = "batch_size batch p rows"
  show ?case
  proof (cases "int ?n < batch")
    case True
    then show ?thesis using sub by (subst purge_loop.simps) (auto simp: Let_def delete_first_others)
  next
    case False
    obtain rows' n b where r: "purge_loop p batch (Some m) (delete_first ?n p rows) (k + ?n) = Some (rows', k + ?n + n, b)"
      "filter (\<lambda>r. \<not> p r) rows' = filter (\<lambda>r. \<not> p r) (delete_first ?n p rows)" "set rows' \<subseteq> set (delete_first ?n p rows)"
      using Suc.IH [of "delete_first ?n p rows" "k + ?n"] by blast
    have "purge_loop p batch (Some (Suc m)) rows k = Some (rows', k + (?n + n), b)"
      using False r(1) by (subst purge_loop.simps) (simp add: Let_def add.assoc)
    then show ?thesis using r(2,3) sub [of ?n] by (auto simp: delete_first_others)
  qed
qed

lemma purge_loop_keeps_deadline:
  "purge_loop p batch (Some m) rows k = Some (rows', n, b) \<Longrightarrow> b \<noteq> None"
proof (induction m arbitrary: rows k)
  case 0
  then show ?case by (subst (asm) purge_loop.simps) auto
next
  case (Suc m)
  then show ?case by (subst (asm) (2) purge_loop.simps) (auto simp: Let_def split: if_splits)
qed

section \<open>The codec\<close>

text \<open>A state the program itself builds: the prompt freeze is consistent and the types are right.\<close>

definition state_ok :: "session_state \<Rightarrow> bool" where
  "state_ok st \<longleftrightarrow> (\<forall>t. ss_prompt_type st = Some t \<longrightarrow> t \<in> SRS_PROMPT_TYPES) \<and>
     (ss_prompt_type st = None \<longrightarrow> ss_prompt_word st = None) \<and>
     (ss_revealed st \<longrightarrow> ss_prompt_word st \<noteq> None) \<and> distinct (map fst (ss_before st)) \<and>
     (\<exists>xs. ss_graded st = JArr xs) \<and> (\<exists>d. ss_date st = JStr d)"

lemma py_mapM_inverse: "(\<And>x. x \<in> set xs \<Longrightarrow> f (g x) = Inr x) \<Longrightarrow> py_mapM f (map g xs) = Inr xs"
  by (induction xs) auto

lemma fold_update_fresh:
  "distinct (map fst xs) \<Longrightarrow> fst ` set xs \<inter> fst ` set acc = {} \<Longrightarrow>
   fold (\<lambda>(k, x). AList.update k x) xs acc = acc @ xs"
proof (induction xs arbitrary: acc)
  case (Cons kx xs)
  obtain k x where kx: "kx = (k, x)" by fastforce
  have "AList.update k x acc = acc @ [(k, x)]" if "k \<notin> fst ` set acc" for acc
    using that by (induction acc) auto
  then show ?case using Cons by (auto simp: kx)
qed simp

lemma node_roundtrip: "node_from_json (node_to_json n) = Inr n"
  by (simp add: node_from_json_def node_to_json_def json_kwargs_def)

lemma stability_roundtrip:
  assumes "distinct (map fst xs)"
  shows "stability_from_json read (or_value (JObj (map (\<lambda>(k, v). (int_str k, JFloat v)) xs)) (JObj [])) = Inr xs"
proof -
  have "stability_from_json read (JObj (map (\<lambda>(k, v). (int_str k, JFloat v)) xs)) = Inr xs"
    unfolding stability_from_json_def json.case
    by (subst py_mapM_inverse) (use assms in \<open>auto simp: fold_update_fresh\<close>)
  then show ?thesis by (auto simp: or_value_def stability_from_json_def)
qed

text \<open>What reads back as it is: the prompt freeze is consistent and the two defaulted fields are
  settled.\<close>

lemma state_reads_back:
  assumes "\<forall>t. ss_prompt_type st = Some t \<longrightarrow> t \<in> SRS_PROMPT_TYPES" "ss_prompt_type st = None \<longrightarrow> ss_prompt_word st = None"
    and "ss_revealed st \<longrightarrow> ss_prompt_word st \<noteq> None" "distinct (map fst (ss_before st))"
    and "or_value (ss_graded st) (JArr []) = ss_graded st" "or_value (ss_date st) (JStr '''') = ss_date st"
  shows "state_from_json read (JsonText (state_to_json st)) = Inr st"
proof -
  obtain nodes total_n tier3 msg plan graded before rev_ed ptype pword d where
    st: "st = \<lparr>ss_nodes = nodes, ss_total = total_n, ss_tier3 = tier3, ss_msg_id = msg, ss_plan = plan,
      ss_graded = graded, ss_before = before, ss_revealed = rev_ed, ss_prompt_type = ptype, ss_prompt_word = pword,
      ss_date = d\<rparr>"
    by (cases st)
  have n: "py_mapM node_from_json (map node_to_json nodes) = Inr nodes"
    by (rule py_mapM_inverse) (rule node_roundtrip)
  have b: "stability_from_json read (or_value (JObj (map (\<lambda>(k, v). (int_str k, JFloat v)) before)) (JObj [])) = Inr before"
    using assms by (intro stability_roundtrip) (simp add: st)
  have o: "or_value graded (JArr []) = graded" "or_value d (JStr '''') = d" using assms by (simp_all add: st)
  have ok: "\<forall>t. ptype = Some t \<longrightarrow> t \<in> SRS_PROMPT_TYPES" "ptype = None \<longrightarrow> pword = None" "rev_ed \<longrightarrow> pword \<noteq> None"
    using assms by (auto simp: st)
  show ?thesis
    unfolding state_from_json_def state_to_json_def st
    using ok by (cases ptype; cases pword) (simp_all add: n b o Let_def is_valid_prompt_type_def)
qed

lemma state_roundtrip: "state_ok st \<Longrightarrow> state_from_json read (JsonText (state_to_json st)) = Inr st"
  by (rule state_reads_back) (auto simp: state_ok_def or_value_def)

section \<open>Properties\<close>

text \<open>C5: a study session survives a restart: what the program saves for a user and a day loads
  back, the same day, as exactly the state that was saved, prompt freeze and stability snapshot
  included, and loading changes nothing.\<close>

theorem session_survives_restart:
  assumes "state_ok st" and "ss_nodes st \<noteq> []"
  shows "load_session read (save_session c s uid st day) uid day = Inr (Some st, save_session c s uid st day)"
proof -
  have "load_study_session (save_session c s uid st day) uid = Some (day, JsonText (state_to_json st))"
  proof (cases "find (\<lambda>r. s_user r = uid) (studies s)")
    case None
    then have "\<not> (\<exists>r \<in> set (studies s). s_user r = uid)" by (auto simp: find_None_iff)
    with None show ?thesis
      by (simp add: load_study_session_def save_session_def save_study_session_def Let_def find_append)
  next
    case (Some r)
    then have "\<exists>r \<in> set (studies s). s_user r = uid" using find_Some_D by fastforce
    then show ?thesis
      using find_update_where_Some [OF Some]
      by (simp add: load_study_session_def save_session_def save_study_session_def Let_def)
  qed
  then show ?thesis using assms state_roundtrip [OF assms(1)] by (simp add: load_session_def)
qed

definition sample_node :: session_node where
  "sample_node = \<lparr>n_activity = JStr ''srs_review'', n_tier = JInt 1, n_card = JObj [(''word'', JStr ''salt'')],
     n_source_id = JInt 7, n_meta = JObj [], n_policy = JStr ''srs_review'', n_schema = JNull\<rparr>"

definition sample_state :: session_state where
  "sample_state = \<lparr>ss_nodes = [sample_node], ss_total = JInt 3, ss_tier3 = JObj [], ss_msg_id = JNull,
     ss_plan = JStr ''free'', ss_graded = JArr [JInt 5], ss_before = [(7, 2.5)], ss_revealed = True,
     ss_prompt_type = Some ''meaning'', ss_prompt_word = Some 7, ss_date = JStr ''2026-01-01''\<rparr>"

lemma sample_state_ok: "state_ok sample_state"
  by (simp add: sample_state_def state_ok_def SRS_PROMPT_TYPES_def)

theorem session_survives_restart_witness:
  "\<exists>s. load_session (\<lambda>_. Inl ValueError) (save_session (clock_at 0 (2026, 1, 1)) empty_db 1 sample_state ''2026-01-01'') 1 ''2026-01-01'' =
     Inr (Some sample_state, s)"
  using session_survives_restart [OF sample_state_ok, of "\<lambda>_. Inl ValueError" "clock_at 0 (2026, 1, 1)" empty_db 1 "''2026-01-01''"]
  by (simp add: sample_state_def)

text \<open>A session of another day is discarded on load together with the user's grade ledger, so
  that every word can be graded again, and no other user loses anything.\<close>

theorem stale_session_discarded:
  assumes "load_study_session s uid = Some (d, txt)" and "d \<noteq> day"
  shows "\<exists>s'. load_session read s uid day = Inr (None, s') \<and> load_study_session s' uid = None \<and>
    (\<forall>wid act. \<not> is_word_graded s' uid wid act) \<and>
    (\<forall>uid' wid act. uid' \<noteq> uid \<longrightarrow> load_study_session s' uid' = load_study_session s uid' \<and>
       is_word_graded s' uid' wid act = is_word_graded s uid' wid act) \<and>
    words s' = words s \<and> events s' = events s"
proof -
  have f: "find (\<lambda>r. s_user r = uid') (delete_where (\<lambda>r. s_user r = uid) rows) =
      (if uid' = uid then None else find (\<lambda>r. s_user r = uid') rows)" for uid' and rows :: "study_row list"
    using find_delete_where_other [of "\<lambda>r. s_user r = uid'" "\<lambda>r. s_user r = uid" rows]
    by (auto simp: find_None_iff)
  show ?thesis
    using assms by (auto simp: load_session_def invalidate_stale_study_session_def clear_study_session_def
        clear_session_grades_def load_study_session_def f is_word_graded_def)
qed

theorem stale_session_discarded_witness:
  "\<exists>s'. load_session (\<lambda>_. Inl ValueError) (save_session (clock_at 0 (2026, 1, 1)) empty_db 1 sample_state ''2026-01-01'') 1 ''2026-01-02'' =
     Inr (None, s') \<and> load_study_session s' 1 = None"
proof -
  have l: "load_study_session (save_session (clock_at 0 (2026, 1, 1)) empty_db 1 sample_state ''2026-01-01'') 1 =
      Some (''2026-01-01'', JsonText (state_to_json sample_state))"
    by (simp add: load_study_session_def save_session_def save_study_session_def)
  show ?thesis using stale_session_discarded [OF l, of "''2026-01-02''" "\<lambda>_. Inl ValueError"] by auto
qed










text \<open>A failed edit undoes the advance: putting the popped node and the frozen prompt back gives
  the state before, also when no node was left, and taking back a pushed third-tier node does so
  for any numeric card total.\<close>

theorem advance_is_undone:
  "(case pop_next st of ((popped, saved), st') \<Rightarrow> rollback_pop st' popped saved) = st \<and>
   (ss_total st = JInt n \<longrightarrow> py_bind (push_tier3 st node) rollback_tier3_push = Inr st)"
  by (cases "ss_nodes st") (auto simp: pop_next_def rollback_pop_def push_tier3_def rollback_tier3_push_def json_add_def Let_def)

theorem advance_is_undone_witness:
  "py_bind (push_tier3 sample_state sample_node) rollback_tier3_push = Inr sample_state"
  using advance_is_undone [of sample_state 3 sample_node] by (simp add: sample_state_def)

lemma json_errors:
  "errs_in {AttributeError} (json_get j k)" "errs_in {KeyError, TypeError} (json_item j k)"
  "errs_in {TypeError} (json_iter j)" "errs_in {TypeError} (json_num j)"
  "errs_in {TypeError} (json_kwargs rq op j)" "errs_in {TypeError} (node_from_json j)"
proof -
  show kw: "errs_in {TypeError} (json_kwargs rq op j)" for rq op j by (cases j) (simp_all add: json_kwargs_def)
  show "errs_in {TypeError} (node_from_json j)" unfolding node_from_json_def by (intro errs_in_bind kw) simp
qed (cases j; simp split: option.split)+

lemma py_int_of_error: "errs_in {ValueError} (py_int_of s)"
  by (cases s) (auto simp: py_int_of_def)

lemma stability_errors:
  assumes "\<And>t. errs_in {ValueError} (read t)"
  shows "errs_in {ValueError, TypeError, AttributeError} (stability_from_json read v)"
proof -
  have "errs_in {ValueError, TypeError, AttributeError} (json_float read x)" for x
    using assms by (cases x) (auto intro: errs_in_mono)
  then show ?thesis
    unfolding stability_from_json_def
    by (cases v) (auto intro!: errs_in_bind errs_in_mapM errs_in_mono [OF py_int_of_error])
qed

lemma stability_errors_object:
  assumes "\<And>t. errs_in {ValueError} (read t)"
  shows "errs_in {ValueError, TypeError} (stability_from_json read (JObj kvs))"
proof -
  have "errs_in {ValueError, TypeError} (json_float read x)" for x
    using assms by (cases x) (auto intro: errs_in_mono)
  then show ?thesis
    unfolding stability_from_json_def
    by (auto intro!: errs_in_bind errs_in_mapM errs_in_mono [OF py_int_of_error])
qed

text \<open>The errors of the codec, given those of its two fragile steps.\<close>

lemma state_errors:
  assumes "\<And>k. errs_in E (json_get data k)" and "{ValueError, KeyError, TypeError} \<subseteq> E"
    and "\<And>v. json_get data ''before_stability'' = Inr v \<Longrightarrow> errs_in E (stability_from_json read (or_value v (JObj [])))"
  shows "errs_in E (state_from_json read (JsonText data))"
proof -
  have i: "errs_in E (json_item data k)" for k using errs_in_mono [OF json_errors(2)] assms(2) by blast
  have t: "errs_in E (json_iter j)" "errs_in E (node_from_json j)" for j
    using errs_in_mono [OF json_errors(3)] errs_in_mono [OF json_errors(6)] assms(2) by blast+
  show ?thesis
    unfolding state_from_json_def json_loads.simps py_bind.simps Let_def
    by (intro errs_in_bind errs_in_mapM assms(1) i t assms(3) errs_in_Inr) 
qed

text \<open>Loading answers every stored payload with a session or with none, except for one kind of
  corruption that its handler of corrupt payloads does not catch: JSON that is not an object
  raises \<open>AttributeError\<close>. An object whose stability snapshot is missing, empty or an object
  never does.\<close>

theorem load_session_escapes:
  assumes "\<And>t. errs_in {ValueError} (read t)" and "load_study_session s uid = Some (day, payload)"
  shows "errs_in {AttributeError} (load_session read s uid day) \<and>
    (\<forall>j. payload = JsonText j \<and> (\<forall>kvs. j \<noteq> JObj kvs) \<longrightarrow> load_session read s uid day = Inl AttributeError) \<and>
    (\<forall>kvs. payload = JsonText (JObj kvs) \<and> (\<forall>v. map_of kvs ''before_stability'' = Some v \<and> truthy v \<longrightarrow> (\<exists>m. v = JObj m)) \<longrightarrow>
       (\<exists>r. load_session read s uid day = Inr r))"
proof -
  let ?E = "{ValueError, KeyError, TypeError}"
  have all: "errs_in (insert AttributeError ?E) (state_from_json read payload)"
  proof (cases payload)
    case (JsonText data)
    show ?thesis unfolding JsonText
      by (rule state_errors) (auto intro: errs_in_mono [OF json_errors(1)] errs_in_mono [OF stability_errors [OF assms(1)]])
  next
    case (NotJson t)
    then show ?thesis by (simp add: state_from_json_def)
  qed
  have load: "errs_in F (load_session read s uid day)" if "errs_in (F \<union> ?E) (state_from_json read payload)" for F
    using that assms(2) by (auto simp: load_session_def errs_in_def split: sum.split)
  have "load_session read s uid day = Inl AttributeError" if j: "payload = JsonText j" "\<forall>kvs. j \<noteq> JObj kvs" for j
  proof -
    have "json_get j k = Inl AttributeError" for k using j(2) by (cases j) auto
    then show ?thesis using assms(2) j(1) by (simp add: load_session_def state_from_json_def)
  qed
  moreover have "\<exists>r. load_session read s uid day = Inr r"
    if j: "payload = JsonText (JObj kvs)" "\<forall>v. map_of kvs ''before_stability'' = Some v \<and> truthy v \<longrightarrow> (\<exists>m. v = JObj m)" for kvs
  proof -
    have "errs_in ?E (state_from_json read payload)" unfolding j(1)
    proof (rule state_errors)
      fix v assume "json_get (JObj kvs) ''before_stability'' = Inr v"
      then have "\<exists>m. or_value v (JObj []) = JObj m"
        using j(2) by (cases "map_of kvs ''before_stability''") (auto simp: or_value_def)
      then show "errs_in ?E (stability_from_json read (or_value v (JObj [])))"
        using errs_in_mono [OF stability_errors_object [OF assms(1)]] by auto
    qed auto
    then have "errs_in {} (load_session read s uid day)" using load [of "{}"] by simp
    then show ?thesis by (cases "load_session read s uid day") (auto simp: errs_in_def)
  qed
  moreover have "errs_in {AttributeError} (load_session read s uid day)"
    using all load [of "{AttributeError}"] by (simp add: insert_commute)
  ultimately show ?thesis by blast
qed

theorem load_session_escapes_witness:
  "load_session (\<lambda>_. Inl ValueError) (save_study_session (clock_at 0 (2026, 1, 1)) empty_db 1 ''2026-01-01'' (JsonText (JArr []))) 1 ''2026-01-01'' =
   Inl AttributeError"
proof -
  have l: "load_study_session (save_study_session (clock_at 0 (2026, 1, 1)) empty_db 1 ''2026-01-01'' (JsonText (JArr []))) 1 =
      Some (''2026-01-01'', JsonText (JArr []))"
    by (simp add: load_study_session_def save_study_session_def)
  show ?thesis using load_session_escapes [OF _ l, of "\<lambda>_. Inl ValueError"] by simp
qed

text \<open>C38: the midnight sweep, run with a positive batch, ends and deletes exactly the sessions dated
  before yesterday and the ledger entries older than two days; with a deadline it ends for every
  batch; but a batch of zero or less without a deadline never comes to an end.\<close>

theorem sweep_ends:
  assumes "clock_ok c" and "day_before (today c) = Inr yesterday"
  shows "(0 < batch \<longrightarrow> purge_stale_study_sessions c batch None s = Some (Inr
      ((count_where (\<lambda>r. s_date r < isoformat yesterday) (studies s),
        count_where (\<lambda>l. stamp_text c (l_graded_at l) < stamp_text c (Stamp (utc_now c - 2 * day_us))) (ledger s)),
       s\<lparr>studies := filter (\<lambda>r. \<not> s_date r < isoformat yesterday) (studies s),
         ledger := filter (\<lambda>l. \<not> stamp_text c (l_graded_at l) < stamp_text c (Stamp (utc_now c - 2 * day_us))) (ledger s)\<rparr>))) \<and>
    (\<exists>r. purge_stale_study_sessions c batch (Some m) s = Some (Inr r)) \<and>
    (batch \<le> 0 \<longrightarrow> purge_stale_study_sessions c batch None s = None)"
proof -
  let ?p = "\<lambda>r. s_date r < isoformat yesterday"
  let ?q = "\<lambda>l. stamp_text c (l_graded_at l) < stamp_text c (Stamp (utc_now c - 2 * day_us))"
  have "\<exists>r. purge_stale_study_sessions c batch (Some m) s = Some (Inr r)"
  proof -
    obtain rows n b where r: "purge_loop ?p batch (Some m) (studies s) 0 = Some (rows, n, b)"
      using purge_loop_deadline [of ?p batch m "studies s" 0] by auto
    have "b = Some m' \<Longrightarrow> \<exists>x. purge_loop ?q batch b (ledger s) 0 = Some x" for m'
      using purge_loop_deadline [of ?q batch m' "ledger s" 0] by auto
    moreover have "b \<noteq> None" by (rule purge_loop_keeps_deadline [OF r])
    ultimately obtain rows2 n2 b2 where "purge_loop ?q batch b (ledger s) 0 = Some (rows2, n2, b2)"
      by (metis not_None_eq prod_cases3)
    then show ?thesis using r assms(2) by (simp add: purge_stale_study_sessions_def Let_def)
  qed
  then show ?thesis
    using assms(2) by (simp add: purge_stale_study_sessions_def Let_def purge_loop_all purge_loop_stuck)
qed

theorem sweep_ends_witness:
  "\<exists>r. purge_stale_study_sessions (clock_at 0 (2026, 1, 31)) 500 None
     (save_session (clock_at 0 (2026, 1, 1)) empty_db 1 sample_state ''2026-01-01'') = Some (Inr ((1, 0), r)) \<and> studies r = []"
proof -
  let ?s = "save_session (clock_at 0 (2026, 1, 1)) empty_db 1 sample_state ''2026-01-01''"
  have d: "day_before (today (clock_at 0 (2026, 1, 31))) = Inr (2026, 1, 30)" and c: "clock_ok (clock_at 0 (2026, 1, 31))"
    by (simp_all add: clock_ok_def days_in_month_def)
  have lt: "''2026-01-01'' < isoformat (2026, 1, 30)" by code_simp
  have s: "studies ?s = [\<lparr>s_user = 1, s_date = ''2026-01-01'', s_json = JsonText (state_to_json sample_state), s_updated = Stamp 0\<rparr>]"
    "ledger ?s = []" by (simp_all add: save_session_def save_study_session_def)
  show ?thesis
    using sweep_ends [OF c d, of 500 ?s] unfolding s using lt by (simp add: count_where_def)
qed

end
