(* ===== verification/Summary.thy ===== *)
theory Summary imports SessionStore begin

text \<open>
  The report of a finished session: the records of \<open>services/session/store.py\<close>
  (\<open>gather_word_records\<close> and its date helpers), the aggregation, pagination, tiers and
  serialisation of \<open>services/session/summary.py\<close>, and the stored reports of
  \<open>services/db/session_reports.py\<close>. The fields of a record are dynamically typed: a reopened
  report takes them from JSON, and arithmetic on them can raise.
\<close>

section \<open>Records\<close>

record word_review =
  wr_word_id :: json
  wr_word :: json
  wr_activity :: json
  wr_before :: json
  wr_after :: json
  wr_prior :: json
  wr_grade :: json
  wr_interval :: json
  wr_next :: json
  wr_difficulty :: json

definition to_app_tz_date :: "('a clock_scheme) \<Rightarrow> stamp option \<Rightarrow> string option" where
  "to_app_tz_date c iso_utc =
     (case iso_utc of
        None \<Rightarrow> None
      | Some st \<Rightarrow> (case parse_stamp st of Inl _ \<Rightarrow> None | Inr t \<Rightarrow> Some (isoformat (app_date c t))))"

text \<open>\<open>round(x, 1)\<close>.\<close>

definition round1 :: "real \<Rightarrow> real" where
  "round1 x = of_int (py_round (x * 10)) / 10"

definition interval_days :: "word_row \<Rightarrow> real option" where
  "interval_days row =
     (case (w_last_at row, w_next_at row) of
        (Some l, Some n) \<Rightarrow>
          (case (parse_stamp l, parse_stamp n) of
             (Inr last_dt, Inr nxt_dt) \<Rightarrow> Some (round1 (max 0 (days_between nxt_dt last_dt)))
           | _ \<Rightarrow> None)
      | _ \<Rightarrow> None)"

text \<open>\<open>d.get(wid)\<close> of the snapshot, \<open>word_ids\<close> as the integers the session put there.\<close>

definition gather_word_records ::
    "('a clock_scheme) \<Rightarrow> db \<Rightarrow> int list \<Rightarrow> (int \<times> real) list \<Rightarrow> int \<Rightarrow> word_review list" where
  "gather_word_records c s word_ids before_stability uid =
     (if word_ids = [] then []
      else let rows = map_of (rev (map (\<lambda>r. (w_id r, r)) (get_saved_words_by_ids s word_ids uid)));
               events = recent_events_for_words c s word_ids uid 2
           in List.map_filter (\<lambda>wid.
                case rows wid of
                  None \<Rightarrow> None
                | Some wr \<Rightarrow>
                    (let evs = or_else (events wid) [];
                         current = (case evs of [] \<Rightarrow> None | e # _ \<Rightarrow> Some e);
                         prior = (case evs of _ # e # _ \<Rightarrow> Some e | _ \<Rightarrow> None)
                     in Some \<lparr>wr_word_id = JInt wid, wr_word = JStr (w_word wr),
                          wr_activity = (case current of None \<Rightarrow> JStr ''srs_review'' | Some e \<Rightarrow> JStr (e_activity e)),
                          wr_before = json_opt JFloat (map_of before_stability wid),
                          wr_after = json_opt JFloat (w_stability wr),
                          wr_prior = json_opt JStr (case prior of None \<Rightarrow> None | Some e \<Rightarrow> to_app_tz_date c (Some (e_created e))),
                          wr_grade = (case current of None \<Rightarrow> JNull | Some e \<Rightarrow> json_opt JInt (e_grade e)),
                          wr_interval = json_opt JFloat (interval_days wr),
                          wr_next = json_opt JStr (to_app_tz_date c (w_next_at wr)),
                          wr_difficulty = json_opt JFloat (w_difficulty wr)\<rparr>)) word_ids)"

section \<open>Aggregation\<close>

record session_report =
  sr_learned :: nat
  sr_reviewed :: nat
  sr_total :: nat
  sr_rows :: "word_review list"
  sr_avg_delta :: "real option"
  sr_recall :: "real option"
  sr_avg_after :: "real option"
  sr_pages :: "word_review list list"

definition PAGE_SIZE :: nat where
  "PAGE_SIZE = 8"

definition paginate :: "word_review list \<Rightarrow> word_review list list" where
  "paginate records = chunks PAGE_SIZE records"

definition RECALL_WEIGHTS :: "(json \<times> real) list" where
  "RECALL_WEIGHTS = [(JInt 1, 0), (JInt 2, 0.7), (JInt 3, 1), (JInt 4, 1)]"

text \<open>\<open>RECALL_WEIGHTS.get(g, 0.0)\<close>: a container is no key.\<close>

definition recall_weight :: "json \<Rightarrow> real py" where
  "recall_weight g =
     (if \<not> hashable g then Inl TypeError
      else Inr (case find (\<lambda>kv. key_eq (fst kv) g) RECALL_WEIGHTS of None \<Rightarrow> 0 | Some kv \<Rightarrow> snd kv))"

definition fmean :: "real list \<Rightarrow> real" where
  "fmean xs = sum_list xs / real (length xs)"

definition mean_or_none :: "real list \<Rightarrow> real option" where
  "mean_or_none xs = (if xs = [] then None else Some (fmean xs))"

definition build_report :: "word_review list \<Rightarrow> session_report py" where
  "build_report records =
     py_bind (py_mapM (\<lambda>r. py_bind (json_num (wr_after r)) (\<lambda>a. py_bind (json_num (wr_before r)) (\<lambda>b. Inr (a - b))))
                (filter (\<lambda>r. wr_before r \<noteq> JNull \<and> wr_after r \<noteq> JNull) records)) (\<lambda>deltas.
     py_bind (py_mapM (\<lambda>r. recall_weight (wr_grade r)) (filter (\<lambda>r. wr_grade r \<noteq> JNull) records)) (\<lambda>weights.
     py_bind (py_mapM (\<lambda>r. json_num (wr_after r)) (filter (\<lambda>r. wr_after r \<noteq> JNull) records)) (\<lambda>afters.
       Inr \<lparr>sr_learned = count_where (\<lambda>r. wr_activity r = JStr ''first_exposure'') records,
            sr_reviewed = count_where (\<lambda>r. wr_activity r = JStr ''srs_review'') records,
            sr_total = length records, sr_rows = records, sr_avg_delta = mean_or_none deltas,
            sr_recall = mean_or_none weights, sr_avg_after = mean_or_none afters,
            sr_pages = paginate records\<rparr>)))"

definition classify_tier :: "real option \<Rightarrow> string option" where
  "classify_tier recall_rate =
     (case recall_rate of
        None \<Rightarrow> None
      | Some r \<Rightarrow> if r \<ge> 0.75 then Some ''excellent'' else if r \<ge> 0.5 then Some ''acceptable''
                  else Some ''needs_improvement'')"

record grade_counts =
  gc_total :: nat
  gc_graded :: nat
  gc_ok :: nat
  gc_easy :: nat
  gc_good :: nat
  gc_hard :: nat
  gc_again :: nat
  gc_learned :: nat
  gc_reviewed :: nat

definition grade_stats :: "session_report \<Rightarrow> grade_counts py" where
  "grade_stats report =
     (if \<exists>r \<in> set (sr_rows report). \<not> hashable (wr_grade r) then Inl TypeError
      else let n = (\<lambda>g. count_where (\<lambda>r. key_eq (JInt g) (wr_grade r)) (sr_rows report))
           in Inr \<lparr>gc_total = sr_total report, gc_graded = n 1 + n 2 + n 3 + n 4, gc_ok = n 3 + n 4,
                   gc_easy = n 4, gc_good = n 3, gc_hard = n 2, gc_again = n 1,
                   gc_learned = sr_learned report, gc_reviewed = sr_reviewed report\<rparr>)"

section \<open>Serialisation\<close>

definition REPORT_JSON_VERSION :: int where
  "REPORT_JSON_VERSION = 1"

definition review_to_json :: "word_review \<Rightarrow> json" where
  "review_to_json r = JObj
     [(''word_id'', wr_word_id r), (''word'', wr_word r), (''activity_type'', wr_activity r),
      (''stability_before'', wr_before r), (''stability_after'', wr_after r),
      (''prior_review_date'', wr_prior r), (''grade'', wr_grade r), (''interval_days'', wr_interval r),
      (''next_review_date'', wr_next r), (''difficulty'', wr_difficulty r)]"

definition review_from_json :: "json \<Rightarrow> word_review py" where
  "review_from_json j =
     py_bind (json_kwargs [''word_id'', ''word'', ''activity_type'']
                [(''stability_before'', JNull), (''stability_after'', JNull), (''prior_review_date'', JNull),
                 (''grade'', JNull), (''interval_days'', JNull), (''next_review_date'', JNull),
                 (''difficulty'', JNull)] j)
       (\<lambda>f. Inr \<lparr>wr_word_id = f ''word_id'', wr_word = f ''word'', wr_activity = f ''activity_type'',
                 wr_before = f ''stability_before'', wr_after = f ''stability_after'',
                 wr_prior = f ''prior_review_date'', wr_grade = f ''grade'', wr_interval = f ''interval_days'',
                 wr_next = f ''next_review_date'', wr_difficulty = f ''difficulty''\<rparr>)"

definition serialize_report :: "session_report \<Rightarrow> json_text" where
  "serialize_report report = JsonText (JObj
     [(''version'', JInt REPORT_JSON_VERSION), (''rows'', JArr (map review_to_json (sr_rows report)))])"

definition deserialize_report :: "json_text \<Rightarrow> session_report py" where
  "deserialize_report payload =
     py_bind (json_loads payload) (\<lambda>data.
     py_bind (json_get data ''version'') (\<lambda>version.
       if \<not> key_eq version (JInt REPORT_JSON_VERSION) then Inl ValueError
       else py_bind (json_get data ''rows'') (\<lambda>rows.
         case rows of
           JArr xs \<Rightarrow> py_bind (py_mapM review_from_json xs) build_report
         | _ \<Rightarrow> Inl ValueError)))"

section \<open>Stored reports\<close>

definition REPORT_WINDOW_DAYS :: int where
  "REPORT_WINDOW_DAYS = 3"

definition report_cutoff :: "('a clock_scheme) \<Rightarrow> stamp" where
  "report_cutoff c = Stamp (utc_now c - REPORT_WINDOW_DAYS * day_us)"

definition expired :: "('a clock_scheme) \<Rightarrow> report_row \<Rightarrow> bool" where
  "expired c r \<longleftrightarrow> stamp_text c (rp_created r) < stamp_text c (report_cutoff c)"

text \<open>\<open>id INTEGER PRIMARY KEY AUTOINCREMENT\<close>: the next id is above every id given out; the
  table's own counter is the parameter \<open>rid\<close>.\<close>

definition save_session_report ::
    "('a clock_scheme) \<Rightarrow> int \<Rightarrow> db \<Rightarrow> int \<Rightarrow> string \<Rightarrow> session_report \<Rightarrow> bool \<Rightarrow> db" where
  "save_session_report c rid s uid session_date report is_admin =
     s\<lparr>reports := delete_where (expired c) (reports s) @
        [\<lparr>rp_id = rid, rp_user = uid, rp_date = session_date, rp_created = Stamp (utc_now c),
          rp_json = serialize_report report, rp_admin = (if is_admin then 1 else 0)\<rparr>]\<rparr>"

record report_entry =
  re_id :: int
  re_date :: string
  re_created :: stamp
  re_total :: nat
  re_learned :: nat
  re_reviewed :: nat

definition report_entry_of :: "report_row \<Rightarrow> report_entry" where
  "report_entry_of row =
     (case deserialize_report (rp_json row) of
        Inr rep \<Rightarrow> \<lparr>re_id = rp_id row, re_date = rp_date row, re_created = rp_created row,
                    re_total = sr_total rep, re_learned = sr_learned rep, re_reviewed = sr_reviewed rep\<rparr>
      | Inl _ \<Rightarrow> \<lparr>re_id = rp_id row, re_date = rp_date row, re_created = rp_created row,
                   re_total = 0, re_learned = 0, re_reviewed = 0\<rparr>)"

definition list_recent_reports :: "('a clock_scheme) \<Rightarrow> db \<Rightarrow> int \<Rightarrow> report_entry list \<times> db" where
  "list_recent_reports c s uid =
     (let s' = s\<lparr>reports := delete_where (expired c) (reports s)\<rparr>;
          rows = filter (\<lambda>r. rp_user r = uid \<and> \<not> expired c r) (reports s')
      in (map report_entry_of (rev (sort_key (\<lambda>r. stamp_text c (rp_created r)) (rev rows))), s'))"

definition purge_expired_session_reports :: "('a clock_scheme) \<Rightarrow> int \<Rightarrow> nat option \<Rightarrow> db \<Rightarrow> (nat \<times> db) option" where
  "purge_expired_session_reports c batch budget s =
     map_option (\<lambda>(rows, deleted, _). (deleted, s\<lparr>reports := rows\<rparr>))
       (purge_loop (expired c) (max 1 batch) budget (reports s) 0)"

record loaded_report =
  lr_date :: string
  lr_report :: session_report
  lr_admin :: bool

definition load_report :: "('a clock_scheme) \<Rightarrow> db \<Rightarrow> int \<Rightarrow> int \<Rightarrow> (loaded_report option \<times> db) py" where
  "load_report c s report_id uid =
     (let s' = s\<lparr>reports := delete_where (expired c) (reports s)\<rparr>
      in case find (\<lambda>r. rp_id r = report_id \<and> rp_user r = uid \<and> \<not> expired c r) (reports s') of
           None \<Rightarrow> Inr (None, s')
         | Some row \<Rightarrow>
             (case deserialize_report (rp_json row) of
                Inl e \<Rightarrow> (if e \<in> {ValueError, TypeError}
                          then Inr (None, s'\<lparr>reports := delete_where (\<lambda>r. rp_id r = report_id \<and> rp_user r = uid) (reports s')\<rparr>)
                          else Inl e)
              | Inr rep \<Rightarrow> Inr (Some \<lparr>lr_date = rp_date row, lr_report = rep, lr_admin = (rp_admin row \<noteq> 0)\<rparr>, s')))"

section \<open>Lemmas\<close>

lemma review_roundtrip: "review_from_json (review_to_json r) = Inr r"
  by (simp add: review_from_json_def review_to_json_def json_kwargs_def)

lemma build_report_rows: "build_report rs = Inr rep \<Longrightarrow> sr_rows rep = rs"
  by (auto simp: build_report_def py_bind_Inr_iff)

lemma report_roundtrip: "build_report rs = Inr rep \<Longrightarrow> deserialize_report (serialize_report rep) = Inr rep"
  using build_report_rows [of rs rep] py_mapM_inverse [of rs review_from_json review_to_json]
  by (simp add: deserialize_report_def serialize_report_def key_eq_def review_roundtrip)

lemma py_mapM_set: "py_mapM f xs = Inr ys \<Longrightarrow> y \<in> set ys \<Longrightarrow> \<exists>x \<in> set xs. f x = Inr y"
  by (induction xs arbitrary: ys) (auto simp: py_bind_Inr_iff)

lemma mean_bounds:
  assumes "\<And>x. x \<in> set xs \<Longrightarrow> a \<le> x \<and> x \<le> b" and "xs \<noteq> []"
  shows "a \<le> fmean xs \<and> fmean xs \<le> b"
proof -
  have "sum_list (map (\<lambda>x. a) xs) \<le> sum_list (map (\<lambda>x. x) xs)" "sum_list (map (\<lambda>x. x) xs) \<le> sum_list (map (\<lambda>x. b) xs)"
    by (rule sum_list_mono; simp add: assms(1))+
  then have "real (length xs) * a \<le> sum_list xs \<and> sum_list xs \<le> real (length xs) * b"
    by (simp add: sum_list_triv)
  moreover have "0 < real (length xs)" using assms(2) by simp
  ultimately show ?thesis by (simp add: fmean_def field_simps)
qed

lemma recall_weight_range: "recall_weight g = Inr w \<Longrightarrow> 0 \<le> w \<and> w \<le> 1"
  by (auto simp: recall_weight_def RECALL_WEIGHTS_def split: if_splits option.splits dest!: find_Some_D)

lemma chunk_sizes:
  assumes "0 < n"
  shows "(\<forall>p \<in> set (chunks n xs). 0 < length p \<and> length p \<le> n) \<and> (\<forall>p \<in> set (butlast (chunks n xs)). length p = n)"
  using assms
proof (induction n xs rule: chunks.induct)
  case (1 n xs)
  show ?case
  proof (cases "xs = []")
    case True
    then show ?thesis by (simp add: chunks.simps)
  next
    case False
    have c: "chunks n xs = take n xs # chunks n (drop n xs)"
      using False "1.prems" by (subst chunks.simps) simp
    have m: "max 1 n = n" using "1.prems" by simp
    have IH: "(\<forall>p \<in> set (chunks n (drop n xs)). 0 < length p \<and> length p \<le> n) \<and>
        (\<forall>p \<in> set (butlast (chunks n (drop n xs))). length p = n)"
      by (rule "1.IH" [OF False "1.prems", unfolded m])
    have first: "0 < length (take n xs) \<and> length (take n xs) \<le> n" using False "1.prems" by simp
    have none: "chunks n [] = []" by (subst chunks.simps) simp
    have full: "length (take n xs) = n" if "chunks n (drop n xs) \<noteq> []"
    proof -
      have "drop n xs \<noteq> []" using that none by metis
      then show ?thesis by simp
    qed
    show ?thesis
    proof (cases "chunks n (drop n xs)")
      case Nil
      then show ?thesis unfolding c using first by simp
    next
      case (Cons q qs)
      then have "length (take n xs) = n" using full by (metis list.distinct(1))
      moreover have "set (butlast (chunks n xs)) = insert (take n xs) (set (butlast (chunks n (drop n xs))))"
        unfolding c Cons by simp
      ultimately show ?thesis using IH first c by (metis insert_iff list.simps(15))
    qed
  qed
qed

section \<open>Properties\<close>

text \<open>A finished session's report survives its storage: serialising it and reopening it gives
  the same report, all aggregates included, although only the rows are stored.\<close>

theorem report_survives_storage:
  assumes "build_report rs = Inr rep"
  shows "deserialize_report (serialize_report rep) = Inr rep"
  by (rule report_roundtrip [OF assms])

definition sample_review :: word_review where
  "sample_review = \<lparr>wr_word_id = JInt 7, wr_word = JStr ''salt'', wr_activity = JStr ''srs_review'', wr_before = JFloat 2,
     wr_after = JFloat 3, wr_prior = JNull, wr_grade = JInt 3, wr_interval = JFloat 1, wr_next = JNull, wr_difficulty = JFloat 5\<rparr>"

lemma sample_report: "build_report [sample_review] = Inr \<lparr>sr_learned = 0, sr_reviewed = 1, sr_total = 1,
    sr_rows = [sample_review], sr_avg_delta = Some 1, sr_recall = Some 1, sr_avg_after = Some 3,
    sr_pages = [[sample_review]]\<rparr>"
  by (simp add: build_report_def sample_review_def recall_weight_def hashable_def RECALL_WEIGHTS_def key_eq_def
      mean_or_none_def fmean_def count_where_def paginate_def PAGE_SIZE_def chunks.simps)

theorem report_survives_storage_witness:
  "\<exists>rep. deserialize_report (serialize_report rep) = Inr rep \<and> sr_avg_after rep = Some 3"
  using report_survives_storage [OF sample_report] by fastforce

text \<open>Every report is coherent: the pages are the rows in order, each of one to eight words and
  all but the last full; the recall rate is a rate between 0 and 1, given exactly when some word
  was graded; learned and reviewed words never exceed the total.\<close>

theorem report_coherent:
  assumes "build_report rs = Inr rep"
  shows "concat (sr_pages rep) = rs \<and>
    (\<forall>p \<in> set (sr_pages rep). 1 \<le> length p \<and> length p \<le> 8) \<and> (\<forall>p \<in> set (butlast (sr_pages rep)). length p = 8) \<and>
    (case sr_recall rep of None \<Rightarrow> \<forall>r \<in> set rs. wr_grade r = JNull
       | Some x \<Rightarrow> 0 \<le> x \<and> x \<le> 1 \<and> (\<exists>r \<in> set rs. wr_grade r \<noteq> JNull)) \<and>
    sr_learned rep + sr_reviewed rep \<le> sr_total rep"
proof -
  obtain ws where w: "py_mapM (\<lambda>r. recall_weight (wr_grade r)) (filter (\<lambda>r. wr_grade r \<noteq> JNull) rs) = Inr ws"
    and f: "sr_recall rep = mean_or_none ws" "sr_pages rep = paginate rs" "sr_total rep = length rs"
      "sr_learned rep = count_where (\<lambda>r. wr_activity r = JStr ''first_exposure'') rs"
      "sr_reviewed rep = count_where (\<lambda>r. wr_activity r = JStr ''srs_review'') rs"
    using assms by (auto simp: build_report_def py_bind_Inr_iff)
  have len: "length ws = length (filter (\<lambda>r. wr_grade r \<noteq> JNull) rs)" by (rule py_mapM_length [OF w])
  have "0 \<le> x \<and> x \<le> 1" if "x \<in> set ws" for x
    using py_mapM_set [OF w that] recall_weight_range by blast
  then have mean: "ws \<noteq> [] \<Longrightarrow> 0 \<le> fmean ws \<and> fmean ws \<le> 1" by (rule mean_bounds)
  have recall: "case sr_recall rep of None \<Rightarrow> \<forall>r \<in> set rs. wr_grade r = JNull
      | Some x \<Rightarrow> 0 \<le> x \<and> x \<le> 1 \<and> (\<exists>r \<in> set rs. wr_grade r \<noteq> JNull)"
  proof (cases "ws = []")
    case True
    then have "filter (\<lambda>r. wr_grade r \<noteq> JNull) rs = []" using len by simp
    then show ?thesis using True f(1) by (simp add: mean_or_none_def filter_empty_conv)
  next
    case False
    then have "filter (\<lambda>r. wr_grade r \<noteq> JNull) rs \<noteq> []" using len by auto
    then show ?thesis using False f(1) mean by (simp add: mean_or_none_def filter_empty_conv)
  qed
  have pages: "concat (sr_pages rep) = rs" unfolding f(2) paginate_def by (rule concat_chunks)
  have sizes: "(\<forall>p \<in> set (sr_pages rep). 1 \<le> length p \<and> length p \<le> 8) \<and> (\<forall>p \<in> set (butlast (sr_pages rep)). length p = 8)"
    unfolding f(2) paginate_def PAGE_SIZE_def using chunk_sizes [of 8 rs] by (simp add: Suc_le_eq)
  have counts: "sr_learned rep + sr_reviewed rep \<le> sr_total rep"
    unfolding f(3-5) count_where_def by (induction rs) auto
  show ?thesis using pages sizes recall counts by blast
qed

theorem report_coherent_witness:
  "concat [[sample_review]] = [sample_review] \<and> (case Some (1::real) of None \<Rightarrow> False | Some x \<Rightarrow> 0 \<le> x \<and> x \<le> 1)"
  using report_coherent [OF sample_report] by simp

lemma gathered_record:
  assumes "r \<in> set (gather_word_records c s ids before uid)"
  shows "\<exists>wid wr (e :: event_row option). wid \<in> set ids \<and> wr \<in> set (get_saved_words_by_ids s ids uid) \<and>
    wr_word_id r = JInt wid \<and> wr_before r = json_opt JFloat (map_of before wid) \<and> wr_after r = json_opt JFloat (w_stability wr) \<and>
    wr_grade r = (case e of None \<Rightarrow> JNull | Some ev \<Rightarrow> json_opt JInt (e_grade ev))"
proof -
  define rows where "rows = map_of (rev (map (\<lambda>r. (w_id r, r)) (get_saved_words_by_ids s ids uid)))"
  have ne: "ids \<noteq> []" using assms by (auto simp: gather_word_records_def)
  define e where "e wid = (case or_else (recent_events_for_words c s ids uid 2 wid) [] of [] \<Rightarrow> None | x # _ \<Rightarrow> Some x)" for wid
  obtain wid wr where wid: "wid \<in> set ids" "rows wid = Some wr"
    and r: "wr_word_id r = JInt wid" "wr_before r = json_opt JFloat (map_of before wid)" "wr_after r = json_opt JFloat (w_stability wr)"
      "wr_grade r = (case e wid of None \<Rightarrow> JNull | Some ev \<Rightarrow> json_opt JInt (e_grade ev))"
    using assms ne unfolding gather_word_records_def Let_def rows_def [symmetric] e_def [symmetric]
    by (fastforce simp: set_map_filter split: option.splits)
  have "wr \<in> set (get_saved_words_by_ids s ids uid)"
    using map_of_SomeD [OF wid(2) [unfolded rows_def]] by auto
  then show ?thesis using wid(1) r by blast
qed

definition well_typed :: "word_review \<Rightarrow> bool" where
  "well_typed r \<longleftrightarrow> (wr_before r = JNull \<or> (\<exists>x. wr_before r = JFloat x)) \<and> (wr_after r = JNull \<or> (\<exists>x. wr_after r = JFloat x)) \<and>
     (wr_grade r = JNull \<or> (\<exists>i. wr_grade r = JInt i))"

lemma gathered_well_typed: "r \<in> set (gather_word_records c s ids before uid) \<Longrightarrow> well_typed r"
  using gathered_record [of r c s ids before uid]
  by (auto simp: well_typed_def json_opt_def split: option.splits)

lemma py_mapM_total: "(\<And>x. x \<in> set xs \<Longrightarrow> \<exists>y. f x = Inr y) \<Longrightarrow> \<exists>ys. py_mapM f xs = Inr ys"
  by (induction xs) fastforce+

lemma build_report_total:
  assumes "\<And>r. r \<in> set rs \<Longrightarrow> well_typed r"
  shows "\<exists>rep. build_report rs = Inr rep \<and> sr_rows rep = rs \<and> sr_total rep = length rs"
proof -
  have "\<exists>xs. py_mapM (\<lambda>r. py_bind (json_num (wr_after r)) (\<lambda>a. py_bind (json_num (wr_before r)) (\<lambda>b. Inr (a - b))))
      (filter (\<lambda>r. wr_before r \<noteq> JNull \<and> wr_after r \<noteq> JNull) rs) = Inr xs"
    using assms by (intro py_mapM_total) (fastforce simp: well_typed_def)
  moreover have "\<exists>xs. py_mapM (\<lambda>r. recall_weight (wr_grade r)) (filter (\<lambda>r. wr_grade r \<noteq> JNull) rs) = Inr xs"
    using assms by (intro py_mapM_total) (fastforce simp: well_typed_def recall_weight_def hashable_def)
  moreover have "\<exists>xs. py_mapM (\<lambda>r. json_num (wr_after r)) (filter (\<lambda>r. wr_after r \<noteq> JNull) rs) = Inr xs"
    using assms by (intro py_mapM_total) (fastforce simp: well_typed_def)
  ultimately show ?thesis by (auto simp: build_report_def)
qed

lemma grade_stats_total: "(\<And>r. r \<in> set (sr_rows rep) \<Longrightarrow> well_typed r) \<Longrightarrow> \<exists>g. grade_stats rep = Inr g"
  by (auto simp: grade_stats_def Let_def well_typed_def hashable_def) fastforce

lemma length_map_filter: "length (List.map_filter f xs) = count_where (\<lambda>x. f x \<noteq> None) xs"
  by (induction xs) (auto simp: List.map_filter_simps count_where_def split: option.splits)

lemma fetched_ids:
  assumes "ids \<noteq> []" and "i \<in> set ids"
  shows "map_of (rev (map (\<lambda>r. (w_id r, r)) (get_saved_words_by_ids s ids uid))) i \<noteq> None \<longleftrightarrow>
    (\<exists>r \<in> set (words s). w_id r = i \<and> w_user r = uid)"
proof -
  let ?xs = "concat (map (\<lambda>chunk. filter (\<lambda>r. w_user r = uid \<and> w_id r \<in> set chunk) (words s)) (chunks 500 ids))"
  let ?m = "map_of (rev (map (\<lambda>r. (w_id r, r)) ?xs))"
  have xs: "set ?xs = {r \<in> set (words s). w_user r = uid \<and> w_id r \<in> set ids}" by (rule fetched_rows)
  have got: "set (get_saved_words_by_ids s ids uid) = {r. \<exists>i \<in> set ids. ?m i = Some r}"
    by (auto simp: get_saved_words_by_ids_def Let_def set_map_filter)
  have sub: "r \<in> set ?xs \<and> w_id r = i" if "?m i = Some r" for i r
    using map_of_SomeD [OF that] by auto
  have some: "\<exists>r. ?m (w_id r0) = Some r" if "r0 \<in> set ?xs" for r0
    using that weak_map_of_SomeI [of "w_id r0" r0 "rev (map (\<lambda>r. (w_id r, r)) ?xs)"] by auto
  have "map_of (rev (map (\<lambda>r. (w_id r, r)) (get_saved_words_by_ids s ids uid))) i \<noteq> None \<longleftrightarrow>
      (\<exists>r \<in> set (get_saved_words_by_ids s ids uid). w_id r = i)"
    by (auto simp: map_of_eq_None_iff image_iff)
  also have "\<dots> \<longleftrightarrow> (\<exists>r \<in> set ?xs. w_id r = i)"
  proof
    assume "\<exists>r \<in> set (get_saved_words_by_ids s ids uid). w_id r = i"
    then obtain r j where "?m j = Some r" "w_id r = i" unfolding got by blast
    then show "\<exists>r \<in> set ?xs. w_id r = i" using sub by blast
  next
    assume "\<exists>r \<in> set ?xs. w_id r = i"
    then obtain r where r: "?m i = Some r" using some by blast
    then have "r \<in> set (get_saved_words_by_ids s ids uid)" unfolding got using assms(2) by blast
    then show "\<exists>r \<in> set (get_saved_words_by_ids s ids uid). w_id r = i" using sub [OF r] by blast
  qed
  also have "\<dots> \<longleftrightarrow> (\<exists>r \<in> set (words s). w_id r = i \<and> w_user r = uid)"
    unfolding xs using assms(2) by blast
  finally show ?thesis .
qed

lemma gathered_length:
  "length (gather_word_records c s ids before uid) =
   count_where (\<lambda>i. \<exists>r \<in> set (words s). w_id r = i \<and> w_user r = uid) ids"
proof (cases "ids = []")
  case True
  then show ?thesis by (simp add: gather_word_records_def count_where_def)
next
  case False
  define rows where "rows = map_of (rev (map (\<lambda>r. (w_id r, r)) (get_saved_words_by_ids s ids uid)))"
  have "length (gather_word_records c s ids before uid) = count_where (\<lambda>i. rows i \<noteq> None) ids"
    using False unfolding gather_word_records_def Let_def rows_def [symmetric]
    by (simp add: length_map_filter option.case_eq_if)
  also have "\<dots> = count_where (\<lambda>i. \<exists>r \<in> set (words s). w_id r = i \<and> w_user r = uid) ids"
    unfolding count_where_def rows_def using fetched_ids [OF False]
    by (intro arg_cong [where f = length] filter_cong) auto
  finally show ?thesis .
qed

text \<open>A session's own records always give a report: whatever is in the database, building the
  report of the graded words and counting its grades raise no exception, and its total is the
  number of those words that are still saved for the user; a word deleted during the session is
  left out.\<close>

theorem own_report_always_builds:
  "\<exists>rep g. build_report (gather_word_records c s ids before uid) = Inr rep \<and> grade_stats rep = Inr g \<and>
     gc_total g = count_where (\<lambda>i. \<exists>r \<in> set (words s). w_id r = i \<and> w_user r = uid) ids"
proof -
  obtain rep where rep: "build_report (gather_word_records c s ids before uid) = Inr rep"
      "sr_rows rep = gather_word_records c s ids before uid"
      "sr_total rep = length (gather_word_records c s ids before uid)"
    using build_report_total [of "gather_word_records c s ids before uid"] gathered_well_typed [of _ c s ids before uid] by blast
  obtain g where g: "grade_stats rep = Inr g"
    using grade_stats_total [of rep] gathered_well_typed unfolding rep(2) by blast
  then have "gc_total g = sr_total rep" by (auto simp: grade_stats_def Let_def split: if_splits)
  then have "gc_total g = count_where (\<lambda>i. \<exists>r \<in> set (words s). w_id r = i \<and> w_user r = uid) ids"
    unfolding rep(3) gathered_length .
  then show ?thesis using rep(1) g by blast
qed

text \<open>A stored report is private and short-lived: after \<open>save_session_report\<close> its owner, and no
  other user, gets exactly that report back while it is younger than the retention window; once
  it is older nobody does, and the attempt removes it.\<close>

theorem stored_report_lifetime:
  assumes "build_report rs = Inr rep" and "\<forall>r \<in> set (reports s). rp_id r \<noteq> rid"
  shows "if stamp_text c (Stamp (utc_now c0)) < stamp_text c (report_cutoff c)
    then \<exists>s'. load_report c (save_session_report c0 rid s uid d rep adm) rid u = Inr (None, s') \<and> (\<forall>r \<in> set (reports s'). rp_id r \<noteq> rid)
    else \<exists>s'. load_report c (save_session_report c0 rid s uid d rep adm) rid u =
      Inr (if u = uid then Some \<lparr>lr_date = d, lr_report = rep, lr_admin = adm\<rparr> else None, s') \<and> (\<exists>r \<in> set (reports s'). rp_id r = rid)"
proof -
  let ?row = "\<lparr>rp_id = rid, rp_user = uid, rp_date = d, rp_created = Stamp (utc_now c0),
    rp_json = serialize_report rep, rp_admin = (if adm then 1 else 0)\<rparr>"
  have old: "find (\<lambda>r. rp_id r = rid \<and> rp_user r = u \<and> \<not> expired c r) (delete_where (expired c) (delete_where (expired c0) (reports s))) = None"
    using assms(2) by (auto simp: find_None_iff delete_where_def)
  show ?thesis
  proof (cases "expired c ?row")
    case True
    then show ?thesis using assms(2) old
      by (auto simp: load_report_def save_session_report_def Let_def expired_def delete_where_def)
  next
    case False
    then show ?thesis using old report_roundtrip [OF assms(1)]
      by (auto simp: load_report_def save_session_report_def Let_def expired_def delete_where_def find_append)
  qed
qed

theorem stored_report_lifetime_witness:
  "\<exists>rep s'. load_report (clock_at 0 (2026, 1, 1)) (save_session_report (clock_at 0 (2026, 1, 1)) 1 empty_db 5 ''2026-01-01'' rep False) 1 5 =
     Inr (Some \<lparr>lr_date = ''2026-01-01'', lr_report = rep, lr_admin = False\<rparr>, s') \<and> sr_total rep = 1"
proof -
  have old: "\<forall>r \<in> set (reports empty_db). rp_id r \<noteq> 1" by (simp add: empty_db_def)
  have "\<not> stamp_text (clock_at 0 (2026, 1, 1)) (Stamp (utc_now (clock_at 0 (2026, 1, 1)))) <
      stamp_text (clock_at 0 (2026, 1, 1)) (report_cutoff (clock_at 0 (2026, 1, 1)))"
    by (simp add: report_cutoff_def stamp_text.simps clock_at_def)
  then show ?thesis
    using stored_report_lifetime [OF sample_report old, of "clock_at 0 (2026, 1, 1)" "clock_at 0 (2026, 1, 1)" 5 "''2026-01-01''" False 5]
    by (simp only: if_False simp_thms if_True refl) fastforce
qed

end
