(* ===== verification/Gate.thy ===== *)
theory Gate imports Prelude begin

text \<open>
  The gate in front of the database, \<open>_MaintenanceGate\<close> of \<open>services/db/schema.py\<close>: every
  connection takes a shared hold, and maintenance, backup and restore take the exclusive
  one. The state is the gate's three fields with the holds of all threads, innermost
  first, and the threads that wait on its condition variable. Each block under
  \<open>self._cond\<close> is one atomic step; a thread that waits gives the lock up and sleeps until
  another thread notifies, then checks its loop condition again. The steps of the threads
  interleave in any order. Interrupting a waiting thread is not modelled.
\<close>

section \<open>State\<close>

datatype hold = Shared | SharedReentrant | Exclusive | ExclusiveReentrant

datatype want = WantShared | WantExclusive

datatype waiter = Asleep want | Woken want

record gate =
  g_readers :: int
  g_writer :: "nat option"
  g_waiting :: bool

record gate_sys = gate +
  g_holds :: "(nat \<times> hold) list"
  g_waits :: "nat \<Rightarrow> waiter option"

definition gate_init :: gate_sys where
  "gate_init = \<lparr>g_readers = 0, g_writer = None, g_waiting = False, g_holds = [], g_waits = (\<lambda>_. None)\<rparr>"

section \<open>Operations\<close>

fun wake :: "waiter \<Rightarrow> waiter" where
  "wake (Asleep w) = Woken w"
| "wake (Woken w) = Woken w"

definition notify_all :: "gate_sys \<Rightarrow> gate_sys" where
  "notify_all s = s\<lparr>g_waits := (\<lambda>t. map_option wake (g_waits s t))\<rparr>"

text \<open>The loop of \<open>shared\<close>, from one check of its condition to sleep or to the hold.\<close>

definition try_shared :: "nat \<Rightarrow> gate_sys \<Rightarrow> gate_sys" where
  "try_shared t s =
     (if g_writer s \<noteq> None \<or> g_waiting s then s\<lparr>g_waits := (g_waits s)(t := Some (Asleep WantShared))\<rparr>
      else s\<lparr>g_readers := g_readers s + 1, g_holds := (t, Shared) # g_holds s, g_waits := (g_waits s)(t := None)\<rparr>)"

definition enter_shared :: "nat \<Rightarrow> gate_sys \<Rightarrow> gate_sys" where
  "enter_shared t s =
     (if g_writer s = Some t then s\<lparr>g_holds := (t, SharedReentrant) # g_holds s\<rparr> else try_shared t s)"

definition try_exclusive :: "nat \<Rightarrow> gate_sys \<Rightarrow> gate_sys" where
  "try_exclusive t s =
     (if g_writer s \<noteq> None \<or> g_readers s > 0 then s\<lparr>g_waits := (g_waits s)(t := Some (Asleep WantExclusive))\<rparr>
      else s\<lparr>g_writer := Some t, g_waiting := False, g_holds := (t, Exclusive) # g_holds s,
             g_waits := (g_waits s)(t := None)\<rparr>)"

definition enter_exclusive :: "nat \<Rightarrow> gate_sys \<Rightarrow> gate_sys" where
  "enter_exclusive t s =
     (if g_writer s = Some t then s\<lparr>g_holds := (t, ExclusiveReentrant) # g_holds s\<rparr>
      else try_exclusive t (s\<lparr>g_waiting := True\<rparr>))"

text \<open>The end of a \<open>with\<close> block: the thread's innermost hold goes.\<close>

definition innermost :: "nat \<Rightarrow> gate_sys \<Rightarrow> hold option" where
  "innermost t s = map_option snd (find (\<lambda>e. fst e = t) (g_holds s))"

definition drop_hold :: "nat \<Rightarrow> hold \<Rightarrow> gate_sys \<Rightarrow> gate_sys" where
  "drop_hold t h s = s\<lparr>g_holds := remove1 (t, h) (g_holds s)\<rparr>"

definition leave_gate :: "nat \<Rightarrow> gate_sys \<Rightarrow> gate_sys" where
  "leave_gate t s =
     (case innermost t s of
        None \<Rightarrow> s
      | Some Shared \<Rightarrow>
          (let s' = drop_hold t Shared s\<lparr>g_readers := g_readers s - 1\<rparr>
           in if g_readers s' = 0 then notify_all s' else s')
      | Some Exclusive \<Rightarrow> notify_all (drop_hold t Exclusive s\<lparr>g_writer := None\<rparr>)
      | Some h \<Rightarrow> drop_hold t h s)"

definition is_exclusive :: "gate_sys \<Rightarrow> bool" where
  "is_exclusive s \<longleftrightarrow> g_writer s \<noteq> None"

text \<open>Any thread that does not wait may ask for a hold or give its innermost one back; any thread
  that was notified may check again.\<close>

inductive gate_step :: "gate_sys \<Rightarrow> gate_sys \<Rightarrow> bool" where
  ask_shared: "g_waits s t = None \<Longrightarrow> gate_step s (enter_shared t s)"
| ask_exclusive: "g_waits s t = None \<Longrightarrow> gate_step s (enter_exclusive t s)"
| recheck_shared: "g_waits s t = Some (Woken WantShared) \<Longrightarrow> gate_step s (try_shared t s)"
| recheck_exclusive: "g_waits s t = Some (Woken WantExclusive) \<Longrightarrow> gate_step s (try_exclusive t s)"
| give_back: "g_waits s t = None \<Longrightarrow> innermost t s \<noteq> None \<Longrightarrow> gate_step s (leave_gate t s)"

inductive gate_run :: "gate_sys \<Rightarrow> gate_sys \<Rightarrow> bool" where
  start: "gate_run s s"
| more: "gate_run s u \<Longrightarrow> gate_step u v \<Longrightarrow> gate_run s v"

section \<open>The holds agree with the fields\<close>

definition reader_count :: "(nat \<times> hold) list \<Rightarrow> nat" where
  "reader_count hs = count_where (\<lambda>e. snd e = Shared) hs"

lemma reader_count_simps [simp]:
  "reader_count [] = 0"
  "reader_count ((t, h) # hs) = (if h = Shared then Suc (reader_count hs) else reader_count hs)"
  by (simp_all add: reader_count_def count_where_def)

lemma reader_count_pos: "(t, Shared) \<in> set hs \<Longrightarrow> 0 < reader_count hs"
  by (induction hs) auto

lemma reader_count_remove1:
  "(t, h) \<in> set hs \<Longrightarrow> reader_count (remove1 (t, h) hs) = (if h = Shared then reader_count hs - 1 else reader_count hs)"
proof (induction hs)
  case (Cons e hs)
  then show ?case using reader_count_pos [of t hs] by (cases e; cases "h = Shared") auto
qed simp

definition holds_inv :: "gate_sys \<Rightarrow> bool" where
  "holds_inv s \<longleftrightarrow> g_readers s = int (reader_count (g_holds s)) \<and>
     (case g_writer s of
        None \<Rightarrow> list_all (\<lambda>e. snd e = Shared) (g_holds s)
      | Some t \<Rightarrow> (\<exists>rs. g_holds s = rs @ [(t, Exclusive)] \<and>
           list_all (\<lambda>e. fst e = t \<and> snd e \<in> {SharedReentrant, ExclusiveReentrant}) rs))"

text \<open>Whoever sleeps will be notified: some hold is open, or a writer was notified and has yet to
  check; and the flag that keeps readers out means that a writer waits.\<close>

definition wake_inv :: "gate_sys \<Rightarrow> bool" where
  "wake_inv s \<longleftrightarrow>
     ((\<exists>t w. g_waits s t = Some (Asleep w)) \<longrightarrow>
        g_writer s \<noteq> None \<or> g_readers s > 0 \<or> (\<exists>t. g_waits s t = Some (Woken WantExclusive))) \<and>
     (g_waiting s \<longrightarrow> (\<exists>t. g_waits s t \<in> {Some (Asleep WantExclusive), Some (Woken WantExclusive)}))"

definition gate_inv :: "gate_sys \<Rightarrow> bool" where
  "gate_inv s \<longleftrightarrow> holds_inv s \<and> wake_inv s"

lemma innermost_mem: "innermost t s = Some h \<Longrightarrow> (t, h) \<in> set (g_holds s)"
  by (auto simp: innermost_def dest!: find_Some_D)

lemma holds_try_shared: "holds_inv s \<Longrightarrow> holds_inv (try_shared t s)"
  by (auto simp: holds_inv_def try_shared_def split: option.splits)

lemma holds_try_exclusive: "holds_inv s \<Longrightarrow> holds_inv (try_exclusive t s)"
proof -
  assume i: "holds_inv s"
  have "g_holds s = []" if "g_writer s = None" "\<not> g_readers s > 0"
  proof (cases "g_holds s")
    case (Cons e hs)
    then show ?thesis using i that by (cases e) (auto simp: holds_inv_def)
  qed
  then show ?thesis using i by (auto simp: holds_inv_def try_exclusive_def split: option.splits)
qed

lemma holds_reenter:
  "holds_inv s \<Longrightarrow> g_writer s = Some t \<Longrightarrow> h \<in> {SharedReentrant, ExclusiveReentrant} \<Longrightarrow>
   holds_inv (s\<lparr>g_holds := (t, h) # g_holds s\<rparr>)"
proof -
  assume "holds_inv s" and w: "g_writer s = Some t" and h: "h \<in> {SharedReentrant, ExclusiveReentrant}"
  then obtain rs where "g_readers s = int (reader_count (g_holds s))" "g_holds s = rs @ [(t, Exclusive)]"
    "list_all (\<lambda>e. fst e = t \<and> snd e \<in> {SharedReentrant, ExclusiveReentrant}) rs"
    by (auto simp: holds_inv_def)
  then show ?thesis using w h by (auto simp: holds_inv_def intro!: exI [of _ "(t, h) # rs"])
qed

lemma holds_waiting [simp]: "holds_inv (s\<lparr>g_waiting := b\<rparr>) = holds_inv s"
  by (cases "g_writer s") (simp_all add: holds_inv_def)

lemma holds_notify [simp]: "holds_inv (notify_all s) = holds_inv s"
  by (cases "g_writer s") (simp_all add: holds_inv_def notify_all_def)

lemma holds_leave:
  assumes "holds_inv s"
  shows "holds_inv (leave_gate t s)"
proof (cases "innermost t s")
  case None
  then show ?thesis using assms by (simp add: leave_gate_def)
next
  case (Some h)
  have m: "(t, h) \<in> set (g_holds s)" by (rule innermost_mem [OF Some])
  show ?thesis
  proof (cases "g_writer s")
    case None
    then have all: "list_all (\<lambda>e. snd e = Shared) (g_holds s)" using assms by (simp add: holds_inv_def)
    then have h: "h = Shared" using m by (auto simp: list_all_iff)
    have "list_all (\<lambda>e. snd e = Shared) (remove1 (t, h) (g_holds s))"
      using all notin_set_remove1 by (auto simp: list_all_iff dest: notin_set_remove1)
    then show ?thesis
      using assms None m Some reader_count_pos [of t "g_holds s"]
      by (auto simp: holds_inv_def leave_gate_def h drop_hold_def reader_count_remove1 Let_def notify_all_def)
  next
    case (Some u)
    then obtain rs where rs: "g_holds s = rs @ [(u, Exclusive)]"
      "list_all (\<lambda>e. fst e = u \<and> snd e \<in> {SharedReentrant, ExclusiveReentrant}) rs"
      using assms by (auto simp: holds_inv_def)
    have zero: "reader_count (g_holds s) = 0"
      unfolding rs(1) using rs(2) by (induction rs) auto
    show ?thesis
    proof (cases rs)
      case Nil
      then have "h = Exclusive" "t = u" using m rs(1) by auto
      then show ?thesis using \<open>innermost t s = Some h\<close> rs(1) Nil assms Some
        by (simp add: leave_gate_def holds_inv_def drop_hold_def notify_all_def)
    next
      case (Cons e es)
      have t: "t = u" using m rs by (auto simp: list_all_iff)
      have e: "e = (t, h)"
        using \<open>innermost t s = Some h\<close> rs Cons t by (cases e) (auto simp: innermost_def)
      then have "h \<in> {SharedReentrant, ExclusiveReentrant}" using rs(2) Cons by simp
      then show ?thesis using \<open>innermost t s = Some h\<close> rs Cons e t assms Some zero
        by (auto simp: leave_gate_def holds_inv_def drop_hold_def)
    qed
  qed
qed

lemma wake_Some_iff [simp]: "wake w = Woken a \<longleftrightarrow> w = Asleep a \<or> w = Woken a" "wake w \<noteq> Asleep a"
  by (cases w; simp)+

lemma notify_fields [simp]:
  "g_writer (notify_all s) = g_writer s" "g_readers (notify_all s) = g_readers s" "g_waiting (notify_all s) = g_waiting s"
  "g_holds (notify_all s) = g_holds s"
  by (simp_all add: notify_all_def)

lemma notify_waits [simp]: "g_waits (notify_all s) t = Some w \<longleftrightarrow> (\<exists>a. w = Woken a \<and> g_waits s t \<in> {Some (Asleep a), Some (Woken a)})"
  by (cases w; cases "g_waits s t") (auto simp: notify_all_def)

lemma wake_after_notify: "(g_waiting s \<longrightarrow> (\<exists>t. g_waits s t \<in> {Some (Asleep WantExclusive), Some (Woken WantExclusive)})) \<Longrightarrow> wake_inv (notify_all s)"
  by (auto simp: wake_inv_def)

lemma wake_try_shared:
  assumes "wake_inv s" and "g_waits s t \<in> {None, Some (Woken WantShared)}" and "holds_inv s"
  shows "wake_inv (try_shared t s)"
proof (cases "g_writer s \<noteq> None \<or> g_waiting s")
  case True
  have flag: "\<exists>u. u \<noteq> t \<and> g_waits s u \<in> {Some (Asleep WantExclusive), Some (Woken WantExclusive)}" if f: "g_waiting s"
  proof -
    obtain u where u: "g_waits s u \<in> {Some (Asleep WantExclusive), Some (Woken WantExclusive)}"
      using assms(1) f unfolding wake_inv_def by blast
    moreover have "u \<noteq> t" using u assms(2) by auto
    ultimately show ?thesis by blast
  qed
  have notified: "\<exists>u. u \<noteq> t \<and> g_waits s u = Some (Woken WantExclusive)" if n: "g_writer s = None" "\<not> g_readers s > 0"
  proof -
    have "g_waiting s" using n True by blast
    then have "\<exists>u. g_waits s u = Some (Woken WantExclusive)"
      using flag assms(1) n unfolding wake_inv_def by blast
    moreover have "g_waits s t \<noteq> Some (Woken WantExclusive)" using assms(2) by auto
    ultimately show ?thesis by metis
  qed
  have t: "try_shared t s = s\<lparr>g_waits := (g_waits s)(t := Some (Asleep WantShared))\<rparr>" using True by (simp add: try_shared_def)
  show ?thesis unfolding t wake_inv_def using flag notified by (simp add: fun_upd_def) blast
next
  case False
  then show ?thesis using assms(3) by (simp add: wake_inv_def try_shared_def holds_inv_def)
qed

lemma wake_try_exclusive:
  assumes "holds_inv s" and "(\<exists>u w. u \<noteq> t \<and> g_waits s u = Some (Asleep w)) \<longrightarrow>
      g_writer s \<noteq> None \<or> g_readers s > 0 \<or> (\<exists>u. g_waits s u = Some (Woken WantExclusive))"
  shows "wake_inv (try_exclusive t s)"
  using assms(2) by (auto simp: wake_inv_def try_exclusive_def)

lemma wake_leave:
  assumes "gate_inv s"
  shows "wake_inv (leave_gate t s)"
proof -
  have w: "wake_inv s" and h: "holds_inv s" using assms by (simp_all add: gate_inv_def)
  show ?thesis
  proof (cases "innermost t s")
    case None
    then show ?thesis using w by (simp add: leave_gate_def)
  next
    case (Some k)
    have pos: "0 < g_readers s" if "k = Shared"
      using reader_count_pos [of t "g_holds s"] innermost_mem [OF Some] h that by (simp add: holds_inv_def)
    show ?thesis
      using Some w pos
      by (cases k) (auto simp: leave_gate_def Let_def drop_hold_def wake_inv_def)
  qed
qed

lemma wake_holds [simp]: "wake_inv (s\<lparr>g_holds := hs\<rparr>) = wake_inv s"
  by (simp add: wake_inv_def)

lemma gate_step_inv: "gate_step s s' \<Longrightarrow> gate_inv s \<Longrightarrow> gate_inv s'"
proof (induction rule: gate_step.induct)
  case (ask_shared s t)
  then show ?case
    by (cases "g_writer s = Some t") (simp_all add: gate_inv_def enter_shared_def holds_reenter holds_try_shared wake_try_shared)
next
  case (ask_exclusive s t)
  show ?case
  proof (cases "g_writer s = Some t")
    case True
    then show ?thesis using ask_exclusive by (simp add: gate_inv_def enter_exclusive_def holds_reenter)
  next
    case False
    have "wake_inv (try_exclusive t (s\<lparr>g_waiting := True\<rparr>))"
      by (rule wake_try_exclusive) (use ask_exclusive in \<open>auto simp: gate_inv_def wake_inv_def\<close>)
    then show ?thesis using ask_exclusive False by (simp add: gate_inv_def enter_exclusive_def holds_try_exclusive)
  qed
next
  case (recheck_shared s t)
  then show ?case by (simp add: gate_inv_def holds_try_shared wake_try_shared)
next
  case (recheck_exclusive s t)
  have "wake_inv (try_exclusive t s)"
    by (rule wake_try_exclusive) (use recheck_exclusive in \<open>auto simp: gate_inv_def wake_inv_def\<close>)
  then show ?case using recheck_exclusive by (simp add: gate_inv_def holds_try_exclusive)
next
  case (give_back s t)
  then show ?case using wake_leave [of s t] by (simp add: gate_inv_def holds_leave)
qed

lemma gate_init_inv: "gate_inv gate_init"
  by (simp add: gate_inv_def holds_inv_def wake_inv_def gate_init_def)

lemma gate_run_inv: "gate_run s s' \<Longrightarrow> gate_inv s \<Longrightarrow> gate_inv s'"
  by (induction rule: gate_run.induct) (auto intro: gate_step_inv)

section \<open>Properties\<close>

text \<open>C9: The exclusive hold is exclusive: in every state the threads can reach, in any
  interleaving, two threads hold the gate at the same time only with shared holds, and the gate
  reports exclusive access exactly while some thread holds it exclusively.\<close>

theorem gate_mutual_exclusion:
  assumes "gate_run gate_init s"
  shows "(\<forall>t u h k. (t, h) \<in> set (g_holds s) \<and> (u, k) \<in> set (g_holds s) \<and> t \<noteq> u \<longrightarrow> h = Shared \<and> k = Shared) \<and>
    is_exclusive s = (\<exists>t. (t, Exclusive) \<in> set (g_holds s))"
proof -
  have "holds_inv s" using gate_run_inv [OF assms gate_init_inv] by (simp add: gate_inv_def)
  then show ?thesis
  proof (cases "g_writer s")
    case None
    then show ?thesis using \<open>holds_inv s\<close> by (fastforce simp: holds_inv_def is_exclusive_def list_all_iff)
  next
    case (Some w)
    then obtain rs where rs: "g_holds s = rs @ [(w, Exclusive)]"
      "list_all (\<lambda>e. fst e = w \<and> snd e \<in> {SharedReentrant, ExclusiveReentrant}) rs"
      using \<open>holds_inv s\<close> by (auto simp: holds_inv_def)
    then have "x = w" if "(x, h) \<in> set (g_holds s)" for x h using that by (auto simp: list_all_iff)
    moreover have "(w, Exclusive) \<in> set (g_holds s)" using rs(1) by simp
    ultimately show ?thesis unfolding is_exclusive_def using Some by (metis option.distinct(1))
  qed
qed

text \<open>Three threads: a reader, a writer that has to wait for it, and a second reader kept out.\<close>

definition reader_then_writer :: gate_sys where
  "reader_then_writer = enter_shared 2 (enter_exclusive 1 (enter_shared 0 gate_init))"

definition writer_in :: gate_sys where
  "writer_in = try_exclusive 1 (leave_gate 0 reader_then_writer)"

lemma reader_then_writer_run: "gate_run gate_init reader_then_writer"
  unfolding reader_then_writer_def
  by (intro gate_run.more [OF gate_run.more [OF gate_run.more [OF gate_run.start ask_shared] ask_exclusive] ask_shared])
    (simp_all add: enter_shared_def enter_exclusive_def try_shared_def try_exclusive_def gate_init_def)

lemma reader_then_writer_state:
  "reader_then_writer = \<lparr>g_readers = 1, g_writer = None, g_waiting = True, g_holds = [(0, Shared)],
     g_waits = (\<lambda>_. None)(1 := Some (Asleep WantExclusive), 2 := Some (Asleep WantShared))\<rparr>"
  by (simp add: reader_then_writer_def enter_shared_def enter_exclusive_def try_shared_def try_exclusive_def gate_init_def)

lemma writer_in_run: "gate_run gate_init writer_in"
proof -
  have "gate_step reader_then_writer (leave_gate 0 reader_then_writer)"
    by (rule give_back) (simp_all add: reader_then_writer_state innermost_def)
  moreover have "gate_step (leave_gate 0 reader_then_writer) writer_in"
    unfolding writer_in_def
    by (rule recheck_exclusive) (simp add: reader_then_writer_state leave_gate_def innermost_def drop_hold_def notify_all_def)
  ultimately show ?thesis using reader_then_writer_run by (blast intro: gate_run.more)
qed

theorem gate_mutual_exclusion_witness:
  "is_exclusive writer_in \<and> g_holds writer_in = [(1, Exclusive)]"
proof -
  have "g_holds writer_in = [(1, Exclusive)]"
    by (simp add: writer_in_def reader_then_writer_state leave_gate_def innermost_def drop_hold_def notify_all_def try_exclusive_def)
  then show ?thesis using gate_mutual_exclusion [OF writer_in_run] by simp
qed

text \<open>Together: as long as no thread waits while it holds the gate, some thread can go on.\<close>

lemma someone_goes_on:
  assumes "gate_run gate_init s" and "g_waits s t \<noteq> None"
    and "\<And>u h. (u, h) \<in> set (g_holds s) \<Longrightarrow> g_waits s u = None"
  shows "(\<exists>u. g_waits s u = None \<and> innermost u s \<noteq> None) \<or>
    (\<exists>u. g_waits s u = Some (Woken WantExclusive) \<and> (u, Exclusive) \<in> set (g_holds (try_exclusive u s))) \<or>
    (\<exists>u. g_waits s u = Some (Woken WantShared) \<and> (u, Shared) \<in> set (g_holds (try_shared u s)))"
proof (cases "g_holds s")
  case (Cons e hs)
  then have "g_waits s (fst e) = None" "innermost (fst e) s \<noteq> None"
    using assms(3) [of "fst e" "snd e"] by (simp_all add: innermost_def)
  then show ?thesis by blast
next
  case Nil
  have inv: "gate_inv s" by (rule gate_run_inv [OF assms(1) gate_init_inv])
  then have free: "g_writer s = None" "g_readers s = 0"
    using Nil by (auto simp: gate_inv_def holds_inv_def split: option.splits)
  have wake: "(\<exists>t w. g_waits s t = Some (Asleep w)) \<longrightarrow> (\<exists>t. g_waits s t = Some (Woken WantExclusive))"
    and flag: "g_waiting s \<longrightarrow> (\<exists>t. g_waits s t \<in> {Some (Asleep WantExclusive), Some (Woken WantExclusive)})"
    using inv free by (simp_all add: gate_inv_def wake_inv_def)
  have writer: ?thesis if "g_waits s u = Some (Woken WantExclusive)" for u
    using that free by (intro disjI2 disjI1 exI [of _ u]) (simp add: try_exclusive_def)
  have reader: ?thesis if "g_waits s u = Some (Woken WantShared)" "\<not> g_waiting s" for u
    using that free by (intro disjI2 exI [of _ u]) (simp add: try_shared_def)
  obtain w where "g_waits s t = Some w" using assms(2) by blast
  then show ?thesis
  proof (cases w)
    case (Asleep x)
    then show ?thesis using wake writer \<open>g_waits s t = Some w\<close> by blast
  next
    case (Woken x)
    then show ?thesis
      using wake flag writer reader \<open>g_waits s t = Some w\<close> by (cases x; cases "g_waiting s") blast+
  qed
qed

text \<open>The rule that callers have to keep: a thread that already holds the gate shared and asks for
  another shared hold while a writer waits blocks itself, the writer and everybody else for good.\<close>

definition jammed :: "nat \<Rightarrow> nat \<Rightarrow> gate_sys \<Rightarrow> bool" where
  "jammed t w s \<longleftrightarrow> gate_inv s \<and> g_writer s = None \<and> g_waiting s \<and> (t, Shared) \<in> set (g_holds s) \<and>
     g_waits s t = Some (Asleep WantShared) \<and> g_waits s w = Some (Asleep WantExclusive)"

lemma jammed_facts:
  assumes "jammed t w s"
  shows "0 < g_readers s \<and> (\<forall>u h. (u, h) \<in> set (g_holds s) \<longrightarrow> h = Shared)"
  using assms reader_count_pos [of t "g_holds s"]
  by (fastforce simp: jammed_def gate_inv_def holds_inv_def list_all_iff)

lemma jammed_step:
  assumes "gate_step s s'" and "jammed t w s"
  shows "jammed t w s'"
proof -
  have inv: "gate_inv s'" using gate_step_inv [OF assms(1)] assms(2) by (simp add: jammed_def)
  have f: "0 < g_readers s" "\<And>u h. (u, h) \<in> set (g_holds s) \<Longrightarrow> h = Shared" using jammed_facts [OF assms(2)] by blast+
  from assms(1) have "g_writer s' = None \<and> g_waiting s' \<and> (t, Shared) \<in> set (g_holds s') \<and>
     g_waits s' t = Some (Asleep WantShared) \<and> g_waits s' w = Some (Asleep WantExclusive)"
  proof (cases rule: gate_step.cases)
    case (ask_shared u)
    then show ?thesis using assms(2) by (auto simp: jammed_def enter_shared_def try_shared_def)
  next
    case (ask_exclusive u)
    then show ?thesis using assms(2) f(1) by (auto simp: jammed_def enter_exclusive_def try_exclusive_def)
  next
    case (recheck_shared u)
    then show ?thesis using assms(2) by (auto simp: jammed_def try_shared_def)
  next
    case (recheck_exclusive u)
    then show ?thesis using assms(2) f(1) by (auto simp: jammed_def try_exclusive_def)
  next
    case (give_back u)
    then obtain h where h: "innermost u s = Some h" by blast
    then have m: "(u, h) \<in> set (g_holds s)" by (rule innermost_mem)
    then have sh: "h = Shared" by (rule f(2))
    have ut: "u \<noteq> t" using give_back assms(2) by (auto simp: jammed_def)
    have keep: "(t, Shared) \<in> set (remove1 (u, h) (g_holds s))" using ut assms(2) by (simp add: jammed_def)
    have "g_readers s = int (reader_count (g_holds s))" using assms(2) by (simp add: jammed_def gate_inv_def holds_inv_def)
    then have "g_readers s - 1 \<noteq> 0"
      using reader_count_pos [OF keep] reader_count_remove1 [OF m] sh by simp
    then show ?thesis
      using h sh assms(2) keep by (simp add: give_back jammed_def leave_gate_def drop_hold_def Let_def)
  qed
  with inv show ?thesis by (simp add: jammed_def)
qed

lemma nested_shared_jams:
  assumes "gate_run gate_init s" and "(t, Shared) \<in> set (g_holds s)" "g_waits s t = None"
    and "g_waits s w = Some (Asleep WantExclusive)" "g_waiting s"
    and "gate_run (enter_shared t s) s'"
  shows "g_waits s' t = Some (Asleep WantShared) \<and> g_waits s' w = Some (Asleep WantExclusive) \<and> \<not> is_exclusive s' \<and>
    g_waiting s' \<and> 0 < g_readers s'"
proof -
  have g: "gate_inv s" by (rule gate_run_inv [OF assms(1) gate_init_inv])
  have "g_writer s = None"
  proof (rule ccontr)
    assume "g_writer s \<noteq> None"
    then obtain a rs where "g_holds s = rs @ [(a, Exclusive)]"
      "list_all (\<lambda>e. fst e = a \<and> snd e \<in> {SharedReentrant, ExclusiveReentrant}) rs"
      using g by (auto simp: gate_inv_def holds_inv_def)
    then show False using assms(2) by (auto simp: list_all_iff)
  qed
  then have "jammed t w (enter_shared t s)"
    using assms gate_step_inv [OF ask_shared [OF assms(3)] g] by (auto simp: jammed_def enter_shared_def try_shared_def)
  with assms(6) have "jammed t w s'"
    by (induction rule: gate_run.induct) (auto intro: jammed_step)
  with jammed_facts [OF this] show ?thesis by (simp add: jammed_def is_exclusive_def)
qed

text \<open>C31: No wake-up is lost, on one condition that the callers have to keep: as long as no thread waits
  while it holds the gate, some thread can go on in every reachable state in which one waits, because
  a thread that does not wait holds the gate and can give it back, or a notified thread gets its hold
  at its next check. The condition is needed: a thread that holds the gate shared and asks for another
  shared hold while a writer waits blocks itself and the writer for good, whatever the other threads
  do, and every later request has to wait as well.\<close>

theorem gate_no_lost_wakeup:
  assumes "gate_run gate_init s"
  shows "((\<exists>t. g_waits s t \<noteq> None) \<and> (\<forall>(u, h) \<in> set (g_holds s). g_waits s u = None) \<longrightarrow>
      (\<exists>u. g_waits s u = None \<and> innermost u s \<noteq> None) \<or>
      (\<exists>u. g_waits s u = Some (Woken WantExclusive) \<and> (u, Exclusive) \<in> set (g_holds (try_exclusive u s))) \<or>
      (\<exists>u. g_waits s u = Some (Woken WantShared) \<and> (u, Shared) \<in> set (g_holds (try_shared u s)))) \<and>
    (\<forall>t w s'. (t, Shared) \<in> set (g_holds s) \<and> g_waits s t = None \<and> g_waits s w = Some (Asleep WantExclusive) \<and>
        g_waiting s \<and> gate_run (enter_shared t s) s' \<longrightarrow>
      g_waits s' t = Some (Asleep WantShared) \<and> g_waits s' w = Some (Asleep WantExclusive) \<and> \<not> is_exclusive s' \<and>
      g_waiting s' \<and> 0 < g_readers s')"
proof (intro conjI impI allI, elim conjE exE)
  fix t
  assume "g_waits s t \<noteq> None" and free: "\<forall>(u, h) \<in> set (g_holds s). g_waits s u = None"
  from free have "(u, h) \<in> set (g_holds s) \<Longrightarrow> g_waits s u = None" for u h by blast
  from someone_goes_on [OF assms \<open>g_waits s t \<noteq> None\<close> this]
  show "(\<exists>u. g_waits s u = None \<and> innermost u s \<noteq> None) \<or>
    (\<exists>u. g_waits s u = Some (Woken WantExclusive) \<and> (u, Exclusive) \<in> set (g_holds (try_exclusive u s))) \<or>
    (\<exists>u. g_waits s u = Some (Woken WantShared) \<and> (u, Shared) \<in> set (g_holds (try_shared u s)))" .
qed (use nested_shared_jams [OF assms] in blast)+

text \<open>A reader holds the gate and a writer waits: the reader can give it back; if it asks for a second
  shared hold instead, nobody goes on any more.\<close>

theorem gate_no_lost_wakeup_witness:
  "innermost 0 reader_then_writer = Some Shared \<and> g_waits reader_then_writer 2 = Some (Asleep WantShared) \<and>
   (\<exists>u. g_waits reader_then_writer u = None \<and> innermost u reader_then_writer \<noteq> None) \<and>
   g_waits (enter_shared 0 reader_then_writer) 0 = Some (Asleep WantShared) \<and>
   g_waits (enter_shared 0 reader_then_writer) 1 = Some (Asleep WantExclusive)"
proof -
  note th = gate_no_lost_wakeup [OF reader_then_writer_run]
  have "(\<exists>t. g_waits reader_then_writer t \<noteq> None) \<and> (\<forall>(u, h) \<in> set (g_holds reader_then_writer). g_waits reader_then_writer u = None)"
    by (auto simp: reader_then_writer_state)
  with conjunct1 [OF th] have "(\<exists>u. g_waits reader_then_writer u = None \<and> innermost u reader_then_writer \<noteq> None) \<or>
    (\<exists>u. g_waits reader_then_writer u = Some (Woken WantExclusive) \<and> (u, Exclusive) \<in> set (g_holds (try_exclusive u reader_then_writer))) \<or>
    (\<exists>u. g_waits reader_then_writer u = Some (Woken WantShared) \<and> (u, Shared) \<in> set (g_holds (try_shared u reader_then_writer)))" by (rule mp)
  moreover have "gate_run (enter_shared 0 reader_then_writer) (enter_shared 0 reader_then_writer)" by (rule gate_run.start)
  with spec [OF spec [OF spec [OF conjunct2 [OF th], of 0], of 1], of "enter_shared 0 reader_then_writer"]
  have "g_waits (enter_shared 0 reader_then_writer) 0 = Some (Asleep WantShared) \<and>
    g_waits (enter_shared 0 reader_then_writer) 1 = Some (Asleep WantExclusive)"
    by (simp add: reader_then_writer_state)
  ultimately show ?thesis by (auto simp: reader_then_writer_state innermost_def split: if_splits)
qed

end
