(* ===== verification/Costs.thy ===== *)
theory Costs imports Calendar "HOL-Library.Product_Lexorder" "HOL-Library.Multiset" begin

text \<open>
  The cost ledger of \<open>services/db/cost_tracking.py\<close>: one row per request to a language model,
  the summaries and breakdowns the admin panel shows, and the nightly purge, which folds old
  rows into one row of totals per day before it deletes them. Columns that are only added up
  are addressed by their name. A table that an old database may lack is an option. The
  random request id is a parameter.
\<close>

section \<open>Tables\<close>

record llm_row =
  lq_id :: int
  lq_request_id :: string
  lq_created :: stamp
  lq_date :: string
  lq_user :: int
  lq_plan :: string
  lq_kind :: string
  lq_model :: string
  lq_outcome :: string
  lq_prompt :: "int option"
  lq_completion :: "int option"
  lq_total :: "int option"
  lq_in_rate :: real
  lq_out_rate :: real
  lq_toman :: real
  lq_cost_usd :: real
  lq_cost_toman :: real
  lq_latency :: "int option"
  lq_error_class :: "string option"
  lq_error_message :: "string option"
  lq_preset :: "string option"

record rollup_row =
  ro_date :: string
  ro_cells :: "string \<Rightarrow> real"

record cost_db =
  llm :: "llm_row list"
  next_llm_id :: int
  rollup :: "rollup_row list option"

text \<open>A value of a column or a filter, in the order SQLite sorts mixed values: \<open>NULL\<close>, then numbers,
  then text.\<close>

datatype sql_value = SNull | SInt int | SText string

instantiation sql_value :: linorder
begin

fun less_eq_sql_value :: "sql_value \<Rightarrow> sql_value \<Rightarrow> bool" where
  "less_eq_sql_value SNull _ = True"
| "less_eq_sql_value (SInt i) SNull = False"
| "less_eq_sql_value (SInt i) (SInt j) = (i \<le> j)"
| "less_eq_sql_value (SInt i) (SText t) = True"
| "less_eq_sql_value (SText s) (SText t) = (s \<le> t)"
| "less_eq_sql_value (SText s) _ = False"

definition less_sql_value :: "sql_value \<Rightarrow> sql_value \<Rightarrow> bool" where
  "less_sql_value a b \<longleftrightarrow> a \<le> b \<and> \<not> b \<le> (a :: sql_value)"

instance
proof
  fix a b c :: sql_value
  show "(a < b) = (a \<le> b \<and> \<not> b \<le> a)" by (simp add: less_sql_value_def)
  show "a \<le> a" by (cases a) auto
  show "a \<le> b \<Longrightarrow> b \<le> c \<Longrightarrow> a \<le> c" by (cases a; cases b; cases c) auto
  show "a \<le> b \<Longrightarrow> b \<le> a \<Longrightarrow> a = b" by (cases a; cases b) auto
  show "a \<le> b \<or> b \<le> a" by (cases a; cases b) auto
qed

end

section \<open>Recording a request\<close>

record llm_call =
  c_user :: int
  c_plan :: string
  c_kind :: string
  c_model :: string
  c_outcome :: string
  c_prompt :: "int option"
  c_completion :: "int option"
  c_total :: "int option"
  c_in_rate :: real
  c_out_rate :: real
  c_toman :: real
  c_latency :: "int option"
  c_error_class :: "string option"
  c_error_message :: "string option"
  c_preset :: "string option"

definition add_llm_request :: "('a clock_scheme) \<Rightarrow> string \<Rightarrow> llm_call \<Rightarrow> cost_db \<Rightarrow> cost_db" where
  "add_llm_request c rid q s =
     (let prompt = or_else (c_prompt q) 0;
          completion = or_else (c_completion q) 0;
          total = (if or_else (c_total q) 0 = 0 then prompt + completion else or_else (c_total q) 0);
          cost_usd = of_int prompt / 1000000 * c_in_rate q + of_int completion / 1000000 * c_out_rate q;
          message = take 1000 (or_else (c_error_message q) '''')
      in s\<lparr>llm := llm s @ [\<lparr>lq_id = next_llm_id s, lq_request_id = rid, lq_created = Stamp (utc_now c), lq_date = today_iso c,
             lq_user = c_user q, lq_plan = c_plan q, lq_kind = c_kind q, lq_model = c_model q, lq_outcome = c_outcome q,
             lq_prompt = Some prompt, lq_completion = Some completion, lq_total = Some total,
             lq_in_rate = c_in_rate q, lq_out_rate = c_out_rate q, lq_toman = c_toman q,
             lq_cost_usd = cost_usd, lq_cost_toman = cost_usd * c_toman q, lq_latency = c_latency q,
             lq_error_class = c_error_class q, lq_error_message = (if message = '''' then None else Some message),
             lq_preset = c_preset q\<rparr>],
           next_llm_id := next_llm_id s + 1\<rparr>)"

section \<open>Filters\<close>

type_synonym cost_filters = "(string \<times> sql_value) list"

text \<open>The value of a filter key: a missing key, \<open>None\<close> and the empty text add no clause.\<close>

definition filter_value :: "cost_filters \<Rightarrow> string \<Rightarrow> sql_value option" where
  "filter_value f k =
     (case map_of f k of None \<Rightarrow> None | Some SNull \<Rightarrow> None | Some (SText t) \<Rightarrow> (if t = '''' then None else Some (SText t))
      | Some v \<Rightarrow> Some v)"

text \<open>A number compared with a text column is compared as text; a text is no user id.\<close>

fun sql_text :: "sql_value \<Rightarrow> string" where
  "sql_text (SText t) = t"
| "sql_text (SInt i) = int_str i"
| "sql_text SNull = ''''"

definition clause :: "cost_filters \<Rightarrow> string \<Rightarrow> (sql_value \<Rightarrow> bool) \<Rightarrow> bool" where
  "clause f k p \<longleftrightarrow> (case filter_value f k of None \<Rightarrow> True | Some v \<Rightarrow> p v)"

definition date_in :: "cost_filters \<Rightarrow> string \<Rightarrow> bool" where
  "date_in f d \<longleftrightarrow> clause f ''start_date'' (\<lambda>v. sql_text v \<le> d) \<and> clause f ''end_date'' (\<lambda>v. d \<le> sql_text v)"

definition llm_request_filters_where :: "cost_filters \<Rightarrow> llm_row \<Rightarrow> bool" where
  "llm_request_filters_where f r \<longleftrightarrow> date_in f (lq_date r) \<and>
     clause f ''user_id'' (\<lambda>v. v = SInt (lq_user r)) \<and> clause f ''plan'' (\<lambda>v. lq_plan r = sql_text v) \<and>
     clause f ''request_kind'' (\<lambda>v. lq_kind r = sql_text v) \<and> clause f ''model'' (\<lambda>v. lq_model r = sql_text v) \<and>
     clause f ''outcome'' (\<lambda>v. lq_outcome r = sql_text v)"

definition delete_llm_requests :: "cost_filters \<Rightarrow> cost_db \<Rightarrow> nat \<times> cost_db" where
  "delete_llm_requests f s =
     (count_where (llm_request_filters_where f) (llm s), s\<lparr>llm := delete_where (llm_request_filters_where f) (llm s)\<rparr>)"

section \<open>Totals\<close>

text \<open>What a row adds to each of the summed columns.\<close>

definition row_terms :: "llm_row \<Rightarrow> (string \<times> real) list" where
  "row_terms r =
     (let p = of_int (or_else (lq_prompt r) 0); q = of_int (or_else (lq_completion r) 0);
          billed = (if lq_outcome r = ''failure_billed'' then 1 else 0)
      in [(''request_count'', 1), (''prompt_tokens'', p), (''completion_tokens'', q),
          (''total_tokens'', of_int (or_else (lq_total r) 0)),
          (''cost_usd'', lq_cost_usd r), (''cost_toman'', lq_cost_toman r),
          (''input_cost_usd'', p * lq_in_rate r / 1000000), (''output_cost_usd'', q * lq_out_rate r / 1000000),
          (''input_cost_toman'', p * lq_in_rate r * lq_toman r / 1000000),
          (''output_cost_toman'', q * lq_out_rate r * lq_toman r / 1000000),
          (''success_count'', if lq_outcome r = ''success'' then 1 else 0), (''billed_failure_count'', billed),
          (''zero_cost_failure_count'', if lq_outcome r = ''failure_zero_cost'' then 1 else 0),
          (''billed_failure_cost_usd'', billed * lq_cost_usd r), (''billed_failure_cost_toman'', billed * lq_cost_toman r),
          (''latency_sum_ms'', of_int (or_else (lq_latency r) 0)), (''latency_count'', if lq_latency r = None then 0 else 1)])"

definition row_term :: "llm_row \<Rightarrow> string \<Rightarrow> real" where
  "row_term r k = or_else (map_of (row_terms r) k) 0"

definition ROLLUP_SUM_KEYS :: "string list" where
  "ROLLUP_SUM_KEYS =
     [''request_count'', ''prompt_tokens'', ''completion_tokens'', ''total_tokens'', ''cost_usd'', ''cost_toman'',
      ''input_cost_usd'', ''output_cost_usd'', ''input_cost_toman'', ''output_cost_toman'', ''success_count'',
      ''billed_failure_count'', ''zero_cost_failure_count'', ''billed_failure_cost_usd'', ''billed_failure_cost_toman'']"

definition sum_of :: "llm_row list \<Rightarrow> string \<Rightarrow> real" where
  "sum_of rs k = sum_list (map (\<lambda>r. row_term r k) rs)"

definition rollup_eligible :: "cost_filters \<Rightarrow> bool" where
  "rollup_eligible f \<longleftrightarrow> fst ` set f \<subseteq> {''start_date'', ''end_date''}"

text \<open>\<open>None\<close> is the empty dictionary of a missing table.\<close>

definition rollup_sums :: "cost_filters \<Rightarrow> cost_db \<Rightarrow> (string \<Rightarrow> real) option" where
  "rollup_sums f s =
     map_option (\<lambda>ro k. sum_list (map (\<lambda>d. ro_cells d k) (filter (\<lambda>d. date_in f (ro_date d)) ro))) (rollup s)"

definition rollup_request_count_since :: "string \<Rightarrow> cost_db \<Rightarrow> int" where
  "rollup_request_count_since date s =
     (case rollup s of None \<Rightarrow> 0
      | Some ro \<Rightarrow> \<lfloor>sum_list (map (\<lambda>d. ro_cells d ''request_count'') (filter (\<lambda>d. date \<le> ro_date d) ro))\<rfloor>)"

definition count_llm_requests_since :: "string \<Rightarrow> cost_db \<Rightarrow> int" where
  "count_llm_requests_since date s =
     int (count_where (\<lambda>r. date \<le> lq_date r) (llm s)) + rollup_request_count_since date s"

text \<open>SQL's aggregates over the raw rows: \<open>COUNT\<close> is a number, \<open>SUM\<close> and \<open>AVG\<close> of no rows are \<open>NULL\<close>.\<close>

definition base_summary :: "llm_row list \<Rightarrow> string \<Rightarrow> real option" where
  "base_summary rs k =
     (if k = ''request_count'' then Some (of_nat (length rs))
      else if k = ''avg_latency_ms'' then
        (if sum_of rs ''latency_count'' = 0 then None else Some (sum_of rs ''latency_sum_ms'' / sum_of rs ''latency_count''))
      else if k \<in> set ROLLUP_SUM_KEYS then (if rs = [] then None else Some (sum_of rs k)) else None)"

definition summarize_llm_requests :: "cost_filters \<Rightarrow> cost_db \<Rightarrow> string \<Rightarrow> real option" where
  "summarize_llm_requests f s =
     (let rs = filter (llm_request_filters_where f) (llm s);
          result = base_summary rs
      in if \<not> rollup_eligible f then result
         else case rollup_sums f s of
                None \<Rightarrow> result
              | Some roll \<Rightarrow>
                  (\<lambda>k. if k \<in> set ROLLUP_SUM_KEYS then Some (or_else (result k) 0 + roll k)
                       else if k = ''avg_latency_ms'' then
                         (let cnt = sum_of rs ''latency_count'' + roll ''latency_count''
                          in if cnt \<noteq> 0 then Some ((sum_of rs ''latency_sum_ms'' + roll ''latency_sum_ms'') / cnt) else result k)
                       else result k))"

definition daily_costs_grouped :: "cost_filters \<Rightarrow> cost_db \<Rightarrow> (string \<times> real) list" where
  "daily_costs_grouped f s =
     (let rs = filter (llm_request_filters_where f) (llm s);
          ro = (if rollup_eligible f then filter (\<lambda>d. date_in f (ro_date d)) (or_else (rollup s) []) else [])
      in map (\<lambda>d. (d, sum_of (filter (\<lambda>r. lq_date r = d) rs) ''cost_usd'' +
                      sum_list (map (\<lambda>x. ro_cells x ''cost_usd'') (filter (\<lambda>x. ro_date x = d) ro))))
           (sort (remdups (map lq_date rs @ map ro_date ro))))"

section \<open>Breakdowns\<close>

definition BREAKDOWN_COLUMNS :: "(string \<times> (llm_row \<Rightarrow> sql_value)) list" where
  "BREAKDOWN_COLUMNS =
     [(''user_id'', SInt \<circ> lq_user), (''plan'', SText \<circ> lq_plan), (''request_kind'', SText \<circ> lq_kind),
      (''model'', SText \<circ> lq_model), (''outcome'', SText \<circ> lq_outcome),
      (''preset_name'', \<lambda>r. case lq_preset r of None \<Rightarrow> SNull | Some p \<Rightarrow> SText p)]"

text \<open>\<open>LIMIT l OFFSET o\<close>: a negative limit is none, a negative offset is zero.\<close>

definition sql_page :: "int \<Rightarrow> int \<Rightarrow> 'a list \<Rightarrow> 'a list" where
  "sql_page l off xs = (let ys = drop (nat off) xs in if l < 0 then ys else take (nat l) ys)"

text \<open>The groups of the rows by a column, with the rows of each.\<close>

definition groups_by :: "(llm_row \<Rightarrow> 'k :: linorder) \<Rightarrow> llm_row list \<Rightarrow> ('k \<times> llm_row list) list" where
  "groups_by key rs = map (\<lambda>b. (b, filter (\<lambda>r. key r = b) rs)) (sort (remdups (map key rs)))"

definition by_cost :: "('k :: linorder \<times> llm_row list) list \<Rightarrow> ('k \<times> llm_row list) list" where
  "by_cost = sort_key (\<lambda>(b, g). (- sum_of g ''cost_usd'', - int (length g), b))"

definition BREAKDOWN_KEYS :: "string list" where
  "BREAKDOWN_KEYS =
     [''request_count'', ''prompt_tokens'', ''completion_tokens'', ''total_tokens'', ''cost_usd'', ''cost_toman'',
      ''input_cost_usd'', ''output_cost_usd'', ''input_cost_toman'', ''output_cost_toman'', ''avg_latency_ms'',
      ''billed_failure_count'', ''zero_cost_failure_count'']"

definition breakdown_row :: "llm_row list \<Rightarrow> string \<Rightarrow> real option" where
  "breakdown_row g k = (if k \<in> set BREAKDOWN_KEYS then base_summary g k else None)"

definition breakdown_llm_requests ::
    "string \<Rightarrow> cost_filters \<Rightarrow> int \<Rightarrow> int \<Rightarrow> cost_db \<Rightarrow> (sql_value \<times> (string \<Rightarrow> real option)) list py" where
  "breakdown_llm_requests group_by f limit offset s =
     (case map_of BREAKDOWN_COLUMNS group_by of
        None \<Rightarrow> Inl ValueError
      | Some key \<Rightarrow> Inr (map (\<lambda>(b, g). (b, breakdown_row g)) (sql_page limit offset
          (by_cost (groups_by key (filter (llm_request_filters_where f) (llm s)))))))"

definition count_breakdown_groups :: "string \<Rightarrow> cost_filters \<Rightarrow> cost_db \<Rightarrow> int py" where
  "count_breakdown_groups group_by f s =
     (case map_of BREAKDOWN_COLUMNS group_by of
        None \<Rightarrow> Inl ValueError
      | Some key \<Rightarrow> Inr (int (length (groups_by key (filter (llm_request_filters_where f) (llm s))))))"

text \<open>The dash that stands for a missing preset, in UTF-8.\<close>

definition NO_PRESET :: string where
  "NO_PRESET = [CHR 0xE2, CHR 0x80, CHR 0x94]"

definition preset_kind_key :: "llm_row \<Rightarrow> sql_value \<times> string" where
  "preset_kind_key r = (case lq_preset r of None \<Rightarrow> SNull | Some p \<Rightarrow> SText p, lq_kind r)"

definition preset_kind_label :: "sql_value \<times> string \<Rightarrow> string" where
  "preset_kind_label k = (if fst k = SNull then NO_PRESET else sql_text (fst k)) @ '':'' @ snd k"

definition breakdown_llm_requests_preset_kind ::
    "cost_filters \<Rightarrow> int \<Rightarrow> int \<Rightarrow> cost_db \<Rightarrow> (string \<times> (string \<Rightarrow> real option)) list" where
  "breakdown_llm_requests_preset_kind f limit offset s =
     map (\<lambda>(b, g). (b, breakdown_row g)) (sql_page limit offset
       (by_cost (map (\<lambda>(k, g). (preset_kind_label k, g)) (groups_by preset_kind_key (filter (llm_request_filters_where f) (llm s))))))"

definition count_breakdown_preset_kind_groups :: "cost_filters \<Rightarrow> cost_db \<Rightarrow> int" where
  "count_breakdown_preset_kind_groups f s =
     int (length (groups_by preset_kind_key (filter (llm_request_filters_where f) (llm s))))"

definition recent_llm_requests :: "('a clock_scheme) \<Rightarrow> cost_filters \<Rightarrow> int \<Rightarrow> int \<Rightarrow> cost_db \<Rightarrow> llm_row list" where
  "recent_llm_requests c f limit offset s =
     sql_page limit offset (rev (sort_key (\<lambda>r. (stamp_text c (lq_created r), lq_id r))
       (filter (llm_request_filters_where f) (llm s))))"

section \<open>The nightly purge\<close>

fun days_earlier :: "nat \<Rightarrow> date \<Rightarrow> date py" where
  "days_earlier 0 d = Inr d"
| "days_earlier (Suc n) d = py_bind (day_before d) (days_earlier n)"

fun days_later :: "nat \<Rightarrow> date \<Rightarrow> date py" where
  "days_later 0 d = Inr d"
| "days_later (Suc n) d = py_bind (day_after d) (days_later n)"

definition minus_days :: "date \<Rightarrow> int \<Rightarrow> date py" where
  "minus_days d n = (if n \<ge> 0 then days_earlier (nat n) d else days_later (nat (- n)) d)"

text \<open>\<open>INSERT ... ON CONFLICT(request_date) DO UPDATE SET x=x+excluded.x\<close>.\<close>

definition upsert_rollup :: "string \<times> (string \<Rightarrow> real) \<Rightarrow> rollup_row list \<Rightarrow> rollup_row list" where
  "upsert_rollup dv ro =
     (if count_where (\<lambda>x. ro_date x = fst dv) ro = 0 then ro @ [\<lparr>ro_date = fst dv, ro_cells = snd dv\<rparr>]
      else update_where (\<lambda>x. ro_date x = fst dv) (\<lambda>x. x\<lparr>ro_cells := (\<lambda>k. ro_cells x k + snd dv k)\<rparr>) ro)"

text \<open>One transaction: select the oldest ids, fold their rows into the days, delete them. \<open>None\<close> is the
  exception of a missing table; the transaction is rolled back.\<close>

definition purge_llm_batch :: "string \<Rightarrow> nat \<Rightarrow> cost_db \<Rightarrow> (nat \<times> cost_db) option" where
  "purge_llm_batch cutoff batch s =
     (let ids = map lq_id (take batch (sort_key lq_id (filter (\<lambda>r. lq_date r < cutoff) (llm s))))
      in if ids = [] then Some (0, s)
         else case rollup s of
                None \<Rightarrow> None
              | Some ro \<Rightarrow>
                  (let totals = map (\<lambda>(d, g). (d, sum_of g)) (groups_by lq_date (filter (\<lambda>r. lq_id r \<in> set ids) (llm s)))
                   in Some (length ids, s\<lparr>rollup := Some (fold upsert_rollup totals ro),
                                          llm := delete_where (\<lambda>r. lq_id r \<in> set ids) (llm s)\<rparr>)))"

lemma purge_llm_batch_shrinks:
  "purge_llm_batch cutoff batch s = Some (n, s') \<Longrightarrow> n \<noteq> 0 \<Longrightarrow> length (llm s') < length (llm s)"
proof -
  let ?old = "sort_key lq_id (filter (\<lambda>r. lq_date r < cutoff) (llm s))"
  assume b: "purge_llm_batch cutoff batch s = Some (n, s')" and n: "n \<noteq> 0"
  then have ne: "take batch ?old \<noteq> []" by (auto simp: purge_llm_batch_def Let_def split: if_splits)
  then obtain r where "r \<in> set (take batch ?old)" by (meson ex_in_conv set_empty)
  then have r: "r \<in> set (llm s)" "lq_id r \<in> set (map lq_id (take batch ?old))" by (auto dest!: in_set_takeD)
  have "llm s' = delete_where (\<lambda>r. lq_id r \<in> set (map lq_id (take batch ?old))) (llm s)"
    using b ne by (auto simp: purge_llm_batch_def Let_def split: if_splits option.splits)
  then show ?thesis using r by (simp add: delete_where_def length_filter_less)
qed

text \<open>The deadline is the number of batches that are begun before it.\<close>

function purge_llm_loop :: "string \<Rightarrow> nat \<Rightarrow> nat option \<Rightarrow> cost_db \<Rightarrow> nat \<Rightarrow> nat \<times> cost_db" where
  "purge_llm_loop cutoff batch budget s deleted =
     (if budget = Some 0 then (deleted, s)
      else case purge_llm_batch cutoff batch s of
             None \<Rightarrow> (deleted, s)
           | Some (n, s') \<Rightarrow>
               (if n = 0 then (deleted, s)
                else if n < batch then (deleted + n, s')
                else purge_llm_loop cutoff batch (map_option (\<lambda>b. b - 1) budget) s' (deleted + n)))"
  by pat_completeness auto
termination
  by (relation "measure (\<lambda>(cutoff, batch, budget, s, deleted). length (llm s))") (auto dest: purge_llm_batch_shrinks)

declare purge_llm_loop.simps [simp del]

definition purge_old_llm_requests :: "('a clock_scheme) \<Rightarrow> int \<Rightarrow> int \<Rightarrow> nat option \<Rightarrow> cost_db \<Rightarrow> (nat \<times> cost_db) py" where
  "purge_old_llm_requests c retention_days batch budget s =
     py_bind (minus_days (today c) retention_days) (\<lambda>d.
       Inr (purge_llm_loop (isoformat d) (nat (max 1 batch)) budget s 0))"

section \<open>The purge is invisible to the totals\<close>

lemma sum_of_simps [simp]: "sum_of [] k = 0" "sum_of (r # rs) k = row_term r k + sum_of rs k"
  by (simp_all add: sum_of_def)

lemma sum_of_append [simp]: "sum_of (xs @ ys) k = sum_of xs k + sum_of ys k"
  by (induction xs) auto

lemma sum_of_split: "sum_of rs k = sum_of (filter p rs) k + sum_of (filter (\<lambda>r. \<not> p r) rs) k"
  by (induction rs) auto

text \<open>A column's total over the days a predicate selects, raw rows and folded days together.\<close>

definition ro_sum :: "(string \<Rightarrow> bool) \<Rightarrow> rollup_row list \<Rightarrow> string \<Rightarrow> real" where
  "ro_sum p ro k = sum_list (map (\<lambda>d. ro_cells d k) (filter (\<lambda>d. p (ro_date d)) ro))"

lemma ro_sum_simps [simp]:
  "ro_sum p [] k = 0"
  "ro_sum p (x # ro) k = (if p (ro_date x) then ro_cells x k else 0) + ro_sum p ro k"
  by (simp_all add: ro_sum_def)

lemma ro_sum_append [simp]: "ro_sum p (xs @ ys) k = ro_sum p xs k + ro_sum p ys k"
  by (induction xs) auto

definition day_total :: "cost_db \<Rightarrow> (string \<Rightarrow> bool) \<Rightarrow> string \<Rightarrow> real" where
  "day_total s p k = sum_of (filter (\<lambda>r. p (lq_date r)) (llm s)) k + ro_sum p (or_else (rollup s) []) k"

definition rollup_ok :: "cost_db \<Rightarrow> bool" where
  "rollup_ok s \<longleftrightarrow> distinct (map ro_date (or_else (rollup s) []))"

lemma upsert_rollup_dates:
  "map ro_date (upsert_rollup dv ro) = (if fst dv \<in> ro_date ` set ro then map ro_date ro else map ro_date ro @ [fst dv])"
  by (auto simp: upsert_rollup_def count_where_0_iff map_update_where intro: rev_image_eqI)

lemma upsert_rollup_sum:
  assumes "distinct (map ro_date ro)"
  shows "ro_sum p (upsert_rollup (d, v) ro) k = ro_sum p ro k + (if p d then v k else 0)"
proof (cases "d \<in> ro_date ` set ro")
  case False
  then show ?thesis by (auto simp: upsert_rollup_def count_where_0_iff)
next
  case True
  let ?u = "update_where (\<lambda>x. ro_date x = d) (\<lambda>x. x\<lparr>ro_cells := (\<lambda>k. ro_cells x k + v k)\<rparr>)"
  have "ro_sum p (?u ro) k = ro_sum p ro k + (if p d \<and> d \<in> ro_date ` set ro then v k else 0)"
    using assms by (induction ro) (auto simp: update_where_def)
  then show ?thesis using True by (auto simp: upsert_rollup_def count_where_0_iff)
qed

lemma fold_upsert:
  assumes "distinct (map ro_date ro)"
  shows "distinct (map ro_date (fold upsert_rollup dvs ro)) \<and>
    ro_date ` set (fold upsert_rollup dvs ro) = ro_date ` set ro \<union> fst ` set dvs \<and>
    ro_sum p (fold upsert_rollup dvs ro) k = ro_sum p ro k + sum_list (map (\<lambda>dv. if p (fst dv) then snd dv k else 0) dvs)"
  using assms
proof (induction dvs arbitrary: ro)
  case (Cons dv dvs)
  have d: "distinct (map ro_date (upsert_rollup dv ro))" using Cons.prems by (auto simp: upsert_rollup_dates)
  have "set (map ro_date (upsert_rollup dv ro)) = insert (fst dv) (ro_date ` set ro)" by (auto simp: upsert_rollup_dates)
  then have "ro_date ` set (upsert_rollup dv ro) = insert (fst dv) (ro_date ` set ro)" by simp
  then show ?case using Cons.IH [OF d] upsert_rollup_sum [OF Cons.prems, of p "fst dv" "snd dv" k] by simp
qed simp

lemma sum_one_hot:
  "distinct ds \<Longrightarrow> sum_list (map (\<lambda>d. if d = a \<and> p d then c else 0) ds) = (if a \<in> set ds \<and> p a then c else (0::real))"
  by (induction ds) auto

lemma sum_groups:
  assumes "distinct ds" and "\<forall>r \<in> set rs. key r \<in> set ds"
  shows "sum_list (map (\<lambda>d. if p d then sum_of (filter (\<lambda>r. key r = d) rs) k else 0) ds) = sum_of (filter (\<lambda>r. p (key r)) rs) k"
  using assms(2)
proof (induction rs)
  case (Cons r rs)
  have "sum_list (map (\<lambda>d. if d = key r \<and> p d then row_term r k else 0) ds) = (if p (key r) then row_term r k else 0)"
    using Cons.prems sum_one_hot [OF assms(1), of "key r" p "row_term r k"] by simp
  moreover have "sum_list (map (\<lambda>d. if p d then sum_of (filter (\<lambda>x. key x = d) (r # rs)) k else 0) ds) =
      sum_list (map (\<lambda>d. if d = key r \<and> p d then row_term r k else 0) ds) +
      sum_list (map (\<lambda>d. if p d then sum_of (filter (\<lambda>x. key x = d) rs) k else 0) ds)"
    by (simp add: sum_list_addf [symmetric]) (intro arg_cong [where f = sum_list] map_cong, auto)
  ultimately show ?case using Cons by simp
qed (simp cong: if_cong)

lemma groups_by_keys: "map fst (groups_by key rs) = sort (remdups (map key rs))"
  by (simp add: groups_by_def comp_def)

text \<open>What one batch keeps: every total over days, and the days there are.\<close>

lemma purge_batch_keeps:
  assumes "purge_llm_batch cutoff batch s = Some (n, s')" and "rollup_ok s"
  shows "rollup_ok s' \<and> day_total s' p k = day_total s p k \<and>
    lq_date ` set (llm s') \<union> ro_date ` set (or_else (rollup s') []) = lq_date ` set (llm s) \<union> ro_date ` set (or_else (rollup s) []) \<and>
    (rollup s' = None) = (rollup s = None)"
proof -
  let ?ids = "map lq_id (take batch (sort_key lq_id (filter (\<lambda>r. lq_date r < cutoff) (llm s))))"
  let ?in = "\<lambda>r. lq_id r \<in> set ?ids"
  let ?g = "groups_by lq_date (filter ?in (llm s))"
  let ?t = "map (\<lambda>(d, g). (d, sum_of g)) ?g"
  show ?thesis
  proof (cases "?ids = []")
    case True
    then show ?thesis using assms by (auto simp: purge_llm_batch_def Let_def)
  next
    case False
    then obtain ro where ro: "rollup s = Some ro" and s': "s' = s\<lparr>rollup := Some (fold upsert_rollup ?t ro), llm := delete_where ?in (llm s)\<rparr>"
      using assms(1) by (auto simp: purge_llm_batch_def Let_def split: option.splits if_splits)
    have dis: "distinct (map ro_date ro)" using assms(2) ro by (simp add: rollup_ok_def)
    note f = fold_upsert [OF dis, of ?t p k]
    have keys: "fst ` set ?t = lq_date ` set (filter ?in (llm s))"
      by (simp add: groups_by_def image_image)
    have "sum_list (map (\<lambda>dv. if p (fst dv) then snd dv k else 0) ?t) =
        sum_list (map (\<lambda>d. if p d then sum_of (filter (\<lambda>r. lq_date r = d) (filter ?in (llm s))) k else 0)
          (sort (remdups (map lq_date (filter ?in (llm s))))))"
      by (simp add: groups_by_def comp_def cong: if_cong)
    also have "\<dots> = sum_of (filter (\<lambda>r. p (lq_date r)) (filter ?in (llm s))) k"
      by (rule sum_groups) auto
    finally have batch: "sum_list (map (\<lambda>dv. if p (fst dv) then snd dv k else 0) ?t) =
        sum_of (filter (\<lambda>r. p (lq_date r)) (filter ?in (llm s))) k" .
    have "sum_of (filter (\<lambda>r. p (lq_date r)) (llm s)) k =
        sum_of (filter (\<lambda>r. p (lq_date r)) (filter ?in (llm s))) k + sum_of (filter (\<lambda>r. p (lq_date r)) (delete_where ?in (llm s))) k"
      unfolding delete_where_def filter_filter
      using sum_of_split [of "filter (\<lambda>r. p (lq_date r)) (llm s)" k ?in] by (simp add: conj_commute)
    then have "day_total s' p k = day_total s p k"
      using f batch ro by (simp add: s' day_total_def)
    moreover have "ro_date ` set (fold upsert_rollup ?t ro) = ro_date ` set ro \<union> lq_date ` set (filter ?in (llm s))"
      using conjunct1 [OF conjunct2 [OF f]] unfolding keys .
    then have "lq_date ` set (delete_where ?in (llm s)) \<union> ro_date ` set (fold upsert_rollup ?t ro) = lq_date ` set (llm s) \<union> ro_date ` set ro"
      unfolding set_delete_where set_filter by blast
    ultimately show ?thesis using conjunct1 [OF f] unfolding rollup_ok_def s' by (simp add: ro)
  qed
qed

lemma purge_loop_keeps:
  assumes "purge_llm_loop cutoff batch budget s d = (n, s')" and "rollup_ok s"
  shows "rollup_ok s' \<and> day_total s' p k = day_total s p k \<and>
    lq_date ` set (llm s') \<union> ro_date ` set (or_else (rollup s') []) = lq_date ` set (llm s) \<union> ro_date ` set (or_else (rollup s) []) \<and>
    (rollup s' = None) = (rollup s = None)"
  using assms
proof (induction cutoff batch budget s d arbitrary: n s' rule: purge_llm_loop.induct)
  case (1 cutoff batch budget s d)
  show ?case
  proof (cases "budget = Some 0 \<or> purge_llm_batch cutoff batch s = None")
    case True
    then have "s' = s" using "1.prems"(1) unfolding purge_llm_loop.simps [of cutoff batch budget s d]
      by (auto split: if_splits)
    then show ?thesis using "1.prems"(2) by simp
  next
    case False
    then obtain m t where b: "purge_llm_batch cutoff batch s = Some (m, t)" by auto
    note k = purge_batch_keeps [OF b 1(3), of p k]
    consider "m = 0" | "m \<noteq> 0" "m < batch" | "m \<noteq> 0" "\<not> m < batch" by blast
    then show ?thesis
    proof cases
      case 1
      then show ?thesis using "1.prems" False b by (auto simp: purge_llm_loop.simps [of cutoff batch budget s d])
    next
      case 2
      then show ?thesis using "1.prems" False b k by (auto simp: purge_llm_loop.simps [of cutoff batch budget s d])
    next
      case 3
      have r: "purge_llm_loop cutoff batch (map_option (\<lambda>b. b - 1) budget) t (d + m) = (n, s')"
        using "1.prems" False b 3 by (simp add: purge_llm_loop.simps [of cutoff batch budget s d])
      have "budget \<noteq> Some 0" using False by blast
      from "1.IH" [OF this b refl 3 r] k show ?thesis by simp
    qed
  qed
qed

section \<open>Reachable ledgers\<close>

definition empty_costs :: cost_db where
  "empty_costs = \<lparr>llm = [], next_llm_id = 1, rollup = Some []\<rparr>"

inductive cost_reachable :: "cost_db \<Rightarrow> bool" where
  fresh: "cost_reachable empty_costs"
| added: "cost_reachable s \<Longrightarrow> cost_reachable (add_llm_request (c :: clock) rid q s)"
| deleted: "cost_reachable s \<Longrightarrow> cost_reachable (snd (delete_llm_requests f s))"
| purged: "cost_reachable s \<Longrightarrow> purge_old_llm_requests (c :: clock) days batch budget s = Inr (n, s') \<Longrightarrow> cost_reachable s'"

text \<open>A row of totals whose costs are the sum of the input and the output costs.\<close>

definition split_ok :: "(string \<Rightarrow> real) \<Rightarrow> bool" where
  "split_ok v \<longleftrightarrow> v ''cost_usd'' = v ''input_cost_usd'' + v ''output_cost_usd'' \<and>
     v ''cost_toman'' = v ''input_cost_toman'' + v ''output_cost_toman'' \<and> 0 \<le> v ''latency_count''"

definition cost_inv :: "cost_db \<Rightarrow> bool" where
  "cost_inv s \<longleftrightarrow> rollup_ok s \<and> distinct (map lq_id (llm s)) \<and> (\<forall>r \<in> set (llm s). lq_id r < next_llm_id s \<and> split_ok (row_term r)) \<and>
     (\<forall>x \<in> set (or_else (rollup s) []). split_ok (ro_cells x))"

lemma split_ok_add: "split_ok u \<Longrightarrow> split_ok v \<Longrightarrow> split_ok (\<lambda>k. u k + v k)"
  by (simp add: split_ok_def)

lemma split_ok_zero: "split_ok (\<lambda>k. 0)"
  by (simp add: split_ok_def)

lemma split_ok_sum: "(\<And>r. r \<in> set rs \<Longrightarrow> split_ok (row_term r)) \<Longrightarrow> split_ok (sum_of rs)"
  by (induction rs) (auto simp: split_ok_def)

lemma split_ok_ro_sum: "(\<And>x. x \<in> set ro \<Longrightarrow> split_ok (ro_cells x)) \<Longrightarrow> split_ok (ro_sum p ro)"
  by (induction ro) (auto simp: split_ok_def)

lemma split_ok_upsert:
  assumes "\<forall>x \<in> set ro. split_ok (ro_cells x)" and "split_ok (snd dv)"
  shows "\<forall>x \<in> set (upsert_rollup dv ro). split_ok (ro_cells x)"
proof -
  have "split_ok (\<lambda>k. ro_cells x k + snd dv k)" if "x \<in> set ro" for x
    using assms that by (intro split_ok_add) auto
  then show ?thesis using assms by (auto simp: upsert_rollup_def set_update_where)
qed

lemma split_ok_fold:
  "\<forall>x \<in> set ro. split_ok (ro_cells x) \<Longrightarrow> \<forall>dv \<in> set dvs. split_ok (snd dv) \<Longrightarrow>
   \<forall>x \<in> set (fold upsert_rollup dvs ro). split_ok (ro_cells x)"
proof (induction dvs arbitrary: ro)
  case (Cons dv dvs)
  have up: "\<forall>x \<in> set (upsert_rollup dv ro). split_ok (ro_cells x)"
    using Cons.prems by (intro split_ok_upsert) auto
  show ?case unfolding fold_Cons comp_def by (rule Cons.IH [OF up]) (use Cons.prems in auto)
qed simp

text \<open>What a batch takes away: the oldest of the rows before the cutoff, and nothing else.\<close>

lemma batch_rows:
  assumes "distinct (map lq_id rs)" and T_def: "T = take b (sort_key lq_id (filter (\<lambda>r. lq_date r < cutoff) rs))"
  shows "set (filter (\<lambda>r. lq_id r \<in> set (map lq_id T)) rs) = set T" and "distinct T"
    and "\<forall>r \<in> set T. r \<in> set rs \<and> lq_date r < cutoff"
proof -
  have sub: "set T \<subseteq> set rs \<inter> {r. lq_date r < cutoff}" by (auto simp: T_def dest: in_set_takeD)
  show "\<forall>r \<in> set T. r \<in> set rs \<and> lq_date r < cutoff" using sub by blast
  have "inj_on lq_id (set rs)" using assms(1) by (simp add: distinct_map)
  then show "set (filter (\<lambda>r. lq_id r \<in> set (map lq_id T)) rs) = set T" using sub by (auto dest: inj_onD)
  have "distinct rs" using assms(1) by (simp add: distinct_map)
  then show "distinct T" by (simp add: T_def)
qed

lemma count_delete_where: "count_where p (delete_where q xs) + length (filter p (filter q xs)) = count_where p xs"
  by (induction xs) (auto simp: count_where_def delete_where_def)

lemma filter_delete_where:
  "(\<And>x. x \<in> set xs \<Longrightarrow> q x \<Longrightarrow> \<not> p x) \<Longrightarrow> filter p (delete_where q xs) = filter p xs"
  by (induction xs) (auto simp: delete_where_def)

lemma purge_batch_result:
  assumes "purge_llm_batch cutoff b s = Some (n, s')" and "distinct (map lq_id (llm s))"
  shows "n = min b (count_where (\<lambda>r. lq_date r < cutoff) (llm s)) \<and>
    count_where (\<lambda>r. lq_date r < cutoff) (llm s') + n = count_where (\<lambda>r. lq_date r < cutoff) (llm s) \<and>
    filter (\<lambda>r. \<not> lq_date r < cutoff) (llm s') = filter (\<lambda>r. \<not> lq_date r < cutoff) (llm s) \<and>
    set (llm s') \<subseteq> set (llm s) \<and> distinct (map lq_id (llm s')) \<and> next_llm_id s' = next_llm_id s"
proof -
  let ?old = "\<lambda>r. lq_date r < cutoff"
  let ?T = "take b (sort_key lq_id (filter ?old (llm s)))"
  let ?in = "\<lambda>r. lq_id r \<in> set (map lq_id ?T)"
  note T = batch_rows [OF assms(2) refl, of b cutoff]
  have n: "length ?T = min b (count_where ?old (llm s))" by (simp add: count_where_def min.commute)
  show ?thesis
  proof (cases "?T = []")
    case True
    then have "n = 0" "s' = s" using assms(1) by (auto simp: purge_llm_batch_def Let_def)
    then show ?thesis using assms(2) n True by simp
  next
    case False
    then have s': "llm s' = delete_where ?in (llm s)" "next_llm_id s' = next_llm_id s" "n = length ?T"
      using assms(1) by (auto simp: purge_llm_batch_def Let_def split: option.splits if_splits)
    have dis: "distinct (llm s)" using assms(2) by (simp add: distinct_map)
    have len: "length (filter ?in (llm s)) = length ?T"
      using distinct_card [OF distinct_filter [OF dis, of ?in]] distinct_card [OF T(2)] T(1) by simp
    have old: "?old x" if "x \<in> set (llm s)" "?in x" for x
    proof -
      have "x \<in> set (filter ?in (llm s))" unfolding set_filter using that by blast
      then show ?thesis using T(1,3) by blast
    qed
    have "filter ?old (filter ?in (llm s)) = filter ?in (llm s)"
      by (rule filter_True) (use old in \<open>unfold set_filter, blast\<close>)
    then have "length (filter ?old (filter ?in (llm s))) = n" using len s'(3) by simp
    then have "count_where ?old (llm s') + n = count_where ?old (llm s)"
      using count_delete_where [of ?old ?in "llm s"] unfolding s'(1) by linarith
    moreover have "filter (\<lambda>r. \<not> ?old r) (llm s') = filter (\<lambda>r. \<not> ?old r) (llm s)"
      unfolding s'(1) by (rule filter_delete_where) (use old in blast)
    moreover have "distinct (map lq_id (llm s'))"
      using assms(2) by (simp add: s'(1) delete_where_def distinct_map_filter)
    moreover have "set (llm s') \<subseteq> set (llm s)" unfolding s'(1) set_delete_where by blast
    moreover have "n = min b (count_where ?old (llm s))" using s'(3) n by simp
    ultimately show ?thesis using s'(2) by blast
  qed
qed

lemma purge_batch_cost_inv:
  assumes "purge_llm_batch cutoff b s = Some (n, s')" and "cost_inv s"
  shows "cost_inv s'"
proof -
  have ok: "rollup_ok s" "distinct (map lq_id (llm s))" using assms(2) by (simp_all add: cost_inv_def)
  let ?ids = "map lq_id (take b (sort_key lq_id (filter (\<lambda>r. lq_date r < cutoff) (llm s))))"
  let ?t = "map (\<lambda>(d, g). (d, sum_of g)) (groups_by lq_date (filter (\<lambda>r. lq_id r \<in> set ?ids) (llm s)))"
  have "rollup s' = rollup s \<or> (\<exists>ro. rollup s = Some ro \<and> rollup s' = Some (fold upsert_rollup ?t ro))"
    using assms(1) by (auto simp: purge_llm_batch_def Let_def split: option.splits if_splits)
  moreover have "\<forall>dv \<in> set ?t. split_ok (snd dv)"
    using assms(2) by (auto simp: groups_by_def cost_inv_def intro!: split_ok_sum)
  moreover have "\<forall>x \<in> set (or_else (rollup s) []). split_ok (ro_cells x)" using assms(2) by (simp add: cost_inv_def)
  ultimately have cells: "\<forall>x \<in> set (or_else (rollup s') []). split_ok (ro_cells x)"
    using split_ok_fold [of _ ?t] by (metis or_else_simps(2))
  have "rollup_ok s'" using purge_batch_keeps [OF assms(1) ok(1)] by blast
  moreover have "set (llm s') \<subseteq> set (llm s)" "distinct (map lq_id (llm s'))" "next_llm_id s' = next_llm_id s"
    using purge_batch_result [OF assms(1) ok(2)] by blast+
  ultimately show ?thesis using cells assms(2) unfolding cost_inv_def by (metis subsetD)
qed

text \<open>The whole purge, by the cases of its loop.\<close>

lemma purge_loop_result:
  assumes "purge_llm_loop cutoff b budget s d = (n, s')" and "cost_inv s" and "0 < b"
  shows "cost_inv s' \<and> filter (\<lambda>r. \<not> lq_date r < cutoff) (llm s') = filter (\<lambda>r. \<not> lq_date r < cutoff) (llm s) \<and>
    count_where (\<lambda>r. lq_date r < cutoff) (llm s') + n = count_where (\<lambda>r. lq_date r < cutoff) (llm s) + d \<and>
    (budget = None \<and> rollup s \<noteq> None \<longrightarrow> count_where (\<lambda>r. lq_date r < cutoff) (llm s') = 0)"
  using assms
proof (induction cutoff b budget s d arbitrary: n s' rule: purge_llm_loop.induct)
  case (1 cutoff b budget s d)
  note loop = purge_llm_loop.simps [of cutoff b budget s d]
  show ?case
  proof (cases "budget = Some 0 \<or> purge_llm_batch cutoff b s = None")
    case True
    then have e: "s' = s" "n = d" using "1.prems"(1) unfolding loop by (auto split: if_splits)
    have "rollup s \<noteq> None \<Longrightarrow> purge_llm_batch cutoff b s \<noteq> None"
      by (auto simp: purge_llm_batch_def Let_def)
    then show ?thesis using True e "1.prems"(2) by auto
  next
    case False
    then obtain m t where bt: "purge_llm_batch cutoff b s = Some (m, t)" by auto
    have dis: "distinct (map lq_id (llm s))" using "1.prems"(2) by (simp add: cost_inv_def)
    note res = purge_batch_result [OF bt dis]
    have inv: "cost_inv t" by (rule purge_batch_cost_inv [OF bt "1.prems"(2)])
    have ro: "(rollup t = None) = (rollup s = None)"
      using purge_batch_keeps [OF bt] "1.prems"(2) by (simp add: cost_inv_def)
    consider "m = 0" | "m \<noteq> 0" "m < b" | "m \<noteq> 0" "\<not> m < b" by blast
    then show ?thesis
    proof cases
      case 1
      then have e: "s' = s" "n = d" using "1.prems"(1) False bt unfolding loop by auto
      have "count_where (\<lambda>r. lq_date r < cutoff) (llm s) = 0" using res 1 "1.prems"(3) by linarith
      then show ?thesis using e "1.prems"(2) by simp
    next
      case 2
      then have e: "s' = t" "n = d + m" using "1.prems"(1) False bt unfolding loop by auto
      have "count_where (\<lambda>r. lq_date r < cutoff) (llm t) = 0" using res 2 by linarith
      then show ?thesis using e inv res by simp
    next
      case 3
      have nb: "budget \<noteq> Some 0" using False by blast
      have r: "purge_llm_loop cutoff b (map_option (\<lambda>b. b - 1) budget) t (d + m) = (n, s')"
        using "1.prems"(1) False bt 3 unfolding loop by simp
      note ih = "1.IH" [OF nb bt refl 3 r inv "1.prems"(3)]
      have f: "filter (\<lambda>r. \<not> lq_date r < cutoff) (llm s') = filter (\<lambda>r. \<not> lq_date r < cutoff) (llm s)"
        using ih res by presburger
      have k: "count_where (\<lambda>r. lq_date r < cutoff) (llm s') + n = count_where (\<lambda>r. lq_date r < cutoff) (llm s) + d"
        using ih res by linarith
      show ?thesis using ih ro f k by simp
    qed
  qed
qed

lemma row_terms_add:
  "llm (add_llm_request c rid q s) = llm s @ [r] \<Longrightarrow> split_ok (row_term r)"
  by (auto simp: add_llm_request_def Let_def split_ok_def row_term_def row_terms_def algebra_simps add_divide_distrib)

lemma cost_reachable_inv: "cost_reachable s \<Longrightarrow> cost_inv s"
proof (induction rule: cost_reachable.induct)
  case fresh
  then show ?case by (simp add: empty_costs_def cost_inv_def rollup_ok_def)
next
  case (added s c rid q)
  obtain r where r: "llm (add_llm_request c rid q s) = llm s @ [r]" "lq_id r = next_llm_id s"
    by (simp add: add_llm_request_def Let_def)
  have f: "next_llm_id (add_llm_request c rid q s) = next_llm_id s + 1" "rollup (add_llm_request c rid q s) = rollup s"
    by (simp_all add: add_llm_request_def Let_def)
  show ?case using added.IH row_terms_add [OF r(1)] r f by (auto simp: cost_inv_def rollup_ok_def)
next
  case (deleted s f)
  then show ?case
    by (simp add: cost_inv_def rollup_ok_def delete_llm_requests_def delete_where_def distinct_map_filter)
next
  case (purged s c days batch budget n s')
  then obtain d where "purge_llm_loop (isoformat d) (nat (max 1 batch)) budget s 0 = (n, s')"
    by (auto simp: purge_old_llm_requests_def py_bind_Inr_iff)
  from purge_loop_result [OF this purged.IH] show ?case by simp
qed

text \<open>Summaries as totals over days.\<close>

lemma eligible_where: "rollup_eligible f \<Longrightarrow> llm_request_filters_where f r = date_in f (lq_date r)"
proof -
  assume e: "rollup_eligible f"
  have "filter_value f k = None" if "k \<notin> {''start_date'', ''end_date''}" for k
  proof -
    have "map_of f k = None" using e that by (auto simp: rollup_eligible_def map_of_eq_None_iff)
    then show ?thesis by (simp add: filter_value_def)
  qed
  then show ?thesis by (simp add: llm_request_filters_where_def clause_def)
qed

lemma base_value: "k \<in> set ROLLUP_SUM_KEYS \<Longrightarrow> or_else (base_summary rs k) 0 = sum_of rs k"
proof -
  assume k: "k \<in> set ROLLUP_SUM_KEYS"
  have n: "sum_of rs ''request_count'' = of_nat (length rs)"
    by (induction rs) (simp_all add: row_term_def row_terms_def Let_def)
  have a: "k \<noteq> ''avg_latency_ms''" using k by (auto simp: ROLLUP_SUM_KEYS_def)
  show ?thesis
  proof (cases "k = ''request_count''")
    case True
    then show ?thesis by (simp add: base_summary_def n)
  next
    case False
    then show ?thesis using k a by (simp add: base_summary_def)
  qed
qed

lemma summary_eq:
  assumes "rollup_eligible f" and "rollup s = Some ro" and "cost_inv s"
  shows "summarize_llm_requests f s k =
    (if k \<in> set ROLLUP_SUM_KEYS then Some (day_total s (date_in f) k)
     else if k = ''avg_latency_ms'' \<and> day_total s (date_in f) ''latency_count'' \<noteq> 0
     then Some (day_total s (date_in f) ''latency_sum_ms'' / day_total s (date_in f) ''latency_count'') else None)"
proof -
  let ?rs = "filter (\<lambda>r. date_in f (lq_date r)) (llm s)"
  have w: "filter (llm_request_filters_where f) (llm s) = ?rs"
    using eligible_where [OF assms(1)] by (intro filter_cong) auto
  have r: "rollup_sums f s = Some (ro_sum (date_in f) ro)"
    using assms(2) by (simp add: rollup_sums_def ro_sum_def [abs_def])
  have t: "day_total s (date_in f) k = sum_of ?rs k + ro_sum (date_in f) ro k" for k
    using assms(2) by (simp add: day_total_def)
  have "0 \<le> sum_of ?rs ''latency_count''"
    using split_ok_sum [of ?rs] assms(3) by (auto simp: cost_inv_def split_ok_def)
  moreover have "0 \<le> ro_sum (date_in f) ro ''latency_count''"
    using split_ok_ro_sum [of ro] assms(2,3) by (auto simp: cost_inv_def split_ok_def)
  ultimately have z: "day_total s (date_in f) ''latency_count'' = 0 \<Longrightarrow> sum_of ?rs ''latency_count'' = 0"
    unfolding t by linarith
  have nk: "base_summary ?rs k = None" if "k \<notin> set ROLLUP_SUM_KEYS" "k \<noteq> ''avg_latency_ms''"
    using that by (auto simp: base_summary_def ROLLUP_SUM_KEYS_def)
  have av: "''avg_latency_ms'' \<notin> set ROLLUP_SUM_KEYS" by (simp add: ROLLUP_SUM_KEYS_def)
  show ?thesis
    unfolding summarize_llm_requests_def Let_def w r
    using assms(1) t base_value z nk av
    by (simp add: base_summary_def [of _ "''avg_latency_ms''"])
qed

lemma cost_reachable_rollup: "cost_reachable s \<Longrightarrow> \<exists>ro. rollup s = Some ro"
proof (induction rule: cost_reachable.induct)
  case (purged s c days batch budget n s')
  then obtain d where "purge_llm_loop (isoformat d) (nat (max 1 batch)) budget s 0 = (n, s')"
    by (auto simp: purge_old_llm_requests_def py_bind_Inr_iff)
  then show ?case using purge_loop_keeps cost_reachable_inv [OF purged.hyps(1)] purged.IH
    by (fastforce simp: cost_inv_def)
qed (simp_all add: empty_costs_def add_llm_request_def delete_llm_requests_def Let_def)

lemma daily_eq:
  assumes "rollup_eligible f" and "rollup s = Some ro"
  shows "daily_costs_grouped f s =
    map (\<lambda>d. (d, day_total s (\<lambda>x. x = d) ''cost_usd''))
      (sorted_list_of_set {d \<in> lq_date ` set (llm s) \<union> ro_date ` set (or_else (rollup s) []). date_in f d})"
proof -
  have w: "filter (llm_request_filters_where f) (llm s) = filter (\<lambda>r. date_in f (lq_date r)) (llm s)"
    using eligible_where [OF assms(1)] by (intro filter_cong) auto
  let ?ds = "sort (remdups (map lq_date (filter (\<lambda>r. date_in f (lq_date r)) (llm s)) @ map ro_date (filter (\<lambda>d. date_in f (ro_date d)) ro)))"
  have ds: "?ds = sorted_list_of_set {d \<in> lq_date ` set (llm s) \<union> ro_date ` set (or_else (rollup s) []). date_in f d}"
    unfolding sorted_list_of_set_sort_remdups [symmetric] assms(2) by (rule arg_cong [where f = sorted_list_of_set]) auto
  have "sum_of (filter (\<lambda>r. lq_date r = d) (filter (\<lambda>r. date_in f (lq_date r)) (llm s))) ''cost_usd'' +
      sum_list (map (\<lambda>x. ro_cells x ''cost_usd'') (filter (\<lambda>x. ro_date x = d) (filter (\<lambda>d. date_in f (ro_date d)) ro))) =
      day_total s (\<lambda>x. x = d) ''cost_usd''" if "date_in f d" for d
  proof -
    have "filter (\<lambda>r. lq_date r = d) (filter (\<lambda>r. date_in f (lq_date r)) (llm s)) = filter (\<lambda>r. lq_date r = d) (llm s)"
      "filter (\<lambda>x. ro_date x = d) (filter (\<lambda>d. date_in f (ro_date d)) ro) = filter (\<lambda>x. ro_date x = d) ro"
      unfolding filter_filter using that by (auto intro!: filter_cong)
    then show ?thesis using assms(2) by (simp add: day_total_def ro_sum_def)
  qed
  then show ?thesis
    unfolding daily_costs_grouped_def Let_def w using assms ds by (auto intro!: map_cong simp del: sorted_list_of_set_sort_remdups)
qed

lemma request_count_term: "sum_of rs ''request_count'' = of_nat (length rs)"
  by (induction rs) (simp_all add: row_term_def row_terms_def Let_def)

lemma count_since_eq:
  "rollup s = Some ro \<Longrightarrow> count_llm_requests_since date s = \<lfloor>day_total s (\<lambda>d. date \<le> d) ''request_count''\<rfloor>"
  by (simp add: count_llm_requests_since_def rollup_request_count_since_def day_total_def ro_sum_def request_count_term count_where_def)

section \<open>Properties of the ledger\<close>

lemma purge_is_invisible_aux:
  assumes "cost_reachable s" and "purge_old_llm_requests c days batch budget s = Inr (n, s')" and "rollup_eligible f"
  shows "summarize_llm_requests f s' = summarize_llm_requests f s \<and> daily_costs_grouped f s' = daily_costs_grouped f s \<and>
    count_llm_requests_since date s' = count_llm_requests_since date s"
proof -
  have inv: "cost_inv s" by (rule cost_reachable_inv [OF assms(1)])
  obtain d where l: "purge_llm_loop (isoformat d) (nat (max 1 batch)) budget s 0 = (n, s')"
    using assms(2) by (auto simp: purge_old_llm_requests_def py_bind_Inr_iff)
  have inv': "cost_inv s'" using purge_loop_result [OF l inv] by simp
  have ok: "rollup_ok s" using inv by (simp add: cost_inv_def)
  note keep = purge_loop_keeps [OF l ok]
  obtain ro where ro: "rollup s = Some ro" using cost_reachable_rollup [OF assms(1)] by blast
  then obtain ro' where ro': "rollup s' = Some ro'" using keep by (cases "rollup s'") auto
  have t: "day_total s' p k = day_total s p k" for p k using keep by blast
  have days: "lq_date ` set (llm s') \<union> ro_date ` set (or_else (rollup s') []) = lq_date ` set (llm s) \<union> ro_date ` set (or_else (rollup s) [])"
    using keep by blast
  have "summarize_llm_requests f s' k = summarize_llm_requests f s k" for k
    unfolding summary_eq [OF assms(3) ro inv] summary_eq [OF assms(3) ro' inv'] t ..
  moreover have "daily_costs_grouped f s' = daily_costs_grouped f s"
    unfolding daily_eq [OF assms(3) ro] daily_eq [OF assms(3) ro'] t days ..
  moreover have "count_llm_requests_since date s' = count_llm_requests_since date s"
    unfolding count_since_eq [OF ro] count_since_eq [OF ro'] t ..
  ultimately show ?thesis by blast
qed

text \<open>C3: The nightly purge is invisible to everybody who reads totals: whatever was recorded,
  deleted and purged before, and wherever the deadline stops this purge, every summary over a
  range of dates (sums, counts and the average latency), the daily costs and the request
  counter are the same after it as before.\<close>

theorem purge_is_invisible:
  assumes "cost_reachable s" and "purge_old_llm_requests c days batch budget s = Inr (n, s')" and "rollup_eligible f"
  shows "summarize_llm_requests f s' = summarize_llm_requests f s \<and> daily_costs_grouped f s' = daily_costs_grouped f s \<and>
    count_llm_requests_since date s' = count_llm_requests_since date s"
  by (rule purge_is_invisible_aux [OF assms])

definition sample_call :: llm_call where
  "sample_call = \<lparr>c_user = 1, c_plan = ''free'', c_kind = ''word'', c_model = ''m'', c_outcome = ''success'', c_prompt = Some 1000000,
     c_completion = Some 500000, c_total = None, c_in_rate = 2, c_out_rate = 4, c_toman = 10, c_latency = Some 300,
     c_error_class = None, c_error_message = None, c_preset = Some ''p''\<rparr>"

definition clock_on :: "date \<Rightarrow> clock" where
  "clock_on d = \<lparr>utc_now = 0, today = d, app_date = (\<lambda>_. d), app_midnight = (\<lambda>_. 0), utc_date = (\<lambda>_. d),
     utc_time = (\<lambda>_. ''00:00:00+00:00''), sql_datetime_ok = (\<lambda>_. False)\<rparr>"

definition one_call_db :: cost_db where
  "one_call_db = add_llm_request (clock_on (2026, 1, 1)) ''r1'' sample_call empty_costs"

lemma one_call_reachable: "cost_reachable one_call_db"
  unfolding one_call_db_def by (intro added fresh)

lemma one_call_purged:
  "purge_old_llm_requests (clock_on (2026, 1, 3)) 1 500 None one_call_db =
   Inr (1, one_call_db\<lparr>llm := [], rollup := Some [\<lparr>ro_date = ''2026-01-01'', ro_cells = sum_of (llm one_call_db)\<rparr>]\<rparr>)"
proof -
  have d: "minus_days (today (clock_on (2026, 1, 3))) 1 = Inr (2026, 1, 2)"
    by (simp add: minus_days_def clock_on_def numeral_2_eq_2)
  have lt: "isoformat (2026, 1, 1) < isoformat (2026, 1, 2)" by (simp add: isoformat_less days_in_month_def del: isoformat.simps)
  have i: "isoformat (2026, Suc 0, Suc 0) = ''2026-01-01''" by code_simp
  have lt': "''2026-01-01'' < isoformat (2026, Suc 0, 2)" using lt i by (simp del: isoformat.simps)
  show ?thesis
    unfolding purge_old_llm_requests_def d
    using lt'
    by (simp add: purge_llm_loop.simps purge_llm_batch_def one_call_db_def add_llm_request_def Let_def empty_costs_def
        today_iso_def clock_on_def i groups_by_def upsert_rollup_def count_where_def delete_where_def del: isoformat.simps)
qed

theorem purge_is_invisible_witness:
  "\<exists>s'. purge_old_llm_requests (clock_on (2026, 1, 3)) 1 500 None one_call_db = Inr (1, s') \<and> llm s' = [] \<and>
     summarize_llm_requests [] s' ''cost_usd'' = Some 4"
proof -
  have "summarize_llm_requests [] one_call_db ''cost_usd'' = Some 4"
    by (simp add: summarize_llm_requests_def rollup_eligible_def rollup_sums_def one_call_db_def add_llm_request_def Let_def empty_costs_def
        sample_call_def ROLLUP_SUM_KEYS_def base_summary_def row_term_def row_terms_def llm_request_filters_where_def date_in_def clause_def filter_value_def)
  then show ?thesis
    using purge_is_invisible [OF one_call_reachable one_call_purged, of "[]"] one_call_purged by (simp add: rollup_eligible_def)
qed

text \<open>The purge does its work: without a deadline it removes exactly the requests dated before the
  cutoff and reports their number, and with one it removes only such requests; without the table
  of totals it removes nothing rather than lose a cost.\<close>

theorem purge_removes_exactly_the_old:
  assumes "cost_reachable s" and "minus_days (today c) days = Inr d"
  shows "purge_old_llm_requests c days batch None s = Inr (count_where (\<lambda>r. lq_date r < isoformat d) (llm s),
      snd (purge_llm_loop (isoformat d) (nat (max 1 batch)) None s 0)) \<and>
    llm (snd (purge_llm_loop (isoformat d) (nat (max 1 batch)) None s 0)) = filter (\<lambda>r. \<not> lq_date r < isoformat d) (llm s) \<and>
    (\<forall>budget. \<exists>n s'. purge_old_llm_requests c days batch budget s = Inr (n, s') \<and>
       filter (\<lambda>r. \<not> lq_date r < isoformat d) (llm s') = filter (\<lambda>r. \<not> lq_date r < isoformat d) (llm s)) \<and>
    purge_old_llm_requests c days batch budget (s\<lparr>rollup := None\<rparr>) = Inr (0, s\<lparr>rollup := None\<rparr>)"
proof -
  let ?old = "\<lambda>r. lq_date r < isoformat d" and ?b = "nat (max 1 batch)"
  have b: "0 < ?b" by simp
  have inv: "cost_inv s" by (rule cost_reachable_inv [OF assms(1)])
  obtain ro where ro: "rollup s = Some ro" using cost_reachable_rollup [OF assms(1)] by blast
  have p: "purge_old_llm_requests c days batch budget t = Inr (purge_llm_loop (isoformat d) ?b budget t 0)" for budget t
    using assms(2) by (simp add: purge_old_llm_requests_def)
  obtain n s' where l: "purge_llm_loop (isoformat d) ?b None s 0 = (n, s')" by fastforce
  have r: "filter (\<lambda>r. \<not> ?old r) (llm s') = filter (\<lambda>r. \<not> ?old r) (llm s)" "n = count_where ?old (llm s)"
    "count_where ?old (llm s') = 0"
    using purge_loop_result [OF l inv b] ro by auto
  have "llm s' = filter (\<lambda>r. \<not> ?old r) (llm s')" using r(3) by (simp add: count_where_0_iff)
  then have all: "llm s' = filter (\<lambda>r. \<not> ?old r) (llm s)" using r(1) by simp
  have some: "\<exists>n s'. purge_old_llm_requests c days batch budget s = Inr (n, s') \<and>
       filter (\<lambda>r. \<not> ?old r) (llm s') = filter (\<lambda>r. \<not> ?old r) (llm s)" for budget
  proof -
    obtain n t where t: "purge_llm_loop (isoformat d) ?b budget s 0 = (n, t)" by fastforce
    then show ?thesis using p [of budget s] purge_loop_result [OF t inv b] by simp
  qed
  have "purge_llm_loop (isoformat d) ?b budget (s\<lparr>rollup := None\<rparr>) 0 = (0, s\<lparr>rollup := None\<rparr>)"
    by (simp add: purge_llm_loop.simps [of "isoformat d" ?b budget "s\<lparr>rollup := None\<rparr>" 0] purge_llm_batch_def Let_def)
  then show ?thesis using p l r(2) all some by simp
qed

theorem purge_removes_exactly_the_old_witness:
  "purge_old_llm_requests (clock_on (2026, 1, 3)) 1 500 (Some 0) (one_call_db\<lparr>rollup := None\<rparr>) = Inr (0, one_call_db\<lparr>rollup := None\<rparr>) \<and>
   llm (snd (purge_llm_loop (isoformat (2026, 1, 2)) (nat (max 1 500)) None one_call_db 0)) = []"
proof -
  have d: "minus_days (today (clock_on (2026, 1, 3))) 1 = Inr (2026, 1, 2)"
    by (simp add: minus_days_def clock_on_def numeral_2_eq_2)
  have lt: "isoformat (2026, 1, 1) < isoformat (2026, 1, 2)"
    by (simp add: isoformat_less days_in_month_def del: isoformat.simps)
  have "filter (\<lambda>r. \<not> lq_date r < isoformat (2026, 1, 2)) (llm one_call_db) = []"
    using lt by (simp add: one_call_db_def add_llm_request_def Let_def empty_costs_def today_iso_def clock_on_def del: isoformat.simps)
  then show ?thesis
    using purge_removes_exactly_the_old [OF one_call_reachable d, of 500 "Some 0"] by simp
qed

text \<open>The cost split adds up: in every ledger that recording, deleting and purging can lead to, the
  total cost of any range of dates, in dollars and in toman, is the sum of its input and its
  output cost, also after the rows behind it are gone.\<close>

theorem costs_add_up:
  assumes "cost_reachable s" and "rollup_eligible f"
  shows "(\<exists>i x. summarize_llm_requests f s ''input_cost_usd'' = Some i \<and> summarize_llm_requests f s ''output_cost_usd'' = Some x \<and>
      summarize_llm_requests f s ''cost_usd'' = Some (i + x)) \<and>
    (\<exists>i x. summarize_llm_requests f s ''input_cost_toman'' = Some i \<and> summarize_llm_requests f s ''output_cost_toman'' = Some x \<and>
      summarize_llm_requests f s ''cost_toman'' = Some (i + x))"
proof -
  have inv: "cost_inv s" by (rule cost_reachable_inv [OF assms(1)])
  obtain ro where ro: "rollup s = Some ro" using cost_reachable_rollup [OF assms(1)] by blast
  have "split_ok (sum_of (filter (\<lambda>r. date_in f (lq_date r)) (llm s)))" "split_ok (ro_sum (date_in f) ro)"
    using inv ro by (auto simp: cost_inv_def intro!: split_ok_sum split_ok_ro_sum)
  then have "split_ok (day_total s (date_in f))"
    using split_ok_add ro by (simp add: day_total_def [abs_def])
  then show ?thesis
    unfolding summary_eq [OF assms(2) ro inv] by (simp add: ROLLUP_SUM_KEYS_def split_ok_def)
qed

theorem costs_add_up_witness:
  "\<exists>i x. summarize_llm_requests [(''start_date'', SText ''2025-01-01'')] one_call_db ''cost_usd'' = Some (i + x)"
  using costs_add_up [OF one_call_reachable, of "[(''start_date'', SText ''2025-01-01'')]"] by (auto simp: rollup_eligible_def)

lemma sum_groups_all: "sum_list (map (\<lambda>bg. sum_of (snd bg) k) (groups_by key rs)) = sum_of rs k"
proof -
  have "sum_list (map (\<lambda>d. if (\<lambda>_. True) d then sum_of (filter (\<lambda>r. key r = d) rs) k else 0) (sort (remdups (map key rs)))) =
      sum_of (filter (\<lambda>r. (\<lambda>_. True) (key r)) rs) k"
    by (rule sum_groups) auto
  then show ?thesis by (simp add: groups_by_def comp_def)
qed

lemma sum_list_sort_key: "sum_list (map f (sort_key k xs)) = (sum_list (map f xs) :: real)"
  by (metis mset_map mset_sort sum_mset_sum_list)

text \<open>A breakdown is a partition: for each of the six columns its groups have distinct values, are as
  many as the counter for the pager says, add up to the cost of all the rows selected, and every
  page is the corresponding slice of the whole list; any other column is refused.\<close>

theorem breakdown_is_a_partition:
  "if group_by \<in> {''user_id'', ''plan'', ''request_kind'', ''model'', ''outcome'', ''preset_name''}
   then \<exists>rows. breakdown_llm_requests group_by f (- 1) 0 s = Inr rows \<and> count_breakdown_groups group_by f s = Inr (int (length rows)) \<and>
     distinct (map fst rows) \<and>
     sum_list (map (\<lambda>row. or_else (snd row ''cost_usd'') 0) rows) = sum_of (filter (llm_request_filters_where f) (llm s)) ''cost_usd'' \<and>
     breakdown_llm_requests group_by f (int l) (int i) s = Inr (take l (drop i rows))
   else breakdown_llm_requests group_by f (int l) (int i) s = Inl ValueError \<and> count_breakdown_groups group_by f s = Inl ValueError"
proof (cases "map_of BREAKDOWN_COLUMNS group_by")
  case None
  then have "group_by \<notin> {''user_id'', ''plan'', ''request_kind'', ''model'', ''outcome'', ''preset_name''}"
    by (auto simp: BREAKDOWN_COLUMNS_def split: if_splits)
  then show ?thesis using None by (simp add: breakdown_llm_requests_def count_breakdown_groups_def)
next
  case (Some key)
  then have g: "group_by \<in> {''user_id'', ''plan'', ''request_kind'', ''model'', ''outcome'', ''preset_name''}"
    by (auto simp: BREAKDOWN_COLUMNS_def split: if_splits)
  let ?rs = "filter (llm_request_filters_where f) (llm s)"
  let ?gs = "by_cost (groups_by key ?rs)"
  define rows where "rows = map (\<lambda>(b, g). (b, breakdown_row g)) ?gs"
  have "distinct (map fst (groups_by key ?rs))" unfolding groups_by_keys by simp
  then have "distinct (map fst ?gs)"
    by (simp add: by_cost_def distinct_map)
  then have dis: "distinct (map fst rows)" by (simp add: rows_def comp_def case_prod_beta)
  have b: "or_else (breakdown_row g ''cost_usd'') 0 = sum_of g ''cost_usd''" for g
    using base_value [of "''cost_usd''" g] by (simp add: breakdown_row_def BREAKDOWN_KEYS_def ROLLUP_SUM_KEYS_def)
  have "sum_list (map (\<lambda>row. or_else (snd row ''cost_usd'') 0) rows) = sum_list (map (\<lambda>bg. sum_of (snd bg) ''cost_usd'') ?gs)"
    by (simp add: rows_def comp_def case_prod_beta b)
  also have "\<dots> = sum_of ?rs ''cost_usd''"
    unfolding by_cost_def sum_list_sort_key by (rule sum_groups_all)
  finally have total: "sum_list (map (\<lambda>row. or_else (snd row ''cost_usd'') 0) rows) = sum_of ?rs ''cost_usd''" .
  have all: "breakdown_llm_requests group_by f (- 1) 0 s = Inr rows"
    using Some by (simp add: rows_def breakdown_llm_requests_def sql_page_def)
  have n: "count_breakdown_groups group_by f s = Inr (int (length rows))"
    using Some by (simp add: rows_def count_breakdown_groups_def by_cost_def)
  have page: "breakdown_llm_requests group_by f (int l) (int i) s = Inr (take l (drop i rows))"
    using Some by (simp add: rows_def breakdown_llm_requests_def sql_page_def take_map drop_map)
  show ?thesis unfolding if_P [OF g] using all n dis total page by blast
qed

end
