(* ===== verification/Keys.thy ===== *)
theory Keys imports Tables begin

text \<open>
  API keys at rest, \<open>services/db/key_crypto.py\<close> and the adapter of
  \<open>services/ai/ai_presets.py\<close>: a key is stored as tagged ciphertext or not at all, and
  resolving a stored value never fails. The cipher is the third-party Fernet class, given by
  its two operations; the master key and the environment are fields of \<open>key_env\<close>. The class draws a
  fresh nonce for every encryption; \<open>f_encrypt\<close> stands for one choice of them, so that two
  encryptions of one text are equal here is no claim about the code.
\<close>

section \<open>Operations\<close>

record fernet =
  f_encrypt :: "string \<Rightarrow> string"
  f_decrypt :: "string \<Rightarrow> string option" \<comment> \<open>\<open>None\<close> is \<open>InvalidToken\<close>\<close>

record key_env =
  ke_fernet :: "fernet option" \<comment> \<open>the cipher of a usable master key\<close>
  ke_getenv :: "string \<Rightarrow> string option"

text \<open>What Fernet documents: decrypting an encrypted text gives the text back.\<close>

definition fernet_ok :: "fernet \<Rightarrow> bool" where
  "fernet_ok f \<longleftrightarrow> (\<forall>x. f_decrypt f (f_encrypt f x) = Some x)"

definition VERSION_PREFIX :: string where
  "VERSION_PREFIX = ''v1:''"

definition tagged :: "string \<Rightarrow> bool" where
  "tagged v \<longleftrightarrow> take (length VERSION_PREFIX) v = VERSION_PREFIX"

definition encrypt_secret :: "key_env \<Rightarrow> string \<Rightarrow> string" where
  "encrypt_secret e plaintext =
     (if plaintext = '''' then ''''
      else case ke_fernet e of None \<Rightarrow> '''' | Some f \<Rightarrow> VERSION_PREFIX @ f_encrypt f plaintext)"

definition resolve_env :: "key_env \<Rightarrow> string \<Rightarrow> string option" where
  "resolve_env e v = (case v of [] \<Rightarrow> None | ch # name \<Rightarrow> if ch = CHR ''$'' then Some (or_else (ke_getenv e name) '''') else None)"

definition decrypt_secret :: "key_env \<Rightarrow> string \<Rightarrow> string" where
  "decrypt_secret e v =
     (if v = '''' then ''''
      else case resolve_env e v of
             Some x \<Rightarrow> x
           | None \<Rightarrow>
               (if \<not> tagged v then ''''
                else case ke_fernet e of
                       None \<Rightarrow> ''''
                     | Some f \<Rightarrow> or_else (f_decrypt f (drop (length VERSION_PREFIX) v)) ''''))"

text \<open>The dash and the ellipsis of the display, in UTF-8.\<close>

definition DASH :: string where
  "DASH = [CHR 0xE2, CHR 0x80, CHR 0x94]"

definition ELLIPSIS :: string where
  "ELLIPSIS = [CHR 0xE2, CHR 0x80, CHR 0xA6]"

definition mask_key :: "string \<Rightarrow> string" where
  "mask_key p =
     (if p = '''' then DASH
      else if length p > 12 then take 6 p @ ELLIPSIS @ drop (length p - 4) p
      else ''***'')"

definition encrypt_for_storage :: "key_env \<Rightarrow> string \<Rightarrow> string py" where
  "encrypt_for_storage e v =
     (if v = '''' then Inr ''''
      else case ke_fernet e of
             None \<Rightarrow> if tagged v then Inr v else Inl MasterKeyRequired
           | Some f \<Rightarrow> if tagged v then Inr v else Inr (VERSION_PREFIX @ f_encrypt f v))"

definition resolve_api_key :: "key_env \<Rightarrow> string \<Rightarrow> string" where
  "resolve_api_key e raw = decrypt_secret e raw"

section \<open>Lemmas\<close>

lemma tagged_prefix [simp]: "tagged (VERSION_PREFIX @ t)"
  by (simp add: tagged_def)

lemma tagged_not_env: "tagged v \<Longrightarrow> v \<noteq> '''' \<and> resolve_env e v = None"
  by (cases v) (auto simp: tagged_def VERSION_PREFIX_def resolve_env_def)

lemma decrypt_tagged:
  "ke_fernet e = Some f \<Longrightarrow> decrypt_secret e (VERSION_PREFIX @ t) = or_else (f_decrypt f t) ''''"
  using tagged_not_env [of "VERSION_PREFIX @ t" e]
  by (simp add: decrypt_secret_def VERSION_PREFIX_def [THEN arg_cong [where f = "\<lambda>p. p = []"], simplified])

lemma stored_key_resolves:
  assumes "ke_fernet e = Some f" "fernet_ok f" and "encrypt_for_storage e v = Inr t" and "\<not> tagged v"
  shows "resolve_api_key e t = v"
proof (cases "v = ''''")
  case True
  then show ?thesis using assms(3) by (auto simp: encrypt_for_storage_def resolve_api_key_def decrypt_secret_def)
next
  case False
  then have "t = VERSION_PREFIX @ f_encrypt f v" using assms by (simp add: encrypt_for_storage_def)
  then show ?thesis using decrypt_tagged [OF assms(1)] assms(2) by (simp add: resolve_api_key_def fernet_ok_def)
qed

lemma stored_is_tagged: "encrypt_for_storage e v = Inr t \<Longrightarrow> t = '''' \<or> tagged t"
  by (auto simp: encrypt_for_storage_def split: if_splits option.splits)

section \<open>Properties\<close>

text \<open>C28: An API key is stored encrypted or not at all, and what is stored resolves to the key: with a
  master key every new key comes back, storing what is already at rest changes nothing, and
  without one a new key is refused; nothing but tagged ciphertext ever reaches the database.\<close>

theorem keys_encrypted_at_rest:
  assumes "fernet_ok f"
  shows "(if v = '''' then encrypt_for_storage e v = Inr ''''
      else if tagged v then encrypt_for_storage e v = Inr v
      else case ke_fernet e of
             None \<Rightarrow> encrypt_for_storage e v = Inl MasterKeyRequired \<and> encrypt_secret e v = ''''
           | Some _ \<Rightarrow> encrypt_for_storage e v = Inr (encrypt_secret e v) \<and>
               tagged (encrypt_secret e v) \<and> encrypt_for_storage e (encrypt_secret e v) = Inr (encrypt_secret e v)) \<and>
    (v \<noteq> '''' \<and> \<not> tagged v \<longrightarrow> resolve_api_key (e\<lparr>ke_fernet := Some f\<rparr>) (encrypt_secret (e\<lparr>ke_fernet := Some f\<rparr>) v) = v)"
proof -
  let ?e = "e\<lparr>ke_fernet := Some f\<rparr>"
  have "resolve_api_key ?e (encrypt_secret ?e v) = v" if v: "v \<noteq> ''''" "\<not> tagged v"
  proof -
    have "encrypt_for_storage ?e v = Inr (encrypt_secret ?e v)" using v by (simp add: encrypt_for_storage_def encrypt_secret_def)
    then show ?thesis using stored_key_resolves [OF _ assms] v(2) by simp
  qed
  moreover have "encrypt_for_storage e t = Inr t" if "tagged t" for t
    using that tagged_not_env [of t] by (auto simp: encrypt_for_storage_def split: option.split)
  ultimately show ?thesis
    by (auto simp: encrypt_for_storage_def encrypt_secret_def split: option.split)
qed

definition plain_fernet :: fernet where
  "plain_fernet = \<lparr>f_encrypt = rev, f_decrypt = (\<lambda>t. Some (rev t))\<rparr>"

theorem keys_encrypted_at_rest_witness:
  "encrypt_for_storage \<lparr>ke_fernet = None, ke_getenv = (\<lambda>_. None)\<rparr> ''sk-1'' = Inl MasterKeyRequired \<and>
   resolve_api_key \<lparr>ke_fernet = Some plain_fernet, ke_getenv = (\<lambda>_. None)\<rparr>
     (encrypt_secret \<lparr>ke_fernet = Some plain_fernet, ke_getenv = (\<lambda>_. None)\<rparr> ''sk-1'') = ''sk-1''"
proof -
  have ok: "fernet_ok plain_fernet" by (simp add: fernet_ok_def plain_fernet_def)
  have t: "\<not> tagged ''sk-1''" by (simp add: tagged_def VERSION_PREFIX_def)
  show ?thesis
    using keys_encrypted_at_rest [OF ok, of "''sk-1''" "\<lparr>ke_fernet = None, ke_getenv = (\<lambda>_. None)\<rparr>"] t by simp
qed

text \<open>The display reveals at most ten characters of a key, and none of a key of up to twelve.\<close>

lemma mask_reveals_little:
  "(length p \<le> 12 \<and> p \<noteq> '''' \<longrightarrow> mask_key p = ''***'') \<and>
   (12 < length p \<longrightarrow> (\<exists>a b. mask_key p = a @ ELLIPSIS @ b \<and> length a = 6 \<and> length b = 4))"
  by (rule conjI, simp add: mask_key_def, rule impI, rule exI [of _ "take 6 p"], rule exI [of _ "drop (length p - 4) p"])
    (auto simp: mask_key_def)

end
