(* ===== verification/Presets.thy ===== *)
theory Presets imports Keys Users "HOL-Library.Product_Lexorder" "HOL-Library.Multiset" begin

text \<open>
  The registry of AI presets of \<open>services/db/preset_registry.py\<close>: the rows of
  \<open>ai_presets\<close>, the shared keys of the groups, the hourly usage counters, and the settings of the
  rest of the database. The order in which requests are routed is the order of the fallback
  chain; ranks are changed by renumbering the priorities of a group.
\<close>

section \<open>Tables\<close>

record preset_row =
  p_name :: string
  p_base_url :: string
  p_model :: string
  p_api_key :: string
  p_batch :: int
  p_concurrency :: "int option"
  p_rpm :: "int option"
  p_tpm :: "int option"
  p_daily :: "int option"
  p_timeout :: real
  p_temperature :: real
  p_max_output :: int
  p_emergency :: int
  p_priority :: int
  p_enabled :: int
  p_in_cost :: "real option"
  p_out_cost :: "real option"
  p_in_chain :: int
  p_group :: string
  p_effort :: string

record hourly_row =
  h_preset :: string
  h_bucket :: string
  h_requests :: int
  h_tokens :: int

record ai_db =
  conf :: db
  presets :: "preset_row list"
  groups :: "(string \<times> string) list"
  hourly :: "hourly_row list"

section \<open>Reading\<close>

definition get_presets :: "ai_db \<Rightarrow> preset_row list" where
  "get_presets s = sort_key p_name (presets s)"

definition get_preset :: "ai_db \<Rightarrow> string \<Rightarrow> preset_row option" where
  "get_preset s name = find (\<lambda>r. p_name r = name) (presets s)"

definition head_option :: "'a list \<Rightarrow> 'a option" where
  "head_option xs = (case xs of [] \<Rightarrow> None | x # _ \<Rightarrow> Some x)"

definition first_enabled_name :: "ai_db \<Rightarrow> string option" where
  "first_enabled_name s =
     head_option (map p_name (sort_key (\<lambda>r. (p_priority r, p_name r)) (filter (\<lambda>r. p_enabled r = 1 \<and> p_emergency r = 0) (presets s))))"

text \<open>A stored name counts when its preset exists and is enabled.\<close>

definition usable :: "ai_db \<Rightarrow> string \<Rightarrow> bool" where
  "usable s name \<longleftrightarrow> name \<noteq> '''' \<and> (case get_preset s name of None \<Rightarrow> False | Some p \<Rightarrow> p_enabled p \<noteq> 0)"

definition get_active_preset_name :: "ai_db \<Rightarrow> string" where
  "get_active_preset_name s =
     (let candidate = strip (get_setting (conf s)
            (if get_bool_setting (conf s) ''ai_fallback_active'' False then ''ai_fallback_preset'' else ''ai_primary_preset'') '''')
      in if usable s candidate then candidate else or_else (first_enabled_name s) '''')"

definition get_active_preset :: "ai_db \<Rightarrow> preset_row py" where
  "get_active_preset s =
     (case get_preset s (get_active_preset_name s) of
        Some p \<Rightarrow> if p_enabled p \<noteq> 0 then Inr p
                  else (case Option.bind (first_enabled_name s) (get_preset s) of
                          Some q \<Rightarrow> if p_enabled q \<noteq> 0 then Inr q else Inl NoActivePreset
                        | None \<Rightarrow> Inl NoActivePreset)
      | None \<Rightarrow> (case Option.bind (first_enabled_name s) (get_preset s) of
                    Some q \<Rightarrow> if p_enabled q \<noteq> 0 then Inr q else Inl NoActivePreset
                  | None \<Rightarrow> Inl NoActivePreset))"

definition get_enabled_presets_ordered :: "ai_db \<Rightarrow> preset_row list" where
  "get_enabled_presets_ordered s =
     sort_key (\<lambda>r. (p_emergency r, p_priority r, p_name r)) (filter (\<lambda>r. p_enabled r = 1) (presets s))"

definition get_fallback_chain_presets :: "ai_db \<Rightarrow> preset_row list" where
  "get_fallback_chain_presets s =
     sort_key (\<lambda>r. (p_emergency r, p_priority r, p_name r)) (filter (\<lambda>r. p_enabled r = 1 \<and> p_in_chain r = 1) (presets s))"

section \<open>Writing a preset\<close>

text \<open>\<open>None\<close> for the priority or the enabled flag keeps the stored value, as do missing costs.\<close>

definition overwrite :: "preset_row \<Rightarrow> int option \<Rightarrow> int option \<Rightarrow> preset_row \<Rightarrow> preset_row" where
  "overwrite r prio en old =
     r\<lparr>p_name := p_name old, p_priority := or_else prio (p_priority old), p_enabled := or_else en (p_enabled old),
       p_in_cost := (if p_in_cost r = None then p_in_cost old else p_in_cost r),
       p_out_cost := (if p_out_cost r = None then p_out_cost old else p_out_cost r)\<rparr>"

definition set_preset ::
    "key_env \<Rightarrow> preset_row \<Rightarrow> int option \<Rightarrow> int option \<Rightarrow> string option \<Rightarrow> bool \<Rightarrow> ai_db \<Rightarrow> ai_db py" where
  "set_preset e r prio en previous_name remove_orphaned s =
     (let name = p_name r;
          source = (case previous_name of None \<Rightarrow> name | Some p \<Rightarrow> if p = '''' then name else p);
          renaming = (source \<noteq> name);
          previous = get_preset s source
      in if renaming \<and> get_preset s name \<noteq> None then Inl ValueError
         else py_bind (encrypt_for_storage e (p_api_key r)) (\<lambda>stored.
           let row = r\<lparr>p_api_key := stored\<rparr>;
               ps = (if get_preset s name = None then presets s @ [row\<lparr>p_priority := or_else prio 0, p_enabled := or_else en 1\<rparr>]
                     else update_where (\<lambda>x. p_name x = name) (overwrite row prio en) (presets s));
               ps' = (if renaming then delete_where (\<lambda>x. p_name x = source) ps else ps);
               old_label = (case previous of None \<Rightarrow> '''' | Some p \<Rightarrow> p_group p);
               gs = (if remove_orphaned \<and> old_label \<noteq> '''' \<and> old_label \<noteq> p_group r \<and> (\<forall>x \<in> set ps'. p_group x \<noteq> old_label)
                     then delete_where (\<lambda>g. fst g = old_label) (groups s) else groups s)
           in Inr (s\<lparr>presets := ps', groups := gs\<rparr>)))"

definition set_preset_api_key_batch :: "key_env \<Rightarrow> string list \<Rightarrow> string \<Rightarrow> ai_db \<Rightarrow> ai_db py" where
  "set_preset_api_key_batch e names new_key s =
     py_bind (encrypt_for_storage e new_key) (\<lambda>stored.
       Inr (s\<lparr>presets := update_where (\<lambda>r. p_name r \<in> set names) (\<lambda>r. r\<lparr>p_api_key := stored\<rparr>) (presets s)\<rparr>))"

definition set_preset_group_label_batch :: "string list \<Rightarrow> string \<Rightarrow> ai_db \<Rightarrow> ai_db" where
  "set_preset_group_label_batch names label s =
     s\<lparr>presets := update_where (\<lambda>r. p_name r \<in> set names) (\<lambda>r. r\<lparr>p_group := label\<rparr>) (presets s)\<rparr>"

definition delete_preset :: "string \<Rightarrow> ai_db \<Rightarrow> bool \<times> ai_db" where
  "delete_preset name s =
     (let forget = (\<lambda>key c. if settings c key = Some name then set_setting c key '''' else c)
      in (get_preset s name \<noteq> None,
          s\<lparr>presets := delete_where (\<lambda>r. p_name r = name) (presets s),
            conf := forget ''ai_primary_preset'' (forget ''ai_fallback_preset'' (conf s))\<rparr>))"

definition clone_preset :: "string \<Rightarrow> string \<Rightarrow> ai_db \<Rightarrow> (string \<times> ai_db) py" where
  "clone_preset name new_name s =
     (case get_preset s name of
        None \<Rightarrow> Inl ValueError
      | Some src \<Rightarrow>
          (if get_preset s new_name \<noteq> None then Inl ValueError
           else Inr (new_name, s\<lparr>presets := presets s @ [src\<lparr>p_name := new_name\<rparr>]\<rparr>)))"

definition activate_preset :: "string \<Rightarrow> ai_db \<Rightarrow> bool \<times> ai_db" where
  "activate_preset name s =
     (case get_preset s name of
        None \<Rightarrow> (False, s)
      | Some p \<Rightarrow> if p_enabled p = 0 then (False, s)
                  else (True, s\<lparr>conf := set_setting (conf s) ''ai_primary_preset'' name\<rparr>))"

definition get_preset_cost :: "ai_db \<Rightarrow> string \<Rightarrow> real option \<times> real option" where
  "get_preset_cost s name = (case get_preset s name of None \<Rightarrow> (None, None) | Some p \<Rightarrow> (p_in_cost p, p_out_cost p))"

definition set_preset_priority :: "string \<Rightarrow> int \<Rightarrow> ai_db \<Rightarrow> ai_db" where
  "set_preset_priority name prio s =
     s\<lparr>presets := update_where (\<lambda>r. p_name r = name) (\<lambda>r. r\<lparr>p_priority := prio\<rparr>) (presets s)\<rparr>"

definition set_preset_enabled :: "string \<Rightarrow> bool \<Rightarrow> ai_db \<Rightarrow> ai_db py" where
  "set_preset_enabled name enabled s =
     (if \<not> enabled \<and> count_where (\<lambda>r. p_enabled r = 1 \<and> p_name r \<noteq> name) (presets s) = 0 then Inl ValueError
      else Inr (s\<lparr>presets := update_where (\<lambda>r. p_name r = name) (\<lambda>r. r\<lparr>p_enabled := (if enabled then 1 else 0)\<rparr>) (presets s)\<rparr>))"

definition set_preset_emergency :: "string \<Rightarrow> bool \<Rightarrow> ai_db \<Rightarrow> ai_db" where
  "set_preset_emergency name is_emergency s =
     s\<lparr>presets := update_where (\<lambda>r. p_name r = name) (\<lambda>r. r\<lparr>p_emergency := (if is_emergency then 1 else 0)\<rparr>) (presets s)\<rparr>"

section \<open>Groups and shared keys\<close>

definition get_group_labels :: "ai_db \<Rightarrow> (string \<times> nat) list" where
  "get_group_labels s =
     (let n = (\<lambda>l. count_where (\<lambda>r. p_group r = l) (presets s))
      in sort_key (\<lambda>g. - int (snd g))
           (map (\<lambda>l. (l, n l)) (sort (remdups (filter (\<lambda>l. l \<noteq> '''') (map p_group (presets s)))))))"

definition get_group_key :: "ai_db \<Rightarrow> string \<Rightarrow> string option" where
  "get_group_key s label = map_of (groups s) label"

definition put_group_key :: "string \<Rightarrow> string \<Rightarrow> (string \<times> string) list \<Rightarrow> (string \<times> string) list" where
  "put_group_key label key gs =
     (if map_of gs label = None then gs @ [(label, key)] else map (\<lambda>g. if fst g = label then (label, key) else g) gs)"

definition set_group_key :: "key_env \<Rightarrow> string \<Rightarrow> string \<Rightarrow> ai_db \<Rightarrow> ai_db py" where
  "set_group_key e label api_key s =
     py_bind (encrypt_for_storage e api_key) (\<lambda>stored. Inr (s\<lparr>groups := put_group_key label stored (groups s)\<rparr>))"

definition delete_group_key :: "string \<Rightarrow> ai_db \<Rightarrow> ai_db" where
  "delete_group_key label s = s\<lparr>groups := delete_where (\<lambda>g. fst g = label) (groups s)\<rparr>"

text \<open>\<open>INSERT OR IGNORE\<close>: a key the new label owns stays.\<close>

definition rename_group_label :: "string \<Rightarrow> string \<Rightarrow> ai_db \<Rightarrow> ai_db" where
  "rename_group_label old_label new_label s =
     (if old_label = new_label then s
      else s\<lparr>presets := update_where (\<lambda>r. p_group r = old_label) (\<lambda>r. r\<lparr>p_group := new_label\<rparr>) (presets s),
             groups := delete_where (\<lambda>g. fst g = old_label)
               (case map_of (groups s) old_label of
                  Some k \<Rightarrow> if map_of (groups s) new_label = None then groups s @ [(new_label, k)] else groups s
                | None \<Rightarrow> groups s)\<rparr>)"

definition clear_group_label :: "string \<Rightarrow> ai_db \<Rightarrow> ai_db" where
  "clear_group_label label s =
     s\<lparr>presets := update_where (\<lambda>r. p_group r = label) (\<lambda>r. r\<lparr>p_group := ''''\<rparr>) (presets s),
       groups := delete_where (\<lambda>g. fst g = label) (groups s)\<rparr>"

definition resolve_preset_key :: "key_env \<Rightarrow> ai_db \<Rightarrow> preset_row \<Rightarrow> string" where
  "resolve_preset_key e s p =
     resolve_api_key e
       (if p_api_key p \<noteq> '''' then p_api_key p
        else if p_group p \<noteq> '''' then or_else (get_group_key s (p_group p)) '''' else '''')"

section \<open>Fallback state\<close>

definition set_fallback_active :: "('a clock_scheme) \<Rightarrow> bool \<Rightarrow> string option \<Rightarrow> ai_db \<Rightarrow> ai_db" where
  "set_fallback_active c active fallback s =
     (let d = set_setting (conf s) ''ai_fallback_active'' (if active then ''true'' else ''false'')
      in s\<lparr>conf :=
           (if active then
              (let d1 = set_setting d ''ai_fallback_since'' (stamp_text c (Stamp (utc_now c)))
               in case none_if_empty fallback of None \<Rightarrow> d1 | Some f \<Rightarrow> set_setting d1 ''ai_fallback_preset'' f)
            else set_setting (set_setting d ''ai_fallback_since'' '''') ''ai_consecutive_failures'' ''0'')\<rparr>)"

definition increment_consecutive_failures :: "ai_db \<Rightarrow> int \<times> ai_db" where
  "increment_consecutive_failures s =
     (let (n, d) = increment_setting_via_conn (conf s) ''ai_consecutive_failures'' in (n, s\<lparr>conf := d\<rparr>))"

definition reset_consecutive_failures :: "ai_db \<Rightarrow> ai_db" where
  "reset_consecutive_failures s = s\<lparr>conf := set_setting (conf s) ''ai_consecutive_failures'' ''0''\<rparr>"

record fallback_status =
  fs_active :: bool
  fs_primary :: "string option"
  fs_fallback :: string
  fs_since :: string
  fs_failures :: int

definition get_fallback_status :: "ai_db \<Rightarrow> fallback_status py" where
  "get_fallback_status s =
     (let primary_raw = settings (conf s) ''ai_primary_preset'';
          fallback_value = or_else (settings (conf s) ''ai_fallback_preset'') '''';
          first = first_enabled_name s
      in py_bind (py_int_of (get_setting (conf s) ''ai_consecutive_failures'' ''0'')) (\<lambda>n.
         Inr \<lparr>fs_active = get_bool_setting (conf s) ''ai_fallback_active'' False,
              fs_primary = (case primary_raw of None \<Rightarrow> first | Some p \<Rightarrow> Some p),
              fs_fallback = (if fallback_value \<noteq> '''' then fallback_value else or_else first ''''),
              fs_since = get_setting (conf s) ''ai_fallback_since'' '''', fs_failures = n\<rparr>))"

section \<open>Hourly usage\<close>

definition hour_us :: int where
  "hour_us = 3600000000"

text \<open>\<open>cutoff[:13]\<close>: the day and the hour.\<close>

definition usage_cutoff :: "('a clock_scheme) \<Rightarrow> int \<Rightarrow> string" where
  "usage_cutoff c hours_back = take 13 (stamp_text c (Stamp (utc_now c - hours_back * hour_us)))"

definition usage_of :: "string \<Rightarrow> hourly_row list \<Rightarrow> string \<Rightarrow> int \<times> int" where
  "usage_of cutoff rows name =
     (let mine = filter (\<lambda>h. h_preset h = name \<and> cutoff \<le> h_bucket h) rows
      in (sum_list (map h_requests mine), sum_list (map h_tokens mine)))"

definition get_hourly_usage :: "('a clock_scheme) \<Rightarrow> ai_db \<Rightarrow> string \<Rightarrow> int \<Rightarrow> int \<times> int" where
  "get_hourly_usage c s name hours_back = usage_of (usage_cutoff c hours_back) (hourly s) name"

text \<open>One grouped query: zeros for every name, overwritten by the groups there are.\<close>

definition get_hourly_usage_many :: "('a clock_scheme) \<Rightarrow> ai_db \<Rightarrow> string list \<Rightarrow> int \<Rightarrow> string \<Rightarrow> (int \<times> int) option" where
  "get_hourly_usage_many c s names hours_back =
     (if names = [] then Map.empty
      else let cutoff = usage_cutoff c hours_back;
               found = filter (\<lambda>h. h_preset h \<in> set names \<and> cutoff \<le> h_bucket h) (hourly s)
           in fold (\<lambda>n m. m(n \<mapsto> (sum_list (map h_requests (filter (\<lambda>h. h_preset h = n) found)),
                                   sum_list (map h_tokens (filter (\<lambda>h. h_preset h = n) found)))))
                (remdups (map h_preset found)) (fold (\<lambda>n m. m(n \<mapsto> (0, 0))) names Map.empty))"

definition prune_preset_hourly_usage :: "('a clock_scheme) \<Rightarrow> int \<Rightarrow> ai_db \<Rightarrow> ai_db" where
  "prune_preset_hourly_usage c hours_back s =
     s\<lparr>hourly := delete_where (\<lambda>h. h_bucket h < usage_cutoff c hours_back) (hourly s)\<rparr>"

definition increment_hourly_usage :: "string \<Rightarrow> string \<Rightarrow> int \<Rightarrow> int \<Rightarrow> ai_db \<Rightarrow> ai_db" where
  "increment_hourly_usage name bucket req tok s =
     s\<lparr>hourly :=
        (if count_where (\<lambda>h. h_preset h = name \<and> h_bucket h = bucket) (hourly s) = 0
         then hourly s @ [\<lparr>h_preset = name, h_bucket = bucket, h_requests = req, h_tokens = tok\<rparr>]
         else update_where (\<lambda>h. h_preset h = name \<and> h_bucket h = bucket)
                (\<lambda>h. h\<lparr>h_requests := h_requests h + req, h_tokens := h_tokens h + tok\<rparr>) (hourly s))\<rparr>"

section \<open>Ranks\<close>

definition chain_group :: "bool \<Rightarrow> ai_db \<Rightarrow> preset_row list" where
  "chain_group emergency s =
     sort_key (\<lambda>r. (p_priority r, p_name r))
       (filter (\<lambda>r. p_enabled r = 1 \<and> p_emergency r = (if emergency then 1 else 0) \<and> p_in_chain r = 1) (presets s))"

text \<open>\<open>for i, n in enumerate(names): UPDATE ... SET priority=i WHERE name=n\<close>.\<close>

definition renumber :: "string list \<Rightarrow> preset_row list \<Rightarrow> preset_row list" where
  "renumber names ps =
     fold (\<lambda>(i, n). update_where (\<lambda>r. p_name r = n) (\<lambda>r. r\<lparr>p_priority := int i\<rparr>)) (enumerate 0 names) ps"

definition insert_at :: "nat \<Rightarrow> 'a \<Rightarrow> 'a list \<Rightarrow> 'a list" where
  "insert_at i x xs = take i xs @ x # drop i xs"

definition reindex_preset_priority :: "string \<Rightarrow> int \<Rightarrow> bool \<Rightarrow> ai_db \<Rightarrow> ai_db py" where
  "reindex_preset_priority name target_rank emergency s =
     (let names = map p_name (chain_group emergency s)
      in if \<not> (1 \<le> target_rank \<and> target_rank \<le> int (length names)) then Inl ValueError
         else if name \<notin> set names then Inl ValueError
         else if names ! nat (target_rank - 1) = name then Inr s
         else Inr (s\<lparr>presets := renumber (insert_at (nat (target_rank - 1)) name (remove1 name names)) (presets s)\<rparr>))"

definition insert_preset_at_rank :: "string \<Rightarrow> int \<Rightarrow> bool \<Rightarrow> ai_db \<Rightarrow> ai_db py" where
  "insert_preset_at_rank name target_rank as_emergency s =
     (let names = filter (\<lambda>n. n \<noteq> name) (map p_name (chain_group as_emergency s))
      in if \<not> (0 \<le> target_rank \<and> target_rank \<le> int (length names)) then Inl ValueError
         else Inr (s\<lparr>presets := renumber (insert_at (nat target_rank) name names) (presets s)\<rparr>))"

section \<open>Renumbering\<close>

definition position :: "'a \<Rightarrow> 'a list \<Rightarrow> nat" where
  "position x xs = length (takeWhile (\<lambda>y. y \<noteq> x) xs)"

lemma position_Cons: "position x (y # ys) = (if x = y then 0 else Suc (position x ys))"
  by (auto simp: position_def)

lemma nth_position: "x \<in> set xs \<Longrightarrow> position x xs < length xs \<and> xs ! position x xs = x"
  by (induction xs) (auto simp: position_Cons)

lemma position_nth: "distinct xs \<Longrightarrow> i < length xs \<Longrightarrow> position (xs ! i) xs = i"
  by (metis nth_eq_iff_index_eq nth_mem nth_position)

lemma map_position: "distinct xs \<Longrightarrow> map (\<lambda>x. position x xs) xs = [0 ..< length xs]"
  by (rule nth_equalityI) (simp_all add: position_nth)

lemma renumber_enumerate:
  "distinct names \<Longrightarrow>
   fold (\<lambda>(i, n). update_where (\<lambda>r. p_name r = n) (\<lambda>r. r\<lparr>p_priority := int i\<rparr>)) (enumerate k names) ps =
   map (\<lambda>r. if p_name r \<in> set names then r\<lparr>p_priority := int (k + position (p_name r) names)\<rparr> else r) ps"
proof (induction names arbitrary: k ps)
  case (Cons n names)
  then have d: "distinct names" "n \<notin> set names" by auto
  show ?case
    unfolding enumerate_simps fold_Cons comp_def prod.case Cons.IH [OF d(1)]
    by (auto simp: update_where_def position_Cons d(2))
qed simp

lemma renumber_eq:
  "distinct names \<Longrightarrow>
   renumber names ps = map (\<lambda>r. if p_name r \<in> set names then r\<lparr>p_priority := int (position (p_name r) names)\<rparr> else r) ps"
  using renumber_enumerate [of names 0 ps] by (simp add: renumber_def)

definition in_group :: "bool \<Rightarrow> preset_row \<Rightarrow> bool" where
  "in_group emergency r \<longleftrightarrow> p_enabled r = 1 \<and> p_emergency r = (if emergency then 1 else 0) \<and> p_in_chain r = 1"

lemma chain_group_eq: "chain_group emergency s = sort_key (\<lambda>r. (p_priority r, p_name r)) (filter (in_group emergency) (presets s))"
  unfolding chain_group_def by (intro arg_cong [where f = "sort_key _"] filter_cong) (auto simp: in_group_def)

definition names_ok :: "ai_db \<Rightarrow> bool" where
  "names_ok s \<longleftrightarrow> distinct (map p_name (presets s))"

lemma group_names:
  assumes "names_ok s"
  shows "distinct (map p_name (chain_group e s))" and "set (map p_name (chain_group e s)) = p_name ` set (filter (in_group e) (presets s))"
  using assms by (simp_all add: chain_group_eq names_ok_def distinct_map inj_on_def)

lemma distinct_map_sort_key: "distinct (map f (sort_key k xs)) = distinct (map f xs)"
  by (simp add: distinct_map)

text \<open>A renumbered group stands in the order of the names.\<close>

lemma renumbered_group:
  assumes "names_ok s" and "distinct names" and "p_name ` set (filter (in_group e) (presets s)) \<subseteq> set names"
  shows "map p_name (chain_group e (s\<lparr>presets := renumber names (presets s)\<rparr>)) =
    filter (\<lambda>n. n \<in> p_name ` set (filter (in_group e) (presets s))) names"
proof -
  let ?u = "\<lambda>r. if p_name r \<in> set names then r\<lparr>p_priority := int (position (p_name r) names)\<rparr> else r"
  let ?g = "filter (in_group e) (presets s)"
  let ?f = "\<lambda>r. (p_priority r, p_name r)"
  let ?zs = "sort_key ?f (map ?u ?g)"
  let ?N = "p_name ` set ?g"
  have un: "p_name (?u r) = p_name r" for r by simp
  have "filter (in_group e) (map ?u (presets s)) = map ?u ?g"
    unfolding filter_map comp_def by (intro arg_cong [where f = "map ?u"] filter_cong) (auto simp: in_group_def)
  then have g: "chain_group e (s\<lparr>presets := renumber names (presets s)\<rparr>) = ?zs"
    by (simp add: chain_group_eq renumber_eq [OF assms(2)])
  have mm: "map p_name (map ?u ?g) = map p_name ?g" unfolding map_map comp_def un ..
  have zset: "set (map p_name ?zs) = ?N" using mm [THEN arg_cong [where f = set]] by (simp del: map_map)
  have "distinct (map p_name (presets s))" using assms(1) by (simp add: names_ok_def)
  then have "distinct (map p_name ?g)" by (simp add: distinct_map_filter)
  then have "distinct (map p_name (map ?u ?g))" unfolding mm .
  then have zdis: "distinct (map p_name ?zs)" by (simp only: distinct_map_sort_key)
  have prio: "p_priority r = int (position (p_name r) names)" if "r \<in> set ?zs" for r
    using that assms(3) by auto
  have sorted: "sorted (map (\<lambda>n. position n names) (map p_name ?zs))"
  proof -
    have "sorted (map ?f ?zs)" by (rule sorted_sort_key)
    then have "sorted (map p_priority ?zs)"
      unfolding sorted_map by (rule sorted_wrt_mono_rel [rotated]) (auto simp: less_eq_prod_def)
    then have "sorted (map (\<lambda>r. int (position (p_name r) names)) ?zs)"
      using prio by (metis (no_types, lifting) map_cong)
    then show ?thesis by (simp add: sorted_map)
  qed
  let ?ns = "filter (\<lambda>n. n \<in> ?N) names"
  have inj: "inj_on (\<lambda>n. position n names) (set names)" by (metis (no_types, lifting) inj_onI nth_position)
  have nset: "set ?ns = ?N" using assms(3) by auto
  have sub: "?N \<subseteq> set names" by (rule assms(3))
  have nsorted: "sorted (map (\<lambda>n. position n names) ?ns)"
  proof -
    have "sorted (map (\<lambda>n. position n names) names)" unfolding map_position [OF assms(2)] by simp
    then show ?thesis by (rule sorted_filter)
  qed
  have "map (\<lambda>n. position n names) (map p_name ?zs) = map (\<lambda>n. position n names) ?ns"
  proof (rule sorted_distinct_set_unique [OF sorted _ nsorted])
    show "distinct (map (\<lambda>n. position n names) (map p_name ?zs))"
      unfolding distinct_map [of "\<lambda>n. position n names"] using zdis zset inj sub by (metis inj_on_subset)
    show "distinct (map (\<lambda>n. position n names) ?ns)"
      unfolding distinct_map [of "\<lambda>n. position n names"] using assms(2) nset inj sub by (metis distinct_filter inj_on_subset)
    show "set (map (\<lambda>n. position n names) (map p_name ?zs)) = set (map (\<lambda>n. position n names) ?ns)"
      unfolding set_map [of "\<lambda>n. position n names"] zset nset ..
  qed
  then have "map p_name ?zs = ?ns"
    by (rule map_inj_on) (use zset nset sub inj in \<open>metis Un_absorb inj_on_subset\<close>)
  then show ?thesis unfolding g .
qed

lemma set_insert_at: "set (insert_at i x xs) = insert x (set xs)"
  unfolding insert_at_def using append_take_drop_id [of i xs] by (metis Un_insert_right list.simps(15) set_append)

lemma distinct_insert_at: "distinct xs \<Longrightarrow> x \<notin> set xs \<Longrightarrow> distinct (insert_at i x xs)"
  by (auto simp: insert_at_def distinct_append set_take_disj_set_drop_if_distinct dest: in_set_takeD in_set_dropD)

lemma in_group_priority [simp]: "in_group e (r\<lparr>p_priority := x\<rparr>) = in_group e r"
  by (simp add: in_group_def)

lemma renumber_outside:
  assumes "distinct ns" and "\<And>r. r \<in> set ps \<Longrightarrow> \<not> in_group e r \<Longrightarrow> p_name r \<notin> set ns"
  shows "filter (\<lambda>r. \<not> in_group e r) (renumber ns ps) = filter (\<lambda>r. \<not> in_group e r) ps"
  unfolding renumber_eq [OF assms(1)] using assms(2)
proof (induction ps)
  case (Cons r ps)
  have "p_name r \<notin> set ns" if "\<not> in_group e r" using Cons.prems [of r] that by simp
  moreover have "filter (\<lambda>r. \<not> in_group e r) (map (\<lambda>r. if p_name r \<in> set ns then r\<lparr>p_priority := int (position (p_name r) ns)\<rparr> else r) ps) =
      filter (\<lambda>r. \<not> in_group e r) ps"
    by (rule Cons.IH) (rule Cons.prems, auto)
  ultimately show ?case by (cases "in_group e r") simp_all
qed simp

section \<open>Properties\<close>

text \<open>Re-ranking puts a preset where it was asked and disturbs nothing else: the group's chain
  becomes the old one with the preset moved to the target rank, the others keep their relative
  order, no preset outside the group changes, and a rank out of range or a preset that is not in
  the group is refused.\<close>

theorem reindex_moves_one:
  assumes "names_ok s"
  shows "case reindex_preset_priority name rank e s of
      Inl err \<Rightarrow> err = ValueError \<and> (rank < 1 \<or> int (length (chain_group e s)) < rank \<or> name \<notin> p_name ` set (chain_group e s))
    | Inr s' \<Rightarrow> map p_name (chain_group e s') = insert_at (nat (rank - 1)) name (remove1 name (map p_name (chain_group e s))) \<and>
        map p_name (chain_group e s') ! nat (rank - 1) = name \<and>
        filter (\<lambda>r. \<not> in_group e r) (presets s') = filter (\<lambda>r. \<not> in_group e r) (presets s)"
proof -
  let ?names = "map p_name (chain_group e s)"
  note gn = group_names [OF assms, of e]
  show ?thesis
  proof (cases "1 \<le> rank \<and> rank \<le> int (length ?names) \<and> name \<in> set ?names")
    case False
    then show ?thesis by (auto simp: reindex_preset_priority_def Let_def)
  next
    case True
    let ?k = "nat (rank - 1)" and ?ns = "insert_at (nat (rank - 1)) name (remove1 name ?names)"
    have k: "?k < length ?names" using True by linarith
    have len: "?k \<le> length (remove1 name ?names)" using k True by (simp add: length_remove1)
    have at: "?ns ! ?k = name" using len by (simp add: insert_at_def nth_append)
    have dis: "distinct ?ns" using gn(1) by (intro distinct_insert_at) (auto simp: set_remove1_eq)
    have set: "set ?ns = set ?names" using True gn(1) by (auto simp: set_insert_at set_remove1_eq)
    show ?thesis
    proof (cases "?names ! ?k = name")
      case stay: True
      have "remove1 name ?names = take ?k ?names @ drop (Suc ?k) ?names"
        using remove1_split [of name ?names] id_take_nth_drop [OF k] stay gn(1)
        by (metis distinct_append distinct.simps(2) disjoint_insert(1) list.set(2) remove1.simps(2) remove1_append)
      then have "?ns = ?names"
        using k id_take_nth_drop [OF k] stay by (simp add: insert_at_def min_absorb2)
      then show ?thesis using True stay by (simp add: reindex_preset_priority_def Let_def)
    next
      case False
      let ?s' = "s\<lparr>presets := renumber ?ns (presets s)\<rparr>"
      have r: "reindex_preset_priority name rank e s = Inr ?s'"
        using True False by (simp add: reindex_preset_priority_def Let_def)
      have all: "p_name ` set (filter (in_group e) (presets s)) = set ?ns" using set gn(2) by simp
      have "map p_name (chain_group e ?s') = filter (\<lambda>n. n \<in> set ?ns) ?ns"
        using renumbered_group [OF assms dis, of e] all by simp
      then have chain: "map p_name (chain_group e ?s') = ?ns" by simp
      have out: "p_name r \<notin> set ?ns" if "r \<in> set (presets s)" "\<not> in_group e r" for r
      proof
        assume "p_name r \<in> set ?ns"
        then have "p_name r \<in> p_name ` set (filter (in_group e) (presets s))" unfolding all .
        then obtain q where "q \<in> set (presets s)" "in_group e q" "p_name q = p_name r" by auto
        then show False using that assms by (auto simp: names_ok_def distinct_map dest: inj_onD)
      qed
      have "filter (\<lambda>r. \<not> in_group e r) (presets ?s') = filter (\<lambda>r. \<not> in_group e r) (presets s)"
        using renumber_outside [OF dis out] by simp
      then show ?thesis unfolding r using chain at by simp
    qed
  qed
qed

definition sample_preset :: "string \<Rightarrow> int \<Rightarrow> int \<Rightarrow> preset_row" where
  "sample_preset n prio en =
     \<lparr>p_name = n, p_base_url = '''', p_model = '''', p_api_key = '''', p_batch = 6, p_concurrency = Some 2, p_rpm = Some 30,
      p_tpm = Some 0, p_daily = Some 0, p_timeout = 30, p_temperature = 1, p_max_output = 4096, p_emergency = 0,
      p_priority = prio, p_enabled = en, p_in_cost = None, p_out_cost = None, p_in_chain = 1, p_group = '''', p_effort = ''none''\<rparr>"

definition three_presets :: ai_db where
  "three_presets = \<lparr>conf = empty_db, presets = [sample_preset ''a'' 0 1, sample_preset ''b'' 0 1, sample_preset ''c'' 5 1],
     groups = [], hourly = []\<rparr>"

lemma three_presets_names: "names_ok three_presets"
  by (simp add: names_ok_def three_presets_def sample_preset_def)

lemma three_presets_chain: "map p_name (chain_group False three_presets) = [''a'', ''b'', ''c'']"
  by (simp add: chain_group_def three_presets_def sample_preset_def less_eq_prod_def)

theorem reindex_moves_one_witness:
  "\<exists>s'. reindex_preset_priority ''c'' 1 False three_presets = Inr s' \<and> map p_name (chain_group False s') = [''c'', ''a'', ''b'']"
proof -
  obtain s' where r: "reindex_preset_priority ''c'' 1 False three_presets = Inr s'"
    by (simp add: reindex_preset_priority_def three_presets_chain)
  then show ?thesis
    using reindex_moves_one [OF three_presets_names, where name = "''c''" and rank = 1 and e = False] three_presets_chain by (simp add: insert_at_def)
qed

lemma filter_insert_at: "filter (\<lambda>n. n \<noteq> x) (insert_at i x xs) = filter (\<lambda>n. n \<noteq> x) xs"
  by (simp add: insert_at_def) (metis append_take_drop_id filter_append)

lemma count_where_pos: "0 < count_where p rs \<longleftrightarrow> (\<exists>r \<in> set rs. p r)"
  using count_where_0_iff [of p rs] by auto

text \<open>A new preset takes the rank it was given, at once or when it is switched on: inserting it at a
  rank of its group and enabling it gives the chain of the other members with the preset at
  exactly that rank; until then the others keep their order.\<close>

theorem inserted_preset_takes_rank:
  assumes "names_ok s" and "get_preset s name = Some p" "p_emergency p = (if e then 1 else 0)" "p_in_chain p = 1"
    and "insert_preset_at_rank name rank e s = Inr s'" and "set_preset_enabled name True s' = Inr s2"
  shows "map p_name (chain_group e s2) = insert_at (nat rank) name (filter (\<lambda>n. n \<noteq> name) (map p_name (chain_group e s))) \<and>
    filter (\<lambda>n. n \<noteq> name) (map p_name (chain_group e s')) = filter (\<lambda>n. n \<noteq> name) (map p_name (chain_group e s))"
proof -
  let ?others = "filter (\<lambda>n. n \<noteq> name) (map p_name (chain_group e s))"
  let ?ns = "insert_at (nat rank) name ?others"
  have rank: "nat rank \<le> length ?others" and s': "s' = s\<lparr>presets := renumber ?ns (presets s)\<rparr>"
    using assms(5) by (auto simp: insert_preset_at_rank_def Let_def split: if_splits)
  note gn = group_names [OF assms(1), of e]
  have dis: "distinct ?ns" using gn(1) by (intro distinct_insert_at) auto
  have setns: "set ?ns = insert name (p_name ` set (filter (in_group e) (presets s)))"
    unfolding set_insert_at using gn(2) by auto
  have chain': "map p_name (chain_group e s') = filter (\<lambda>n. n \<in> p_name ` set (filter (in_group e) (presets s))) ?ns"
    unfolding s' by (rule renumbered_group [OF assms(1) dis]) (use setns in blast)
  have keep: "filter (\<lambda>n. n \<noteq> name) ?ns = ?others"
    unfolding filter_insert_at by simp
  let ?en = "update_where (\<lambda>r. p_name r = name) (\<lambda>r. r\<lparr>p_enabled := 1\<rparr>)"
  let ?t = "s\<lparr>presets := ?en (presets s)\<rparr>"
  have s2: "s2 = ?t\<lparr>presets := renumber ?ns (presets ?t)\<rparr>"
    using assms(6) dis by (auto simp: set_preset_enabled_def s' renumber_eq update_where_def)
  have tnames: "names_ok ?t" using assms(1) by (simp add: names_ok_def map_update_where)
  have mem: "p \<in> set (presets s)" "p_name p = name" using assms(2) find_Some_D by (fastforce simp: get_preset_def)+
  have uniq: "r = p" if "r \<in> set (presets s)" "p_name r = name" for r
    using assms(1) that mem by (auto simp: names_ok_def distinct_map dest: inj_onD)
  have tg: "p_name ` set (filter (in_group e) (presets ?t)) = set ?ns"
  proof -
    have en: "in_group e (p\<lparr>p_enabled := 1\<rparr>)" using assms(3,4) by (simp add: in_group_def)
    have rows: "set (presets ?t) = {if p_name r = name then r\<lparr>p_enabled := 1\<rparr> else r | r. r \<in> set (presets s)}"
      by (simp add: set_update_where)
    show ?thesis unfolding setns
    proof (intro equalityI subsetI)
      fix n assume "n \<in> p_name ` set (filter (in_group e) (presets ?t))"
      then obtain r where "r \<in> set (presets s)" "in_group e (if p_name r = name then r\<lparr>p_enabled := 1\<rparr> else r)"
        "n = p_name (if p_name r = name then r\<lparr>p_enabled := 1\<rparr> else r)" using rows by auto
      then show "n \<in> insert name (p_name ` set (filter (in_group e) (presets s)))" by (cases "p_name r = name") auto
    next
      fix n assume n: "n \<in> insert name (p_name ` set (filter (in_group e) (presets s)))"
      have "\<exists>r \<in> set (presets ?t). in_group e r \<and> p_name r = n"
      proof (cases "n = name")
        case True
        have "p\<lparr>p_enabled := 1\<rparr> \<in> set (presets ?t)" unfolding rows using mem by force
        then show ?thesis using en mem(2) True by force
      next
        case False
        then obtain r where "r \<in> set (presets s)" "in_group e r" "p_name r = n" using n by auto
        then show ?thesis unfolding rows using False by force
      qed
      then show "n \<in> p_name ` set (filter (in_group e) (presets ?t))" by auto
    qed
  qed
  have "map p_name (chain_group e s2) = filter (\<lambda>n. n \<in> set ?ns) ?ns"
    unfolding s2 using renumbered_group [OF tnames dis, of e] tg by simp
  then have "map p_name (chain_group e s2) = ?ns" by simp
  moreover have "filter (\<lambda>n. n \<noteq> name) (map p_name (chain_group e s')) = ?others"
  proof -
    have "filter (\<lambda>n. n \<noteq> name) (map p_name (chain_group e s')) =
        filter (\<lambda>n. n \<in> p_name ` set (filter (in_group e) (presets s))) (filter (\<lambda>n. n \<noteq> name) ?ns)"
      unfolding chain' filter_filter by (rule filter_cong) auto
    also have "\<dots> = ?others" unfolding keep
    proof (rule filter_True)
      show "\<forall>n \<in> set ?others. n \<in> p_name ` set (filter (in_group e) (presets s))" unfolding gn(2) [symmetric] by simp
    qed
    finally show ?thesis .
  qed
  ultimately show ?thesis by blast
qed

theorem inserted_preset_takes_rank_witness:
  "\<exists>s' s2. insert_preset_at_rank ''c'' 1 False three_presets = Inr s' \<and> set_preset_enabled ''c'' True s' = Inr s2 \<and>
     map p_name (chain_group False s2) = [''a'', ''c'', ''b'']"
proof -
  obtain s' where r: "insert_preset_at_rank ''c'' 1 False three_presets = Inr s'"
    by (simp add: insert_preset_at_rank_def three_presets_chain)
  obtain s2 where r2: "set_preset_enabled ''c'' True s' = Inr s2" by (simp add: set_preset_enabled_def)
  have p: "get_preset three_presets ''c'' = Some (sample_preset ''c'' 5 1)"
    by (simp add: get_preset_def three_presets_def sample_preset_def)
  show ?thesis
    using inserted_preset_takes_rank [OF three_presets_names p _ _ r r2] r r2
    by (simp add: three_presets_chain insert_at_def sample_preset_def)
qed

text \<open>Switching presets off never leaves none on: the switch is refused exactly when no other preset
  is enabled, and after every switch that is carried out some preset is enabled, unless none was
  before and the name does not exist.\<close>

theorem last_enabled_preset_stays:
  assumes "names_ok s"
  shows "(set_preset_enabled name False s = Inl ValueError) = (\<forall>r \<in> set (presets s). p_enabled r = 1 \<longrightarrow> p_name r = name) \<and>
    (\<forall>b s'. set_preset_enabled name b s = Inr s' \<and> (b \<longrightarrow> (\<exists>r \<in> set (presets s). p_enabled r = 1 \<or> p_name r = name)) \<longrightarrow>
       (\<exists>r \<in> set (presets s'). p_enabled r = 1))"
proof -
  have some_off: "\<exists>r \<in> set (presets s'). p_enabled r = 1"
    if off: "set_preset_enabled name False s = Inr s'" for s'
  proof -
    obtain r where r: "r \<in> set (presets s)" "p_enabled r = 1" "p_name r \<noteq> name"
      using off by (auto simp: set_preset_enabled_def count_where_pos split: if_splits)
    then have "r \<in> set (presets s')" using off by (force simp: set_preset_enabled_def set_update_where split: if_splits)
    then show ?thesis using r(2) by blast
  qed
  have some_on: "\<exists>r \<in> set (presets s'). p_enabled r = 1"
    if on: "set_preset_enabled name True s = Inr s'" "r \<in> set (presets s)" "p_enabled r = 1 \<or> p_name r = name" for s' r
  proof -
    have "(if p_name r = name then r\<lparr>p_enabled := 1\<rparr> else r) \<in> set (presets s')"
      using on by (auto simp: set_preset_enabled_def update_where_def)
    then show ?thesis by (rule bexI [rotated]) (use on(3) in auto)
  qed
  have "(set_preset_enabled name False s = Inl ValueError) = (\<forall>r \<in> set (presets s). p_enabled r = 1 \<longrightarrow> p_name r = name)"
    using count_where_0_iff [of "\<lambda>r. p_enabled r = 1 \<and> p_name r \<noteq> name" "presets s"] by (auto simp: set_preset_enabled_def)
  moreover have "\<exists>r \<in> set (presets s'). p_enabled r = 1"
    if "set_preset_enabled name b s = Inr s'" "b \<longrightarrow> (\<exists>r \<in> set (presets s). p_enabled r = 1 \<or> p_name r = name)" for b s'
  proof (cases b)
    case True
    then show ?thesis using that some_on by auto
  next
    case False
    then show ?thesis using that some_off by auto
  qed
  ultimately show ?thesis by blast
qed

theorem last_enabled_preset_stays_witness:
  "set_preset_enabled ''a'' False (three_presets\<lparr>presets := [sample_preset ''a'' 0 1, sample_preset ''b'' 0 0]\<rparr>) = Inl ValueError"
  using last_enabled_preset_stays [of "three_presets\<lparr>presets := [sample_preset ''a'' 0 1, sample_preset ''b'' 0 0]\<rparr>" "''a''"]
  by (simp add: names_ok_def sample_preset_def)


text \<open>The batched usage read agrees with the single one for every name asked, and gives no other
  name; recording a request adds it to its preset's window and to no other preset's.\<close>

theorem usage_many_agrees:
  assumes distinct_keys: "distinct (map (\<lambda>h. (h_preset h, h_bucket h)) (hourly s))"
  shows "get_hourly_usage_many c s names hours n =
     (if n \<in> set names then Some (get_hourly_usage c s n hours) else None) \<and>
   get_hourly_usage c (increment_hourly_usage m bucket req tok s) n hours =
     (if n = m \<and> usage_cutoff c hours \<le> bucket
      then (fst (get_hourly_usage c s n hours) + req, snd (get_hourly_usage c s n hours) + tok)
      else get_hourly_usage c s n hours)"
proof -
  let ?cut = "usage_cutoff c hours"
  let ?found = "filter (\<lambda>h. h_preset h \<in> set names \<and> ?cut \<le> h_bucket h) (hourly s)"
  have init: "fold (\<lambda>n m. m(n \<mapsto> (0, 0))) ns M n = (if n \<in> set ns then Some (0, 0) else M n)" for ns :: "string list" and M
    by (induction ns arbitrary: M) auto
  have over: "fold (\<lambda>n m. m(n \<mapsto> f n)) ns M n = (if n \<in> set ns then Some (f n) else M n)"
    for ns :: "string list" and M and f :: "string \<Rightarrow> int \<times> int"
    by (induction ns arbitrary: M) auto
  have mine: "filter (\<lambda>h. h_preset h = n) ?found = filter (\<lambda>h. h_preset h = n \<and> ?cut \<le> h_bucket h) (hourly s)" if "n \<in> set names"
    unfolding filter_filter using that by (intro filter_cong) auto
  have none: "n \<notin> h_preset ` set ?found \<Longrightarrow> n \<in> set names \<Longrightarrow> filter (\<lambda>h. h_preset h = n \<and> ?cut \<le> h_bucket h) (hourly s) = []"
    by (auto simp: filter_empty_conv)
  have many: "get_hourly_usage_many c s names hours n = (if n \<in> set names then Some (get_hourly_usage c s n hours) else None)"
  proof (cases "names = []")
    case True
    then show ?thesis by (simp add: get_hourly_usage_many_def)
  next
    case False
    then show ?thesis
      unfolding get_hourly_usage_many_def get_hourly_usage_def usage_of_def Let_def
      by (simp only: if_False over init) (use mine none in \<open>auto simp: image_iff\<close>)
  qed
  have one: "usage_of ?cut (hourly (increment_hourly_usage m bucket req tok s)) n =
     (if n = m \<and> ?cut \<le> bucket then (fst (usage_of ?cut (hourly s) n) + req, snd (usage_of ?cut (hourly s) n) + tok)
      else usage_of ?cut (hourly s) n)"
  proof (cases "count_where (\<lambda>h. h_preset h = m \<and> h_bucket h = bucket) (hourly s) = 0")
    case True
    then show ?thesis by (simp add: increment_hourly_usage_def usage_of_def Let_def)
  next
    case False
    let ?p = "\<lambda>h. h_preset h = m \<and> h_bucket h = bucket"
    let ?f = "\<lambda>h. h\<lparr>h_requests := h_requests h + req, h_tokens := h_tokens h + tok\<rparr>"
    have "\<exists>h \<in> set (hourly s). ?p h" using False by (simp add: count_where_pos)
    then obtain h xs ys where split: "hourly s = xs @ h # ys" and h: "h_preset h = m" "h_bucket h = bucket"
      by (meson split_list)
    have rest: "\<not> ?p x" if "x \<in> set xs \<union> set ys" for x
      using distinct_keys h that unfolding split by (auto simp: image_iff)
    have id: "update_where ?p ?f zs = zs" if zs: "set zs \<subseteq> set xs \<union> set ys" for zs
      unfolding update_where_def
    proof (rule map_idI)
      fix x assume "x \<in> set zs"
      then have "\<not> ?p x" using zs rest by blast
      then show "(if ?p x then ?f x else x) = x" by (rule if_not_P)
    qed
    have same: "update_where ?p ?f xs = xs" "update_where ?p ?f ys = ys" by (rule id, simp)+
    have upd: "hourly (increment_hourly_usage m bucket req tok s) = xs @ ?f h # ys"
      using False same h by (simp add: increment_hourly_usage_def split update_where_def)
    show ?thesis unfolding upd split usage_of_def Let_def using h by auto
  qed
  show ?thesis using many one by (simp add: get_hourly_usage_def)
qed

theorem usage_many_agrees_witness:
  "get_hourly_usage_many (clock_at 0 (2026, 1, 1)) three_presets [''a''] 24 ''a'' = Some (0, 0) \<and>
   get_hourly_usage (clock_at 0 (2026, 1, 1)) (increment_hourly_usage ''a'' ''2026-01-01T05:00:00'' 1 70 three_presets) ''a'' 24 = (1, 70)"
proof -
  let ?c = "clock_at 0 (2026, 1, 1)"
  have d: "distinct (map (\<lambda>h. (h_preset h, h_bucket h)) (hourly three_presets))" by (simp add: three_presets_def)
  have u: "get_hourly_usage ?c three_presets ''a'' 24 = (0, 0)" by (simp add: get_hourly_usage_def usage_of_def three_presets_def)
  have "isoformat (2026, Suc 0, Suc 0) = ''2026-01-01''" by code_simp
  then have cut: "usage_cutoff ?c 24 = ''2026-01-01T00''"
    by (simp add: usage_cutoff_def clock_at_def stamp_text.simps del: isoformat.simps)
  have "''2026-01-01T00'' \<le> ''2026-01-01T05:00:00''" by code_simp
  then show ?thesis
    using usage_many_agrees [OF d, of ?c "[''a'']" 24 "''a''" "''a''" "''2026-01-01T05:00:00''" 1 70] u unfolding cut by simp
qed

text \<open>C22: Renaming a group label keeps every key resolvable: presets without a key of their own resolve
  after it to what they resolved to before, except that members of the renamed group take the key
  of the new label where that label already owns one, and members of a new label that owns none
  get the key that moves to it.\<close>

theorem rename_group_keeps_keys:
  assumes "new_label \<noteq> ''''" and "old_label \<noteq> ''''" "old_label \<noteq> new_label" and "p \<in> set (presets s)"
  shows "let s' = rename_group_label old_label new_label s;
             p' = (if p_group p = old_label then p\<lparr>p_group := new_label\<rparr> else p)
    in p' \<in> set (presets s') \<and>
       resolve_preset_key e s' p' =
         (if p_api_key p = '''' \<and> p_group p = old_label \<and> get_group_key s new_label \<noteq> None
          then resolve_api_key e (the (get_group_key s new_label))
          else if p_api_key p = '''' \<and> p_group p = new_label \<and> get_group_key s new_label = None
          then resolve_api_key e (or_else (get_group_key s old_label) '''')
          else resolve_preset_key e s p)"
proof -
  let ?s' = "rename_group_label old_label new_label s"
  let ?p' = "if p_group p = old_label then p\<lparr>p_group := new_label\<rparr> else p"
  have del: "map_of (delete_where (\<lambda>g. fst g = old_label) gs) l = (if l = old_label then None else map_of gs l)"
    for gs :: "(string \<times> string) list" and l
    by (induction gs) (auto simp: delete_where_def)
  have key: "get_group_key ?s' l =
      (if l = old_label then None
       else if l = new_label \<and> get_group_key s new_label = None then get_group_key s old_label
       else get_group_key s l)" for l
    using assms(3) by (auto simp: rename_group_label_def get_group_key_def del map_add_def split: option.split)
  have "?p' \<in> set (presets ?s')"
    using assms(3,4) by (auto simp: rename_group_label_def update_where_def)
  moreover have "resolve_preset_key e ?s' ?p' =
         (if p_api_key p = '''' \<and> p_group p = old_label \<and> get_group_key s new_label \<noteq> None
          then resolve_api_key e (the (get_group_key s new_label))
          else if p_api_key p = '''' \<and> p_group p = new_label \<and> get_group_key s new_label = None
          then resolve_api_key e (or_else (get_group_key s old_label) '''')
          else resolve_preset_key e s p)"
    using assms(1-3) by (auto simp: resolve_preset_key_def key)
  ultimately show ?thesis unfolding Let_def by blast
qed

theorem rename_group_keeps_keys_witness:
  "resolve_preset_key \<lparr>ke_fernet = None, ke_getenv = (\<lambda>_. Some ''sk'')\<rparr>
     (rename_group_label ''g'' ''h'' (three_presets\<lparr>presets := [(sample_preset ''a'' 0 1)\<lparr>p_group := ''g''\<rparr>], groups := [(''g'', ''$K'')]\<rparr>))
     ((sample_preset ''a'' 0 1)\<lparr>p_group := ''h''\<rparr>) = ''sk''"
  using rename_group_keeps_keys [of "''h''" "''g''" "(sample_preset ''a'' 0 1)\<lparr>p_group := ''g''\<rparr>"
      "three_presets\<lparr>presets := [(sample_preset ''a'' 0 1)\<lparr>p_group := ''g''\<rparr>], groups := [(''g'', ''$K'')]\<rparr>"
      "\<lparr>ke_fernet = None, ke_getenv = (\<lambda>_. Some ''sk'')\<rparr>"]
  by (simp add: sample_preset_def resolve_preset_key_def get_group_key_def resolve_api_key_def decrypt_secret_def resolve_env_def
      rename_group_label_def delete_where_def update_where_def three_presets_def)

text \<open>The active preset is never a disabled one: looking it up gives an enabled preset, the stored
  preference when that is enabled and otherwise the first normal enabled one, and it raises exactly
  when the preference is not usable and no normal preset is enabled.\<close>

theorem active_preset_is_enabled:
  assumes "names_ok s" and "\<And>p. p \<in> set (presets s) \<Longrightarrow> p_name p \<noteq> ''''"
  shows "case get_active_preset s of
     Inr p \<Rightarrow> p \<in> set (presets s) \<and> p_enabled p \<noteq> 0 \<and> p_name p = get_active_preset_name s
   | Inl err \<Rightarrow> err = NoActivePreset \<and> (\<nexists>p. p \<in> set (presets s) \<and> p_enabled p = 1 \<and> p_emergency p = 0)"
proof -
  let ?G = "filter (\<lambda>r. p_enabled r = 1 \<and> p_emergency r = 0) (presets s)"
  let ?xs = "sort_key (\<lambda>r. (p_priority r, p_name r)) ?G"
  have find: "get_preset s (p_name p) = Some p" if p: "p \<in> set (presets s)" for p
  proof -
    obtain q where "get_preset s (p_name p) = Some q"
      using p by (cases "get_preset s (p_name p)") (auto simp: get_preset_def find_None_iff)
    moreover have "q = p" using calculation p assms(1) find_Some_D [of "\<lambda>r. p_name r = p_name p" "presets s" q]
      by (auto simp: get_preset_def names_ok_def distinct_map dest: inj_onD)
    ultimately show ?thesis by simp
  qed
  have pref: "get_active_preset_name s = or_else (first_enabled_name s) ''''"
    if "\<not> usable s (get_active_preset_name s)"
  proof -
    have choice: "n = d" if "\<not> usable s n" "n = (if usable s x then x else d)" for n x d
      using that by (cases "usable s x") simp_all
    show ?thesis by (rule choice [OF that], unfold get_active_preset_name_def Let_def) (rule refl)
  qed
  have "head_option (map p_name ps) = map_option p_name (head_option ps)" for ps
    by (cases ps) (simp_all add: head_option_def)
  then have pick: "first_enabled_name s = map_option p_name (head_option ?xs)"
    unfolding first_enabled_name_def .
  show ?thesis
  proof (cases "usable s (get_active_preset_name s)")
    case True
    then obtain p where p: "get_preset s (get_active_preset_name s) = Some p" "p_enabled p \<noteq> 0"
      by (auto simp: usable_def split: option.splits)
    from find_Some_D [OF p(1) [unfolded get_preset_def]] p show ?thesis
      by (simp add: get_active_preset_def)
  next
    case False
    note n = pref [OF False]
    show ?thesis
    proof (cases ?xs)
      case Nil
      then have "set ?G = {}" by (metis set_empty set_sort)
      then have none: "\<nexists>p. p \<in> set (presets s) \<and> p_enabled p = 1 \<and> p_emergency p = 0" by auto
      have no_first: "first_enabled_name s = None" using pick Nil by (simp add: head_option_def)
      have "get_active_preset_name s = ''''" using n unfolding no_first by simp
      moreover have "get_preset s '''' = None" using assms(2) by (auto simp: get_preset_def find_None_iff)
      ultimately have "get_active_preset s = Inl NoActivePreset"
        unfolding get_active_preset_def no_first by simp
      then show ?thesis using none by simp
    next
      case (Cons p ps)
      have "p \<in> set ?xs" unfolding Cons by simp
      then have "p \<in> set ?G" unfolding set_sort .
      then have p: "p \<in> set (presets s)" "p_enabled p = 1" by simp_all
      have "get_active_preset_name s = p_name p" using n unfolding pick Cons by (simp add: head_option_def)
      then have name: "get_active_preset_name s = p_name p" .
      then have "get_active_preset s = Inr p"
        unfolding get_active_preset_def name find [OF p(1)] using p(2) by simp
      then show ?thesis using p name by simp
    qed
  qed
qed

theorem active_preset_is_enabled_witness:
  "\<exists>p. get_active_preset three_presets = Inr p \<and> p_enabled p \<noteq> 0"
proof -
  have n: "\<And>p. p \<in> set (presets three_presets) \<Longrightarrow> p_name p \<noteq> ''''" by (auto simp: three_presets_def sample_preset_def)
  have p: "sample_preset ''a'' 0 1 \<in> set (presets three_presets)" "p_enabled (sample_preset ''a'' 0 1) = 1" "p_emergency (sample_preset ''a'' 0 1) = 0"
    by (simp_all add: three_presets_def sample_preset_def)
  show ?thesis using active_preset_is_enabled [OF three_presets_names n] p by (cases "get_active_preset three_presets") auto
qed

end
