(* ===== verification/Cache.thy ===== *)
theory Cache imports Prelude begin

text \<open>
  The read caches of the AI hot path: the generic TTL map of \<open>services/ai/cache.py\<close>, its facade
  \<open>services/ai/ai_read_cache.py\<close> with the fallback chain and the cost profile, and the pure
  cost resolution of \<open>services/ai/cost_resolver.py\<close>. Times are readings of \<open>time.monotonic()\<close>.
\<close>

section \<open>The TTL map\<close>

text \<open>Each entry is a value with the reading taken before it was loaded.\<close>

type_synonym 'a ttl_cache = "string \<rightharpoonup> 'a \<times> real"

text \<open>
  \<open>get\<close> looks twice: at \<open>C0\<close> without the lock when the clock reads \<open>t0\<close>, and again at \<open>C1\<close> under
  the lock when it reads \<open>t1\<close>; other threads may have stored or dropped entries in between. The
  loader runs under the lock; an exception of it leaves the map as it was.
\<close>

definition cache_get :: "real \<Rightarrow> 'a ttl_cache \<Rightarrow> real \<Rightarrow> 'a ttl_cache \<Rightarrow> string \<Rightarrow> 'a py \<Rightarrow> real \<Rightarrow> 'a py \<times> 'a ttl_cache" where
  "cache_get t0 C0 t1 C1 key loaded ttl =
     (let miss = (case loaded of Inl e \<Rightarrow> (Inl e, C1) | Inr v \<Rightarrow> (Inr v, C1(key \<mapsto> (v, t1))));
          locked = (case C1 key of
              None \<Rightarrow> miss
            | Some (v, tm) \<Rightarrow> if ttl \<le> t1 - tm then miss else (Inr v, C1))
      in case C0 key of
           None \<Rightarrow> locked
         | Some (v, tm) \<Rightarrow> if t0 - tm < ttl then (Inr v, C1) else locked)"

definition cache_invalidate :: "string \<Rightarrow> 'a ttl_cache \<Rightarrow> 'a ttl_cache" where
  "cache_invalidate key C = C(key := None)"

definition cache_reset :: "'a ttl_cache \<Rightarrow> 'a ttl_cache" where
  "cache_reset C = Map.empty"

section \<open>The two cached reads\<close>

definition CHAIN_TTL_SECONDS :: real where
  "CHAIN_TTL_SECONDS = 10"

definition COST_PROFILE_TTL_SECONDS :: real where
  "COST_PROFILE_TTL_SECONDS = 60"

record cost_profile =
  cp_input :: real
  cp_output :: real
  cp_rate :: real

datatype 'c cached = CachedChain 'c | CachedProfile cost_profile

record 'c read_cache =
  rc_chain_ttl :: real
  rc_cost_ttl :: real
  rc_entries :: "'c cached ttl_cache"

definition new_read_cache :: "'c read_cache" where
  "new_read_cache = \<lparr>rc_chain_ttl = CHAIN_TTL_SECONDS, rc_cost_ttl = COST_PROFILE_TTL_SECONDS, rc_entries = Map.empty\<rparr>"

definition cached_chain :: "real \<Rightarrow> real \<Rightarrow> 'c py \<Rightarrow> 'c read_cache \<Rightarrow> 'c cached py \<times> 'c read_cache" where
  "cached_chain t0 t1 loaded R =
     (let (r, C) = cache_get t0 (rc_entries R) t1 (rc_entries R) ''chain'' (map_sum id CachedChain loaded) (rc_chain_ttl R)
      in (r, R\<lparr>rc_entries := C\<rparr>))"

definition cached_cost_profile :: "real \<Rightarrow> real \<Rightarrow> cost_profile py \<Rightarrow> 'c read_cache \<Rightarrow> 'c cached py \<times> 'c read_cache" where
  "cached_cost_profile t0 t1 loaded R =
     (let (r, C) = cache_get t0 (rc_entries R) t1 (rc_entries R) ''cost_profile'' (map_sum id CachedProfile loaded) (rc_cost_ttl R)
      in (r, R\<lparr>rc_entries := C\<rparr>))"

definition invalidate_cost_profile :: "'c read_cache \<Rightarrow> 'c read_cache" where
  "invalidate_cost_profile R = R\<lparr>rc_entries := cache_invalidate ''cost_profile'' (rc_entries R)\<rparr>"

definition reset_read_cache :: "'c read_cache \<Rightarrow> 'c read_cache" where
  "reset_read_cache R = R\<lparr>rc_entries := cache_reset (rc_entries R)\<rparr>"

section \<open>Resolving costs\<close>

text \<open>The two prices of the preset in hand, each of which may be missing.\<close>

definition resolve_costs :: "(real option \<times> real option) option \<Rightarrow> cost_profile \<Rightarrow> real \<times> real \<times> real" where
  "resolve_costs prices profile =
     (let (i, out) = (case prices of Some p \<Rightarrow> p | None \<Rightarrow> (None, None))
      in (case i of Some x \<Rightarrow> x | None \<Rightarrow> cp_input profile,
          case out of Some x \<Rightarrow> x | None \<Rightarrow> cp_output profile,
          cp_rate profile))"

section \<open>How fresh a cached read is\<close>

text \<open>
  The history of one map over a source whose value changes with time: reads that load at some
  moment after the reading they store, failing loaders, invalidations and resets. \<open>since key\<close> is
  the moment of the last invalidation of the key.
\<close>

inductive cache_history :: "(string \<Rightarrow> real \<Rightarrow> 'a) \<Rightarrow> real \<Rightarrow> (string \<Rightarrow> real) \<Rightarrow> 'a ttl_cache \<Rightarrow> bool"
  for src :: "string \<Rightarrow> real \<Rightarrow> 'a" where
  created: "cache_history src t (\<lambda>_. t) Map.empty"
| read: "cache_history src t since C \<Longrightarrow> t \<le> t0 \<Longrightarrow> t0 \<le> t1 \<Longrightarrow> t1 \<le> t2 \<Longrightarrow>
    cache_history src t2 since (snd (cache_get t0 C t1 C key (Inr (src key t2)) ttl))"
| failed_read: "cache_history src t since C \<Longrightarrow> t \<le> t0 \<Longrightarrow> t0 \<le> t1 \<Longrightarrow>
    cache_history src t1 since (snd (cache_get t0 C t1 C key (Inl e) ttl))"
| invalidated: "cache_history src t since C \<Longrightarrow> t \<le> t' \<Longrightarrow>
    cache_history src t' (since(key := t')) (cache_invalidate key C)"
| reset_done: "cache_history src t since C \<Longrightarrow> t \<le> t' \<Longrightarrow> cache_history src t' (\<lambda>_. t') (cache_reset C)"

definition entry_ok :: "(real \<Rightarrow> 'a) \<Rightarrow> real \<Rightarrow> real \<Rightarrow> 'a \<times> real \<Rightarrow> bool" where
  "entry_ok src since t e \<longleftrightarrow> (\<exists>u. fst e = src u \<and> since \<le> u \<and> snd e \<le> u \<and> u \<le> t)"

lemma entry_ok_later: "entry_ok src since t e \<Longrightarrow> t \<le> t' \<Longrightarrow> entry_ok src since t' e"
  unfolding entry_ok_def by (meson order_trans)

lemma cache_get_result:
  "cache_get t0 C t1 C key loaded ttl = (r, C') \<Longrightarrow>
   (\<exists>v tm. C key = Some (v, tm) \<and> (t0 - tm < ttl \<or> t1 - tm < ttl) \<and> r = Inr v \<and> C' = C) \<or>
   (r = loaded \<and> C' = (case loaded of Inl e \<Rightarrow> C | Inr v \<Rightarrow> C(key \<mapsto> (v, t1))))"
  by (auto simp: cache_get_def Let_def split: option.splits sum.splits if_splits)

lemma since_le_now: "cache_history src t since C \<Longrightarrow> since k \<le> t"
  by (induction arbitrary: k rule: cache_history.induct) (auto intro: order_trans)

lemma history_entries_ok:
  "cache_history src t since C \<Longrightarrow> C k = Some e \<Longrightarrow> entry_ok (src k) (since k) t e"
proof (induction arbitrary: k e rule: cache_history.induct)
  case (read t since C t0 t1 t2 key ttl)
  obtain r C' where g: "cache_get t0 C t1 C key (Inr (src key t2)) ttl = (r, C')" by fastforce
  have late: "t \<le> t2" using read.hyps by linarith
  have C': "C' = C \<or> C' = C(key \<mapsto> (src key t2, t1))" using cache_get_result [OF g] by auto
  have k: "C' k = Some e" using read.prems g by simp
  show ?case
  proof (cases "C k = Some e")
    case True
    then show ?thesis using entry_ok_later [OF read.IH late] by simp
  next
    case False
    then have "k = key" "e = (src key t2, t1)" using C' k by (auto split: if_splits)
    moreover have "since key \<le> t2" using since_le_now [OF read.hyps(1)] late by (rule order_trans)
    ultimately show ?thesis using read.hyps(4) unfolding entry_ok_def by auto
  qed
next
  case (failed_read t since C t0 t1 key err ttl)
  obtain r C' where g: "cache_get t0 C t1 C key (Inl err) ttl = (r, C')" by fastforce
  have "C' = C" using cache_get_result [OF g] by auto
  then have "C k = Some e" using failed_read.prems g by simp
  moreover have "t \<le> t1" using failed_read.hyps by linarith
  ultimately show ?case using entry_ok_later [OF failed_read.IH] by simp
next
  case (invalidated t since C t' key)
  then have "k \<noteq> key" "C k = Some e" by (auto simp: cache_invalidate_def split: if_splits)
  then show ?case using entry_ok_later [OF invalidated.IH invalidated.hyps(2)] by simp
qed (auto simp: cache_reset_def)

text \<open>A cached read serves a value the source really had, at a moment later than the TTL before the
  read and not before the last invalidation of the key; right after an invalidation it is the value
  the source has at that read.\<close>

theorem cached_read_is_fresh:
  assumes "cache_history src t since C" and "t \<le> t0" "t0 \<le> t1" "t1 \<le> t2"
    and "cache_get t0 C t1 C key (Inr (src key t2)) ttl = (Inr v, C')" and "0 < ttl"
  shows "(\<exists>u. v = src key u \<and> since key \<le> u \<and> t0 - ttl < u \<and> u \<le> t2) \<and>
    fst (cache_get t0 (cache_invalidate key C) t1 (cache_invalidate key C) key (Inr (src key t2)) ttl) = Inr (src key t2)"
proof -
  have "\<exists>u. v = src key u \<and> since key \<le> u \<and> t0 - ttl < u \<and> u \<le> t2"
    using cache_get_result [OF assms(5)]
  proof
    assume "\<exists>w tm. C key = Some (w, tm) \<and> (t0 - tm < ttl \<or> t1 - tm < ttl) \<and> (Inr v :: 'a py) = Inr w \<and> C' = C"
    then obtain tm where at: "C key = Some (v, tm)" "t0 - tm < ttl \<or> t1 - tm < ttl" by auto
    obtain u where u: "v = src key u" "since key \<le> u" "tm \<le> u" "u \<le> t"
      using history_entries_ok [OF assms(1) at(1)] unfolding entry_ok_def by auto
    have "t0 - ttl < u" "u \<le> t2" using at(2) u(3,4) assms(2-4) by linarith+
    then show ?thesis using u by blast
  next
    assume "(Inr v :: 'a py) = Inr (src key t2) \<and> C' = (case Inr (src key t2) of Inl e \<Rightarrow> C | Inr v \<Rightarrow> C(key \<mapsto> (v, t1)))"
    then have "v = src key t2" by simp
    moreover have "since key \<le> t2" "t0 - ttl < t2" using since_le_now [OF assms(1), of key] assms(2-4,6) by linarith+
    ultimately show ?thesis by blast
  qed
  then show ?thesis by (simp add: cache_get_def cache_invalidate_def)
qed

theorem cached_read_is_fresh_witness:
  "\<exists>u. (5 :: real) = u \<and> 0 \<le> u \<and> 6 - 10 < u \<and> u \<le> 8"
proof -
  let ?src = "\<lambda>(k :: string) (u :: real). u"
  have h0: "cache_history ?src 0 (\<lambda>_. 0) Map.empty" by (rule created)
  have "cache_history ?src 5 (\<lambda>_. 0) (snd (cache_get 3 Map.empty 4 Map.empty ''chain'' (Inr (?src ''chain'' 5)) 10))"
    by (rule read [OF h0]) simp_all
  then have h: "cache_history ?src 5 (\<lambda>_. 0) [''chain'' \<mapsto> (5, 4)]" by (simp add: cache_get_def)
  have "cache_get 6 [''chain'' \<mapsto> (5, 4)] 7 [''chain'' \<mapsto> (5, 4)] ''chain'' (Inr (?src ''chain'' 8)) 10
      = (Inr 5, [''chain'' \<mapsto> (5, 4)])"
    by (simp add: cache_get_def)
  from cached_read_is_fresh [OF h _ _ _ this] show ?thesis by simp
qed

end
