(* ===== verification/Limiter.thy ===== *)
theory Limiter imports Presets Cache begin

text \<open>
  The limiter of \<open>services/ai/limiter.py\<close> and the rate checks of \<open>services/ai/fallback_router.py\<close>
  that read it: per preset a bounded semaphore, a counter of requests in flight, the windows of
  request and token times, and the failure streak with its backoff. Semaphores live in a list
  and a limiter holds the index of its own, so that a call releases the semaphore it acquired
  even when the limiter has been given another one since.

  What the code cannot know is the environment \<open>env\<close>: how much time passes before each reading
  of the monotonic clock, the wall clock at a reading, whether a thread that holds a permit gives
  it back within the thirty seconds an acquire waits, which request times other threads add, and
  whether the usage write succeeds.
\<close>

section \<open>State\<close>

record semaphore =
  sem_bound :: int
  sem_value :: int

record limiter =
  l_slots :: nat
  l_capacity :: int
  l_in_flight :: int
  l_requests :: "real list"
  l_tokens :: "(real \<times> int) list"
  l_failures :: int
  l_backoff :: real

record ai_world =
  sems :: "semaphore list"
  limiters :: "string \<rightharpoonup> limiter"
  ai_store :: ai_db
  chain_cache :: "preset_row list read_cache"
  last_prune :: real
  w_time :: real
  w_reads :: nat
  w_calls :: "(preset_row \<times> bool) list" \<comment> \<open>the provider calls made, and whether each was accepted\<close>

record env =
  e_lag :: "nat \<Rightarrow> real"
  e_wall :: "real \<Rightarrow> clock"
  e_freed :: "nat \<Rightarrow> bool"
  e_rivals :: "nat \<Rightarrow> real list"
  e_logged :: "nat \<Rightarrow> bool"

text \<open>\<open>time.monotonic()\<close> and \<open>time.sleep(s)\<close>.\<close>

definition read_clock :: "env \<Rightarrow> ai_world \<Rightarrow> real \<times> ai_world" where
  "read_clock E w = (let t = w_time w + e_lag E (w_reads w) in (t, w\<lparr>w_time := t, w_reads := Suc (w_reads w)\<rparr>))"

definition slept :: "real \<Rightarrow> ai_world \<Rightarrow> ai_world" where
  "slept s w = w\<lparr>w_time := w_time w + s\<rparr>"

definition FAILURE_THRESHOLD :: int where "FAILURE_THRESHOLD = 3"
definition BACKOFF_SECONDS :: real where "BACKOFF_SECONDS = 60"
definition PRUNE_INTERVAL_SECONDS :: real where "PRUNE_INTERVAL_SECONDS = 3600"

definition max_concurrency :: "preset_row \<Rightarrow> int" where
  "max_concurrency p = or_else (p_concurrency p) 2"

definition max_rpm :: "preset_row \<Rightarrow> int" where
  "max_rpm p = or_else (p_rpm p) 30"

definition max_tpm :: "preset_row \<Rightarrow> int" where
  "max_tpm p = or_else (p_tpm p) 0"

section \<open>The store of limiters\<close>

definition put_limiter :: "string \<Rightarrow> limiter \<Rightarrow> ai_world \<Rightarrow> ai_world" where
  "put_limiter name l w = w\<lparr>limiters := (limiters w)(name \<mapsto> l)\<rparr>"

text \<open>\<open>BoundedSemaphore(n)\<close> raises for a negative \<open>n\<close>.\<close>

definition new_semaphore :: "int \<Rightarrow> ai_world \<Rightarrow> (nat \<times> ai_world) py" where
  "new_semaphore n w =
     (if n < 0 then Inl ValueError
      else Inr (length (sems w), w\<lparr>sems := sems w @ [\<lparr>sem_bound = n, sem_value = n\<rparr>]\<rparr>))"

text \<open>The limiter of a preset, made when it is missing; an edited limit gets a new semaphore as soon as
  nothing is in flight.\<close>

definition limiter_for :: "preset_row \<Rightarrow> ai_world \<Rightarrow> (limiter \<times> ai_world) py" where
  "limiter_for p w =
     (case limiters w (p_name p) of
        None \<Rightarrow> py_bind (new_semaphore (max_concurrency p) w) (\<lambda>(i, w1).
          let l = \<lparr>l_slots = i, l_capacity = max_concurrency p, l_in_flight = 0, l_requests = [], l_tokens = [],
                   l_failures = 0, l_backoff = 0\<rparr>
          in Inr (l, put_limiter (p_name p) l w1))
      | Some l \<Rightarrow>
          if max_concurrency p \<noteq> l_capacity l \<and> l_in_flight l = 0
          then py_bind (new_semaphore (max_concurrency p) w) (\<lambda>(i, w1).
                 let l' = l\<lparr>l_slots := i, l_capacity := max_concurrency p\<rparr> in Inr (l', put_limiter (p_name p) l' w1))
          else Inr (l, w))"

definition reset_limiters :: "ai_world \<Rightarrow> ai_world" where
  "reset_limiters w = w\<lparr>limiters := Map.empty\<rparr>"

text \<open>The dictionary the callers hold is the one in the store: changing it is changing the entry.\<close>

definition upd_limiter :: "string \<Rightarrow> (limiter \<Rightarrow> limiter) \<Rightarrow> ai_world \<Rightarrow> ai_world" where
  "upd_limiter name f w = w\<lparr>limiters := (limiters w)(name := map_option f (limiters w name))\<rparr>"

definition in_backoff :: "limiter \<Rightarrow> real \<Rightarrow> bool" where
  "in_backoff l now \<longleftrightarrow> l_backoff l \<noteq> 0 \<and> now < l_backoff l"

section \<open>The rate checks\<close>

definition maybe_prune_hourly_usage :: "env \<Rightarrow> ai_world \<Rightarrow> ai_world" where
  "maybe_prune_hourly_usage E w =
     (let (now, w1) = read_clock E w
      in if now - last_prune w1 < PRUNE_INTERVAL_SECONDS then w1
         else w1\<lparr>ai_store := prune_preset_hourly_usage (e_wall E now) 24 (ai_store w1), last_prune := now\<rparr>)"

definition is_daily_exhausted :: "env \<Rightarrow> (string \<Rightarrow> (int \<times> int) option) \<Rightarrow> preset_row \<Rightarrow> ai_world \<Rightarrow> bool \<times> ai_world" where
  "is_daily_exhausted E usage p w =
     (let max_daily = or_else (p_daily p) 0
      in if max_daily \<le> 0 then (False, w)
         else (max_daily \<le> fst (or_else (usage (p_name p)) (0, 0)), maybe_prune_hourly_usage E w))"

definition recent_times :: "real \<Rightarrow> real list \<Rightarrow> real list" where
  "recent_times now ts = dropWhile (\<lambda>t. 60 \<le> now - t) ts"

definition recent_tokens :: "real \<Rightarrow> (real \<times> int) list \<Rightarrow> (real \<times> int) list" where
  "recent_tokens now ts = dropWhile (\<lambda>t. 60 \<le> now - fst t) ts"

definition is_preset_rate_limited ::
    "env \<Rightarrow> (string \<Rightarrow> (int \<times> int) option) \<Rightarrow> preset_row \<Rightarrow> ai_world \<Rightarrow> (bool \<times> ai_world) py" where
  "is_preset_rate_limited E usage p w =
     py_bind (limiter_for p w) (\<lambda>(l, w1).
       let (now, w2) = read_clock E w1;
           times = recent_times now (l_requests l);
           w3 = upd_limiter (p_name p) (\<lambda>l. l\<lparr>l_requests := times\<rparr>) w2
       in Inr (if max_rpm p \<le> int (length times) then (True, w3)
               else if 0 < max_tpm p then
                 (let tokens = recent_tokens now (l_tokens l);
                      w4 = upd_limiter (p_name p) (\<lambda>l. l\<lparr>l_tokens := tokens\<rparr>) w3
                  in if max_tpm p \<le> sum_list (map snd tokens) then (True, w4)
                     else is_daily_exhausted E usage p w4)
               else is_daily_exhausted E usage p w3))"

section \<open>Slots\<close>

definition set_sem :: "nat \<Rightarrow> int \<Rightarrow> ai_world \<Rightarrow> ai_world" where
  "set_sem i v w = w\<lparr>sems := (sems w)[i := (sems w ! i)\<lparr>sem_value := v\<rparr>]\<rparr>"

text \<open>
  \<open>slot.acquire(timeout=30)\<close>: a free permit is taken at once; without one the call waits, and gets
  the permit of a rival that finishes in time (its counter goes down before it releases), or
  gives up after thirty seconds.
\<close>

definition acquire_slot :: "env \<Rightarrow> string \<Rightarrow> nat \<Rightarrow> ai_world \<Rightarrow> bool \<times> ai_world" where
  "acquire_slot E name i w =
     (if 0 < sem_value (sems w ! i) then (True, set_sem i (sem_value (sems w ! i) - 1) w)
      else if e_freed E (w_reads w) \<and> (\<exists>l. limiters w name = Some l \<and> 0 < l_in_flight l)
      then (True, upd_limiter name (\<lambda>l. l\<lparr>l_in_flight := max 0 (l_in_flight l - 1)\<rparr>) w)
      else (False, slept 30 w))"

text \<open>\<open>release()\<close> of a bounded semaphore raises when it would exceed the bound.\<close>

definition release_slot :: "nat \<Rightarrow> ai_world \<Rightarrow> ai_world py" where
  "release_slot i w =
     (if sem_bound (sems w ! i) \<le> sem_value (sems w ! i) then Inl ValueError
      else Inr (set_sem i (sem_value (sems w ! i) + 1) w))"

section \<open>The invariant of the limiters\<close>

text \<open>At rest every permit is either free or in flight, no two limiters share a semaphore, and a failure
  streak is shorter than the threshold. \<open>held\<close> is the semaphore of a permit taken but not yet
  counted as in flight.\<close>

definition limiter_ok :: "ai_world \<Rightarrow> limiter \<Rightarrow> bool" where
  "limiter_ok w l \<longleftrightarrow> l_slots l < length (sems w) \<and> sem_bound (sems w ! l_slots l) = l_capacity l \<and>
     sem_value (sems w ! l_slots l) = l_capacity l - l_in_flight l \<and> 0 \<le> l_in_flight l \<and> l_in_flight l \<le> l_capacity l \<and>
     0 \<le> l_failures l \<and> l_failures l < FAILURE_THRESHOLD"

definition world_ok :: "ai_world \<Rightarrow> bool" where
  "world_ok w \<longleftrightarrow> (\<forall>n l. limiters w n = Some l \<longrightarrow> limiter_ok w l) \<and>
     (\<forall>n m l k. limiters w n = Some l \<longrightarrow> limiters w m = Some k \<longrightarrow> l_slots l = l_slots k \<longrightarrow> n = m)"

lemma world_okD: "world_ok w \<Longrightarrow> limiters w n = Some l \<Longrightarrow> limiter_ok w l"
  by (simp add: world_ok_def)

lemma world_ok_slots: "world_ok w \<Longrightarrow> limiters w n = Some l \<Longrightarrow> limiters w m = Some k \<Longrightarrow> l_slots l = l_slots k \<Longrightarrow> n = m"
  unfolding world_ok_def by blast

text \<open>What the invariant depends on.\<close>

lemma world_ok_cong: "sems w = sems w' \<Longrightarrow> limiters w = limiters w' \<Longrightarrow> world_ok w = world_ok w'"
  unfolding world_ok_def limiter_ok_def by simp

lemma read_clock_frame:
  "read_clock E w = (t, w') \<Longrightarrow> sems w' = sems w \<and> limiters w' = limiters w \<and> w_calls w' = w_calls w"
  by (auto simp: read_clock_def Let_def)

lemma slept_frame [simp]:
  "sems (slept s w) = sems w" "limiters (slept s w) = limiters w" "w_calls (slept s w) = w_calls w"
  by (simp_all add: slept_def)

lemma upd_limiter_frame [simp]:
  "sems (upd_limiter n f w) = sems w" "w_calls (upd_limiter n f w) = w_calls w" "w_time (upd_limiter n f w) = w_time w"
  "w_reads (upd_limiter n f w) = w_reads w" "ai_store (upd_limiter n f w) = ai_store w"
  "limiters (upd_limiter n f w) m = (if m = n then map_option f (limiters w n) else limiters w m)"
  by (simp_all add: upd_limiter_def)

text \<open>Changing windows, streaks or the backoff keeps the permits right.\<close>

lemma upd_limiter_ok:
  assumes ok: "world_ok w"
    and f: "\<And>l. l_slots (f l) = l_slots l" "\<And>l. l_capacity (f l) = l_capacity l" "\<And>l. l_in_flight (f l) = l_in_flight l"
      "\<And>l. 0 \<le> l_failures l \<Longrightarrow> l_failures l < FAILURE_THRESHOLD \<Longrightarrow> 0 \<le> l_failures (f l) \<and> l_failures (f l) < FAILURE_THRESHOLD"
  shows "world_ok (upd_limiter n f w)"
proof -
  have "limiter_ok (upd_limiter n f w) l" if l: "limiters (upd_limiter n f w) m = Some l" for m l
  proof -
    obtain k where k: "limiters w m = Some k" "l = k \<or> l = f k" using l by (auto split: if_splits)
    have "limiter_ok w k" using ok k(1) by (rule world_okD)
    then show ?thesis using k(2) f unfolding limiter_ok_def by auto
  qed
  moreover have "a = b"
    if a: "limiters (upd_limiter n f w) a = Some l" and b: "limiters (upd_limiter n f w) b = Some k" and same: "l_slots l = l_slots k" for a b l k
  proof -
    obtain l0 where l0: "limiters w a = Some l0" "l_slots l = l_slots l0" using a f(1) by (auto split: if_splits)
    obtain k0 where k0: "limiters w b = Some k0" "l_slots k = l_slots k0" using b f(1) by (auto split: if_splits)
    show ?thesis by (rule world_ok_slots [OF ok l0(1) k0(1)]) (use same l0(2) k0(2) in simp)
  qed
  ultimately show ?thesis unfolding world_ok_def by blast
qed

text \<open>The requests in flight of a preset.\<close>

definition flight :: "ai_world \<Rightarrow> string \<Rightarrow> int" where
  "flight w n = (case limiters w n of None \<Rightarrow> 0 | Some l \<Rightarrow> l_in_flight l)"

lemma flight_cong: "limiters w = limiters w' \<Longrightarrow> flight w = flight w'"
  by (auto simp: flight_def)

lemma flight_upd: "(\<And>l. l_in_flight (f l) = l_in_flight l) \<Longrightarrow> flight (upd_limiter n f w) = flight w"
  by (rule ext) (simp add: flight_def split: option.split)

lemma flight_nonneg: "world_ok w \<Longrightarrow> 0 \<le> flight w n"
  by (auto simp: flight_def limiter_ok_def dest: world_okD split: option.split)

lemma world_ok_fresh_sem:
  assumes ok: "world_ok w" and n: "0 \<le> c" and l: "l_slots l = length (sems w)" "l_capacity l = c" "l_in_flight l = 0"
    "0 \<le> l_failures l" "l_failures l < FAILURE_THRESHOLD"
  shows "world_ok (put_limiter name l (w\<lparr>sems := sems w @ [\<lparr>sem_bound = c, sem_value = c\<rparr>]\<rparr>))" (is "world_ok ?w")
proof -
  have old: "limiter_ok ?w k" "l_slots k < length (sems w)" if "limiters w m = Some k" for m k
    using world_okD [OF ok that] by (simp_all add: limiter_ok_def put_limiter_def nth_append)
  have "limiter_ok ?w l" using n l by (simp add: limiter_ok_def put_limiter_def)
  then have "limiter_ok ?w k" if "limiters ?w m = Some k" for m k
    using that old(1) by (cases "m = name") (auto simp: put_limiter_def)
  moreover have "a = b" if a: "limiters ?w a = Some j" and b: "limiters ?w b = Some k" and same: "l_slots j = l_slots k" for a b j k
  proof (cases "a = name \<or> b = name")
    case True
    then show ?thesis using a b same l(1) old(2) [of a j] old(2) [of b k] by (auto simp: put_limiter_def split: if_splits)
  next
    case False
    then show ?thesis using a b same world_ok_slots [OF ok] by (auto simp: put_limiter_def)
  qed
  ultimately show ?thesis unfolding world_ok_def by blast
qed

lemma limiter_for_facts:
  assumes ok: "world_ok w" and run: "limiter_for p w = Inr (l, w')"
  shows "world_ok w'" "limiters w' (p_name p) = Some l" "flight w' = flight w" "w_calls w' = w_calls w"
    "w_time w' = w_time w" "w_reads w' = w_reads w" "ai_store w' = ai_store w"
    "\<And>k. limiters w (p_name p) = Some k \<Longrightarrow> l_failures l = l_failures k \<and> l_backoff l = l_backoff k \<and> l_requests l = l_requests k"
    "limiters w (p_name p) = None \<Longrightarrow> l_failures l = 0 \<and> l_backoff l = 0 \<and> l_requests l = []"
    "\<And>m. m \<noteq> p_name p \<Longrightarrow> limiters w' m = limiters w m"
proof -
  let ?put = "\<lambda>l. put_limiter (p_name p) l (w\<lparr>sems := sems w @ [\<lparr>sem_bound = max_concurrency p, sem_value = max_concurrency p\<rparr>]\<rparr>)"
  have cases: "(limiters w (p_name p) = None \<and> 0 \<le> max_concurrency p \<and>
        l = \<lparr>l_slots = length (sems w), l_capacity = max_concurrency p, l_in_flight = 0, l_requests = [], l_tokens = [], l_failures = 0, l_backoff = 0\<rparr> \<and>
        w' = ?put l)
    \<or> (\<exists>k. limiters w (p_name p) = Some k \<and> 0 \<le> max_concurrency p \<and> l_in_flight k = 0 \<and>
        l = k\<lparr>l_slots := length (sems w), l_capacity := max_concurrency p\<rparr> \<and> w' = ?put l)
    \<or> (limiters w (p_name p) = Some l \<and> w' = w)"
  proof (cases "limiters w (p_name p)")
    case None
    then show ?thesis using run by (cases "max_concurrency p < 0") (auto simp: limiter_for_def new_semaphore_def Let_def)
  next
    case (Some k)
    show ?thesis
    proof (cases "max_concurrency p \<noteq> l_capacity k \<and> l_in_flight k = 0")
      case True
      then show ?thesis using run Some by (cases "max_concurrency p < 0") (auto simp: limiter_for_def new_semaphore_def Let_def)
    next
      case False
      then show ?thesis using run Some by (auto simp: limiter_for_def)
    qed
  qed
  consider (fresh) "limiters w (p_name p) = None" "0 \<le> max_concurrency p"
      "l = \<lparr>l_slots = length (sems w), l_capacity = max_concurrency p, l_in_flight = 0, l_requests = [], l_tokens = [], l_failures = 0, l_backoff = 0\<rparr>"
      "w' = ?put l"
    | (swapped) k where "limiters w (p_name p) = Some k" "0 \<le> max_concurrency p" "l_in_flight k = 0"
      "l = k\<lparr>l_slots := length (sems w), l_capacity := max_concurrency p\<rparr>" "w' = ?put l"
    | (kept) "limiters w (p_name p) = Some l" "w' = w"
    using cases by (elim disjE exE conjE) (rule that; assumption)+
  then have all: "world_ok w' \<and> limiters w' (p_name p) = Some l \<and> flight w' = flight w \<and> w_calls w' = w_calls w \<and>
     w_time w' = w_time w \<and> w_reads w' = w_reads w \<and> ai_store w' = ai_store w \<and>
     (\<forall>k. limiters w (p_name p) = Some k \<longrightarrow> l_failures l = l_failures k \<and> l_backoff l = l_backoff k \<and> l_requests l = l_requests k) \<and>
     (limiters w (p_name p) = None \<longrightarrow> l_failures l = 0 \<and> l_backoff l = 0 \<and> l_requests l = []) \<and>
     (\<forall>m. m \<noteq> p_name p \<longrightarrow> limiters w' m = limiters w m)"
  proof cases
    case fresh
    have "world_ok w'" unfolding fresh(4) by (rule world_ok_fresh_sem [OF ok fresh(2)]) (simp_all add: fresh(3) FAILURE_THRESHOLD_def)
    then show ?thesis using fresh by (auto simp: put_limiter_def flight_def)
  next
    case swapped
    have "limiter_ok w k" by (rule world_okD [OF ok swapped(1)])
    then have "world_ok w'" unfolding swapped(5)
      by (intro world_ok_fresh_sem [OF ok swapped(2)]) (simp_all add: swapped(3,4) limiter_ok_def)
    then show ?thesis using swapped by (auto simp: put_limiter_def flight_def)
  next
    case kept
    then show ?thesis using ok by simp
  qed
  then show "world_ok w'" "limiters w' (p_name p) = Some l" "flight w' = flight w" "w_calls w' = w_calls w"
    "w_time w' = w_time w" "w_reads w' = w_reads w" "ai_store w' = ai_store w"
    "\<And>k. limiters w (p_name p) = Some k \<Longrightarrow> l_failures l = l_failures k \<and> l_backoff l = l_backoff k \<and> l_requests l = l_requests k"
    "limiters w (p_name p) = None \<Longrightarrow> l_failures l = 0 \<and> l_backoff l = 0 \<and> l_requests l = []"
    "\<And>m. m \<noteq> p_name p \<Longrightarrow> limiters w' m = limiters w m"
    by blast+
qed

lemma limiter_for_defined: "0 \<le> max_concurrency p \<Longrightarrow> \<exists>l w'. limiter_for p w = Inr (l, w')"
  by (auto simp: limiter_for_def new_semaphore_def Let_def split: option.split)


text \<open>The rate checks leave the permits and the calls alone; a preset they pass has room in both windows
  and under its daily cap.\<close>

lemma maybe_prune_frame:
  "sems (maybe_prune_hourly_usage E w) = sems w" "limiters (maybe_prune_hourly_usage E w) = limiters w"
  "w_calls (maybe_prune_hourly_usage E w) = w_calls w"
  by (simp_all add: maybe_prune_hourly_usage_def read_clock_def Let_def)

definition time_moves :: "env \<Rightarrow> bool" where
  "time_moves E \<longleftrightarrow> (\<forall>n. 0 \<le> e_lag E n)"

lemma read_clock_later: "time_moves E \<Longrightarrow> read_clock E w = (t, w') \<Longrightarrow> w_time w \<le> t \<and> w_time w' = t"
  by (auto simp: time_moves_def read_clock_def Let_def)

lemma maybe_prune_later: "time_moves E \<Longrightarrow> w_time w \<le> w_time (maybe_prune_hourly_usage E w)"
  by (simp add: time_moves_def maybe_prune_hourly_usage_def read_clock_def Let_def)

definition drop_requests :: "real list \<Rightarrow> limiter \<Rightarrow> limiter" where
  "drop_requests ts l = l\<lparr>l_requests := ts\<rparr>"

definition drop_tokens :: "(real \<times> int) list \<Rightarrow> limiter \<Rightarrow> limiter" where
  "drop_tokens ts l = l\<lparr>l_tokens := ts\<rparr>"

lemma drop_simps [simp]:
  "l_slots (drop_requests ts l) = l_slots l" "l_capacity (drop_requests ts l) = l_capacity l"
  "l_in_flight (drop_requests ts l) = l_in_flight l" "l_failures (drop_requests ts l) = l_failures l"
  "l_backoff (drop_requests ts l) = l_backoff l" "l_requests (drop_requests ts l) = ts"
  "l_slots (drop_tokens us l) = l_slots l" "l_capacity (drop_tokens us l) = l_capacity l"
  "l_in_flight (drop_tokens us l) = l_in_flight l" "l_failures (drop_tokens us l) = l_failures l"
  "l_backoff (drop_tokens us l) = l_backoff l" "l_requests (drop_tokens us l) = l_requests l"
  by (simp_all add: drop_requests_def drop_tokens_def)

lemma limits_read:
  assumes "limiter_for p w = Inr (l, w1)" and "read_clock E w1 = (now, w2)"
  shows "is_preset_rate_limited E usage p w =
     (let times = recent_times now (l_requests l); w3 = upd_limiter (p_name p) (drop_requests times) w2
      in Inr (if max_rpm p \<le> int (length times) then (True, w3)
              else if 0 < max_tpm p then
                (let tokens = recent_tokens now (l_tokens l); w4 = upd_limiter (p_name p) (drop_tokens tokens) w3
                 in if max_tpm p \<le> sum_list (map snd tokens) then (True, w4) else is_daily_exhausted E usage p w4)
              else is_daily_exhausted E usage p w3))"
  unfolding is_preset_rate_limited_def assms(1) py_bind.simps split_conv assms(2) Let_def drop_requests_def drop_tokens_def ..

text \<open>A world that has only seen time pass and windows shrink.\<close>

definition same_permits :: "ai_world \<Rightarrow> ai_world \<Rightarrow> bool" where
  "same_permits w w' \<longleftrightarrow> (world_ok w \<longrightarrow> world_ok w') \<and> flight w' = flight w \<and> w_calls w' = w_calls w \<and>
     (\<forall>n l. limiters w n = Some l \<longrightarrow> (\<exists>l'. limiters w' n = Some l' \<and> l_failures l' = l_failures l \<and> l_backoff l' = l_backoff l))"

lemma same_permits_refl: "same_permits w w"
  by (simp add: same_permits_def)

lemma same_permits_trans: "same_permits u v \<Longrightarrow> same_permits v w \<Longrightarrow> same_permits u w"
  unfolding same_permits_def by (metis (no_types))

lemma same_permits_frame: "sems w' = sems w \<Longrightarrow> limiters w' = limiters w \<Longrightarrow> w_calls w' = w_calls w \<Longrightarrow> same_permits w w'"
  unfolding same_permits_def using world_ok_cong [of w w'] flight_cong [of w w'] by simp

lemma same_permits_requests: "same_permits w (upd_limiter n (drop_requests ts) w)"
  unfolding same_permits_def using upd_limiter_ok [of w "drop_requests ts" n] flight_upd [of "drop_requests ts" n w] by auto

lemma same_permits_tokens: "same_permits w (upd_limiter n (drop_tokens ts) w)"
  unfolding same_permits_def using upd_limiter_ok [of w "drop_tokens ts" n] flight_upd [of "drop_tokens ts" n w] by auto

lemma same_permits_limiter_for:
  assumes "limiter_for p w = Inr (l, w')" "world_ok w"
  shows "same_permits w w'"
proof -
  note f = limiter_for_facts [OF assms(2,1)]
  have "\<exists>l'. limiters w' n = Some l' \<and> l_failures l' = l_failures k \<and> l_backoff l' = l_backoff k" if "limiters w n = Some k" for n k
    using that f(2) f(8) [of k] f(10) [of n] by (cases "n = p_name p") auto
  then show ?thesis using f(1,3,4) unfolding same_permits_def by blast
qed

lemma daily_same: "is_daily_exhausted E usage p w = (b, w') \<Longrightarrow> same_permits w w'"
  by (auto simp: is_daily_exhausted_def Let_def maybe_prune_frame same_permits_refl split: if_splits intro!: same_permits_frame)

lemma daily_later: "time_moves E \<Longrightarrow> is_daily_exhausted E usage p w = (b, w') \<Longrightarrow> w_time w \<le> w_time w'"
  using maybe_prune_later by (auto simp: is_daily_exhausted_def Let_def split: if_splits)

lemma decision_cases:
  "(b, w') = (if A then (True, x) else if B then (if C then (True, y) else D) else F) \<Longrightarrow>
   (b \<and> w' = x) \<or> (b \<and> w' = y) \<or> (\<not> A \<and> F = (b, w')) \<or> (\<not> A \<and> D = (b, w'))"
  by (auto split: if_splits)

lemma rate_limited_facts:
  assumes run: "is_preset_rate_limited E usage p w = Inr (b, w')" and ok: "world_ok w"
  shows "same_permits w w'" "time_moves E \<Longrightarrow> w_time w \<le> w_time w'"
    "\<not> b \<Longrightarrow> 0 < max_rpm p"
    "\<not> b \<Longrightarrow> 0 < or_else (p_daily p) 0 \<Longrightarrow> fst (or_else (usage (p_name p)) (0, 0)) < or_else (p_daily p) 0"
proof -
  obtain l w1 where lf: "limiter_for p w = Inr (l, w1)"
    using run unfolding is_preset_rate_limited_def by (cases "limiter_for p w") auto
  obtain now w2 where rc: "read_clock E w1 = (now, w2)" by fastforce
  note f = limiter_for_facts [OF ok lf]
  define times where "times = recent_times now (l_requests l)"
  define tokens where "tokens = recent_tokens now (l_tokens l)"
  define w3 where "w3 = upd_limiter (p_name p) (drop_requests times) w2"
  define w4 where "w4 = upd_limiter (p_name p) (drop_tokens tokens) w3"
  have s1: "same_permits w w1" by (rule same_permits_limiter_for [OF lf ok])
  have s2: "same_permits w1 w2" using read_clock_frame [OF rc] by (intro same_permits_frame) auto
  have s3: "same_permits w2 w3" unfolding w3_def by (rule same_permits_requests)
  have s4: "same_permits w3 w4" unfolding w4_def by (rule same_permits_tokens)
  have to3: "same_permits w w3" by (rule same_permits_trans [OF same_permits_trans [OF s1 s2] s3])
  have to4: "same_permits w w4" by (rule same_permits_trans [OF to3 s4])
  have t: "w_time w3 = w_time w2" "w_time w4 = w_time w2" unfolding w4_def w3_def by simp_all
  have later: "time_moves E \<Longrightarrow> w_time w \<le> w_time w2" using read_clock_later [OF _ rc] f(5) by auto
  have "(b, w') = (if max_rpm p \<le> int (length times) then (True, w3)
      else if 0 < max_tpm p then (if max_tpm p \<le> sum_list (map snd tokens) then (True, w4) else is_daily_exhausted E usage p w4)
      else is_daily_exhausted E usage p w3)"
    using run unfolding limits_read [OF lf rc] Let_def times_def [symmetric] tokens_def [symmetric] w3_def [symmetric] w4_def [symmetric]
    by (simp only: sum.inject)
  note split = decision_cases [OF this]
  have rpm_pos: "0 < max_rpm p" if "\<not> max_rpm p \<le> int (length times)" using that by linarith
  consider (rpm) "b" "w' = w3" | (tpm) "b" "w' = w4"
    | (daily3) "0 < max_rpm p" "is_daily_exhausted E usage p w3 = (b, w')"
    | (daily4) "0 < max_rpm p" "is_daily_exhausted E usage p w4 = (b, w')"
    using split rpm_pos by (elim disjE conjE) simp_all
  note way = this
  have cap: "fst (or_else (usage (p_name p)) (0, 0)) < or_else (p_daily p) 0"
    if "is_daily_exhausted E usage p u = (False, u')" "0 < or_else (p_daily p) 0" for u u'
    using that by (auto simp: is_daily_exhausted_def Let_def split: if_splits)
  show "same_permits w w'"
    using way by cases (use to3 to4 daily_same same_permits_trans in blast)+
  show "w_time w \<le> w_time w'" if m: "time_moves E"
    using way
  proof cases
    case daily3
    then show ?thesis using later [OF m] daily_later [OF m daily3(2)] t by linarith
  next
    case daily4
    then show ?thesis using later [OF m] daily_later [OF m daily4(2)] t by linarith
  qed (use later [OF m] t in simp_all)
  show "0 < max_rpm p" if "\<not> b" using way by cases (use that in simp_all)
  show "fst (or_else (usage (p_name p)) (0, 0)) < or_else (p_daily p) 0" if "\<not> b" "0 < or_else (p_daily p) 0"
    using way by cases (use that cap in auto)
qed

lemma rate_limited_defined:
  assumes "0 \<le> max_concurrency p"
  shows "\<exists>b w'. is_preset_rate_limited E usage p w = Inr (b, w')"
proof -
  obtain l w1 where lf: "limiter_for p w = Inr (l, w1)" using limiter_for_defined [OF assms] by blast
  obtain now w2 where rc: "read_clock E w1 = (now, w2)" by fastforce
  show ?thesis unfolding limits_read [OF lf rc] Let_def by (metis surj_pair)
qed


section \<open>Taking and giving back a permit\<close>

definition flight_up :: "limiter \<Rightarrow> limiter" where
  "flight_up l = l\<lparr>l_in_flight := l_in_flight l + 1\<rparr>"

definition flight_down :: "limiter \<Rightarrow> limiter" where
  "flight_down l = l\<lparr>l_in_flight := max 0 (l_in_flight l - 1)\<rparr>"

lemma flight_step_simps [simp]:
  "l_slots (flight_up l) = l_slots l" "l_capacity (flight_up l) = l_capacity l" "l_in_flight (flight_up l) = l_in_flight l + 1"
  "l_failures (flight_up l) = l_failures l" "l_backoff (flight_up l) = l_backoff l" "l_requests (flight_up l) = l_requests l"
  "l_slots (flight_down l) = l_slots l" "l_capacity (flight_down l) = l_capacity l" "l_in_flight (flight_down l) = max 0 (l_in_flight l - 1)"
  "l_failures (flight_down l) = l_failures l" "l_backoff (flight_down l) = l_backoff l" "l_requests (flight_down l) = l_requests l"
  by (simp_all add: flight_up_def flight_down_def)

definition holding :: "string \<Rightarrow> nat \<Rightarrow> ai_world \<Rightarrow> bool" where
  "holding name i w \<longleftrightarrow> (\<exists>l. limiters w name = Some l \<and> l_slots l = i \<and> 1 \<le> l_in_flight l)"

text \<open>One step of the counter of a limiter with the opposite step of its own semaphore.\<close>

lemma permit_step_ok:
  assumes ok: "world_ok w" and l: "limiters w name = Some l"
    and n: "0 \<le> n" "n \<le> l_capacity l"
    and w': "sems w' = (sems w)[l_slots l := (sems w ! l_slots l)\<lparr>sem_value := l_capacity l - n\<rparr>]"
      "limiters w' = (limiters w)(name \<mapsto> l\<lparr>l_in_flight := n\<rparr>)"
  shows "world_ok w'" "flight w' = (flight w)(name := n)"
proof -
  have lok: "limiter_ok w l" by (rule world_okD [OF ok l])
  have "limiter_ok w' k" if k: "limiters w' m = Some k" for m k
  proof (cases "m = name")
    case True
    then have "k = l\<lparr>l_in_flight := n\<rparr>" using k w'(2) by simp
    then show ?thesis using lok n by (simp add: limiter_ok_def w'(1))
  next
    case False
    then have m: "limiters w m = Some k" using k w'(2) by simp
    then have "l_slots k \<noteq> l_slots l" using world_ok_slots [OF ok m l] False by blast
    then show ?thesis using world_okD [OF ok m] by (simp add: limiter_ok_def w'(1))
  qed
  moreover have "a = b" if a: "limiters w' a = Some j" and b: "limiters w' b = Some k" and same: "l_slots j = l_slots k" for a b j k
  proof -
    obtain j0 where j0: "limiters w a = Some j0" "l_slots j = l_slots j0" using a l w'(2) by (cases "a = name") auto
    obtain k0 where k0: "limiters w b = Some k0" "l_slots k = l_slots k0" using b l w'(2) by (cases "b = name") auto
    show ?thesis by (rule world_ok_slots [OF ok j0(1) k0(1)]) (use same j0(2) k0(2) in simp)
  qed
  ultimately show "world_ok w'" unfolding world_ok_def by blast
  show "flight w' = (flight w)(name := n)" by (rule ext) (simp add: flight_def w'(2))
qed

lemma enter_slot:
  assumes ok: "world_ok w" and l: "limiters w name = Some l" and run: "acquire_slot E name (l_slots l) w = (True, w1)"
  shows "world_ok (upd_limiter name flight_up w1)" "holding name (l_slots l) (upd_limiter name flight_up w1)"
    "flight (upd_limiter name flight_up w1) m \<le> (if m = name then flight w m + 1 else flight w m)"
    "(\<forall>n. \<not> e_freed E n) \<Longrightarrow> flight (upd_limiter name flight_up w1) m = (if m = name then flight w m + 1 else flight w m)"
    "w_calls w1 = w_calls w" "w_time w1 = w_time w"
    "\<exists>l'. limiters w1 name = Some l' \<and> l_failures l' = l_failures l \<and> l_backoff l' = l_backoff l"
proof -
  let ?w2 = "upd_limiter name flight_up w1"
  have lok: "limiter_ok w l" by (rule world_okD [OF ok l])
  have at: "flight w name = l_in_flight l" using l by (simp add: flight_def)
  have "world_ok ?w2 \<and> holding name (l_slots l) ?w2 \<and> flight ?w2 m \<le> (if m = name then flight w m + 1 else flight w m) \<and>
     ((\<forall>n. \<not> e_freed E n) \<longrightarrow> flight ?w2 m = (if m = name then flight w m + 1 else flight w m)) \<and>
     w_calls w1 = w_calls w \<and> w_time w1 = w_time w \<and>
     (\<exists>l'. limiters w1 name = Some l' \<and> l_failures l' = l_failures l \<and> l_backoff l' = l_backoff l)"
  proof (cases "0 < sem_value (sems w ! l_slots l)")
    case True
    then have w1: "w1 = set_sem (l_slots l) (sem_value (sems w ! l_slots l) - 1) w" using run by (simp add: acquire_slot_def)
    have sems2: "sems ?w2 = (sems w)[l_slots l := (sems w ! l_slots l)\<lparr>sem_value := l_capacity l - (l_in_flight l + 1)\<rparr>]"
      using lok by (simp add: w1 set_sem_def limiter_ok_def diff_diff_eq)
    have lims2: "limiters ?w2 = (limiters w)(name \<mapsto> l\<lparr>l_in_flight := l_in_flight l + 1\<rparr>)"
      using l by (auto simp: w1 set_sem_def upd_limiter_def flight_up_def)
    have room: "0 \<le> l_in_flight l + 1" "l_in_flight l + 1 \<le> l_capacity l" using True lok by (simp_all add: limiter_ok_def)
    note step = permit_step_ok [OF ok l room sems2 lims2]
    have "holding name (l_slots l) ?w2" unfolding holding_def lims2 using lok by (simp add: limiter_ok_def)
    then show ?thesis using step at l by (simp add: w1 set_sem_def)
  next
    case False
    then have freed: "e_freed E (w_reads w)" "0 < l_in_flight l" and w1: "w1 = upd_limiter name flight_down w"
      using run l by (auto simp: acquire_slot_def flight_down_def [abs_def] split: if_splits)
    have lims2: "limiters ?w2 = (limiters w)(name \<mapsto> l)"
      using l freed(2) by (auto simp: w1 upd_limiter_def flight_up_def flight_down_def)
    then have lims: "limiters ?w2 = limiters w" using l by (simp add: fun_upd_idem)
    have "sems ?w2 = sems w" by (simp add: w1)
    then have "world_ok ?w2" using world_ok_cong [of ?w2 w] lims ok by simp
    moreover have "holding name (l_slots l) ?w2" unfolding holding_def lims using l freed(2) by simp
    moreover have "flight ?w2 = flight w" by (rule flight_cong [OF lims])
    ultimately show ?thesis using freed l by (auto simp: w1)
  qed
  then show "world_ok ?w2" "holding name (l_slots l) ?w2"
    "flight ?w2 m \<le> (if m = name then flight w m + 1 else flight w m)"
    "(\<forall>n. \<not> e_freed E n) \<Longrightarrow> flight ?w2 m = (if m = name then flight w m + 1 else flight w m)"
    "w_calls w1 = w_calls w" "w_time w1 = w_time w"
    "\<exists>l'. limiters w1 name = Some l' \<and> l_failures l' = l_failures l \<and> l_backoff l' = l_backoff l"
    by blast+
qed

lemma leave_slot:
  assumes ok: "world_ok w" and held: "holding name i w"
  shows "\<exists>w'. release_slot i (upd_limiter name flight_down w) = Inr w' \<and> world_ok w' \<and>
     flight w' = (flight w)(name := flight w name - 1) \<and> w_calls w' = w_calls w \<and> w_time w' = w_time w \<and>
     (\<forall>l. limiters w name = Some l \<longrightarrow> limiters w' name = Some (flight_down l))"
proof -
  obtain l where l: "limiters w name = Some l" "l_slots l = i" "1 \<le> l_in_flight l" using held unfolding holding_def by blast
  have lok: "limiter_ok w l" by (rule world_okD [OF ok l(1)])
  let ?v = "upd_limiter name flight_down w"
  let ?w' = "set_sem i (sem_value (sems ?v ! i) + 1) ?v"
  have rel: "release_slot i ?v = Inr ?w'" using lok l(2,3) by (simp add: release_slot_def limiter_ok_def)
  have sems': "sems ?w' = (sems w)[l_slots l := (sems w ! l_slots l)\<lparr>sem_value := l_capacity l - (l_in_flight l - 1)\<rparr>]"
    using lok by (simp add: set_sem_def limiter_ok_def l(2) [symmetric] diff_diff_eq2 diff_add_eq)
  have lims': "limiters ?w' = (limiters w)(name \<mapsto> l\<lparr>l_in_flight := l_in_flight l - 1\<rparr>)"
    using l by (auto simp: set_sem_def upd_limiter_def flight_down_def)
  have room: "0 \<le> l_in_flight l - 1" "l_in_flight l - 1 \<le> l_capacity l" using l(3) lok by (simp_all add: limiter_ok_def)
  note step = permit_step_ok [OF ok l(1) room sems' lims']
  have "flight w name = l_in_flight l" using l(1) by (simp add: flight_def)
  moreover have "limiters ?w' name = Some (flight_down l)" unfolding lims' using l by (simp add: flight_down_def)
  moreover have "w_calls ?w' = w_calls w" "w_time ?w' = w_time w" by (simp_all add: set_sem_def)
  ultimately show ?thesis using rel step l(1) by (intro exI [of _ ?w']) simp
qed

end
