(* ===== verification/Router.thy ===== *)
theory Router imports Limiter "HOL-Library.Sublist" begin

text \<open>
  The fallback router of \<open>services/ai/fallback_router.py\<close>: one call of the AI tries the presets of
  the chain in order, each at most once, skips those in backoff or out of budget, holds a permit of
  the limiter while it waits for the request window and calls the provider, and stops at the first
  answer or at the caller's deadline.
\<close>

section \<open>Replies and answers\<close>

text \<open>What the provider function does: a tracked result with its token usage, a plain result, its own
  \<open>AIRequestTimedOut\<close>, or any other exception.\<close>

datatype 'v reply = Tracked 'v "int option" | Plain 'v | TimedOut | Raised string

datatype 'v answer = Value 'v | Exhausted "string option" | DeadlinePassed | Escaped py_error

text \<open>One preset either lets the loop go on, with the error it met if it was called, or ends it.\<close>

datatype 'v outcome = Go "string option" | Halt "'v answer"

fun reply_value :: "'v reply \<Rightarrow> 'v option" where
  "reply_value (Tracked v _) = Some v"
| "reply_value (Plain v) = Some v"
| "reply_value TimedOut = None"
| "reply_value (Raised _) = None"

fun reply_tokens :: "'v reply \<Rightarrow> int" where
  "reply_tokens (Tracked _ tokens) = or_else tokens 0"
| "reply_tokens _ = 0"

section \<open>One attempt\<close>

text \<open>Without a deadline the clock is not read.\<close>

definition deadline_exceeded :: "env \<Rightarrow> real option \<Rightarrow> ai_world \<Rightarrow> bool \<times> ai_world" where
  "deadline_exceeded E deadline w =
     (case deadline of None \<Rightarrow> (False, w) | Some d \<Rightarrow> (let (now, w1) = read_clock E w in (d \<le> now, w1)))"

text \<open>The loop that waits for room in the request window; it may never end without a deadline, when
  other threads keep the window full.\<close>

partial_function (option) wait_for_rpm ::
    "env \<Rightarrow> real option \<Rightarrow> preset_row \<Rightarrow> ai_world \<Rightarrow> (bool \<times> ai_world) option" where
  "wait_for_rpm E deadline p w =
     (let (late, w1) = deadline_exceeded E deadline w
      in if late then Some (False, w1)
         else let (now, w2) = read_clock E w1;
                  times = recent_times now (or_else (map_option l_requests (limiters w2 (p_name p))) [] @ e_rivals E (w_reads w2))
              in if int (length times) < max_rpm p
                 then Some (True, upd_limiter (p_name p) (drop_requests (times @ [now])) w2)
                 else wait_for_rpm E deadline p (slept (1 / 4) (upd_limiter (p_name p) (drop_requests times) w2)))"

definition hour_bucket :: "('a clock_scheme) \<Rightarrow> string" where
  "hour_bucket c = take 13 (stamp_text c (Stamp (utc_now c))) @ '':00:00''"

definition log_preset_usage :: "env \<Rightarrow> preset_row \<Rightarrow> int \<Rightarrow> ai_world \<Rightarrow> ai_world option" where
  "log_preset_usage E p tokens w =
     (if \<not> e_logged E (w_reads w) then None
      else let w1 = w\<lparr>ai_store := increment_hourly_usage (p_name p) (hour_bucket (e_wall E (w_time w))) 1 tokens (ai_store w)\<rparr>
           in if 0 < tokens
              then (case limiter_for p w1 of
                      Inl e \<Rightarrow> None
                    | Inr (l, w2) \<Rightarrow>
                        let (now, w3) = read_clock E w2
                        in Some (upd_limiter (p_name p) (drop_tokens (l_tokens l @ [(now, tokens)])) w3))
              else Some w1)"

definition streak :: "int \<Rightarrow> real \<Rightarrow> limiter \<Rightarrow> limiter" where
  "streak n b l = l\<lparr>l_failures := n, l_backoff := b\<rparr>"

definition counted_failure :: "env \<Rightarrow> preset_row \<Rightarrow> ai_world \<Rightarrow> ai_world" where
  "counted_failure E p w =
     (case limiters w (p_name p) of
        None \<Rightarrow> w
      | Some l \<Rightarrow>
          if FAILURE_THRESHOLD \<le> l_failures l + 1
          then (let (now, w1) = read_clock E w in upd_limiter (p_name p) (streak 0 (now + BACKOFF_SECONDS)) w1)
          else upd_limiter (p_name p) (streak (l_failures l + 1) (l_backoff l)) w)"

definition noted :: "preset_row \<Rightarrow> bool \<Rightarrow> ai_world \<Rightarrow> ai_world" where
  "noted p b w = w\<lparr>w_calls := w_calls w @ [(p, b)]\<rparr>"

text \<open>The provider call and what its reply does to the limiter. The usage is written inside the
  \<open>try\<close>, so a failing write counts as a failure of the preset.\<close>

definition perform_call ::
    "env \<Rightarrow> (nat \<Rightarrow> preset_row \<Rightarrow> 'v reply) \<Rightarrow> preset_row \<Rightarrow> ai_world \<Rightarrow> 'v outcome \<times> ai_world" where
  "perform_call E fn p w =
     (case fn (length (w_calls w)) p of
        TimedOut \<Rightarrow> (Halt DeadlinePassed, noted p False w)
      | Raised m \<Rightarrow> (Go (Some m), counted_failure E p (noted p False w))
      | Tracked v tokens \<Rightarrow>
          (let w1 = upd_limiter (p_name p) (streak 0 0) w
           in case log_preset_usage E p (or_else tokens 0) w1 of
                Some w2 \<Rightarrow> (Halt (Value v), noted p True w2)
              | None \<Rightarrow> (Go (Some ''usage write failed''), counted_failure E p (noted p False w1)))
      | Plain v \<Rightarrow>
          (let w1 = upd_limiter (p_name p) (streak 0 0) w
           in case log_preset_usage E p 0 w1 of
                Some w2 \<Rightarrow> (Halt (Value v), noted p True w2)
              | None \<Rightarrow> (Go (Some ''usage write failed''), counted_failure E p (noted p False w1))))"

text \<open>The \<open>finally\<close> block: an exception of its own replaces the outcome.\<close>

definition finished :: "nat \<Rightarrow> preset_row \<Rightarrow> 'v outcome \<times> ai_world \<Rightarrow> 'v outcome \<times> ai_world" where
  "finished slot p r =
     (case release_slot slot (upd_limiter (p_name p) flight_down (snd r)) of
        Inl e \<Rightarrow> (Halt (Escaped e), upd_limiter (p_name p) flight_down (snd r))
      | Inr w \<Rightarrow> (fst r, w))"

text \<open>Everything before the \<open>try\<close>: a preset in backoff, over a rate or without a free permit is
  skipped; otherwise the permit is held and counted.\<close>

definition admit ::
    "env \<Rightarrow> (string \<Rightarrow> (int \<times> int) option) \<Rightarrow> preset_row \<Rightarrow> ai_world \<Rightarrow> (nat option \<times> ai_world) py" where
  "admit E usage p w =
     py_bind (limiter_for p w) (\<lambda>(l, w1).
       let (now, w2) = read_clock E w1
       in if in_backoff l now then Inr (None, w2)
          else py_bind (is_preset_rate_limited E usage p w2) (\<lambda>(limited, w3).
            if limited then Inr (None, w3)
            else py_bind (limiter_for p w3) (\<lambda>(l', w4).
              let (got, w5) = acquire_slot E (p_name p) (l_slots l') w4
              in Inr (if got then (Some (l_slots l'), upd_limiter (p_name p) flight_up w5) else (None, w5)))))"

definition attempt ::
    "env \<Rightarrow> (nat \<Rightarrow> preset_row \<Rightarrow> 'v reply) \<Rightarrow> real option \<Rightarrow> (string \<Rightarrow> (int \<times> int) option) \<Rightarrow> preset_row \<Rightarrow> ai_world \<Rightarrow>
     ('v outcome \<times> ai_world) option" where
  "attempt E fn deadline usage p w =
     (let (late, w1) = deadline_exceeded E deadline w
      in if late then Some (Halt DeadlinePassed, w1)
         else case admit E usage p w1 of
           Inl e \<Rightarrow> Some (Halt (Escaped e), w1)
         | Inr (None, w2) \<Rightarrow> Some (Go None, w2)
         | Inr (Some slot, w2) \<Rightarrow>
             (case wait_for_rpm E deadline p w2 of
                None \<Rightarrow> None
              | Some (False, w3) \<Rightarrow> Some (finished slot p (Halt DeadlinePassed, w3))
              | Some (True, w3) \<Rightarrow> Some (finished slot p (perform_call E fn p w3))))"

section \<open>The chain\<close>

fun route :: "('p \<Rightarrow> 'w \<Rightarrow> ('v outcome \<times> 'w) option) \<Rightarrow> 'p list \<Rightarrow> string option \<Rightarrow> 'w \<Rightarrow> ('v answer \<times> 'w) option" where
  "route att [] last_error w = Some (Exhausted last_error, w)"
| "route att (p # ps) last_error w =
     (case att p w of
        None \<Rightarrow> None
      | Some (Go e, w') \<Rightarrow> route att ps (case e of None \<Rightarrow> last_error | Some m \<Rightarrow> Some m) w'
      | Some (Halt a, w') \<Rightarrow> Some (a, w'))"

text \<open>The chain comes from the read cache, and one batched read gives the usage of all its presets.\<close>

definition read_chain :: "env \<Rightarrow> ai_world \<Rightarrow> preset_row list \<times> ai_world" where
  "read_chain E w =
     (let (t0, w1) = read_clock E w;
          (t1, w2) = read_clock E w1;
          (r, cache) = cached_chain t0 t1 (Inr (get_fallback_chain_presets (ai_store w2))) (chain_cache w2)
      in (case r of Inr (CachedChain ps) \<Rightarrow> ps | _ \<Rightarrow> [], w2\<lparr>chain_cache := cache\<rparr>))"

definition call_ai_limited ::
    "env \<Rightarrow> (nat \<Rightarrow> preset_row \<Rightarrow> 'v reply) \<Rightarrow> real option \<Rightarrow> ai_world \<Rightarrow> ('v answer \<times> ai_world) option" where
  "call_ai_limited E fn deadline w =
     (let (chain, w1) = read_chain E w
      in if chain = [] then Some (Exhausted None, w1)
         else route (attempt E fn deadline (get_hourly_usage_many (e_wall E (w_time w1)) (ai_store w1) (map p_name chain) 24))
                chain None w1)"

section \<open>Restoring the primary preset\<close>

text \<open>The connection test is a parameter: it takes the preset and its key.\<close>

definition retry_primary_preset :: "key_env \<Rightarrow> (preset_row \<Rightarrow> string \<Rightarrow> bool) \<Rightarrow> ai_db \<Rightarrow> ai_db" where
  "retry_primary_preset K test s =
     (if \<not> get_bool_setting (conf s) ''ai_fallback_active'' False then s
      else let primary = get_setting (conf s) ''ai_primary_preset'' '''';
               name = (if primary = '''' then get_active_preset_name s else primary)
           in case get_preset s name of
                None \<Rightarrow> s
              | Some p \<Rightarrow>
                  let key = resolve_preset_key K s p
                  in if key = '''' then s
                     else if test p key
                     then s\<lparr>conf := set_setting (set_bool_setting (conf s) ''ai_fallback_active'' False) ''ai_fallback_since'' ''''\<rparr>
                     else s)"


section \<open>What a chain promises\<close>

text \<open>
  The loop over the chain needs little of an attempt: it keeps an invariant, and it either makes no
  call, or one that is refused, or one that is answered and ends the loop.
\<close>

locale chain_router =
  fixes att :: "'p \<Rightarrow> 'w \<Rightarrow> ('v outcome \<times> 'w) option"
    and inv :: "'w \<Rightarrow> bool"
    and trace :: "'w \<Rightarrow> ('p \<times> bool) list"
    and ok :: "'p \<Rightarrow> bool"
    and gives :: "nat \<Rightarrow> 'p \<Rightarrow> 'v \<Rightarrow> bool"
  assumes keeps: "inv w \<Longrightarrow> ok p \<Longrightarrow> att p w = Some (s, w') \<Longrightarrow> inv w'"
    and traces: "inv w \<Longrightarrow> ok p \<Longrightarrow> att p w = Some (s, w') \<Longrightarrow>
      (trace w' = trace w \<and> (s = Go None \<or> s = Halt DeadlinePassed)) \<or>
      (trace w' = trace w @ [(p, False)] \<and> ((\<exists>m. s = Go (Some m)) \<or> s = Halt DeadlinePassed)) \<or>
      (trace w' = trace w @ [(p, True)] \<and> (\<exists>v. s = Halt (Value v) \<and> gives (length (trace w)) p v))"
begin

lemma route_keeps:
  "route att ps e w = Some (a, w') \<Longrightarrow> inv w \<Longrightarrow> (\<And>p. p \<in> set ps \<Longrightarrow> ok p) \<Longrightarrow> inv w'"
proof (induction ps arbitrary: e w)
  case (Cons p ps)
  obtain s w1 where s: "att p w = Some (s, w1)" using Cons.prems(1) by (cases "att p w") auto
  have k: "inv w1" using keeps [OF Cons.prems(2) _ s] Cons.prems(3) by simp
  show ?case
  proof (cases s)
    case (Go d)
    then show ?thesis using Cons.prems(1,3) s k Cons.IH [of _ w1] by simp
  next
    case (Halt b)
    then show ?thesis using Cons.prems(1) s k by simp
  qed
qed simp

lemma route_traces:
  assumes "route att ps e w = Some (a, w')" and "inv w" and "\<And>p. p \<in> set ps \<Longrightarrow> ok p"
  shows "\<exists>new. trace w' = trace w @ new \<and> subseq (map fst new) ps \<and>
     (case a of
        Value v \<Rightarrow> \<exists>refused p. new = refused @ [(p, True)] \<and> (\<forall>c \<in> set refused. \<not> snd c) \<and> gives (length (trace w) + length refused) p v
      | Exhausted d \<Rightarrow> (\<forall>c \<in> set new. \<not> snd c) \<and> (d = None) = (e = None \<and> new = [])
      | DeadlinePassed \<Rightarrow> (\<forall>c \<in> set new. \<not> snd c)
      | Escaped x \<Rightarrow> False)"
  using assms
proof (induction ps arbitrary: e w)
  case (Cons p ps)
  obtain s w1 where s: "att p w = Some (s, w1)" using Cons.prems(1) by (cases "att p w") auto
  have p: "ok p" using Cons.prems(3) by simp
  note k = keeps [OF Cons.prems(2) p s]
  note t = traces [OF Cons.prems(2) p s]
  show ?case
  proof (cases s)
    case (Halt b)
    then have "a = b" "w' = w1" using Cons.prems(1) s by simp_all
    then show ?thesis using t Halt by auto
  next
    case (Go d)
    define made where "made = (if d = None then [] else [(p, False)])"
    have first: "trace w1 = trace w @ made" "subseq (map fst made) [p]" "\<forall>c \<in> set made. \<not> snd c" "(d = None) = (made = [])"
      using t Go by (auto simp: made_def)
    let ?e = "case d of None \<Rightarrow> e | Some m \<Rightarrow> Some m"
    have "route att ps ?e w1 = Some (a, w')" using Cons.prems(1) s Go by simp
    from Cons.IH [OF this k] Cons.prems(3) obtain new where new: "trace w' = trace w1 @ new" "subseq (map fst new) ps"
      "case a of
        Value v \<Rightarrow> \<exists>refused q. new = refused @ [(q, True)] \<and> (\<forall>c \<in> set refused. \<not> snd c) \<and> gives (length (trace w1) + length refused) q v
      | Exhausted d \<Rightarrow> (\<forall>c \<in> set new. \<not> snd c) \<and> (d = None) = (?e = None \<and> new = [])
      | DeadlinePassed \<Rightarrow> (\<forall>c \<in> set new. \<not> snd c)
      | Escaped x \<Rightarrow> False" by auto
    have "subseq (map fst (made @ new)) (p # ps)"
      using list_emb_append_mono [OF first(2) new(2)] by simp
    moreover have "trace w' = trace w @ (made @ new)" using new(1) first(1) by simp
    moreover have "case a of
        Value v \<Rightarrow> \<exists>refused q. made @ new = refused @ [(q, True)] \<and> (\<forall>c \<in> set refused. \<not> snd c) \<and> gives (length (trace w) + length refused) q v
      | Exhausted d \<Rightarrow> (\<forall>c \<in> set (made @ new). \<not> snd c) \<and> (d = None) = (e = None \<and> made @ new = [])
      | DeadlinePassed \<Rightarrow> (\<forall>c \<in> set (made @ new). \<not> snd c)
      | Escaped x \<Rightarrow> False"
    proof (cases a)
      case (Value v)
      then obtain refused q where r: "new = refused @ [(q, True)]" "\<forall>c \<in> set refused. \<not> snd c"
        "gives (length (trace w1) + length refused) q v" using new(3) by auto
      have "gives (length (trace w) + length (made @ refused)) q v" using r(3) first(1) by (simp add: add.assoc)
      then show ?thesis using Value r(1,2) first(3) by (auto intro!: exI [of _ "made @ refused"])
    next
      case (Exhausted x)
      then show ?thesis using new(3) first(3,4) by (cases d) auto
    qed (use new(3) first(3) in auto)
    ultimately show ?thesis by blast
  qed
qed auto

end

locale total_router = chain_router +
  assumes returns: "inv w \<Longrightarrow> ok p \<Longrightarrow> \<exists>r. att p w = Some r"
begin

lemma route_returns:
  "inv w \<Longrightarrow> (\<And>p. p \<in> set ps \<Longrightarrow> ok p) \<Longrightarrow> \<exists>a w'. route att ps e w = Some (a, w')"
proof (induction ps arbitrary: e w)
  case (Cons p ps)
  obtain s w1 where s: "att p w = Some (s, w1)" using returns [OF Cons.prems(1)] Cons.prems(2) by force
  have "inv w1" using keeps [OF Cons.prems(1) _ s] Cons.prems(2) by simp
  then show ?case using s Cons.IH [of w1] Cons.prems(2) by (cases s) auto
qed simp

end


section \<open>Steps that only move time and windows\<close>

text \<open>A step that changes no permit, no call and no streak: time passes and request windows move.\<close>

definition permit_data :: "limiter \<Rightarrow> nat \<times> int \<times> int \<times> int \<times> real" where
  "permit_data l = (l_slots l, l_capacity l, l_in_flight l, l_failures l, l_backoff l)"

definition windowed :: "ai_world \<Rightarrow> ai_world \<Rightarrow> bool" where
  "windowed w w' \<longleftrightarrow> sems w' = sems w \<and> w_calls w' = w_calls w \<and>
     (\<forall>n. map_option permit_data (limiters w' n) = map_option permit_data (limiters w n))"

lemma windowed_refl: "windowed w w"
  by (simp add: windowed_def)

lemma windowed_frame: "sems w' = sems w \<Longrightarrow> limiters w' = limiters w \<Longrightarrow> w_calls w' = w_calls w \<Longrightarrow> windowed w w'"
  by (simp add: windowed_def)

lemma windowed_requests: "windowed w (upd_limiter n (drop_requests ts) w)"
  by (cases "limiters w n") (simp_all add: windowed_def permit_data_def)

lemma windowed_trans: "windowed u v \<Longrightarrow> windowed v w \<Longrightarrow> windowed u w"
  by (simp add: windowed_def)

lemma windowed_sym: "windowed u v \<Longrightarrow> windowed v u"
  by (simp add: windowed_def)

lemma windowedD:
  assumes "windowed w w'" "limiters w n = Some l"
  obtains l' where "limiters w' n = Some l'" "l_slots l' = l_slots l" "l_capacity l' = l_capacity l" "l_in_flight l' = l_in_flight l"
    "l_failures l' = l_failures l" "l_backoff l' = l_backoff l"
proof -
  have "map_option permit_data (limiters w' n) = Some (permit_data l)" using assms by (simp add: windowed_def)
  then obtain l' where "limiters w' n = Some l'" "permit_data l' = permit_data l" by auto
  then show ?thesis using that by (simp add: permit_data_def)
qed

lemma windowed_ok:
  assumes "windowed w w'" "world_ok w"
  shows "world_ok w'"
proof -
  have s: "sems w' = sems w" using assms(1) by (simp add: windowed_def)
  have "limiter_ok w' l'" if l': "limiters w' n = Some l'" for n l'
  proof -
    obtain l where l: "limiters w n = Some l" "l_slots l' = l_slots l" "l_capacity l' = l_capacity l" "l_in_flight l' = l_in_flight l"
      "l_failures l' = l_failures l" "l_backoff l' = l_backoff l" by (rule windowedD [OF windowed_sym [OF assms(1)] l']) simp
    show ?thesis using world_okD [OF assms(2) l(1)] l(2-5) s by (simp add: limiter_ok_def)
  qed
  moreover have "a = b" if a: "limiters w' a = Some j'" and b: "limiters w' b = Some k'" and same: "l_slots j' = l_slots k'" for a b j' k'
  proof -
    obtain j where j: "limiters w a = Some j" "l_slots j' = l_slots j" by (rule windowedD [OF windowed_sym [OF assms(1)] a]) simp
    obtain k where k: "limiters w b = Some k" "l_slots k' = l_slots k" by (rule windowedD [OF windowed_sym [OF assms(1)] b]) simp
    show ?thesis by (rule world_ok_slots [OF assms(2) j(1) k(1)]) (use j k same in simp)
  qed
  ultimately show ?thesis unfolding world_ok_def by blast
qed

lemma windowed_flight:
  assumes "windowed w w'"
  shows "flight w' = flight w"
proof
  fix n
  have same: "map_option permit_data (limiters w' n) = map_option permit_data (limiters w n)" using assms by (simp add: windowed_def)
  show "flight w' n = flight w n"
    using same by (cases "limiters w n"; cases "limiters w' n") (simp_all add: flight_def permit_data_def)
qed

lemma windowed_calls: "windowed w w' \<Longrightarrow> w_calls w' = w_calls w"
  by (simp add: windowed_def)

lemma windowed_holding: "windowed w w' \<Longrightarrow> holding n i w \<Longrightarrow> holding n i w'"
  unfolding holding_def by (metis (no_types) windowedD)

lemma deadline_windowed: "deadline_exceeded E deadline w = (b, w') \<Longrightarrow> windowed w w'"
  by (auto simp: deadline_exceeded_def read_clock_def Let_def windowed_refl split: option.splits intro!: windowed_frame)

lemma deadline_later: "time_moves E \<Longrightarrow> deadline_exceeded E deadline w = (b, w') \<Longrightarrow> w_time w \<le> w_time w'"
  by (auto simp: time_moves_def deadline_exceeded_def read_clock_def Let_def split: option.splits)

lemma clock_windowed: "read_clock E w = (t, w') \<Longrightarrow> windowed w w'"
  using read_clock_frame by (intro windowed_frame) auto

lemma slept_windowed: "windowed w (slept s w)"
  by (intro windowed_frame) auto

lemma wait_windowed_step:
  assumes "deadline_exceeded E deadline w = (late, w1)" and "read_clock E w1 = (now, w2)"
  shows "windowed w w1" "windowed w w2" "windowed w (upd_limiter n (drop_requests ts) w2)"
    "windowed w (slept s (upd_limiter n (drop_requests ts) w2))"
proof -
  show w1: "windowed w w1" by (rule deadline_windowed [OF assms(1)])
  show w2: "windowed w w2" by (rule windowed_trans [OF w1 clock_windowed [OF assms(2)]])
  show w3: "windowed w (upd_limiter n (drop_requests ts) w2)" by (rule windowed_trans [OF w2 windowed_requests])
  show "windowed w (slept s (upd_limiter n (drop_requests ts) w2))" by (rule windowed_trans [OF w3 slept_windowed])
qed

lemma wait_windowed:
  assumes "wait_for_rpm E deadline p w = Some r"
  shows "windowed w (snd r)"
proof (rule wait_for_rpm.raw_induct [where P = "\<lambda>E deadline p w r. windowed w (snd r)", OF _ assms])
  fix rec :: "env \<Rightarrow> real option \<Rightarrow> preset_row \<Rightarrow> ai_world \<Rightarrow> (bool \<times> ai_world) option" and E deadline p w r
  assume IH: "\<And>E deadline p w r. rec E deadline p w = Some r \<Longrightarrow> windowed w (snd r)"
    and step: "(let (late, w1) = deadline_exceeded E deadline w
      in if late then Some (False, w1)
         else let (now, w2) = read_clock E w1;
                  times = recent_times now (or_else (map_option l_requests (limiters w2 (p_name p))) [] @ e_rivals E (w_reads w2))
              in if int (length times) < max_rpm p
                 then Some (True, upd_limiter (p_name p) (drop_requests (times @ [now])) w2)
                 else rec E deadline p (slept (1 / 4) (upd_limiter (p_name p) (drop_requests times) w2))) = Some r"
  obtain late w1 where d: "deadline_exceeded E deadline w = (late, w1)" by fastforce
  obtain now w2 where c: "read_clock E w1 = (now, w2)" by fastforce
  note steps = wait_windowed_step [OF d c]
  show "windowed w (snd r)"
  proof (cases late)
    case True
    then show ?thesis using step steps(1) by (auto simp: d)
  next
    case on_time: False
    let ?times = "recent_times now (or_else (map_option l_requests (limiters w2 (p_name p))) [] @ e_rivals E (w_reads w2))"
    show ?thesis
    proof (cases "int (length ?times) < max_rpm p")
      case True
      then show ?thesis using step steps(3) on_time by (auto simp: d c Let_def)
    next
      case False
      then have "rec E deadline p (slept (1 / 4) (upd_limiter (p_name p) (drop_requests ?times) w2)) = Some r"
        using step on_time by (simp add: d c Let_def)
      then show ?thesis by (rule windowed_trans [OF steps(4) IH])
    qed
  qed
qed

section \<open>What one attempt does\<close>

lemma same_permits_windowed: "windowed w w' \<Longrightarrow> same_permits w w'"
  unfolding same_permits_def
  by (intro conjI allI impI) (blast intro: windowed_ok windowed_flight windowed_calls elim: windowedD)+

text \<open>Admission: a skipped preset costs no permit; an admitted one holds exactly one.\<close>

lemma admit_facts:
  assumes run: "admit E usage p w = Inr (r, w')" and ok: "world_ok w"
  shows "world_ok w'" "w_calls w' = w_calls w"
    "r = None \<Longrightarrow> flight w' = flight w"
    "r = Some i \<Longrightarrow> holding (p_name p) i w' \<and> 0 < max_rpm p \<and>
       (\<forall>m. flight w' m \<le> (if m = p_name p then flight w m + 1 else flight w m)) \<and>
       ((\<forall>n. \<not> e_freed E n) \<longrightarrow> (\<forall>m. flight w' m = (if m = p_name p then flight w m + 1 else flight w m)))"
    "time_moves E \<Longrightarrow> w_time w \<le> w_time w'"
proof -
  obtain l w1 where lf: "limiter_for p w = Inr (l, w1)" using run unfolding admit_def by (cases "limiter_for p w") auto
  obtain now w2 where rc: "read_clock E w1 = (now, w2)" by fastforce
  note f1 = limiter_for_facts [OF ok lf]
  have s2: "same_permits w w2"
    by (rule same_permits_trans [OF same_permits_limiter_for [OF lf ok] same_permits_windowed [OF clock_windowed [OF rc]]])
  then have ok2: "world_ok w2" using ok by (simp add: same_permits_def)
  have t2: "w_time w \<le> w_time w2" if "time_moves E" using read_clock_later [OF that rc] f1(5) by simp
  have "(world_ok w' \<and> w_calls w' = w_calls w \<and> (time_moves E \<longrightarrow> w_time w \<le> w_time w')) \<and>
    (case r of None \<Rightarrow> flight w' = flight w
     | Some i \<Rightarrow> holding (p_name p) i w' \<and> 0 < max_rpm p \<and>
       (\<forall>m. flight w' m \<le> (if m = p_name p then flight w m + 1 else flight w m)) \<and>
       ((\<forall>n. \<not> e_freed E n) \<longrightarrow> (\<forall>m. flight w' m = (if m = p_name p then flight w m + 1 else flight w m))))"
  proof (cases "in_backoff l now")
    case True
    then have "r = None" "w' = w2" using run by (simp_all add: admit_def lf rc)
    then show ?thesis using s2 ok t2 by (simp add: same_permits_def)
  next
    case False
    obtain limited w3 where rl: "is_preset_rate_limited E usage p w2 = Inr (limited, w3)"
      using run False by (cases "is_preset_rate_limited E usage p w2") (auto simp: admit_def lf rc)
    note f3 = rate_limited_facts [OF rl ok2]
    have s3: "same_permits w w3" by (rule same_permits_trans [OF s2 f3(1)])
    then have ok3: "world_ok w3" and fl3: "flight w3 = flight w" and c3: "w_calls w3 = w_calls w" using ok by (simp_all add: same_permits_def)
    have t3: "w_time w \<le> w_time w3" if "time_moves E" using t2 [OF that] f3(2) [OF that] by simp
    show ?thesis
    proof (cases limited)
      case True
      then have "r = None" "w' = w3" using run False by (simp_all add: admit_def lf rc rl)
      then show ?thesis using ok3 fl3 c3 t3 by simp
    next
      case pass: False
      obtain l' w4 where lf': "limiter_for p w3 = Inr (l', w4)"
        using run False pass by (cases "limiter_for p w3") (auto simp: admit_def lf rc rl)
      obtain got w5 where ac: "acquire_slot E (p_name p) (l_slots l') w4 = (got, w5)" by fastforce
      note f4 = limiter_for_facts [OF ok3 lf']
      have res: "(r, w') = (if got then (Some (l_slots l'), upd_limiter (p_name p) flight_up w5) else (None, w5))"
        using run False pass by (simp add: admit_def lf rc rl lf' ac)
      show ?thesis
      proof (cases got)
        case True
        then have acq: "acquire_slot E (p_name p) (l_slots l') w4 = (True, w5)" using ac by simp
        note e = enter_slot [OF f4(1,2) acq]
        have r: "r = Some (l_slots l')" "w' = upd_limiter (p_name p) flight_up w5" using res True by simp_all
        have fl4: "flight w4 = flight w" using f4(3) fl3 by simp
        have rpm: "0 < max_rpm p" using f3(3) pass by simp
        have most: "\<forall>m. flight w' m \<le> (if m = p_name p then flight w m + 1 else flight w m)"
          using e(3) unfolding r(2) fl4 by blast
        have exact: "(\<forall>n. \<not> e_freed E n) \<longrightarrow> (\<forall>m. flight w' m = (if m = p_name p then flight w m + 1 else flight w m))"
          using e(4) unfolding r(2) fl4 by blast
        have "w_calls w' = w_calls w" "time_moves E \<longrightarrow> w_time w \<le> w_time w'" using e(5,6) f4(4,5) c3 t3 by (simp_all add: r(2))
        then show ?thesis using e(1,2) most exact rpm unfolding r(1) r(2) option.case by blast
      next
        case False
        then have "r = None" "w' = slept 30 w4" using res ac by (auto simp: acquire_slot_def split: if_splits)
        moreover have "same_permits w4 (slept 30 w4)" by (rule same_permits_windowed [OF slept_windowed])
        ultimately show ?thesis using f4(1,3-5) fl3 c3 t3 by (auto simp: same_permits_def slept_def intro: order_trans)
      qed
    qed
  qed
  then show "world_ok w'" "w_calls w' = w_calls w" "r = None \<Longrightarrow> flight w' = flight w"
    "r = Some i \<Longrightarrow> holding (p_name p) i w' \<and> 0 < max_rpm p \<and>
       (\<forall>m. flight w' m \<le> (if m = p_name p then flight w m + 1 else flight w m)) \<and>
       ((\<forall>n. \<not> e_freed E n) \<longrightarrow> (\<forall>m. flight w' m = (if m = p_name p then flight w m + 1 else flight w m)))"
    "time_moves E \<Longrightarrow> w_time w \<le> w_time w'"
    by auto
qed

lemma admit_defined:
  assumes "0 \<le> max_concurrency p"
  shows "\<exists>r w'. admit E usage p w = Inr (r, w')"
proof -
  obtain l w1 where lf: "limiter_for p w = Inr (l, w1)" using limiter_for_defined [OF assms] by blast
  obtain now w2 where rc: "read_clock E w1 = (now, w2)" by fastforce
  obtain b w3 where rl: "is_preset_rate_limited E usage p w2 = Inr (b, w3)" using rate_limited_defined [OF assms] by blast
  obtain l' w4 where lf': "limiter_for p w3 = Inr (l', w4)" using limiter_for_defined [OF assms] by blast
  show ?thesis by (simp add: admit_def lf rc rl lf' split: prod.split)
qed


text \<open>The call itself keeps the permit.\<close>

lemma streak_simps [simp]:
  "l_slots (streak n b l) = l_slots l" "l_capacity (streak n b l) = l_capacity l" "l_in_flight (streak n b l) = l_in_flight l"
  "l_failures (streak n b l) = n" "l_backoff (streak n b l) = b"
  by (simp_all add: streak_def)

definition keeps_permit :: "string \<Rightarrow> nat \<Rightarrow> ai_world \<Rightarrow> ai_world \<Rightarrow> bool" where
  "keeps_permit name i w w' \<longleftrightarrow> (world_ok w \<and> holding name i w \<longrightarrow> world_ok w' \<and> holding name i w') \<and> flight w' = flight w"

lemma keeps_permit_trans: "keeps_permit n i u v \<Longrightarrow> keeps_permit n i v w \<Longrightarrow> keeps_permit n i u w"
  by (simp add: keeps_permit_def)

lemma keeps_permit_frame: "sems w' = sems w \<Longrightarrow> limiters w' = limiters w \<Longrightarrow> keeps_permit n i w w'"
  unfolding keeps_permit_def using world_ok_cong [of w w'] flight_cong [of w' w] by (simp add: holding_def)

lemma keeps_permit_upd:
  assumes "\<And>l. l_slots (f l) = l_slots l" "\<And>l. l_capacity (f l) = l_capacity l" "\<And>l. l_in_flight (f l) = l_in_flight l"
    "\<And>l. 0 \<le> l_failures l \<Longrightarrow> l_failures l < FAILURE_THRESHOLD \<Longrightarrow> 0 \<le> l_failures (f l) \<and> l_failures (f l) < FAILURE_THRESHOLD"
  shows "keeps_permit n i w (upd_limiter m f w)"
proof -
  have "holding n i w \<Longrightarrow> holding n i (upd_limiter m f w)"
    using assms(1,3) by (auto simp: holding_def)
  then show ?thesis
    unfolding keeps_permit_def using upd_limiter_ok [of w f m, OF _ assms] flight_upd [of f m w, OF assms(3)] by blast
qed

lemma keeps_permit_streak: "0 \<le> k \<Longrightarrow> k < FAILURE_THRESHOLD \<Longrightarrow> keeps_permit n i w (upd_limiter m (streak k b) w)"
  by (rule keeps_permit_upd) auto

lemma keeps_permit_tokens: "keeps_permit n i w (upd_limiter m (drop_tokens ts) w)"
  by (rule keeps_permit_upd) auto

lemma keeps_permit_clock: "read_clock E w = (t, w') \<Longrightarrow> keeps_permit n i w w'"
  using read_clock_frame by (intro keeps_permit_frame) auto

lemma limiter_for_held: "holding (p_name p) i w \<Longrightarrow> \<exists>l. limiter_for p w = Inr (l, w)"
  by (auto simp: holding_def limiter_for_def)

lemma log_keeps:
  assumes run: "log_preset_usage E p tokens w = Some w'" and held: "holding (p_name p) i w"
  shows "keeps_permit n j w w'" "w_calls w' = w_calls w" "\<exists>k. e_logged E k"
proof -
  let ?w1 = "w\<lparr>ai_store := increment_hourly_usage (p_name p) (hour_bucket (e_wall E (w_time w))) 1 tokens (ai_store w)\<rparr>"
  have k1: "keeps_permit n j w ?w1" by (rule keeps_permit_frame) simp_all
  have logged: "e_logged E (w_reads w)" using run by (auto simp: log_preset_usage_def split: if_splits)
  then show "\<exists>k. e_logged E k" by blast
  show "keeps_permit n j w w'" "w_calls w' = w_calls w"
  proof (atomize (full), cases "0 < tokens")
    case True
    have "holding (p_name p) i ?w1" using held by (simp add: holding_def)
    then obtain l where l: "limiter_for p ?w1 = Inr (l, ?w1)" using limiter_for_held by blast
    obtain now w3 where c: "read_clock E ?w1 = (now, w3)" by fastforce
    have w': "w' = upd_limiter (p_name p) (drop_tokens (l_tokens l @ [(now, tokens)])) w3"
      using run logged True l c by (simp add: log_preset_usage_def Let_def)
    have "keeps_permit n j w w'"
      unfolding w' by (rule keeps_permit_trans [OF keeps_permit_trans [OF k1 keeps_permit_clock [OF c]] keeps_permit_tokens])
    then show "keeps_permit n j w w' \<and> w_calls w' = w_calls w" using w' read_clock_frame [OF c] by simp
  next
    case False
    then have "w' = ?w1" using run logged by (simp add: log_preset_usage_def Let_def)
    then show "keeps_permit n j w w' \<and> w_calls w' = w_calls w" using k1 by simp
  qed
qed

lemma counted_failure_keeps:
  assumes ok: "world_ok w"
  shows "keeps_permit n i w (counted_failure E p w)" "w_calls (counted_failure E p w) = w_calls w"
proof (atomize (full), cases "limiters w (p_name p)")
  case None
  then show "keeps_permit n i w (counted_failure E p w) \<and> w_calls (counted_failure E p w) = w_calls w"
    by (simp add: counted_failure_def keeps_permit_def)
next
  case (Some l)
  have lok: "0 \<le> l_failures l" using world_okD [OF ok Some] by (simp add: limiter_ok_def)
  obtain now w1 where c: "read_clock E w = (now, w1)" by fastforce
  show "keeps_permit n i w (counted_failure E p w) \<and> w_calls (counted_failure E p w) = w_calls w"
  proof (cases "FAILURE_THRESHOLD \<le> l_failures l + 1")
    case True
    then have "counted_failure E p w = upd_limiter (p_name p) (streak 0 (now + BACKOFF_SECONDS)) w1"
      by (simp add: counted_failure_def Some c)
    moreover have "keeps_permit n i w1 (upd_limiter (p_name p) (streak 0 (now + BACKOFF_SECONDS)) w1)"
      by (rule keeps_permit_streak) (simp_all add: FAILURE_THRESHOLD_def)
    ultimately show ?thesis using keeps_permit_trans [OF keeps_permit_clock [OF c]] read_clock_frame [OF c] by simp
  next
    case False
    then have "counted_failure E p w = upd_limiter (p_name p) (streak (l_failures l + 1) (l_backoff l)) w"
      by (simp add: counted_failure_def Some)
    then show ?thesis using keeps_permit_streak [of "l_failures l + 1"] False lok by simp
  qed
qed

lemma noted_keeps: "keeps_permit n i w (noted p b w)" "w_calls (noted p b w) = w_calls w @ [(p, b)]"
  by (rule keeps_permit_frame) (simp_all add: noted_def)

definition one_call :: "env \<Rightarrow> (nat \<Rightarrow> preset_row \<Rightarrow> 'v reply) \<Rightarrow> preset_row \<Rightarrow> (preset_row \<times> bool) list \<Rightarrow> 'v outcome \<Rightarrow> (preset_row \<times> bool) list \<Rightarrow> bool" where
  "one_call E fn p before s after \<longleftrightarrow>
     (after = before @ [(p, False)] \<and> ((\<exists>m. s = Go (Some m)) \<or> s = Halt DeadlinePassed)) \<or>
     (after = before @ [(p, True)] \<and> (\<exists>v. s = Halt (Value v) \<and> reply_value (fn (length before) p) = Some v) \<and> (\<exists>k. e_logged E k))"

lemma perform_call_keeps:
  assumes run: "perform_call E fn p w = (s, w')" and ok: "world_ok w" and held: "holding (p_name p) i w"
  shows "world_ok w'" "holding (p_name p) i w'" "flight w' = flight w" "one_call E fn p (w_calls w) s (w_calls w')"
proof -
  let ?zero = "upd_limiter (p_name p) (streak 0 0) w"
  have z: "keeps_permit (p_name p) i w ?zero" by (rule keeps_permit_streak) (simp_all add: FAILURE_THRESHOLD_def)
  have zok: "world_ok ?zero" "holding (p_name p) i ?zero" using z ok held by (simp_all add: keeps_permit_def)
  have failed: "keeps_permit (p_name p) i u (counted_failure E p (noted p False u))"
      "w_calls (counted_failure E p (noted p False u)) = w_calls u @ [(p, False)]" if "world_ok u" "holding (p_name p) i u" for u
  proof -
    have "world_ok (noted p False u)" using noted_keeps(1) [of "p_name p" i u p False] that by (simp add: keeps_permit_def)
    note c = counted_failure_keeps [OF this]
    show "keeps_permit (p_name p) i u (counted_failure E p (noted p False u))" by (rule keeps_permit_trans [OF noted_keeps(1) c(1)])
    show "w_calls (counted_failure E p (noted p False u)) = w_calls u @ [(p, False)]" using c(2) by (simp add: noted_keeps(2))
  qed
  have answered: "keeps_permit (p_name p) i w w' \<and> one_call E fn p (w_calls w) s (w_calls w')"
    if v: "reply_value (fn (length (w_calls w)) p) = Some v"
      and r: "(case log_preset_usage E p tokens ?zero of
          Some w2 \<Rightarrow> (Halt (Value v), noted p True w2)
        | None \<Rightarrow> (Go (Some ''usage write failed''), counted_failure E p (noted p False ?zero))) = (s, w')" for v tokens
  proof (cases "log_preset_usage E p tokens ?zero")
    case None
    then have "s = Go (Some ''usage write failed'')" "w' = counted_failure E p (noted p False ?zero)" using r by simp_all
    then show ?thesis using keeps_permit_trans [OF z failed(1) [OF zok]] failed(2) [OF zok] by (simp add: one_call_def)
  next
    case (Some w2)
    note lk = log_keeps [OF Some zok(2)]
    have "s = Halt (Value v)" "w' = noted p True w2" using r Some by simp_all
    then show ?thesis using keeps_permit_trans [OF keeps_permit_trans [OF z lk(1)] noted_keeps(1)] lk(2,3) v
      by (simp add: one_call_def noted_keeps(2))
  qed
  have "keeps_permit (p_name p) i w w' \<and> one_call E fn p (w_calls w) s (w_calls w')"
  proof (cases "fn (length (w_calls w)) p")
    case (Tracked v tokens)
    then show ?thesis using run answered [of v "or_else tokens 0"] by (simp add: perform_call_def Let_def)
  next
    case (Plain v)
    then show ?thesis using run answered [of v 0] by (simp add: perform_call_def Let_def)
  next
    case TimedOut
    then have "s = Halt DeadlinePassed" "w' = noted p False w" using run by (simp_all add: perform_call_def)
    then show ?thesis using noted_keeps by (simp add: one_call_def)
  next
    case (Raised m)
    then have "s = Go (Some m)" "w' = counted_failure E p (noted p False w)" using run by (simp_all add: perform_call_def)
    then show ?thesis using failed [OF ok held] by (simp add: one_call_def)
  qed
  then show "world_ok w'" "holding (p_name p) i w'" "flight w' = flight w" "one_call E fn p (w_calls w) s (w_calls w')"
    using ok held by (simp_all add: keeps_permit_def)
qed

lemma finished_facts:
  assumes "world_ok w" "holding (p_name p) i w"
  obtains w' where "finished i p (s, w) = (s, w')" "world_ok w'" "flight w' = (flight w)(p_name p := flight w (p_name p) - 1)"
    "w_calls w' = w_calls w" "\<And>l. limiters w (p_name p) = Some l \<Longrightarrow> limiters w' (p_name p) = Some (flight_down l)" "w_time w' = w_time w"
  using leave_slot [OF assms] unfolding finished_def by auto

text \<open>After an attempt nothing it took is still held, and the calls it made are none or one.\<close>

lemma attempt_facts:
  assumes run: "attempt E fn deadline usage p w = Some (s, w')" and ok: "world_ok w" and cap: "0 \<le> max_concurrency p"
  shows "world_ok w'" "\<And>n. flight w' n \<le> flight w n" "(\<forall>n. \<not> e_freed E n) \<Longrightarrow> flight w' = flight w"
    "(w_calls w' = w_calls w \<and> (s = Go None \<or> s = Halt DeadlinePassed)) \<or> one_call E fn p (w_calls w) s (w_calls w')"
proof -
  obtain late w1 where d: "deadline_exceeded E deadline w = (late, w1)" by fastforce
  note wd = deadline_windowed [OF d]
  have ok1: "world_ok w1" and fl1: "flight w1 = flight w" and c1: "w_calls w1 = w_calls w"
    using windowed_ok [OF wd ok] windowed_flight [OF wd] windowed_calls [OF wd] by auto
  have "world_ok w' \<and> (\<forall>n. flight w' n \<le> flight w n) \<and> ((\<forall>n. \<not> e_freed E n) \<longrightarrow> flight w' = flight w) \<and>
    ((w_calls w' = w_calls w \<and> (s = Go None \<or> s = Halt DeadlinePassed)) \<or> one_call E fn p (w_calls w) s (w_calls w'))"
  proof (cases late)
    case True
    then have "s = Halt DeadlinePassed" "w' = w1" using run by (simp_all add: attempt_def d)
    then show ?thesis using ok1 fl1 c1 by simp
  next
    case False
    obtain r w2 where ad: "admit E usage p w1 = Inr (r, w2)" using admit_defined [OF cap] by blast
    note af = admit_facts [OF ad ok1]
    show ?thesis
    proof (cases r)
      case None
      then have "s = Go None" "w' = w2" using run False by (simp_all add: attempt_def d ad)
      then show ?thesis using af(1,2,3) None fl1 c1 by simp
    next
      case (Some i)
      have h: "holding (p_name p) i w2"
        and most: "flight w2 m \<le> (if m = p_name p then flight w m + 1 else flight w m)"
        and exact: "(\<forall>n. \<not> e_freed E n) \<Longrightarrow> flight w2 m = (if m = p_name p then flight w m + 1 else flight w m)" for m
        using af(4) [OF Some, unfolded fl1] by blast+
      obtain got w3 where wt: "wait_for_rpm E deadline p w2 = Some (got, w3)"
        using run False Some by (cases "wait_for_rpm E deadline p w2") (auto simp: attempt_def d ad)
      have ww: "windowed w2 w3" using wait_windowed [OF wt] by simp
      have ok3: "world_ok w3" and h3: "holding (p_name p) i w3" and fl3: "flight w3 = flight w2" and c3: "w_calls w3 = w_calls w"
        using windowed_ok [OF ww af(1)] windowed_holding [OF ww h] windowed_flight [OF ww] windowed_calls [OF ww] af(2) c1 by auto
      have returned: "(\<forall>n. flight w4 n \<le> flight w n) \<and> ((\<forall>n. \<not> e_freed E n) \<longrightarrow> flight w4 = flight w)"
        if w4: "flight w4 = (flight w3)(p_name p := flight w3 (p_name p) - 1)" for w4
      proof (intro conjI allI impI)
        show "flight w4 n \<le> flight w n" for n
          using most [of n] by (cases "n = p_name p") (simp_all add: w4 fl3)
        assume none: "\<forall>n. \<not> e_freed E n"
        show "flight w4 = flight w"
        proof
          show "flight w4 n = flight w n" for n
            using exact [OF none, of n] by (cases "n = p_name p") (simp_all add: w4 fl3)
        qed
      qed
      show ?thesis
      proof (cases got)
        case True
        obtain s4 w4 where pc: "perform_call E fn p w3 = (s4, w4)" by fastforce
        note pf = perform_call_keeps [OF pc ok3 h3]
        obtain w5 where fin: "finished i p (s4, w4) = (s4, w5)" "world_ok w5" "flight w5 = (flight w4)(p_name p := flight w4 (p_name p) - 1)"
          "w_calls w5 = w_calls w4" by (rule finished_facts [OF pf(1,2)])
        have "s = s4" "w' = w5" using run False Some True by (simp_all add: attempt_def d ad wt pc fin(1))
        then show ?thesis using fin returned [of w5] pf(3,4) c3 by simp
      next
        case no: False
        obtain w5 where fin: "finished i p (Halt DeadlinePassed :: 'a outcome, w3) = (Halt DeadlinePassed, w5)" "world_ok w5"
          "flight w5 = (flight w3)(p_name p := flight w3 (p_name p) - 1)" "w_calls w5 = w_calls w3" by (rule finished_facts [OF ok3 h3])
        have "s = Halt DeadlinePassed" "w' = w5" using run False Some no by (simp_all add: attempt_def d ad wt fin(1))
        then show ?thesis using fin returned [of w5] c3 by simp
      qed
    qed
  qed
  then show "world_ok w'" "\<And>n. flight w' n \<le> flight w n" "(\<forall>n. \<not> e_freed E n) \<Longrightarrow> flight w' = flight w"
    "(w_calls w' = w_calls w \<and> (s = Go None \<or> s = Halt DeadlinePassed)) \<or> one_call E fn p (w_calls w) s (w_calls w')"
    by blast+
qed


section \<open>Waiting ends\<close>

lemma wait_returns_by_deadline:
  assumes moves: "time_moves E"
  shows "\<exists>r. wait_for_rpm E (Some d) p w = Some r"
proof (induction "nat \<lceil>4 * (d - w_time w)\<rceil>" arbitrary: w rule: less_induct)
  case less
  obtain late w1 where dl: "deadline_exceeded E (Some d) w = (late, w1)" by fastforce
  obtain now w2 where c: "read_clock E w1 = (now, w2)" by fastforce
  let ?times = "recent_times now (or_else (map_option l_requests (limiters w2 (p_name p))) [] @ e_rivals E (w_reads w2))"
  let ?next = "slept (1 / 4) (upd_limiter (p_name p) (drop_requests ?times) w2)"
  have unfold: "wait_for_rpm E (Some d) p w =
      (if late then Some (False, w1)
       else if int (length ?times) < max_rpm p then Some (True, upd_limiter (p_name p) (drop_requests (?times @ [now])) w2)
       else wait_for_rpm E (Some d) p ?next)"
    by (subst wait_for_rpm.simps) (simp add: dl c Let_def)
  show ?case
  proof (cases late)
    case False
    have later: "w_time w \<le> w_time w1" "w_time w1 \<le> w_time w2"
      using deadline_later [OF moves dl] read_clock_later [OF moves c] by auto
    have early: "w_time w1 < d" using False dl by (auto simp: deadline_exceeded_def read_clock_def Let_def)
    have grown: "w_time ?next = w_time w2 + 1 / 4" by (simp add: slept_def)
    have "4 * (d - w_time ?next) \<le> 4 * (d - w_time w) - 1" using grown later by simp
    then have "\<lceil>4 * (d - w_time ?next)\<rceil> \<le> \<lceil>4 * (d - w_time w)\<rceil> - 1" by linarith
    moreover have "0 < \<lceil>4 * (d - w_time w)\<rceil>" using early later by simp
    ultimately have "nat \<lceil>4 * (d - w_time ?next)\<rceil> < nat \<lceil>4 * (d - w_time w)\<rceil>" by linarith
    from less [OF this] show ?thesis unfolding unfold using False by auto
  next
    case True
    then have "wait_for_rpm E (Some d) p w = Some (False, w1)" using unfold by simp
    then show ?thesis by blast
  qed
qed

lemma set_recent_times: "set (recent_times now ts) \<subseteq> set ts"
  unfolding recent_times_def by (auto dest: set_dropWhileD)

lemma wait_returns_alone:
  assumes moves: "time_moves E" and alone: "\<And>n. e_rivals E n = []" and rpm: "0 < max_rpm p"
    and old: "\<forall>t \<in> set (or_else (map_option l_requests (limiters w (p_name p))) []). t \<le> M"
  shows "\<exists>r. wait_for_rpm E None p w = Some r"
  using old
proof (induction "nat \<lceil>4 * (M + 60 - w_time w)\<rceil>" arbitrary: w rule: less_induct)
  case less
  have dl: "deadline_exceeded E None w = (False, w)" by (simp add: deadline_exceeded_def)
  obtain now w2 where c: "read_clock E w = (now, w2)" by fastforce
  let ?reqs = "or_else (map_option l_requests (limiters w (p_name p))) []"
  let ?times = "recent_times now ?reqs"
  let ?next = "slept (1 / 4) (upd_limiter (p_name p) (drop_requests ?times) w2)"
  have same: "limiters w2 = limiters w" using read_clock_frame [OF c] by simp
  have unfold: "wait_for_rpm E None p w =
      (if int (length ?times) < max_rpm p then Some (True, upd_limiter (p_name p) (drop_requests (?times @ [now])) w2)
       else wait_for_rpm E None p ?next)"
    by (subst wait_for_rpm.simps) (simp add: dl c Let_def alone same)
  show ?case
  proof (cases "int (length ?times) < max_rpm p")
    case True
    then have "wait_for_rpm E None p w = Some (True, upd_limiter (p_name p) (drop_requests (?times @ [now])) w2)" using unfold by simp
    then show ?thesis by blast
  next
    case False
    have later: "w_time w \<le> now" "w_time w2 = now" using read_clock_later [OF moves c] by auto
    have early: "now < M + 60"
    proof (rule ccontr)
      assume "\<not> now < M + 60"
      then have "60 \<le> now - t" if "t \<in> set ?reqs" for t using less.prems that by fastforce
      then have "?times = []" unfolding recent_times_def dropWhile_eq_Nil_conv by blast
      then show False using False rpm by simp
    qed
    have grown: "w_time ?next = now + 1 / 4" by (simp add: slept_def later)
    have "4 * (M + 60 - w_time ?next) \<le> 4 * (M + 60 - w_time w) - 1" using grown later by simp
    then have "\<lceil>4 * (M + 60 - w_time ?next)\<rceil> \<le> \<lceil>4 * (M + 60 - w_time w)\<rceil> - 1" by linarith
    moreover have "0 < \<lceil>4 * (M + 60 - w_time w)\<rceil>" using early later by simp
    ultimately have smaller: "nat \<lceil>4 * (M + 60 - w_time ?next)\<rceil> < nat \<lceil>4 * (M + 60 - w_time w)\<rceil>" by linarith
    have "set (or_else (map_option l_requests (limiters ?next (p_name p))) []) \<subseteq> set ?reqs"
      using set_recent_times by (auto simp: same or_else_def split: option.splits)
    then have "\<forall>t \<in> set (or_else (map_option l_requests (limiters ?next (p_name p))) []). t \<le> M"
      using less.prems by blast
    from less.hyps [OF smaller this] show ?thesis unfolding unfold using False by simp
  qed
qed

definition patient :: "env \<Rightarrow> real option \<Rightarrow> bool" where
  "patient E deadline \<longleftrightarrow> time_moves E \<and> (deadline \<noteq> None \<or> (\<forall>n. e_rivals E n = []))"

lemma wait_returns:
  assumes "patient E deadline" and "0 < max_rpm p"
  shows "\<exists>r. wait_for_rpm E deadline p w = Some r"
proof (cases deadline)
  case None
  let ?reqs = "or_else (map_option l_requests (limiters w (p_name p))) []"
  have "\<forall>t \<in> set ?reqs. t \<le> Max (insert 0 (set ?reqs))" by simp
  then show ?thesis using wait_returns_alone assms None unfolding patient_def by blast
next
  case (Some d)
  then show ?thesis using wait_returns_by_deadline assms(1) by (simp add: patient_def)
qed

lemma attempt_returns:
  assumes "patient E deadline" "world_ok w" "0 \<le> max_concurrency p"
  shows "\<exists>r. attempt E fn deadline usage p w = Some r"
proof -
  obtain late w1 where d: "deadline_exceeded E deadline w = (late, w1)" by fastforce
  have ok1: "world_ok w1" by (rule windowed_ok [OF deadline_windowed [OF d] assms(2)])
  obtain r w2 where ad: "admit E usage p w1 = Inr (r, w2)" using admit_defined [OF assms(3)] by blast
  show ?thesis
  proof (cases r)
    case None
    then show ?thesis by (simp add: attempt_def d ad)
  next
    case (Some i)
    have "0 < max_rpm p" using admit_facts(4) [OF ad ok1 Some] by simp
    then obtain got w3 where "wait_for_rpm E deadline p w2 = Some (got, w3)" using wait_returns [OF assms(1)] by force
    then show ?thesis using Some by (cases got) (simp_all add: attempt_def d ad)
  qed
qed

section \<open>The router keeps its promises\<close>

definition routed_from :: "env \<Rightarrow> real option \<Rightarrow> ai_world \<Rightarrow> ai_world \<Rightarrow> bool" where
  "routed_from E deadline w0 w \<longleftrightarrow> world_ok w \<and> (\<forall>n. flight w n \<le> flight w0 n) \<and>
     ((\<forall>n. \<not> e_freed E n) \<longrightarrow> flight w = flight w0)"

lemma attempt_routed:
  "routed_from E deadline w0 w \<Longrightarrow> 0 \<le> max_concurrency p \<Longrightarrow> attempt E fn deadline usage p w = Some (s, w') \<Longrightarrow>
   routed_from E deadline w0 w'"
  unfolding routed_from_def using attempt_facts(1-3) by (metis order_trans)

lemma attempt_traces:
  assumes "routed_from E deadline w0 w" "0 \<le> max_concurrency p" "attempt E fn deadline usage p w = Some (s, w')"
  shows "(w_calls w' = w_calls w \<and> (s = Go None \<or> s = Halt DeadlinePassed)) \<or>
      (w_calls w' = w_calls w @ [(p, False)] \<and> ((\<exists>m. s = Go (Some m)) \<or> s = Halt DeadlinePassed)) \<or>
      (w_calls w' = w_calls w @ [(p, True)] \<and> (\<exists>v. s = Halt (Value v) \<and>
         reply_value (fn (length (w_calls w)) p) = Some v \<and> (\<exists>k. e_logged E k)))"
  using attempt_facts(4) [OF assms(3) _ assms(2)] assms(1) unfolding routed_from_def one_call_def by blast

interpretation ai_router: chain_router "attempt E fn deadline usage" "routed_from E deadline w0" w_calls "\<lambda>p. 0 \<le> max_concurrency p"
    "\<lambda>n p v. reply_value (fn n p) = Some v \<and> (\<exists>k. e_logged E k)"
  by unfold_locales (blast intro: attempt_routed, blast dest: attempt_traces)

text \<open>With patience as part of the invariant every attempt returns.\<close>

interpretation patient_router: total_router "attempt E fn deadline usage" "\<lambda>w. patient E deadline \<and> routed_from E deadline w0 w" w_calls
    "\<lambda>p. 0 \<le> max_concurrency p" "\<lambda>n p v. reply_value (fn n p) = Some v \<and> (\<exists>k. e_logged E k)"
proof unfold_locales
  show "\<exists>r. attempt E fn deadline usage p w = Some r"
    if "patient E deadline \<and> routed_from E deadline w0 w" "0 \<le> max_concurrency p" for w p
    using that attempt_returns unfolding routed_from_def by blast
  show "patient E deadline \<and> routed_from E deadline w0 w'"
    if "patient E deadline \<and> routed_from E deadline w0 w" "0 \<le> max_concurrency p" "attempt E fn deadline usage p w = Some (s, w')" for w p s w'
    using that attempt_routed by blast
qed (rule attempt_traces, blast+)


lemma read_chain_frame:
  assumes "read_chain E w = (chain, w1)"
  shows "sems w1 = sems w" "limiters w1 = limiters w" "w_calls w1 = w_calls w"
  using assms by (auto simp: read_chain_def read_clock_def Let_def split: prod.splits)

lemma read_chain_routed: "read_chain E w = (chain, w1) \<Longrightarrow> world_ok w \<Longrightarrow> routed_from E deadline w w1"
  using read_chain_frame [of E w chain w1] world_ok_cong [of w w1] flight_cong [of w1 w] by (simp add: routed_from_def)

text \<open>C2: one AI call tries the presets of the chain in their order and each at most once; it returns
  the value the provider gave for the last preset called, all calls before it having been refused;
  it reports exhaustion exactly when no call was accepted, with an error exactly when some call was
  made; and no exception of the limiter's own escapes.\<close>

theorem call_tries_each_once:
  assumes "world_ok w" and "read_chain E w = (chain, w1)" and "\<And>p. p \<in> set chain \<Longrightarrow> 0 \<le> max_concurrency p"
    and "call_ai_limited E fn deadline w = Some (a, w')"
  shows "\<exists>new. w_calls w' = w_calls w @ new \<and> subseq (map fst new) chain \<and>
     (case a of
        Value v \<Rightarrow> \<exists>refused p. new = refused @ [(p, True)] \<and> (\<forall>c \<in> set refused. \<not> snd c) \<and>
                   reply_value (fn (length (w_calls w) + length refused) p) = Some v
      | Exhausted d \<Rightarrow> (\<forall>c \<in> set new. \<not> snd c) \<and> (d = None) = (new = [])
      | DeadlinePassed \<Rightarrow> (\<forall>c \<in> set new. \<not> snd c)
      | Escaped x \<Rightarrow> False)"
proof -
  note fr = read_chain_frame [OF assms(2)]
  let ?usage = "get_hourly_usage_many (e_wall E (w_time w1)) (ai_store w1) (map p_name chain) 24"
  have run: "route (attempt E fn deadline ?usage) chain None w1 = Some (a, w')"
    using assms(2,4) by (cases "chain = []") (simp_all add: call_ai_limited_def)
  have r: "routed_from E deadline w w1" by (rule read_chain_routed [OF assms(2,1)])
  from ai_router.route_traces [OF run r assms(3)] show ?thesis by (cases a) (auto simp: fr)
qed

text \<open>C4: whatever its outcome, a call gives back every permit it took: the counters of requests in
  flight are where they were, lower only by what other threads finished, and on every limiter the
  free permits and those in flight still add up to its capacity.\<close>

theorem call_returns_permits:
  assumes "world_ok w" and "\<And>p. p \<in> set (fst (read_chain E w)) \<Longrightarrow> 0 \<le> max_concurrency p"
    and "call_ai_limited E fn deadline w = Some (a, w')"
  shows "(\<forall>n. flight w' n \<le> flight w n) \<and> ((\<forall>n. \<not> e_freed E n) \<longrightarrow> flight w' = flight w) \<and>
     (\<forall>n l. limiters w' n = Some l \<longrightarrow> sem_value (sems w' ! l_slots l) + l_in_flight l = l_capacity l)"
proof -
  obtain chain w1 where c: "read_chain E w = (chain, w1)" by fastforce
  let ?usage = "get_hourly_usage_many (e_wall E (w_time w1)) (ai_store w1) (map p_name chain) 24"
  have run: "route (attempt E fn deadline ?usage) chain None w1 = Some (a, w')"
    using assms(3) c by (cases "chain = []") (simp_all add: call_ai_limited_def)
  have "routed_from E deadline w w'"
    using ai_router.route_keeps [OF run read_chain_routed [OF c assms(1)]] assms(2) c by simp
  then have r: "world_ok w'" "\<forall>n. flight w' n \<le> flight w n" "(\<forall>n. \<not> e_freed E n) \<longrightarrow> flight w' = flight w"
    unfolding routed_from_def by blast+
  have "sem_value (sems w' ! l_slots l) + l_in_flight l = l_capacity l" if "limiters w' n = Some l" for n l
    using world_okD [OF r(1) that] by (simp add: limiter_ok_def)
  then show ?thesis using r(2,3) by blast
qed

text \<open>C20: a call always comes back: with a deadline whatever the other threads do, and without one as
  long as none of them keeps the request window full.\<close>

theorem call_always_answers:
  assumes "time_moves E" and "deadline \<noteq> None \<or> (\<forall>n. e_rivals E n = [])"
    and "world_ok w" and "\<And>p. p \<in> set (fst (read_chain E w)) \<Longrightarrow> 0 \<le> max_concurrency p"
  shows "\<exists>a w'. call_ai_limited E fn deadline w = Some (a, w')"
proof -
  obtain chain w1 where c: "read_chain E w = (chain, w1)" by fastforce
  have "patient E deadline \<and> routed_from E deadline w w1"
    using assms(1,2) read_chain_routed [OF c assms(3)] by (simp add: patient_def)
  from patient_router.route_returns [OF this, of chain] show ?thesis
    using assms(4) c by (auto simp: call_ai_limited_def)
qed

text \<open>C39: the usage is written inside the guarded block, so when that write fails the answer is lost: the
  call goes on to the next preset and never returns a value, however many paid calls it makes.\<close>

theorem unlogged_answers_are_lost:
  assumes "world_ok w" and "\<And>p. p \<in> set (fst (read_chain E w)) \<Longrightarrow> 0 \<le> max_concurrency p"
    and "call_ai_limited E fn deadline w = Some (a, w')" and "\<And>k. \<not> e_logged E k"
  shows "a \<noteq> Value v"
proof -
  obtain chain w1 where c: "read_chain E w = (chain, w1)" by fastforce
  let ?usage = "get_hourly_usage_many (e_wall E (w_time w1)) (ai_store w1) (map p_name chain) 24"
  have run: "route (attempt E fn deadline ?usage) chain None w1 = Some (a, w')"
    using assms(3) c by (cases "chain = []") (simp_all add: call_ai_limited_def)
  have "0 \<le> max_concurrency p" if "p \<in> set chain" for p using assms(2) that c by simp
  from ai_router.route_traces [OF run read_chain_routed [OF c assms(1)] this] show ?thesis
    using assms(4) by auto
qed

section \<open>Failure streaks\<close>

lemma windowed_streaks: "windowed w w' \<Longrightarrow> limiters w n = Some l \<Longrightarrow>
    \<exists>l'. limiters w' n = Some l' \<and> l_failures l' = l_failures l \<and> l_backoff l' = l_backoff l"
  by (metis windowedD)

lemma admit_keeps_streak:
  assumes run: "admit E usage p w = Inr (r, w')" and ok: "world_ok w" and l: "limiters w n = Some l"
  shows "\<exists>l'. limiters w' n = Some l' \<and> l_failures l' = l_failures l \<and> l_backoff l' = l_backoff l"
proof -
  obtain l1 w1 where lf: "limiter_for p w = Inr (l1, w1)" using run unfolding admit_def by (cases "limiter_for p w") auto
  obtain now w2 where rc: "read_clock E w1 = (now, w2)" by fastforce
  have s2: "same_permits w w2"
    by (rule same_permits_trans [OF same_permits_limiter_for [OF lf ok] same_permits_windowed [OF clock_windowed [OF rc]]])
  then have ok2: "world_ok w2" using ok by (simp add: same_permits_def)
  have kept: "\<exists>l'. limiters u n = Some l' \<and> l_failures l' = l_failures l \<and> l_backoff l' = l_backoff l" if "same_permits w u" for u
    using that l unfolding same_permits_def by blast
  show ?thesis
  proof (cases "in_backoff l1 now")
    case True
    then show ?thesis using run kept [OF s2] by (simp add: admit_def lf rc)
  next
    case False
    obtain limited w3 where rl: "is_preset_rate_limited E usage p w2 = Inr (limited, w3)"
      using run False by (cases "is_preset_rate_limited E usage p w2") (auto simp: admit_def lf rc)
    have s3: "same_permits w w3" by (rule same_permits_trans [OF s2 rate_limited_facts(1) [OF rl ok2]])
    show ?thesis
    proof (cases limited)
      case True
      then show ?thesis using run False kept [OF s3] by (simp add: admit_def lf rc rl)
    next
      case pass: False
      obtain l' w4 where lf': "limiter_for p w3 = Inr (l', w4)"
        using run False pass by (cases "limiter_for p w3") (auto simp: admit_def lf rc rl)
      have ok3: "world_ok w3" using s3 ok by (simp add: same_permits_def)
      have s4: "same_permits w w4" by (rule same_permits_trans [OF s3 same_permits_limiter_for [OF lf' ok3]])
      obtain got w5 where ac: "acquire_slot E (p_name p) (l_slots l') w4 = (got, w5)" by fastforce
      have w': "w' = (if got then upd_limiter (p_name p) flight_up w5 else w5)"
        using run False pass by (auto simp: admit_def lf rc rl lf' ac)
      obtain k where k: "limiters w4 n = Some k" "l_failures k = l_failures l" "l_backoff k = l_backoff l" using kept [OF s4] by blast
      have "limiters w5 = limiters w4 \<or> w5 = upd_limiter (p_name p) flight_down w4"
        using ac by (auto simp: acquire_slot_def set_sem_def slept_def flight_down_def [abs_def] split: if_splits)
      then obtain j where "limiters w5 n = Some j" "l_failures j = l_failures l" "l_backoff j = l_backoff l"
        using k by (cases "n = p_name p") auto
      then show ?thesis by (cases "n = p_name p") (auto simp: w')
    qed
  qed
qed

text \<open>C18: the third failure in a row sidelines a preset: its streak starts again, and for sixty seconds
  of the clock every attempt at it is skipped without a call, while after them it is in backoff no
  longer.\<close>

theorem third_failure_sidelines:
  assumes "world_ok w" and "0 \<le> max_concurrency p" and "limiters w (p_name p) = Some l" "l_failures l = 2"
    and "attempt E fn deadline usage p w = Some (Go (Some m), w')" and "fn (length (w_calls w)) p = Raised m" and "0 \<le> w_time w'"
  shows "\<exists>l'. limiters w' (p_name p) = Some l' \<and> l_failures l' = 0 \<and> (\<forall>t. in_backoff l' t \<longleftrightarrow> t < w_time w' + 60) \<and>
     (deadline_exceeded E deadline' w' = (False, w2) \<and> w_time w2 + e_lag E (w_reads w2) < w_time w' + 60 \<longrightarrow>
        (\<exists>w3. attempt E fn' deadline' usage' p w' = Some (Go None, w3) \<and> w_calls w3 = w_calls w'))"
proof -
  obtain late w1 where d: "deadline_exceeded E deadline w = (late, w1)" by fastforce
  have late: "\<not> late" using assms(5) d by (auto simp: attempt_def)
  note wd = deadline_windowed [OF d]
  have ok1: "world_ok w1" by (rule windowed_ok [OF wd assms(1)])
  obtain r w2' where ad: "admit E usage p w1 = Inr (r, w2')" using admit_defined [OF assms(2)] by blast
  obtain i where i: "r = Some i" using assms(5) late d ad by (cases r) (auto simp: attempt_def)
  note af = admit_facts [OF ad ok1]
  obtain got w3 where wt: "wait_for_rpm E deadline p w2' = Some (got, w3)"
    using assms(5) late i by (cases "wait_for_rpm E deadline p w2'") (auto simp: attempt_def d ad)
  have ww: "windowed w2' w3" using wait_windowed [OF wt] by simp
  have ok3: "world_ok w3" by (rule windowed_ok [OF ww af(1)])
  have h3: "holding (p_name p) i w3" using windowed_holding [OF ww] af(4) [OF i] by blast
  have calls: "w_calls w3 = w_calls w" using windowed_calls [OF ww] af(2) windowed_calls [OF wd] by simp
  obtain l3 where l3: "limiters w3 (p_name p) = Some l3" "l_failures l3 = 2"
    using windowed_streaks [OF wd assms(3)] admit_keeps_streak [OF ad ok1] windowed_streaks [OF ww] assms(4) by metis
  have got: "got"
  proof (rule ccontr)
    assume no: "\<not> got"
    obtain u where "finished i p (Halt DeadlinePassed :: 'a outcome, w3) = (Halt DeadlinePassed, u)" by (rule finished_facts [OF ok3 h3])
    then show False using assms(5) late i no by (simp add: attempt_def d ad wt)
  qed
  obtain now w4 where c: "read_clock E (noted p False w3) = (now, w4)" by fastforce
  let ?w5 = "upd_limiter (p_name p) (streak 0 (now + BACKOFF_SECONDS)) w4"
  have lim4: "limiters w4 (p_name p) = Some l3" using read_clock_frame [OF c] l3(1) by (simp add: noted_def)
  have pc: "perform_call E fn p w3 = (Go (Some m), ?w5)"
    using assms(6) calls l3 c by (simp add: perform_call_def counted_failure_def FAILURE_THRESHOLD_def noted_def)
  note pf = perform_call_keeps [OF pc ok3 h3]
  obtain w6 where fin: "finished i p (Go (Some m) :: 'a outcome, ?w5) = (Go (Some m), w6)" "world_ok w6"
    "\<And>l. limiters ?w5 (p_name p) = Some l \<Longrightarrow> limiters w6 (p_name p) = Some (flight_down l)" "w_time w6 = w_time ?w5"
    by (rule finished_facts [OF pf(1,2), where s = "Go (Some m)"]) (rule that; assumption)
  have w': "w' = w6" using assms(5) late i got by (simp add: attempt_def d ad wt pc fin(1))
  have time: "w_time w' = now" using w' fin(4) c by (auto simp: read_clock_def Let_def)
  define l' where "l' = flight_down (streak 0 (now + BACKOFF_SECONDS) l3)"
  have l': "limiters w' (p_name p) = Some l'" using fin(3) lim4 by (simp add: w' l'_def)
  have until: "in_backoff l' t \<longleftrightarrow> t < w_time w' + 60" for t
    using assms(7) time by (simp add: l'_def in_backoff_def BACKOFF_SECONDS_def)
  have skip: "\<exists>w3. attempt E fn' deadline' usage' p w' = Some (Go None, w3) \<and> w_calls w3 = w_calls w'"
    if dl: "deadline_exceeded E deadline' w' = (False, w2)" and early: "w_time w2 + e_lag E (w_reads w2) < w_time w' + 60"
  proof -
    note wd2 = deadline_windowed [OF dl]
    have ok2: "world_ok w2" using windowed_ok [OF wd2] fin(2) w' by simp
    obtain k where k: "limiters w2 (p_name p) = Some k" "l_backoff k = l_backoff l'" using windowed_streaks [OF wd2 l'] by blast
    obtain j u where lf: "limiter_for p w2 = Inr (j, u)" using limiter_for_defined [OF assms(2)] by blast
    note jf = limiter_for_facts [OF ok2 lf]
    obtain t v where rc: "read_clock E u = (t, v)" by fastforce
    have "t = w_time w2 + e_lag E (w_reads w2)" using rc jf(5,6) by (auto simp: read_clock_def Let_def)
    then have "in_backoff j t" using until [of t] early jf(8) [OF k(1)] k(2) by (simp add: in_backoff_def)
    then have "attempt E fn' deadline' usage' p w' = Some (Go None, v)" by (simp add: attempt_def dl admit_def lf rc)
    moreover have "w_calls v = w_calls w'" using read_clock_frame [OF rc] jf(4) windowed_calls [OF wd2] by simp
    ultimately show ?thesis by blast
  qed
  have "l_failures l' = 0" by (simp add: l'_def)
  then show ?thesis using l' until skip by blast
qed


section \<open>A concrete run\<close>

text \<open>The first preset of the chain always fails, the others answer seven.\<close>

definition calm_env :: env where
  "calm_env = \<lparr>e_lag = (\<lambda>_. 1), e_wall = (\<lambda>_. clock_at 0 (2026, 1, 1)), e_freed = (\<lambda>_. False), e_rivals = (\<lambda>_. []), e_logged = (\<lambda>_. True)\<rparr>"

definition first_world :: ai_world where
  "first_world = \<lparr>sems = [], limiters = Map.empty, ai_store = three_presets, chain_cache = new_read_cache, last_prune = 0,
     w_time = 0, w_reads = 0, w_calls = []\<rparr>"

definition flaky :: "nat \<Rightarrow> preset_row \<Rightarrow> int reply" where
  "flaky n p = (if p_name p = ''a'' then Raised ''429'' else Tracked 7 (Some 20))"

lemma first_world_ok: "world_ok first_world"
  by (simp add: world_ok_def first_world_def)

lemma first_chain:
  "\<exists>w1. read_chain calm_env first_world = ([sample_preset ''a'' 0 1, sample_preset ''b'' 0 1, sample_preset ''c'' 5 1], w1)"
  by (simp add: read_chain_def read_clock_def cached_chain_def cache_get_def new_read_cache_def first_world_def calm_env_def
      get_fallback_chain_presets_def three_presets_def sample_preset_def less_eq_prod_def)

lemma first_chain_limits: "p \<in> set (fst (read_chain calm_env first_world)) \<Longrightarrow> 0 \<le> max_concurrency p"
  using first_chain by (auto simp: max_concurrency_def sample_preset_def)

lemma calm_wait:
  assumes "int (length (recent_times (w_time w + 1) (or_else (map_option l_requests (limiters w (p_name p))) []))) < max_rpm p"
  shows "wait_for_rpm calm_env None p w =
    Some (True, upd_limiter (p_name p)
      (drop_requests (recent_times (w_time w + 1) (or_else (map_option l_requests (limiters w (p_name p))) []) @ [w_time w + 1]))
      (w\<lparr>w_time := w_time w + 1, w_reads := Suc (w_reads w)\<rparr>))"
  by (subst wait_for_rpm.simps) (use assms in \<open>simp add: deadline_exceeded_def read_clock_def calm_env_def Let_def\<close>)

lemma calm_env_simps [simp]:
  "e_lag calm_env n = 1" "e_freed calm_env n = False" "e_rivals calm_env n = []" "e_logged calm_env n = True"
  by (simp_all add: calm_env_def)

lemma sample_preset_simps [simp]:
  "p_name (sample_preset n prio en) = n" "p_concurrency (sample_preset n prio en) = Some 2" "p_rpm (sample_preset n prio en) = Some 30"
  "p_tpm (sample_preset n prio en) = Some 0" "p_daily (sample_preset n prio en) = Some 0"
  by (simp_all add: sample_preset_def)

lemmas run_defs = deadline_exceeded_def admit_def limiter_for_def new_semaphore_def put_limiter_def max_concurrency_def max_rpm_def max_tpm_def
  read_clock_def in_backoff_def is_preset_rate_limited_def recent_times_def is_daily_exhausted_def acquire_slot_def set_sem_def
  perform_call_def counted_failure_def noted_def FAILURE_THRESHOLD_def finished_def release_slot_def flight_up_def flight_down_def
  upd_limiter_def streak_def drop_requests_def drop_tokens_def log_preset_usage_def

lemma first_attempt:
  assumes "w_time w = 2" "w_calls w = []" "limiters w = Map.empty" "sems w = []"
  shows "\<exists>w'. attempt calm_env flaky None usage (sample_preset ''a'' 0 1) w = Some (Go (Some ''429''), w') \<and>
     limiters w' ''b'' = None \<and> w_calls w' = [(sample_preset ''a'' 0 1, False)] \<and> length (sems w') = 1 \<and> 0 \<le> w_time w'"
  unfolding attempt_def
  by (simp add: run_defs flaky_def Let_def calm_wait assms)

lemma second_attempt:
  assumes "limiters w ''b'' = None" "length (w_calls w) = 1" "length (sems w) = 1" "0 \<le> w_time w"
  shows "\<exists>w'. attempt calm_env flaky None usage (sample_preset ''b'' 0 1) w = Some (Halt (Value 7), w') \<and>
     w_calls w' = w_calls w @ [(sample_preset ''b'' 0 1, True)]"
  unfolding attempt_def
  by (simp add: run_defs flaky_def Let_def calm_wait assms nth_append)

lemma first_run:
  "\<exists>w'. call_ai_limited calm_env flaky None first_world = Some (Value 7, w') \<and>
     w_calls w' = [(sample_preset ''a'' 0 1, False), (sample_preset ''b'' 0 1, True)]"
proof -
  obtain w1 where c: "read_chain calm_env first_world = ([sample_preset ''a'' 0 1, sample_preset ''b'' 0 1, sample_preset ''c'' 5 1], w1)"
    using first_chain by blast
  have "w_time w1 = 2"
    using c by (auto simp: read_chain_def read_clock_def Let_def first_world_def split: prod.splits)
  moreover define usage where "usage = get_hourly_usage_many (e_wall calm_env (w_time w1)) (ai_store w1) [''a'', ''b'', ''c''] 24"
  ultimately obtain w2 where a: "attempt calm_env flaky None usage (sample_preset ''a'' 0 1) w1 = Some (Go (Some ''429''), w2)"
      "limiters w2 ''b'' = None" "w_calls w2 = [(sample_preset ''a'' 0 1, False)]" "length (sems w2) = 1" "0 \<le> w_time w2"
    using first_attempt [of w1 usage] read_chain_frame [OF c] by (auto simp: first_world_def)
  then obtain w3 where b: "attempt calm_env flaky None usage (sample_preset ''b'' 0 1) w2 = Some (Halt (Value 7), w3)"
      "w_calls w3 = w_calls w2 @ [(sample_preset ''b'' 0 1, True)]"
    using second_attempt [of w2 usage] by auto
  have names: "map p_name [sample_preset ''a'' 0 1, sample_preset ''b'' 0 1, sample_preset ''c'' 5 1] = [''a'', ''b'', ''c'']" by simp
  show ?thesis unfolding call_ai_limited_def c Let_def split_conv names usage_def [symmetric] using a b by simp
qed

theorem call_tries_each_once_witness:
  "\<exists>w'. call_ai_limited calm_env flaky None first_world = Some (Value 7, w') \<and>
     subseq (map fst (w_calls w')) (fst (read_chain calm_env first_world)) \<and> \<not> snd (hd (w_calls w'))"
proof -
  obtain w1 where c: "read_chain calm_env first_world = ([sample_preset ''a'' 0 1, sample_preset ''b'' 0 1, sample_preset ''c'' 5 1], w1)"
    using first_chain by blast
  obtain w' where r: "call_ai_limited calm_env flaky None first_world = Some (Value 7, w')"
    "w_calls w' = [(sample_preset ''a'' 0 1, False), (sample_preset ''b'' 0 1, True)]" using first_run by blast
  have "p \<in> set [sample_preset ''a'' 0 1, sample_preset ''b'' 0 1, sample_preset ''c'' 5 1] \<Longrightarrow> 0 \<le> max_concurrency p" for p
    using first_chain_limits [of p] c by simp
  from call_tries_each_once [OF first_world_ok c this r(1)] show ?thesis using r c by (auto simp: first_world_def)
qed

theorem call_returns_permits_witness:
  "\<exists>w'. call_ai_limited calm_env flaky None first_world = Some (Value 7, w') \<and> flight w' ''a'' = 0"
proof -
  obtain w' where r: "call_ai_limited calm_env flaky None first_world = Some (Value 7, w')" using first_run by blast
  have "flight w' = flight first_world" using call_returns_permits [OF first_world_ok first_chain_limits r] by simp
  moreover have "flight first_world ''a'' = 0" by (simp add: flight_def first_world_def)
  ultimately show ?thesis using r by auto
qed

theorem call_always_answers_witness:
  "\<exists>a w'. call_ai_limited calm_env flaky (Some 5) first_world = Some (a, w')"
  by (rule call_always_answers) (simp_all add: time_moves_def first_world_ok first_chain_limits)

text \<open>The same environment with a database that refuses the usage rows.\<close>

definition deaf_env :: env where
  "deaf_env = calm_env\<lparr>e_logged := (\<lambda>_. False)\<rparr>"

lemma deaf_chain: "read_chain deaf_env first_world = read_chain calm_env first_world"
  by (simp add: read_chain_def read_clock_def deaf_env_def)

theorem unlogged_answers_are_lost_witness:
  "\<exists>a w'. call_ai_limited deaf_env flaky None first_world = Some (a, w') \<and> a \<noteq> Value 7"
proof -
  obtain chain w1 where c: "read_chain deaf_env first_world = (chain, w1)" by fastforce
  have limits: "0 \<le> max_concurrency p" if "p \<in> set (fst (read_chain deaf_env first_world))" for p
    using that first_chain_limits by (simp add: deaf_chain)
  have "patient deaf_env None \<and> routed_from deaf_env None first_world w1"
    using read_chain_routed [OF c first_world_ok] by (simp add: patient_def time_moves_def deaf_env_def calm_env_def)
  then have "\<exists>a w'. route (attempt deaf_env flaky None
      (get_hourly_usage_many (e_wall deaf_env (w_time w1)) (ai_store w1) (map p_name chain) 24)) chain None w1 = Some (a, w')"
    by (rule patient_router.route_returns) (use limits c in auto)
  then obtain a w' where r: "call_ai_limited deaf_env flaky None first_world = Some (a, w')"
    by (cases "chain = []") (auto simp: call_ai_limited_def c)
  have "a \<noteq> Value 7" by (rule unlogged_answers_are_lost [OF first_world_ok limits r]) (simp_all add: deaf_env_def)
  then show ?thesis using r by blast
qed

text \<open>A preset that has failed twice.\<close>

definition tired_limiter :: limiter where
  "tired_limiter = \<lparr>l_slots = 0, l_capacity = 2, l_in_flight = 0, l_requests = [], l_tokens = [], l_failures = 2, l_backoff = 0\<rparr>"

definition tired_world :: ai_world where
  "tired_world = first_world\<lparr>sems := [\<lparr>sem_bound = 2, sem_value = 2\<rparr>], limiters := [''a'' \<mapsto> tired_limiter]\<rparr>"

lemma tired_world_ok: "world_ok tired_world"
  by (simp add: world_ok_def limiter_ok_def tired_world_def tired_limiter_def FAILURE_THRESHOLD_def)

theorem third_failure_sidelines_witness:
  "\<exists>w' w3. attempt calm_env flaky None Map.empty (sample_preset ''a'' 0 1) tired_world = Some (Go (Some ''429''), w') \<and>
     attempt calm_env flaky None Map.empty (sample_preset ''a'' 0 1) w' = Some (Go None, w3) \<and> w_calls w3 = w_calls w'"
proof -
  obtain w' where r: "attempt calm_env flaky None Map.empty (sample_preset ''a'' 0 1) tired_world = Some (Go (Some ''429''), w')" "0 \<le> w_time w'"
    unfolding attempt_def
    by (simp add: run_defs flaky_def Let_def calm_wait tired_world_def tired_limiter_def first_world_def)
  have dl: "deadline_exceeded calm_env None w' = (False, w')" by (simp add: deadline_exceeded_def)
  have lim: "limiters tired_world (p_name (sample_preset ''a'' 0 1)) = Some tired_limiter" by (simp add: tired_world_def)
  have two: "l_failures tired_limiter = 2" by (simp add: tired_limiter_def)
  have conc: "0 \<le> max_concurrency (sample_preset ''a'' 0 1)" by (simp add: max_concurrency_def)
  have fail: "flaky (length (w_calls tired_world)) (sample_preset ''a'' 0 1) = Raised ''429''" by (simp add: flaky_def)
  show ?thesis
    using third_failure_sidelines [OF tired_world_ok conc lim two r(1) fail r(2), where deadline' = None and ?w2.0 = w' and fn' = flaky and usage' = Map.empty] dl r(1) by auto
qed

end
