(* ===== verification/Cards.thy ===== *)
theory Cards imports Words Json "HOL-Library.AList" begin

text \<open>
  Validation and repair of the vocabulary cards a language model writes:
  \<open>services/ai/card_validation.py\<close>, and the preparation of a stored card in
  \<open>services/ai/generation.py\<close>. A card is a JSON value. Case folding and the text Python's \<open>str\<close> makes
  of a value that is no text are parameters; lines and blanks are those of ASCII.
\<close>

section \<open>Errors\<close>

text \<open>The messages of \<open>CardValidationError\<close>, by the check that fails.\<close>

datatype card_error =
    NotAnObject
  | NoText string
  | NoTextList string
  | EmptyList string
  | NotTwoEach
  | Repeated string
  | WrongFields
  | NotTwo string
  | UnknownField string
  | HalfAPair

type_synonym 'a checked = "card_error + 'a"

fun check_bind :: "'a checked \<Rightarrow> ('a \<Rightarrow> 'b checked) \<Rightarrow> 'b checked" where
  "check_bind (Inl e) f = Inl e"
| "check_bind (Inr x) f = f x"

lemma check_bind_Inr: "check_bind m f = Inr y \<longleftrightarrow> (\<exists>x. m = Inr x \<and> f x = Inr y)"
  by (cases m) auto

lemma check_bind_Inl: "check_bind m f = Inl e \<longleftrightarrow> m = Inl e \<or> (\<exists>x. m = Inr x \<and> f x = Inl e)"
  by (cases m) auto

section \<open>Fields\<close>

type_synonym json_dict = "(string \<times> json) list"

definition COMPACT_CARD_FIELDS :: "(string \<times> string) list" where
  "COMPACT_CARD_FIELDS =
     [(''w'', ''word''), (''ph'', ''phonetic''), (''m'', ''fa_meaning''), (''x'', ''fa_explanation''), (''s'', ''synonyms''),
      (''a'', ''antonyms''), (''e'', ''examples''), (''t'', ''example_translations''), (''g'', ''grammar_tip'')]"

definition expand_card_aliases :: "json_dict \<Rightarrow> json_dict" where
  "expand_card_aliases data =
     fold (\<lambda>(compact_name, canonical_name) expanded.
        if map_of expanded canonical_name = None
        then (case map_of expanded compact_name of Some v \<Rightarrow> expanded @ [(canonical_name, v)] | None \<Rightarrow> expanded)
        else expanded) COMPACT_CARD_FIELDS data"

definition field :: "json_dict \<Rightarrow> string \<Rightarrow> json" where
  "field data f = or_else (map_of data f) JNull"

definition required_text :: "json_dict \<Rightarrow> string \<Rightarrow> string checked" where
  "required_text data f =
     (case field data f of JStr s \<Rightarrow> if strip s = '''' then Inl (NoText f) else Inr (strip s) | _ \<Rightarrow> Inl (NoText f))"

fun is_str :: "json \<Rightarrow> bool" where
  "is_str (JStr s) = True"
| "is_str _ = False"

fun the_str :: "json \<Rightarrow> string" where
  "the_str (JStr s) = s"
| "the_str _ = ''''"

definition stripped :: "json list \<Rightarrow> string list" where
  "stripped xs = filter (\<lambda>s. s \<noteq> '''') (map (strip \<circ> the_str) xs)"

definition text_list :: "json_dict \<Rightarrow> string \<Rightarrow> bool \<Rightarrow> string list checked" where
  "text_list data f required =
     (if field data f = JNull \<and> \<not> required then Inr []
      else case field data f of
        JArr xs \<Rightarrow>
          if list_all is_str xs
          then (if required \<and> stripped xs = [] then Inl (EmptyList f) else Inr (stripped xs))
          else Inl (NoTextList f)
      | _ \<Rightarrow> Inl (NoTextList f))"

definition validate_optional_rich_list :: "unicode \<Rightarrow> string \<Rightarrow> string list \<Rightarrow> unit checked" where
  "validate_optional_rich_list u f values =
     (if values = [] then Inr ()
      else if distinct (map (\<lambda>v. casefold u (join_sp (py_split v))) values) then Inr () else Inl (Repeated f))"

section \<open>Phonetics\<close>

definition line_break :: "char \<Rightarrow> bool" where
  "line_break ch \<longleftrightarrow> (of_char ch :: nat) \<in> {10, 11, 12, 13, 28, 29, 30}"

fun split_lines :: "string \<Rightarrow> string \<Rightarrow> string list" where
  "split_lines acc [] = [rev acc]"
| "split_lines acc (ch # s) = (if line_break ch then rev acc # split_lines [] s else split_lines (ch # acc) s)"

text \<open>The pattern of a line: blanks, \<open>ipa\<close> in any case, blanks, a colon and at least one character.\<close>

definition ipa_line :: "string \<Rightarrow> string option" where
  "ipa_line line =
     (let s = dropWhile is_space line
      in if map lower_char (take 3 s) = ''ipa''
         then (case dropWhile is_space (drop 3 s) of
                 ch # rest \<Rightarrow> if ch = CHR '':'' \<and> rest \<noteq> [] then Some (strip rest) else None
               | [] \<Rightarrow> None)
         else None)"

definition normalize_phonetic :: "string \<Rightarrow> string option" where
  "normalize_phonetic raw =
     (let raw = strip raw
      in if raw = '''' then None
         else fold (\<lambda>line found. case ipa_line line of Some v \<Rightarrow> Some v | None \<Rightarrow> found) (split_lines [] raw) None)"

definition phonetic_value :: "json \<Rightarrow> json" where
  "phonetic_value raw =
     (case raw of
        JObj kvs \<Rightarrow> or_else (map_of kvs ''ipa'') (JStr '''')
      | JStr s \<Rightarrow> if strip s = '''' then JStr ''''
                   else (case normalize_phonetic (strip s) of Some ipa \<Rightarrow> JStr ipa | None \<Rightarrow> JStr (strip s))
      | _ \<Rightarrow> JStr '''')"

section \<open>Validation\<close>

text \<open>\<open>str(x or "")\<close>.\<close>

definition text_or_empty :: "(json \<Rightarrow> string) \<Rightarrow> json \<Rightarrow> string" where
  "text_or_empty py_str j = (if truthy j then (case j of JStr s \<Rightarrow> s | _ \<Rightarrow> py_str j) else '''')"

definition validate_card :: "unicode \<Rightarrow> (json \<Rightarrow> string) \<Rightarrow> json \<Rightarrow> json_dict checked" where
  "validate_card u py_str j =
     (case j of
        JObj kvs \<Rightarrow>
          let data = expand_card_aliases kvs in
          check_bind (text_list data ''examples'' True) (\<lambda>examples.
          check_bind (text_list data ''example_translations'' True) (\<lambda>translations.
          if length examples \<noteq> 2 \<or> length translations \<noteq> 2 then Inl NotTwoEach
          else check_bind (text_list data ''synonyms'' False) (\<lambda>synonyms.
          check_bind (text_list data ''antonyms'' False) (\<lambda>antonyms.
          check_bind (validate_optional_rich_list u ''synonyms'' synonyms) (\<lambda>_.
          check_bind (validate_optional_rich_list u ''antonyms'' antonyms) (\<lambda>_.
          check_bind (required_text data ''word'') (\<lambda>word.
          check_bind (required_text data ''fa_meaning'') (\<lambda>meaning.
          check_bind (required_text data ''fa_explanation'') (\<lambda>explanation.
          Inr [(''word'', JStr word), (''phonetic'', JObj [(''ipa'', phonetic_value (field data ''phonetic''))]),
               (''fa_meaning'', JStr meaning), (''fa_explanation'', JStr explanation),
               (''synonyms'', JArr (map JStr synonyms)), (''antonyms'', JArr (map JStr antonyms)),
               (''examples'', JArr (map JStr examples)), (''example_translations'', JArr (map JStr translations)),
               (''grammar_tip'', JStr (strip (text_or_empty py_str (field data ''grammar_tip''))))])))))))))
      | _ \<Rightarrow> Inl NotAnObject)"

definition two_texts :: "json \<Rightarrow> bool" where
  "two_texts j = (case j of JArr xs \<Rightarrow> length xs = 2 \<and> list_all (\<lambda>x. is_str x \<and> strip (the_str x) \<noteq> '''') xs | _ \<Rightarrow> False)"

definition bad_rich_list :: "unicode \<Rightarrow> json_dict \<Rightarrow> string \<Rightarrow> bool" where
  "bad_rich_list u data f =
     (if field data f = JNull then False
      else case check_bind (text_list data f False) (validate_optional_rich_list u f) of Inl _ \<Rightarrow> True | Inr _ \<Rightarrow> False)"

definition card_repair_fields :: "unicode \<Rightarrow> json \<Rightarrow> string list" where
  "card_repair_fields u j =
     (case j of
        JObj kvs \<Rightarrow>
          let data = expand_card_aliases kvs;
              texts = filter (\<lambda>f. case field data f of JStr s \<Rightarrow> strip s = '''' | _ \<Rightarrow> True) [''word'', ''fa_meaning'', ''fa_explanation''];
              pair = (if \<not> two_texts (field data ''examples'') \<or> \<not> two_texts (field data ''example_translations'')
                      then [''examples'', ''example_translations''] else []);
              sound = (if field data ''phonetic'' = JNull then field data ''ph'' else field data ''phonetic'');
              phon = (case sound of
                        JStr s \<Rightarrow> if strip s \<noteq> '''' \<and> normalize_phonetic s = None then [''phonetic''] else []
                      | JObj p \<Rightarrow> if truthy (field p ''ipa'') then [] else [''phonetic'']
                      | _ \<Rightarrow> []);
              rich = filter (bad_rich_list u data) [''synonyms'', ''antonyms'']
          in texts @ pair @ phon @ rich
      | _ \<Rightarrow> [''word'', ''fa_meaning'', ''fa_explanation'', ''examples'', ''example_translations''])"

definition patch_value :: "unicode \<Rightarrow> json_dict \<Rightarrow> string \<Rightarrow> json checked" where
  "patch_value u data f =
     (if f \<in> {''word'', ''fa_meaning'', ''fa_explanation''} then check_bind (required_text data f) (\<lambda>s. Inr (JStr s))
      else if f \<in> {''examples'', ''example_translations''}
      then check_bind (text_list data f True) (\<lambda>xs. if length xs \<noteq> 2 then Inl (NotTwo f) else Inr (JArr (map JStr xs)))
      else if f \<in> {''synonyms'', ''antonyms''}
      then check_bind (text_list data f False) (\<lambda>xs.
             check_bind (validate_optional_rich_list u f xs) (\<lambda>_. Inr (JArr (map JStr xs))))
      else if f = ''phonetic'' then check_bind (required_text data f) (\<lambda>s. Inr (JStr s))
      else Inl (UnknownField f))"

fun patch_values :: "unicode \<Rightarrow> json_dict \<Rightarrow> string list \<Rightarrow> json_dict checked" where
  "patch_values u data [] = Inr []"
| "patch_values u data (f # fs) =
     check_bind (patch_value u data f) (\<lambda>v. check_bind (patch_values u data fs) (\<lambda>vs. Inr ((f, v) # vs)))"

definition validate_card_patch :: "unicode \<Rightarrow> json \<Rightarrow> string list \<Rightarrow> json_dict checked" where
  "validate_card_patch u j asked =
     (case j of
        JObj kvs \<Rightarrow>
          let expanded = expand_card_aliases kvs in
          if fst ` set expanded \<noteq> set asked then Inl WrongFields
          else check_bind (patch_values u expanded asked) (\<lambda>patch.
            if {''examples'', ''example_translations''} \<inter> set asked \<noteq> {} \<and> \<not> {''examples'', ''example_translations''} \<subseteq> set asked
            then Inl HalfAPair else Inr patch)
      | _ \<Rightarrow> Inl NotAnObject)"

section \<open>Batches\<close>

record batch_stats =
  received :: int
  accepted :: int
  validation_rejected :: int
  duplicates :: int
  against_avoid :: int
  within_batch :: int
  avoid_words :: int

definition card_word :: "unicode \<Rightarrow> json_dict \<Rightarrow> string" where
  "card_word u crd = casefold u (strip (the_str (field crd ''word'')))"

text \<open>The loop over the items; it stops right after the crd that reaches the expected count.\<close>

fun batch_loop :: "unicode \<Rightarrow> (json \<Rightarrow> string) \<Rightarrow> int \<Rightarrow> string list \<Rightarrow> json list \<Rightarrow> string list \<Rightarrow> json_dict list
    \<Rightarrow> batch_stats \<Rightarrow> (card_error \<Rightarrow> nat) \<Rightarrow> json_dict list \<times> batch_stats \<times> (card_error \<Rightarrow> nat)" where
  "batch_loop u py_str expected avoid [] used cards st why = (cards, st, why)"
| "batch_loop u py_str expected avoid (item # items) used cards st why =
     (let st = st\<lparr>received := received st + 1\<rparr> in
      case validate_card u py_str item of
        Inl e \<Rightarrow> batch_loop u py_str expected avoid items used cards
                    (st\<lparr>validation_rejected := validation_rejected st + 1\<rparr>) (why(e := why e + 1))
      | Inr crd \<Rightarrow>
          let w = card_word u crd in
          if w \<in> set avoid
          then batch_loop u py_str expected avoid items used cards
                 (st\<lparr>against_avoid := against_avoid st + 1, duplicates := duplicates st + 1\<rparr>) why
          else if w \<in> set used
          then batch_loop u py_str expected avoid items used cards
                 (st\<lparr>within_batch := within_batch st + 1, duplicates := duplicates st + 1\<rparr>) why
          else let st = st\<lparr>accepted := accepted st + 1\<rparr>; cards = cards @ [crd] in
               if expected \<le> int (length cards) then (cards, st, why)
               else batch_loop u py_str expected avoid items (w # used) cards st why)"

text \<open>\<open>None\<close> is the \<open>BatchValidationError\<close>.\<close>

definition validate_batch :: "unicode \<Rightarrow> (json \<Rightarrow> string) \<Rightarrow> json \<Rightarrow> int \<Rightarrow> string list \<Rightarrow> batch_stats \<Rightarrow> (card_error \<Rightarrow> nat)
    \<Rightarrow> (json_dict list \<times> batch_stats \<times> (card_error \<Rightarrow> nat)) option" where
  "validate_batch u py_str j expected used_words st why =
     (case (case j of JObj kvs \<Rightarrow> field kvs ''cards'' | _ \<Rightarrow> j) of
        JArr items \<Rightarrow>
          let avoid = remdups (map (\<lambda>w. casefold u (strip w)) (filter (\<lambda>w. strip w \<noteq> '''') used_words))
          in Some (batch_loop u py_str expected avoid items avoid [] (st\<lparr>avoid_words := int (length avoid)\<rparr>) why)
      | _ \<Rightarrow> None)"

section \<open>Preparing a stored card\<close>

text \<open>\<open>merged.update(patch)\<close>.\<close>

definition dict_update :: "json_dict \<Rightarrow> json_dict \<Rightarrow> json_dict" where
  "dict_update d patch = fold (\<lambda>(k, v) d. AList.update k v d) patch d"

datatype prepared = Prepared json_dict | NoRepairableFields | PersistFailed | RepairFailed

text \<open>
  \<open>_prepare_cached_card\<close>: \<open>repair\<close> is the routed call of \<open>ai.repair_card\<close>: it answers with a checked
  patch for the fields or raises, and \<open>persist\<close> stores a patch and says whether it could. The list
  collects what was persisted.
\<close>

definition prepare_cached_card ::
    "unicode \<Rightarrow> (json \<Rightarrow> string) \<Rightarrow> (string list \<Rightarrow> json_dict option) \<Rightarrow> (json_dict \<Rightarrow> bool) \<Rightarrow> json \<Rightarrow> prepared \<times> json_dict list" where
  "prepare_cached_card u py_str repair persist crd =
     (case validate_card u py_str crd of
        Inr c \<Rightarrow> (Prepared c, [])
      | Inl _ \<Rightarrow>
          let asked = card_repair_fields u crd in
          if asked = [] then (NoRepairableFields, [])
          else case repair asked of
            None \<Rightarrow> (RepairFailed, [])
          | Some patch \<Rightarrow>
              let merged = dict_update (case crd of JObj kvs \<Rightarrow> kvs | _ \<Rightarrow> []) patch in
              case validate_card u py_str (JObj merged) of
                Inl _ \<Rightarrow> (RepairFailed, [])
              | Inr repaired \<Rightarrow> if persist patch then (Prepared repaired, [patch]) else (PersistFailed, []))"


section \<open>Texts\<close>

lemma strip_Nil [simp]: "strip [] = []"
  by (simp add: strip_def)

lemma dropWhile_idem [simp]: "dropWhile p (dropWhile p xs) = dropWhile p xs"
  by (induction xs) auto

lemma strip_idem [simp]: "strip (strip s) = strip s"
proof -
  let ?t = "dropWhile is_space s"
  have front: "dropWhile is_space (rev (dropWhile is_space (rev ?t))) = rev (dropWhile is_space (rev ?t))"
  proof (cases "rev (dropWhile is_space (rev ?t))")
    case (Cons x xs)
    then have "rev ?t = takeWhile is_space (rev ?t) @ rev (x # xs)"
      by (metis rev_rev_ident takeWhile_dropWhile_id)
    then have "?t = (x # xs) @ rev (takeWhile is_space (rev ?t))" by (metis rev_append rev_rev_ident)
    then have "x = hd ?t" "?t \<noteq> []" by (metis append_Cons list.sel(1), metis append_Cons list.distinct(1))
    then have "\<not> is_space x" using hd_dropWhile by metis
    then show ?thesis using Cons by simp
  next
    case Nil
    then show ?thesis unfolding Nil by simp
  qed
  show ?thesis unfolding strip_def using front by simp
qed

lemma stripped_JStr: "(\<And>x. x \<in> set xs \<Longrightarrow> strip x = x \<and> x \<noteq> '''') \<Longrightarrow> stripped (map JStr xs) = xs"
  by (induction xs) (auto simp: stripped_def)

lemma stripped_clean: "x \<in> set (stripped xs) \<Longrightarrow> strip x = x \<and> x \<noteq> ''''"
  by (auto simp: stripped_def)

lemma all_JStr [simp]: "list_all is_str (map JStr xs)"
  by (induction xs) auto

section \<open>Reading fields through the aliases\<close>

lemma field_simps [simp]: "field ((k, v) # d) f = (if k = f then v else field d f)" "field [] f = JNull"
  by (simp_all add: field_def)

text \<open>The value of a canonical field: its own if the key is there, else that of its short name.\<close>

definition canonical :: "json_dict \<Rightarrow> string \<Rightarrow> json" where
  "canonical data f = field (expand_card_aliases data) f"

lemma map_of_snoc: "map_of (d @ [(k, v)]) f = (case map_of d f of Some x \<Rightarrow> Some x | None \<Rightarrow> if f = k then Some v else None)"
  by (auto simp: map_add_def split: option.split)

definition alias_step :: "string \<times> string \<Rightarrow> json_dict \<Rightarrow> json_dict" where
  "alias_step a d = (if map_of d (snd a) = None then (case map_of d (fst a) of Some v \<Rightarrow> d @ [(snd a, v)] | None \<Rightarrow> d) else d)"

lemma expand_steps: "expand_card_aliases = fold alias_step COMPACT_CARD_FIELDS"
  unfolding expand_card_aliases_def by (rule ext, rule fold_cong) (auto simp: alias_step_def fun_eq_iff split: option.split)

lemma alias_step_map_of:
  "map_of (alias_step a d) f = (if f = snd a \<and> map_of d f = None then map_of d (fst a) else map_of d f)"
  by (auto simp: alias_step_def map_of_snoc simp del: map_of_append split: option.split)

lemma alias_steps_other:
  "(\<And>a. a \<in> set as \<Longrightarrow> snd a \<noteq> f) \<Longrightarrow> map_of (fold alias_step as d) f = map_of d f"
  by (induction as arbitrary: d) (auto simp: alias_step_map_of)

lemma alias_steps_map_of:
  assumes "distinct (map snd as)" and "(c, n) \<in> set as" and "\<And>a. a \<in> set as \<Longrightarrow> snd a \<noteq> c"
  shows "map_of (fold alias_step as d) n = (case map_of d n of Some v \<Rightarrow> Some v | None \<Rightarrow> map_of d c)"
  using assms
proof (induction as arbitrary: d)
  case (Cons a as)
  show ?case
  proof (cases "a = (c, n)")
    case True
    then have "\<And>b. b \<in> set as \<Longrightarrow> snd b \<noteq> n" using Cons.prems(1) by (force simp: image_iff)
    from alias_steps_other [OF this] show ?thesis using True by (auto simp: alias_step_map_of split: option.split)
  next
    case False
    then have m: "(c, n) \<in> set as" using Cons.prems(2) by auto
    then have "snd a \<noteq> n" using Cons.prems(1) by (force simp: image_iff)
    moreover have "c \<noteq> snd a" using Cons.prems(3) [of a] by auto
    ultimately show ?thesis
      using Cons.IH [OF _ m, of "alias_step a d"] Cons.prems(1,3) by (simp add: alias_step_map_of split: option.split)
  qed
qed simp

lemma canonical_field:
  assumes "(c, n) \<in> set COMPACT_CARD_FIELDS"
  shows "canonical d n = or_else (map_of d n) (field d c)"
proof -
  have "distinct (map snd COMPACT_CARD_FIELDS)" by (simp add: COMPACT_CARD_FIELDS_def)
  moreover have "\<And>a. a \<in> set COMPACT_CARD_FIELDS \<Longrightarrow> snd a \<noteq> c" using assms by (auto simp: COMPACT_CARD_FIELDS_def)
  ultimately show ?thesis
    using alias_steps_map_of [OF _ assms, of d] by (simp add: canonical_def field_def expand_steps split: option.split)
qed

lemma canonical_cong: "(c, n) \<in> set COMPACT_CARD_FIELDS \<Longrightarrow> map_of d n = Some v \<Longrightarrow> canonical d n = v"
  by (simp add: canonical_field)

lemma text_list_cong: "field d f = field e f \<Longrightarrow> text_list d f r = text_list e f r"
  by (simp add: text_list_def)

lemma required_text_cong: "field d f = field e f \<Longrightarrow> required_text d f = required_text e f"
  by (simp add: required_text_def)


section \<open>What validation accepts\<close>

text \<open>The eight facts a card must have, over the canonical fields.\<close>

definition good_texts :: "json \<Rightarrow> string list \<Rightarrow> bool" where
  "good_texts j xs \<longleftrightarrow> (\<exists>js. j = JArr js \<and> list_all is_str js \<and> xs = stripped js)"

lemma text_list_Inr:
  "text_list d f r = Inr xs \<longleftrightarrow> (field d f = JNull \<and> \<not> r \<and> xs = []) \<or> (good_texts (field d f) xs \<and> (r \<longrightarrow> xs \<noteq> []))"
  by (auto simp: text_list_def good_texts_def split: json.splits if_splits)

lemma required_text_Inr:
  "required_text d f = Inr t \<longleftrightarrow> (\<exists>s. field d f = JStr s \<and> t = strip s \<and> t \<noteq> '''')"
  by (auto simp: required_text_def split: json.splits)

lemma rich_Inr: "validate_optional_rich_list u f xs = Inr () \<longleftrightarrow> distinct (map (\<lambda>v. casefold u (join_sp (py_split v))) xs)"
  by (auto simp: validate_optional_rich_list_def)

definition rich_ok :: "unicode \<Rightarrow> json_dict \<Rightarrow> string \<Rightarrow> string list \<Rightarrow> bool" where
  "rich_ok u d f xs \<longleftrightarrow> text_list d f False = Inr xs \<and> distinct (map (\<lambda>v. casefold u (join_sp (py_split v))) xs)"

definition card_of :: "(json \<Rightarrow> string) \<Rightarrow> json_dict \<Rightarrow> string list \<Rightarrow> string list \<Rightarrow> string list \<Rightarrow> string list \<Rightarrow> string \<Rightarrow> string \<Rightarrow> string \<Rightarrow> json_dict" where
  "card_of py_str d ex tr sy an word meaning explanation =
     [(''word'', JStr word), (''phonetic'', JObj [(''ipa'', phonetic_value (field d ''phonetic''))]),
      (''fa_meaning'', JStr meaning), (''fa_explanation'', JStr explanation),
      (''synonyms'', JArr (map JStr sy)), (''antonyms'', JArr (map JStr an)),
      (''examples'', JArr (map JStr ex)), (''example_translations'', JArr (map JStr tr)),
      (''grammar_tip'', JStr (strip (text_or_empty py_str (field d ''grammar_tip''))))]"

lemma validate_card_iff:
  "validate_card u py_str j = Inr c \<longleftrightarrow>
   (\<exists>kvs ex tr sy an word meaning explanation. j = JObj kvs \<and>
      (let d = expand_card_aliases kvs in
       text_list d ''examples'' True = Inr ex \<and> text_list d ''example_translations'' True = Inr tr \<and> length ex = 2 \<and> length tr = 2 \<and>
       rich_ok u d ''synonyms'' sy \<and> rich_ok u d ''antonyms'' an \<and>
       required_text d ''word'' = Inr word \<and> required_text d ''fa_meaning'' = Inr meaning \<and> required_text d ''fa_explanation'' = Inr explanation \<and>
       c = card_of py_str d ex tr sy an word meaning explanation))"
proof (cases j)
  case (JObj kvs)
  let ?d = "expand_card_aliases kvs"
  show ?thesis
    unfolding validate_card_def JObj json.case Let_def check_bind_Inr rich_ok_def card_of_def
    by (simp add: if_distrib [of "\<lambda>r. r = Inr c"] check_bind_Inr rich_Inr cong: conj_cong) blast
qed (auto simp: validate_card_def)


lemma good_texts_clean: "good_texts j xs \<Longrightarrow> stripped (map JStr xs) = xs"
  unfolding good_texts_def by (auto intro: stripped_JStr dest: stripped_clean)

lemma text_list_clean: "text_list d f r = Inr xs \<Longrightarrow> stripped (map JStr xs) = xs"
  using good_texts_clean by (auto simp: text_list_Inr stripped_def)

lemma text_list_again:
  "text_list d f r = Inr xs \<Longrightarrow> field e f = JArr (map JStr xs) \<Longrightarrow> text_list e f r = Inr xs"
  using text_list_clean [of d f r xs] by (auto simp: text_list_Inr good_texts_def)

lemma required_text_again: "required_text d f = Inr t \<Longrightarrow> field e f = JStr t \<Longrightarrow> required_text e f = Inr t"
  by (auto simp: required_text_Inr)

lemma validated_card_is_stable_aux:
  assumes "validate_card u py_str j = Inr c"
  shows "validate_card u py_str (JObj c) = Inr c"
proof -
  obtain kvs ex tr sy an word meaning explanation where j: "j = JObj kvs"
    and v: "let d = expand_card_aliases kvs in
       text_list d ''examples'' True = Inr ex \<and> text_list d ''example_translations'' True = Inr tr \<and> length ex = 2 \<and> length tr = 2 \<and>
       rich_ok u d ''synonyms'' sy \<and> rich_ok u d ''antonyms'' an \<and>
       required_text d ''word'' = Inr word \<and> required_text d ''fa_meaning'' = Inr meaning \<and> required_text d ''fa_explanation'' = Inr explanation \<and>
       c = card_of py_str d ex tr sy an word meaning explanation"
    using assms unfolding validate_card_iff by blast
  let ?d = "expand_card_aliases kvs"
  let ?e = "expand_card_aliases c"
  have c: "c = card_of py_str ?d ex tr sy an word meaning explanation" using v by (simp add: Let_def)
  have read: "field ?e n = v" if "n \<in> set (map snd COMPACT_CARD_FIELDS)" "map_of c n = Some v" for n v
    using that canonical_cong [of _ n c v] by (auto simp: canonical_def)
  have fields: "field ?e ''word'' = JStr word" "field ?e ''fa_meaning'' = JStr meaning" "field ?e ''fa_explanation'' = JStr explanation"
    "field ?e ''examples'' = JArr (map JStr ex)" "field ?e ''example_translations'' = JArr (map JStr tr)"
    "field ?e ''synonyms'' = JArr (map JStr sy)" "field ?e ''antonyms'' = JArr (map JStr an)"
    "field ?e ''phonetic'' = JObj [(''ipa'', phonetic_value (field ?d ''phonetic''))]"
    "field ?e ''grammar_tip'' = JStr (strip (text_or_empty py_str (field ?d ''grammar_tip'')))"
    by (rule read; simp add: COMPACT_CARD_FIELDS_def c card_of_def)+
  have phon: "phonetic_value (field ?e ''phonetic'') = phonetic_value (field ?d ''phonetic'')"
    by (simp add: fields phonetic_value_def)
  have tip: "strip (text_or_empty py_str (field ?e ''grammar_tip'')) = strip (text_or_empty py_str (field ?d ''grammar_tip''))"
    by (simp add: fields) (simp add: text_or_empty_def)
  have "card_of py_str ?e ex tr sy an word meaning explanation = card_of py_str ?d ex tr sy an word meaning explanation"
    unfolding card_of_def phon tip ..
  then have same: "c = card_of py_str ?e ex tr sy an word meaning explanation" using c by simp
  have v1: "text_list ?d ''examples'' True = Inr ex" "text_list ?d ''example_translations'' True = Inr tr" "length ex = 2" "length tr = 2"
    and v2: "rich_ok u ?d ''synonyms'' sy" "rich_ok u ?d ''antonyms'' an"
    and v3: "required_text ?d ''word'' = Inr word" "required_text ?d ''fa_meaning'' = Inr meaning" "required_text ?d ''fa_explanation'' = Inr explanation"
    using v unfolding Let_def by blast+
  have rich: "rich_ok u ?e f xs" if "rich_ok u ?d f xs" "field ?e f = JArr (map JStr xs)" for f xs
    using that text_list_again unfolding rich_ok_def by blast
  show ?thesis
    unfolding validate_card_iff Let_def
    using text_list_again [OF v1(1) fields(4)] text_list_again [OF v1(2) fields(5)] v1(3,4) rich [OF v2(1) fields(6)] rich [OF v2(2) fields(7)]
      required_text_again [OF v3(1) fields(1)] required_text_again [OF v3(2) fields(2)] required_text_again [OF v3(3) fields(3)] same
    by blast
qed

text \<open>Validation is stable: a card it returns is accepted again and comes back unchanged.\<close>

theorem validated_card_is_stable:
  assumes "validate_card u py_str j = Inr c"
  shows "validate_card u py_str (JObj c) = Inr c"
  using assms by (rule validated_card_is_stable_aux)

section \<open>Repair\<close>

lemma two_texts_list:
  assumes "two_texts (field d f)"
  shows "\<exists>xs. text_list d f True = Inr xs \<and> length xs = 2"
proof -
  obtain a b where j: "field d f = JArr [JStr a, JStr b]" "strip a \<noteq> ''''" "strip b \<noteq> ''''"
    using assms by (auto simp: two_texts_def length_Suc_conv numeral_2_eq_2 split: json.splits elim!: is_str.elims)
  then show ?thesis by (simp add: text_list_def stripped_def)
qed

lemma good_rich:
  assumes "\<not> bad_rich_list u d f"
  shows "\<exists>xs. rich_ok u d f xs"
proof (cases "field d f = JNull")
  case True
  then show ?thesis by (simp add: rich_ok_def text_list_def)
next
  case False
  then show ?thesis using assms
    by (auto simp: bad_rich_list_def rich_ok_def check_bind_Inr rich_Inr split: sum.splits)
qed

lemma good_text:
  assumes "\<not> (case field d f of JStr s \<Rightarrow> strip s = '''' | _ \<Rightarrow> True)"
  shows "\<exists>t. required_text d f = Inr t"
  using assms by (auto simp: required_text_def split: json.splits)

text \<open>A dictionary validates when each field is good.\<close>

lemma validate_card_from_fields:
  assumes "\<exists>xs. text_list (expand_card_aliases kvs) ''examples'' True = Inr xs \<and> length xs = 2"
    and "\<exists>xs. text_list (expand_card_aliases kvs) ''example_translations'' True = Inr xs \<and> length xs = 2"
    and "\<And>f. f \<in> {''synonyms'', ''antonyms''} \<Longrightarrow> \<exists>xs. rich_ok u (expand_card_aliases kvs) f xs"
    and "\<And>f. f \<in> {''word'', ''fa_meaning'', ''fa_explanation''} \<Longrightarrow> \<exists>t. required_text (expand_card_aliases kvs) f = Inr t"
  shows "\<exists>c. validate_card u py_str (JObj kvs) = Inr c"
proof -
  let ?d = "expand_card_aliases kvs"
  obtain ex tr where two: "text_list ?d ''examples'' True = Inr ex" "length ex = 2"
    "text_list ?d ''example_translations'' True = Inr tr" "length tr = 2" using assms(1,2) by blast
  obtain sy an where rich: "rich_ok u ?d ''synonyms'' sy" "rich_ok u ?d ''antonyms'' an"
    using assms(3) [of "''synonyms''"] assms(3) [of "''antonyms''"] by blast
  obtain w m e where texts: "required_text ?d ''word'' = Inr w" "required_text ?d ''fa_meaning'' = Inr m" "required_text ?d ''fa_explanation'' = Inr e"
    using assms(4) [of "''word''"] assms(4) [of "''fa_meaning''"] assms(4) [of "''fa_explanation''"] by blast
  have "validate_card u py_str (JObj kvs) = Inr (card_of py_str ?d ex tr sy an w m e)"
    unfolding validate_card_iff Let_def using two rich texts by blast
  then show ?thesis by blast
qed

lemma invalid_card_names_fields_aux:
  assumes "validate_card u py_str j = Inl e"
  shows "card_repair_fields u j \<noteq> []"
proof (cases j)
  case (JObj kvs)
  let ?d = "expand_card_aliases kvs"
  show ?thesis
  proof
    assume none: "card_repair_fields u j = []"
    have texts: "filter (\<lambda>f. case field ?d f of JStr s \<Rightarrow> strip s = '''' | _ \<Rightarrow> True) [''word'', ''fa_meaning'', ''fa_explanation''] = []"
      and pair: "two_texts (field ?d ''examples'')" "two_texts (field ?d ''example_translations'')"
      and rich: "filter (bad_rich_list u ?d) [''synonyms'', ''antonyms''] = []"
      using none unfolding card_repair_fields_def JObj Let_def by (auto simp only: json.case append_is_Nil_conv split: if_splits)
    have "\<exists>c. validate_card u py_str (JObj kvs) = Inr c"
    proof (rule validate_card_from_fields)
      show "\<exists>xs. text_list ?d ''examples'' True = Inr xs \<and> length xs = 2" by (rule two_texts_list [OF pair(1)])
      show "\<exists>xs. text_list ?d ''example_translations'' True = Inr xs \<and> length xs = 2" by (rule two_texts_list [OF pair(2)])
      show "\<exists>xs. rich_ok u ?d f xs" if "f \<in> {''synonyms'', ''antonyms''}" for f
        by (rule good_rich) (use rich [unfolded filter_empty_conv] that in auto)
      show "\<exists>t. required_text ?d f = Inr t" if "f \<in> {''word'', ''fa_meaning'', ''fa_explanation''}" for f
        by (rule good_text) (use texts [unfolded filter_empty_conv] that in \<open>auto simp only: set_simps\<close>)
    qed
    then show False using assms JObj by simp
  qed
qed (simp_all add: card_repair_fields_def)
text \<open>Every card that does not validate names fields to repair, so the repair of a stored card never
  gives up for want of a repairable field.\<close>

theorem invalid_card_names_fields:
  assumes "validate_card u py_str j = Inl e"
  shows "card_repair_fields u j \<noteq> []"
  using assms by (rule invalid_card_names_fields_aux)


lemma map_of_AList_update: "map_of (AList.update k v d) f = (if f = k then Some v else map_of d f)"
  by (simp add: update_conv')

lemma map_of_dict_update:
  "distinct (map fst patch) \<Longrightarrow> map_of (dict_update d patch) f = (case map_of patch f of Some v \<Rightarrow> Some v | None \<Rightarrow> map_of d f)"
proof (induction patch arbitrary: d)
  case (Cons a patch)
  have step: "dict_update d (a # patch) = dict_update (AList.update (fst a) (snd a) d) patch"
    by (simp add: dict_update_def split_def)
  have "map_of patch f = None" if "f = fst a" using Cons.prems that by (simp add: map_of_eq_None_iff)
  then show ?case unfolding step using Cons by (auto simp: map_of_AList_update split: option.split)
qed (simp add: dict_update_def)

lemma patch_values_keys: "patch_values u d asked = Inr patch \<Longrightarrow> map fst patch = asked"
  by (induction asked arbitrary: patch) (auto simp: check_bind_Inr)

lemma patch_values_get:
  "patch_values u d asked = Inr patch \<Longrightarrow> f \<in> set asked \<Longrightarrow> distinct asked \<Longrightarrow>
   \<exists>v. map_of patch f = Some v \<and> patch_value u d f = Inr v"
  by (induction asked arbitrary: patch) (auto simp: check_bind_Inr)

lemma validate_patch_Inr:
  assumes "validate_card_patch u reply asked = Inr patch"
  obtains d where "patch_values u d asked = Inr patch"
  using assms by (auto simp: validate_card_patch_def check_bind_Inr Let_def split: json.splits if_splits)

definition repairable :: "string list" where
  "repairable = [''word'', ''fa_meaning'', ''fa_explanation'', ''examples'', ''example_translations'', ''phonetic'', ''synonyms'', ''antonyms'']"

text \<open>The fields a card asks for: distinct, known, and each field of a dictionary that is not asked for is good.\<close>

lemma distinct_filter3: "distinct [a, b, c] \<Longrightarrow> distinct (filter p [a, b, c])"
  by (rule distinct_filter)

lemma repair_fields_facts:
  fixes u :: unicode and crd :: json
  defines "asked \<equiv> card_repair_fields u crd"
  shows "distinct asked" "set asked \<subseteq> set repairable" "''examples'' \<in> set asked \<longleftrightarrow> ''example_translations'' \<in> set asked"
    "crd = JObj kvs \<Longrightarrow> f \<in> {''word'', ''fa_meaning'', ''fa_explanation''} \<Longrightarrow> f \<notin> set asked \<Longrightarrow>
       \<exists>t. required_text (expand_card_aliases kvs) f = Inr t"
    "crd = JObj kvs \<Longrightarrow> f \<in> {''examples'', ''example_translations''} \<Longrightarrow> f \<notin> set asked \<Longrightarrow> two_texts (field (expand_card_aliases kvs) f)"
    "crd = JObj kvs \<Longrightarrow> f \<in> {''synonyms'', ''antonyms''} \<Longrightarrow> f \<notin> set asked \<Longrightarrow> \<exists>xs. rich_ok u (expand_card_aliases kvs) f xs"
    "(\<And>kvs. crd \<noteq> JObj kvs) \<Longrightarrow> set asked = set [''word'', ''fa_meaning'', ''fa_explanation'', ''examples'', ''example_translations'']"
proof -
  define texts where "texts d = filter (\<lambda>f. case field d f of JStr s \<Rightarrow> strip s = '''' | _ \<Rightarrow> True) [''word'', ''fa_meaning'', ''fa_explanation'']" for d
  define pair where "pair d = (if \<not> two_texts (field d ''examples'') \<or> \<not> two_texts (field d ''example_translations'')
      then [''examples'', ''example_translations''] else [])" for d
  define phon where "phon d = (case (if field d ''phonetic'' = JNull then field d ''ph'' else field d ''phonetic'') of
        JStr s \<Rightarrow> if strip s \<noteq> '''' \<and> normalize_phonetic s = None then [''phonetic''] else []
      | JObj p \<Rightarrow> if truthy (field p ''ipa'') then [] else [''phonetic'']
      | _ \<Rightarrow> [])" for d
  define rich where "rich d = filter (bad_rich_list u d) [''synonyms'', ''antonyms'']" for d
  have asked: "asked = (case crd of JObj kvs \<Rightarrow> texts (expand_card_aliases kvs) @ pair (expand_card_aliases kvs) @ phon (expand_card_aliases kvs) @ rich (expand_card_aliases kvs)
      | _ \<Rightarrow> [''word'', ''fa_meaning'', ''fa_explanation'', ''examples'', ''example_translations''])"
    unfolding asked_def card_repair_fields_def texts_def pair_def phon_def rich_def Let_def ..
  have texts: "distinct (texts d)" "set (texts d) \<subseteq> {''word'', ''fa_meaning'', ''fa_explanation''}" for d
    unfolding texts_def by (rule distinct_filter, simp) (auto simp only: set_filter set_simps)
  have pair: "distinct (pair d)" "set (pair d) \<subseteq> {''examples'', ''example_translations''}"
      "''examples'' \<in> set (pair d) \<longleftrightarrow> ''example_translations'' \<in> set (pair d)" for d
    by (auto simp: pair_def)
  have phon: "distinct (phon d)" "set (phon d) \<subseteq> {''phonetic''}" for d
    unfolding phon_def by (auto split: json.splits if_splits)
  have rich: "distinct (rich d)" "set (rich d) \<subseteq> {''synonyms'', ''antonyms''}" for d
    unfolding rich_def by (rule distinct_filter, simp) (auto simp only: set_filter set_simps)
  have apart: "''examples'' \<notin> set (texts d)" "''examples'' \<notin> set (phon d)" "''examples'' \<notin> set (rich d)"
      "''example_translations'' \<notin> set (texts d)" "''example_translations'' \<notin> set (phon d)" "''example_translations'' \<notin> set (rich d)" for d
    using texts(2) [of d] phon(2) [of d] rich(2) [of d] by auto
  show "distinct asked"
  proof (cases crd)
    case (JObj kvs)
    let ?d = "expand_card_aliases kvs"
    have "set (texts ?d) \<inter> set (pair ?d @ phon ?d @ rich ?d) = {}" "set (pair ?d) \<inter> set (phon ?d @ rich ?d) = {}" "set (phon ?d) \<inter> set (rich ?d) = {}"
      using texts(2) [of ?d] pair(2) [of ?d] phon(2) [of ?d] rich(2) [of ?d] by auto
    then show ?thesis using texts(1) pair(1) phon(1) rich(1) by (simp add: asked JObj)
  qed (simp_all add: asked)
  show "set asked \<subseteq> set repairable"
  proof (cases crd)
    case (JObj kvs)
    then show ?thesis using texts(2) pair(2) phon(2) rich(2) unfolding asked repairable_def by fastforce
  qed (simp_all add: asked repairable_def)
  show "''examples'' \<in> set asked \<longleftrightarrow> ''example_translations'' \<in> set asked"
    using apart pair(3) by (cases crd) (simp_all add: asked)
  show "\<exists>t. required_text (expand_card_aliases kvs) f = Inr t"
    if "crd = JObj kvs" "f \<in> {''word'', ''fa_meaning'', ''fa_explanation''}" "f \<notin> set asked"
  proof (rule good_text)
    have "f \<notin> set (texts (expand_card_aliases kvs))" using that by (simp add: asked)
    then show "\<not> (case field (expand_card_aliases kvs) f of JStr s \<Rightarrow> strip s = '''' | _ \<Rightarrow> True)"
      using that(2) unfolding texts_def by (auto simp only: set_filter set_simps)
  qed
  show "two_texts (field (expand_card_aliases kvs) f)"
    if "crd = JObj kvs" "f \<in> {''examples'', ''example_translations''}" "f \<notin> set asked"
  proof -
    have "f \<notin> set (pair (expand_card_aliases kvs))" using that by (simp add: asked)
    then show ?thesis using that(2) by (auto simp: pair_def split: if_splits)
  qed
  show "\<exists>xs. rich_ok u (expand_card_aliases kvs) f xs"
    if "crd = JObj kvs" "f \<in> {''synonyms'', ''antonyms''}" "f \<notin> set asked"
  proof (rule good_rich)
    have "f \<notin> set (rich (expand_card_aliases kvs))" using that by (simp add: asked)
    then show "\<not> bad_rich_list u (expand_card_aliases kvs) f" using that(2) unfolding rich_def by (auto simp only: set_filter set_simps)
  qed
  show "set asked = set [''word'', ''fa_meaning'', ''fa_explanation'', ''examples'', ''example_translations'']" if "\<And>kvs. crd \<noteq> JObj kvs"
    using that by (cases crd) (auto simp add: asked)
qed

lemma patch_value_good:
  assumes "patch_value u d f = Inr v" "f \<in> set repairable" "field e f = v"
  shows "f \<in> {''word'', ''fa_meaning'', ''fa_explanation''} \<Longrightarrow> \<exists>t. required_text e f = Inr t"
    "f \<in> {''examples'', ''example_translations''} \<Longrightarrow> \<exists>xs. text_list e f True = Inr xs \<and> length xs = 2"
    "f \<in> {''synonyms'', ''antonyms''} \<Longrightarrow> \<exists>xs. rich_ok u e f xs"
proof -
  show "\<exists>t. required_text e f = Inr t" if f: "f \<in> {''word'', ''fa_meaning'', ''fa_explanation''}"
  proof -
    obtain t where "required_text d f = Inr t" "v = JStr t" using assms(1) f by (auto simp: patch_value_def check_bind_Inr)
    then show ?thesis using required_text_again assms(3) by blast
  qed
  show "\<exists>xs. text_list e f True = Inr xs \<and> length xs = 2" if f: "f \<in> {''examples'', ''example_translations''}"
  proof -
    obtain xs where "text_list d f True = Inr xs" "length xs = 2" "v = JArr (map JStr xs)"
      using assms(1) f by (auto simp: patch_value_def check_bind_Inr split: if_splits)
    then show ?thesis using text_list_again assms(3) by blast
  qed
  show "\<exists>xs. rich_ok u e f xs" if f: "f \<in> {''synonyms'', ''antonyms''}"
  proof -
    obtain xs where "text_list d f False = Inr xs" "validate_optional_rich_list u f xs = Inr ()" "v = JArr (map JStr xs)"
      using assms(1) f by (auto simp: patch_value_def check_bind_Inr)
    then show ?thesis using text_list_again [of d f False xs e] assms(3) by (auto simp: rich_ok_def rich_Inr)
  qed
qed


lemma repaired_card_validates_aux:
  assumes "validate_card_patch u reply (card_repair_fields u crd) = Inr patch"
  shows "\<exists>c. validate_card u py_str (JObj (dict_update (case crd of JObj kvs \<Rightarrow> kvs | _ \<Rightarrow> []) patch)) = Inr c"
proof -
  let ?asked = "card_repair_fields u crd"
  let ?base = "case crd of JObj kvs \<Rightarrow> kvs | _ \<Rightarrow> []"
  let ?merged = "dict_update ?base patch"
  let ?e = "expand_card_aliases ?merged"
  note facts = repair_fields_facts [where u = u and crd = crd]
  obtain d where d: "patch_values u d ?asked = Inr patch" using validate_patch_Inr [OF assms] .
  have keys: "map fst patch = ?asked" by (rule patch_values_keys [OF d])
  have get: "map_of ?merged f = (case map_of patch f of Some v \<Rightarrow> Some v | None \<Rightarrow> map_of ?base f)" for f
    by (rule map_of_dict_update) (simp add: keys facts(1))
  have known: "f \<in> snd ` set COMPACT_CARD_FIELDS" if "f \<in> set repairable" for f
    using that by (auto simp: repairable_def COMPACT_CARD_FIELDS_def)
  have given: "\<exists>v. patch_value u d f = Inr v \<and> field ?e f = v \<and> f \<in> set repairable" if f: "f \<in> set ?asked" for f
  proof -
    obtain v where v: "map_of patch f = Some v" "patch_value u d f = Inr v" using patch_values_get [OF d f facts(1)] by blast
    have r: "f \<in> set repairable" using facts(2) f by blast
    then obtain a where "(a, f) \<in> set COMPACT_CARD_FIELDS" using known by force
    from canonical_cong [OF this, of ?merged v] have "field ?e f = v" using get v(1) by (simp add: canonical_def)
    then show ?thesis using v r by blast
  qed
  have kept: "field ?e f = field (expand_card_aliases ?base) f" if f: "f \<notin> set ?asked" "f \<in> set repairable" for f
  proof -
    obtain a where a: "(a, f) \<in> set COMPACT_CARD_FIELDS" using known [OF f(2)] by force
    have "a \<notin> set repairable" using a by (auto simp: repairable_def COMPACT_CARD_FIELDS_def)
    then have "map_of patch a = None" "map_of patch f = None" using f(1) facts(2) keys by (auto simp: map_of_eq_None_iff simp flip: set_map)
    then have "map_of ?merged f = map_of ?base f" "map_of ?merged a = map_of ?base a" using get by simp_all
    then show ?thesis using canonical_field [OF a] by (simp add: canonical_def field_def)
  qed
  have all_asked: "f \<in> set ?asked" if "\<And>kvs. crd \<noteq> JObj kvs" "f \<in> {''word'', ''fa_meaning'', ''fa_explanation'', ''examples'', ''example_translations''}" for f
    using facts(7) [OF that(1)] that(2) by auto
  show ?thesis
  proof (rule validate_card_from_fields)
    have two: "\<exists>xs. text_list ?e f True = Inr xs \<and> length xs = 2" if f: "f \<in> {''examples'', ''example_translations''}" for f
    proof (cases "f \<in> set ?asked")
      case True
      then show ?thesis using given patch_value_good(2) f by blast
    next
      case False
      then obtain kvs where crd: "crd = JObj kvs" using all_asked f by blast
      have "f \<in> set repairable" using f by (auto simp: repairable_def)
      then have "field ?e f = field (expand_card_aliases kvs) f" using kept False crd by simp
      then show ?thesis using two_texts_list [of ?e f] facts(5) [OF crd f False] by simp
    qed
    show "\<exists>xs. text_list ?e ''examples'' True = Inr xs \<and> length xs = 2" by (rule two) simp
    show "\<exists>xs. text_list ?e ''example_translations'' True = Inr xs \<and> length xs = 2" by (rule two) simp
    show "\<exists>xs. rich_ok u ?e f xs" if f: "f \<in> {''synonyms'', ''antonyms''}" for f
    proof (cases "f \<in> set ?asked")
      case True
      then show ?thesis using given patch_value_good(3) f by blast
    next
      case False
      have r: "f \<in> set repairable" using f by (auto simp: repairable_def)
      then have same: "field ?e f = field (expand_card_aliases ?base) f" using kept False by simp
      show ?thesis
      proof (cases "\<exists>kvs. crd = JObj kvs")
        case True
        then obtain kvs where crd: "crd = JObj kvs" by blast
        obtain xs where "rich_ok u (expand_card_aliases kvs) f xs" using facts(6) [OF crd f False] by blast
        then show ?thesis using same crd text_list_cong [of ?e f "expand_card_aliases kvs" False] by (auto simp: rich_ok_def)
      next
        case False
        then have "?base = []" by (cases crd) simp_all
        moreover obtain a where "(a, f) \<in> set COMPACT_CARD_FIELDS" using known [OF r] by force
        ultimately have "field ?e f = JNull" using same canonical_field [of a f "[]"] by (simp add: canonical_def)
        then show ?thesis by (simp add: rich_ok_def text_list_def)
      qed
    qed
    show "\<exists>t. required_text ?e f = Inr t" if f: "f \<in> {''word'', ''fa_meaning'', ''fa_explanation''}" for f
    proof (cases "f \<in> set ?asked")
      case True
      then show ?thesis using given patch_value_good(1) f by blast
    next
      case False
      then obtain kvs where crd: "crd = JObj kvs" using all_asked f by blast
      have "f \<in> set repairable" using f by (auto simp: repairable_def)
      then have "field ?e f = field (expand_card_aliases kvs) f" using kept False crd by simp
      then show ?thesis using facts(4) [OF crd f False] required_text_cong [of ?e f "expand_card_aliases kvs"] by simp
    qed
  qed
qed

text \<open>C24: a repair that passes its check always mends the card: the stored card, updated with a patch that
  was accepted for exactly the fields it asked for, validates.\<close>

theorem repaired_card_validates:
  assumes "validate_card_patch u reply (card_repair_fields u crd) = Inr patch"
  shows "\<exists>c. validate_card u py_str (JObj (dict_update (case crd of JObj kvs \<Rightarrow> kvs | _ \<Rightarrow> []) patch)) = Inr c"
  using assms by (rule repaired_card_validates_aux)

text \<open>Preparing a stored card gives a card that validates, or fails in one of two ways: the model gave
  no patch, or the patch could not be stored. It stores nothing for a card that was valid, and at
  most the one patch otherwise.\<close>

theorem prepared_card_is_valid:
  assumes "\<And>asked patch. repair asked = Some patch \<Longrightarrow> \<exists>reply. validate_card_patch u reply asked = Inr patch"
  shows "case prepare_cached_card u py_str repair persist crd of
     (Prepared c, stored) \<Rightarrow> validate_card u py_str (JObj c) = Inr c \<and>
        (if stored = [] then validate_card u py_str crd = Inr c
         else repair (card_repair_fields u crd) = Some (hd stored) \<and> persist (hd stored) \<and> tl stored = [])
   | (NoRepairableFields, stored) \<Rightarrow> False
   | (PersistFailed, stored) \<Rightarrow> stored = [] \<and> (\<exists>patch. repair (card_repair_fields u crd) = Some patch \<and> \<not> persist patch)
   | (RepairFailed, stored) \<Rightarrow> stored = [] \<and> repair (card_repair_fields u crd) = None"
proof (cases "validate_card u py_str crd")
  case (Inr c)
  then show ?thesis using validated_card_is_stable_aux [OF Inr] by (simp add: prepare_cached_card_def)
next
  case (Inl e)
  have some: "card_repair_fields u crd \<noteq> []" by (rule invalid_card_names_fields_aux [OF Inl])
  show ?thesis
  proof (cases "repair (card_repair_fields u crd)")
    case None
    then show ?thesis using Inl some by (simp add: prepare_cached_card_def)
  next
    case (Some patch)
    obtain reply where "validate_card_patch u reply (card_repair_fields u crd) = Inr patch" using assms [OF Some] by blast
    then obtain c where c: "validate_card u py_str (JObj (dict_update (case crd of JObj kvs \<Rightarrow> kvs | _ \<Rightarrow> []) patch)) = Inr c"
      using repaired_card_validates_aux by blast
    then show ?thesis using Inl some Some validated_card_is_stable_aux [OF c] by (simp add: prepare_cached_card_def Let_def)
  qed
qed


section \<open>Batches are clean\<close>

definition balance :: "batch_stats \<Rightarrow> int \<times> int" where
  "balance st = (received st - accepted st - validation_rejected st - duplicates st, duplicates st - against_avoid st - within_batch st)"

definition clean_cards :: "unicode \<Rightarrow> (json \<Rightarrow> string) \<Rightarrow> string list \<Rightarrow> json_dict list \<Rightarrow> bool" where
  "clean_cards u py_str avoid cs \<longleftrightarrow> distinct (map (card_word u) cs) \<and>
     (\<forall>c \<in> set cs. validate_card u py_str (JObj c) = Inr c \<and> card_word u c \<notin> set avoid)"

lemma batch_loop_facts:
  assumes "batch_loop u py_str n avoid items used cs st why = (cs', st', why')"
    and "clean_cards u py_str avoid cs" and "card_word u ` set cs \<subseteq> set used" and "cs = [] \<or> int (length cs) < n"
  shows "clean_cards u py_str avoid cs' \<and> balance st' = balance st \<and>
     accepted st' - int (length cs') = accepted st - int (length cs) \<and> int (length cs') \<le> max 1 n"
  using assms
proof (induction items arbitrary: used cs st why)
  case (Cons item items)
  let ?st = "st\<lparr>received := received st + 1\<rparr>"
  show ?case
  proof (cases "validate_card u py_str item")
    case (Inl e)
    with Cons.prems have "batch_loop u py_str n avoid items used cs (?st\<lparr>validation_rejected := validation_rejected ?st + 1\<rparr>) (why(e := why e + 1)) = (cs', st', why')"
      by (simp add: Let_def)
    from Cons.IH [OF this Cons.prems(2-4)] show ?thesis by (simp add: balance_def)
  next
    case (Inr c)
    let ?w = "card_word u c"
    consider (avoided) "?w \<in> set avoid" | (twice) "?w \<notin> set avoid" "?w \<in> set used" | (taken) "?w \<notin> set avoid" "?w \<notin> set used" by blast
    then show ?thesis
    proof cases
      case avoided
      with Cons.prems Inr have "batch_loop u py_str n avoid items used cs
          (?st\<lparr>against_avoid := against_avoid ?st + 1, duplicates := duplicates ?st + 1\<rparr>) why = (cs', st', why')" by (simp add: Let_def)
      from Cons.IH [OF this Cons.prems(2-4)] show ?thesis by (simp add: balance_def)
    next
      case twice
      with Cons.prems Inr have "batch_loop u py_str n avoid items used cs
          (?st\<lparr>within_batch := within_batch ?st + 1, duplicates := duplicates ?st + 1\<rparr>) why = (cs', st', why')" by (simp add: Let_def)
      from Cons.IH [OF this Cons.prems(2-4)] show ?thesis by (simp add: balance_def)
    next
      case taken
      let ?st' = "?st\<lparr>accepted := accepted ?st + 1\<rparr>"
      have clean: "clean_cards u py_str avoid (cs @ [c])"
        using Cons.prems(2,3) taken validated_card_is_stable_aux [OF Inr] by (auto simp: clean_cards_def)
      have sub: "card_word u ` set (cs @ [c]) \<subseteq> set (?w # used)" using Cons.prems(3) by auto
      have run: "(if n \<le> int (length (cs @ [c])) then (cs @ [c], ?st', why) else batch_loop u py_str n avoid items (?w # used) (cs @ [c]) ?st' why) = (cs', st', why')"
        using Cons.prems(1) Inr taken by (simp add: Let_def)
      show ?thesis
      proof (cases "n \<le> int (length (cs @ [c]))")
        case True
        then have "cs' = cs @ [c]" "st' = ?st'" using run by simp_all
        then show ?thesis using clean True Cons.prems(4) by (auto simp: balance_def)
      next
        case False
        then have "batch_loop u py_str n avoid items (?w # used) (cs @ [c]) ?st' why = (cs', st', why')" using run by simp
        from Cons.IH [OF this clean sub] False show ?thesis by (simp add: balance_def)
      qed
    qed
  qed
qed auto

text \<open>C23: a batch comes back clean whatever the model wrote: every card of it validates and is unchanged by
  another validation, no two cards share a word and none has a word to avoid, there are no more
  than the expected number (one, when that is less than one), and the counters account for every
  item received.\<close>

theorem batch_is_clean:
  assumes "validate_batch u py_str j n used_words st why = Some (cs, st', why')"
  shows "distinct (map (card_word u) cs) \<and> int (length cs) \<le> max 1 n \<and>
     (\<forall>c \<in> set cs. validate_card u py_str (JObj c) = Inr c \<and>
        (\<forall>w \<in> set used_words. strip w \<noteq> '''' \<longrightarrow> card_word u c \<noteq> casefold u (strip w))) \<and>
     accepted st' - accepted st = int (length cs) \<and>
     received st' - received st = (accepted st' - accepted st) + (validation_rejected st' - validation_rejected st) + (duplicates st' - duplicates st) \<and>
     duplicates st' - duplicates st = (against_avoid st' - against_avoid st) + (within_batch st' - within_batch st)"
proof -
  let ?avoid = "remdups (map (\<lambda>w. casefold u (strip w)) (filter (\<lambda>w. strip w \<noteq> '''') used_words))"
  let ?st = "st\<lparr>avoid_words := int (length ?avoid)\<rparr>"
  obtain items where run: "batch_loop u py_str n ?avoid items ?avoid [] ?st why = (cs, st', why')"
    using assms by (auto simp: validate_batch_def Let_def split: json.splits)
  have "clean_cards u py_str ?avoid []" by (simp add: clean_cards_def)
  from batch_loop_facts [OF run this] have facts: "clean_cards u py_str ?avoid cs" "balance st' = balance ?st"
    "accepted st' - int (length cs) = accepted ?st" "int (length cs) \<le> max 1 n" by auto
  have avoided: "casefold u (strip w) \<in> set ?avoid" if "w \<in> set used_words" "strip w \<noteq> ''''" for w using that by auto
  have "card_word u c \<noteq> casefold u (strip w)" if "c \<in> set cs" "w \<in> set used_words" "strip w \<noteq> ''''" for c w
    using facts(1) avoided [OF that(2,3)] that(1) by (auto simp: clean_cards_def)
  moreover have "received st' - received st = (accepted st' - accepted st) + (validation_rejected st' - validation_rejected st) + (duplicates st' - duplicates st)"
    "duplicates st' - duplicates st = (against_avoid st' - against_avoid st) + (within_batch st' - within_batch st)"
    using facts(2) by (simp_all add: balance_def)
  ultimately show ?thesis using facts(1,3,4) unfolding clean_cards_def by simp
qed

section \<open>Concrete cards\<close>

definition plain_unicode :: unicode where
  "plain_unicode = \<lparr>nfc = id, casefold = map lower_char\<rparr>"

definition raw_card :: "string \<Rightarrow> json_dict" where
  "raw_card w = [(''w'', JStr w), (''ph'', JStr ''ipa: x''), (''m'', JStr '' m ''), (''x'', JStr ''e''), (''s'', JArr [JStr ''a'', JStr ''b'']),
     (''e'', JArr [JStr ''one'', JStr ''two'']), (''t'', JArr [JStr ''yek'', JStr ''do''])]"

definition empty_stats :: batch_stats where
  "empty_stats = \<lparr>received = 0, accepted = 0, validation_rejected = 0, duplicates = 0, against_avoid = 0, within_batch = 0, avoid_words = 0\<rparr>"

definition good_card :: json_dict where
  "good_card = [(''word'', JStr ''hi''), (''phonetic'', JObj [(''ipa'', JStr ''x'')]), (''fa_meaning'', JStr ''m''), (''fa_explanation'', JStr ''e''),
     (''synonyms'', JArr [JStr ''a'', JStr ''b'']), (''antonyms'', JArr []), (''examples'', JArr [JStr ''one'', JStr ''two'']),
     (''example_translations'', JArr [JStr ''yek'', JStr ''do'']), (''grammar_tip'', JStr '''')]"

lemma raw_card_validates: "validate_card plain_unicode (\<lambda>_. '''') (JObj (raw_card ''hi'')) = Inr good_card"
  by code_simp

theorem validated_card_is_stable_witness:
  "validate_card plain_unicode (\<lambda>_. '''') (JObj good_card) = Inr good_card"
  by (rule validated_card_is_stable [OF raw_card_validates])

lemma empty_card_invalid: "validate_card plain_unicode (\<lambda>_. '''') (JObj []) = Inl (NoTextList ''examples'')"
  by code_simp

theorem invalid_card_names_fields_witness:
  "card_repair_fields plain_unicode (JObj []) \<noteq> []"
  by (rule invalid_card_names_fields [OF empty_card_invalid])

definition no_meaning :: json_dict where
  "no_meaning = AList.update ''fa_meaning'' JNull good_card"

lemma meaning_patch:
  "validate_card_patch plain_unicode (JObj [(''fa_meaning'', JStr ''m'')]) (card_repair_fields plain_unicode (JObj no_meaning)) = Inr [(''fa_meaning'', JStr ''m'')]"
  by code_simp

theorem repaired_card_validates_witness:
  "\<exists>c. validate_card plain_unicode (\<lambda>_. '''') (JObj (dict_update no_meaning [(''fa_meaning'', JStr ''m'')])) = Inr c"
  using repaired_card_validates [OF meaning_patch] by simp


theorem prepared_card_is_valid_witness:
  "\<exists>c stored. prepare_cached_card plain_unicode (\<lambda>_. '''') (\<lambda>_. None) (\<lambda>_. True) (JObj (raw_card ''hi'')) = (Prepared c, stored) \<and>
     validate_card plain_unicode (\<lambda>_. '''') (JObj c) = Inr c"
proof -
  have run: "prepare_cached_card plain_unicode (\<lambda>_. '''') (\<lambda>_. None) (\<lambda>_. True) (JObj (raw_card ''hi'')) = (Prepared good_card, [])"
    by (simp add: prepare_cached_card_def raw_card_validates)
  then show ?thesis
    using prepared_card_is_valid [where repair = "\<lambda>_. None" and u = plain_unicode and py_str = "\<lambda>_. ''''" and persist = "\<lambda>_. True" and crd = "JObj (raw_card ''hi'')"] by simp
qed

lemma sample_batch:
  "map_option (\<lambda>(cs, st, _). (cs, st))
     (validate_batch plain_unicode (\<lambda>_. '''') (JArr [JObj (raw_card ''hi''), JObj (raw_card ''HI''), JNull]) 5 [''yo''] empty_stats (\<lambda>_. 0)) =
   Some ([good_card], empty_stats\<lparr>received := 3, accepted := 1, validation_rejected := 1, duplicates := 1, within_batch := 1, avoid_words := 1\<rparr>)"
  by code_simp

theorem batch_is_clean_witness:
  "\<exists>st' why'. validate_batch plain_unicode (\<lambda>_. '''') (JArr [JObj (raw_card ''hi''), JObj (raw_card ''HI''), JNull]) 5 [''yo''] empty_stats (\<lambda>_. 0) =
     Some ([good_card], st', why') \<and> card_word plain_unicode good_card \<noteq> ''yo'' \<and> accepted st' = 1"
proof -
  obtain st' why' where r: "validate_batch plain_unicode (\<lambda>_. '''') (JArr [JObj (raw_card ''hi''), JObj (raw_card ''HI''), JNull]) 5 [''yo''] empty_stats (\<lambda>_. 0) =
     Some ([good_card], st', why')" using sample_batch by auto
  have "strip ''yo'' = ''yo''" "casefold plain_unicode ''yo'' = ''yo''" by code_simp+
  then show ?thesis using batch_is_clean [OF r] r by (simp add: empty_stats_def)
qed

end
