(* ===== verification/Queries.thy ===== *)
theory Queries imports Quota Cards "HOL-Library.Option_ord" begin

text \<open>
  Custom word queries: the input rules of \<open>services/utils/validation.py\<close>, the store of answers
  \<open>services/db/query_results.py\<close> with its cap, and the flow \<open>services/word_query.py\<close> that reserves
  quota, asks the model and stores the card. The store compares timestamps as texts; the model,
  its exceptions and the random token are parameters.
\<close>

section \<open>Input rules\<close>

text \<open>
  The rules look at code points. What Unicode says of them and the NFC form are parameters.
\<close>

record letters =
  is_alpha :: "nat \<Rightarrow> bool"
  is_blank :: "nat \<Rightarrow> bool"
  nfc_points :: "nat list \<Rightarrow> nat list"

definition strip_points :: "(nat \<Rightarrow> bool) \<Rightarrow> nat list \<Rightarrow> nat list" where
  "strip_points p xs = rev (dropWhile p (rev (dropWhile p xs)))"

text \<open>\<open>re.sub(run, " ", text)\<close>; the flag says that the character before belongs to the run.\<close>

fun squeeze :: "(nat \<Rightarrow> bool) \<Rightarrow> bool \<Rightarrow> nat list \<Rightarrow> nat list" where
  "squeeze p inside [] = []"
| "squeeze p inside (x # xs) =
     (if p x then (if inside then squeeze p True xs else 32 # squeeze p True xs) else x # squeeze p False xs)"

definition normalize_custom_word_input :: "letters \<Rightarrow> nat list \<Rightarrow> nat list" where
  "normalize_custom_word_input L text =
     (let text = nfc_points L text;
          text = squeeze (\<lambda>x. is_blank L x \<or> x = 0x200B) False (strip_points (is_blank L) text);
          text = squeeze (\<lambda>x. x = 32) False text
      in strip_points (is_blank L) text)"

fun split_points :: "(nat \<Rightarrow> bool) \<Rightarrow> nat list \<Rightarrow> nat list \<Rightarrow> nat list list" where
  "split_points p acc [] = (if acc = [] then [] else [rev acc])"
| "split_points p acc (x # xs) =
     (if p x then (if acc = [] then split_points p [] xs else rev acc # split_points p [] xs)
      else split_points p (x # acc) xs)"

definition CUSTOM_WORD_MAX_CHARS :: nat where
  "CUSTOM_WORD_MAX_CHARS = 48"

definition CUSTOM_WORD_MAX_WORDS :: nat where
  "CUSTOM_WORD_MAX_WORDS = 4"

definition MIN_LETTERS :: nat where
  "MIN_LETTERS = 2"

text \<open>Hyphen, zero-width non-joiner, apostrophe and right single quotation mark.\<close>

definition ALLOWED_PUNCTUATION :: "nat set" where
  "ALLOWED_PUNCTUATION = {45, 0x200C, 39, 0x2019}"

definition validate_word_query :: "letters \<Rightarrow> nat list \<Rightarrow> string option" where
  "validate_word_query L text =
     (let normalized = normalize_custom_word_input L text in
      if normalized = [] then Some ''empty''
      else if length normalized > CUSTOM_WORD_MAX_CHARS then Some ''too_long''
      else let ws = split_points (is_blank L) [] normalized in
        if length ws > CUSTOM_WORD_MAX_WORDS then Some ''too_many_words''
        else if \<exists>w \<in> set ws. \<exists>x \<in> set w. x \<notin> ALLOWED_PUNCTUATION \<and> \<not> is_alpha L x then Some ''invalid_chars''
        else if length (filter (is_alpha L) normalized) < MIN_LETTERS then Some ''too_few_letters''
        else None)"

section \<open>The store of answers\<close>

definition now_text :: "('a clock_scheme) \<Rightarrow> string" where
  "now_text c = stamp_text c (Stamp (utc_now c))"

definition query_result_expired :: "('a clock_scheme) \<Rightarrow> query_row \<Rightarrow> bool" where
  "query_result_expired c q \<longleftrightarrow> stamp_text c (q_expires q) \<le> now_text c"

definition QUERY_RESULTS_CAP :: nat where
  "QUERY_RESULTS_CAP = 100"

text \<open>\<open>WHERE user_id=? AND lang=? AND expires_at>?\<close>\<close>

definition live :: "('a clock_scheme) \<Rightarrow> int \<Rightarrow> string \<Rightarrow> query_row \<Rightarrow> bool" where
  "live c uid lang q \<longleftrightarrow> q_user q = uid \<and> q_lang q = lang \<and> now_text c < stamp_text c (q_expires q)"

definition protected :: "string option \<Rightarrow> query_row \<Rightarrow> bool" where
  "protected exclude_token q \<longleftrightarrow> exclude_token \<noteq> None \<and> exclude_token \<noteq> Some '''' \<and> exclude_token = Some (q_token q)"

text \<open>Oldest first, rows of the same text time in the order of their row ids.\<close>

definition cap_victims :: "('a clock_scheme) \<Rightarrow> int \<Rightarrow> string \<Rightarrow> nat \<Rightarrow> string option \<Rightarrow> db \<Rightarrow> query_row list" where
  "cap_victims c uid lang cap exclude_token s =
     (let rows = filter (live c uid lang) (queries s)
      in take (length rows - cap)
           (sort_key (\<lambda>q. stamp_text c (q_created q)) (filter (\<lambda>q. \<not> protected exclude_token q) rows)))"

definition enforce_query_results_cap :: "('a clock_scheme) \<Rightarrow> int \<Rightarrow> string \<Rightarrow> nat \<Rightarrow> string option \<Rightarrow> db \<Rightarrow> db" where
  "enforce_query_results_cap c uid lang cap exclude_token s =
     (if count_where (live c uid lang) (queries s) \<le> cap then s
      else let gone = map q_token (cap_victims c uid lang cap exclude_token s)
           in s\<lparr>queries := delete_where (\<lambda>q. q_token q \<in> set gone) (queries s)\<rparr>)"

definition QUERY_TTL_SECONDS :: int where
  "QUERY_TTL_SECONDS = 30 * 24 * 60 * 60"

definition answer_row ::
    "('a clock_scheme) \<Rightarrow> unicode \<Rightarrow> string \<Rightarrow> int \<Rightarrow> string \<Rightarrow> string \<Rightarrow> string \<Rightarrow> json \<Rightarrow> int \<Rightarrow> query_row" where
  "answer_row c u token uid query_text word lang result_data ttl =
     \<lparr>q_token = token, q_user = uid, q_text = normalize_word u query_text, q_word = normalize_word u word,
      q_lang = lang, q_json = JsonText result_data, q_created = Stamp (utc_now c),
      q_expires = Stamp (utc_now c + ttl * 1000000), q_saved_at = None, q_saved_word = None\<rparr>"

definition create_query_result ::
    "('a clock_scheme) \<Rightarrow> unicode \<Rightarrow> string \<Rightarrow> int \<Rightarrow> string \<Rightarrow> string \<Rightarrow> string \<Rightarrow> json \<Rightarrow> int \<Rightarrow> string option \<Rightarrow> db \<Rightarrow> db py" where
  "create_query_result c u token uid query_text word lang result_data ttl exclude_token s =
     (if token \<in> q_token ` set (queries s) then Inl IntegrityError
      else let row = answer_row c u token uid query_text word lang result_data ttl
           in Inr (enforce_query_results_cap c uid lang QUERY_RESULTS_CAP exclude_token
                     (s\<lparr>queries := queries s @ [row]\<rparr>)))"

definition get_query_result :: "('a clock_scheme) \<Rightarrow> db \<Rightarrow> string \<Rightarrow> int option \<Rightarrow> bool \<Rightarrow> query_row option" where
  "get_query_result c s token uid include_expired =
     (case find (\<lambda>q. q_token q = token \<and> (case uid of None \<Rightarrow> True | Some i \<Rightarrow> q_user q = i)) (queries s) of
        None \<Rightarrow> None
      | Some row \<Rightarrow> if \<not> include_expired \<and> query_result_expired c row then None else Some row)"

text \<open>
  \<open>ORDER BY created_at DESC\<close>; of rows with the same time, which SQL leaves open, the one inserted
  first comes first.
\<close>

definition newest_first :: "('a clock_scheme) \<Rightarrow> query_row list \<Rightarrow> query_row list" where
  "newest_first c qs = rev (sort_key (\<lambda>q. stamp_text c (q_created q)) (rev qs))"

fun readable :: "json_text \<Rightarrow> bool" where
  "readable (JsonText _) = True"
| "readable (NotJson _) = False"

definition find_unexpired_query :: "('a clock_scheme) \<Rightarrow> unicode \<Rightarrow> db \<Rightarrow> int \<Rightarrow> string \<Rightarrow> string \<Rightarrow> query_row option" where
  "find_unexpired_query c u s uid query_text lang =
     (let normalized = normalize_word u query_text;
          rows = newest_first c (filter (live c uid lang) (queries s))
      in case find (\<lambda>q. q_text q = normalized) rows of
           Some row \<Rightarrow> Some row
         | None \<Rightarrow> find (\<lambda>q. normalize_word u (q_text q) = normalized \<and> readable (q_json q)) rows)"

definition find_unexpired_query_by_word :: "('a clock_scheme) \<Rightarrow> unicode \<Rightarrow> db \<Rightarrow> int \<Rightarrow> string \<Rightarrow> string \<Rightarrow> query_row option" where
  "find_unexpired_query_by_word c u s uid word lang =
     (let normalized = normalize_word u word;
          rows = newest_first c (filter (live c uid lang) (queries s))
      in if normalized = '''' then None
         else case find (\<lambda>q. q_word q = normalized) rows of
           Some row \<Rightarrow> Some row
         | None \<Rightarrow> find (\<lambda>q. normalize_word u (q_word q) = normalized \<and> readable (q_json q)) rows)"

definition mark_query_result_saved :: "('a clock_scheme) \<Rightarrow> db \<Rightarrow> string \<Rightarrow> int option \<Rightarrow> db" where
  "mark_query_result_saved c s token saved_word_id =
     s\<lparr>queries := update_where (\<lambda>q. q_token q = token)
        (\<lambda>q. q\<lparr>q_saved_at := (case q_saved_at q of None \<Rightarrow> Some (Stamp (utc_now c)) | Some x \<Rightarrow> Some x),
               q_saved_word := (case q_saved_word q of None \<Rightarrow> saved_word_id | Some x \<Rightarrow> Some x)\<rparr>) (queries s)\<rparr>"

definition clear_query_result_saved :: "db \<Rightarrow> string \<Rightarrow> db" where
  "clear_query_result_saved s token =
     s\<lparr>queries := update_where (\<lambda>q. q_token q = token) (\<lambda>q. q\<lparr>q_saved_at := None, q_saved_word := None\<rparr>) (queries s)\<rparr>"

definition update_query_result_fields :: "db \<Rightarrow> string \<Rightarrow> int \<Rightarrow> json_dict \<Rightarrow> bool \<times> db" where
  "update_query_result_fields s token uid patch =
     (case find (\<lambda>q. q_token q = token \<and> q_user q = uid) (queries s) of
        None \<Rightarrow> (False, s)
      | Some row \<Rightarrow>
          case q_json row of
            JsonText (JObj result_data) \<Rightarrow>
              (True, s\<lparr>queries := update_where (\<lambda>q. q_token q = token \<and> q_user q = uid)
                 (\<lambda>q. q\<lparr>q_json := JsonText (JObj (dict_update result_data patch))\<rparr>) (queries s)\<rparr>)
          | _ \<Rightarrow> (False, s))"

definition cleanup_expired_query_results :: "('a clock_scheme) \<Rightarrow> db \<Rightarrow> db" where
  "cleanup_expired_query_results c s = s\<lparr>queries := delete_where (query_result_expired c) (queries s)\<rparr>"

section \<open>Asking a word\<close>

text \<open>The line about today's usage: what is used, the limit and what is left.\<close>

datatype usage = UsedOf int int int | UsedUnlimited int | FirstOf int

definition word_query_usage_text :: "('a clock_scheme) \<Rightarrow> db \<Rightarrow> user_row \<Rightarrow> usage" where
  "word_query_usage_text c s row =
     (let used = (if u_words_date row \<noteq> Some (today_iso c) then 0 else or_else (u_words_asked row) 0);
          daily_limit = daily_word_query_limit_for_plan s (plan_or_free (u_plan row))
      in if daily_limit < 0 then UsedUnlimited used else UsedOf used daily_limit (max (daily_limit - used) 0))"

definition format_usage :: "('a clock_scheme) \<Rightarrow> db \<Rightarrow> user_row option \<Rightarrow> int \<Rightarrow> usage" where
  "format_usage c s row daily_limit = (case row of None \<Rightarrow> FirstOf daily_limit | Some r \<Rightarrow> word_query_usage_text c s r)"

datatype ask_result =
    AskOk string json usage
  | Duplicate string
  | InvalidInput string
  | RegistrationRequired
  | QuotaExhausted
  | AiTimeout
  | AiError
  | CardPrepError
  | PersistError

text \<open>What \<open>generate_card\<close> does: it returns a value or raises one of three kinds of exceptions.\<close>

datatype generated = Card json | CallTimedOut | PrepFailed | OtherFailure

definition find_duplicate :: "('a clock_scheme) \<Rightarrow> unicode \<Rightarrow> db \<Rightarrow> int \<Rightarrow> string \<Rightarrow> string \<Rightarrow> string option" where
  "find_duplicate c u s uid text lang =
     (case find_unexpired_query c u s uid text lang of
        None \<Rightarrow> None
      | Some row \<Rightarrow> if readable (q_json row) then Some (q_token row) else None)"

text \<open>\<open>x or d\<close> on a text column.\<close>

definition text_or :: "string option \<Rightarrow> string \<Rightarrow> string" where
  "text_or x d = (case none_if_empty x of None \<Rightarrow> d | Some t \<Rightarrow> t)"

text \<open>What the flow reads of the user row: language, level, plan and the limit of the plan.\<close>

record asker =
  a_lang :: string
  a_level :: string
  a_plan :: string
  a_limit :: int

text \<open>
  \<open>ask\<close> up to the call of the model: an answer that needs no model, or what the call is made with.
  \<open>points\<close> gives the code points of a text.
\<close>

definition ask_open ::
    "('a env_scheme) \<Rightarrow> unicode \<Rightarrow> letters \<Rightarrow> (string \<Rightarrow> nat list) \<Rightarrow> int \<Rightarrow> string \<Rightarrow> bool \<Rightarrow> db \<Rightarrow> (ask_result + asker) \<times> db" where
  "ask_open c u L points uid text skip_duplicate s =
     (case get_user s uid of
        None \<Rightarrow> (Inl RegistrationRequired, s)
      | Some row \<Rightarrow>
          if none_if_empty (u_target_lang row) = None \<or> none_if_empty (u_goal row) = None \<or> u_level row = ''''
          then (Inl RegistrationRequired, s)
          else let lang = or_else (u_target_lang row) ''''; level = u_level row; plan = text_or (u_plan row) ''free'' in
            case validate_word_query L (points text) of
              Some error_key \<Rightarrow> (Inl (InvalidInput error_key), s)
            | None \<Rightarrow>
                case (if skip_duplicate then None else find_duplicate c u s uid text lang) of
                  Some dup \<Rightarrow> (Inl (Duplicate dup), s)
                | None \<Rightarrow>
                    let daily_limit = daily_word_query_limit_for_plan s plan;
                        (reserved, s') = reserve_word_query c uid daily_limit (owner_bypass_limits c \<and> is_owner c uid) s
                    in if \<not> reserved then (Inl QuotaExhausted, s')
                       else (Inr \<lparr>a_lang = lang, a_level = level, a_plan = plan, a_limit = daily_limit\<rparr>, s'))"

text \<open>A stored card of the same word that can be offered instead.\<close>

definition usable_duplicate ::
    "('a clock_scheme) \<Rightarrow> unicode \<Rightarrow> db \<Rightarrow> int \<Rightarrow> string \<Rightarrow> string \<Rightarrow> (query_row \<times> json_dict) option" where
  "usable_duplicate c u s uid word lang =
     (case find_unexpired_query_by_word c u s uid word lang of
        None \<Rightarrow> None
      | Some row \<Rightarrow>
          case q_json row of
            JsonText (JObj alias_data) \<Rightarrow> if truthy (field alias_data ''word'') then Some (row, alias_data) else None
          | _ \<Rightarrow> None)"

fun ask_str :: "(json \<Rightarrow> string) \<Rightarrow> json \<Rightarrow> string" where
  "ask_str py_str (JStr t) = t"
| "ask_str py_str j = py_str j"

text \<open>Storing the card; \<open>normalize_word\<close> of a word that is no text raises.\<close>

definition ask_persist ::
    "('a clock_scheme) \<Rightarrow> unicode \<Rightarrow> string \<Rightarrow> int \<Rightarrow> string \<Rightarrow> asker \<Rightarrow> json_dict \<Rightarrow> db \<Rightarrow> ask_result \<times> db" where
  "ask_persist c u token uid text a data s =
     (case (case field data ''word'' of
              JStr word \<Rightarrow> create_query_result c u token uid text word (a_lang a) (JObj data) QUERY_TTL_SECONDS None s
            | _ \<Rightarrow> Inl TypeError) of
        Inl _ \<Rightarrow> (PersistError, release_word_query c uid s)
      | Inr s1 \<Rightarrow>
          case touch_streak c s1 uid of
            Inl _ \<Rightarrow> (PersistError, release_word_query c uid s1)
          | Inr (_, s2) \<Rightarrow> (AskOk token (JObj data) (format_usage c s2 (get_user s2 uid) (a_limit a)), s2))"

text \<open>
  \<open>ask\<close> from the end of the call on. A card that is neither a dictionary nor empty raises while the
  warning about it is built, before the reservation is given back.
\<close>

definition ask_close ::
    "('a clock_scheme) \<Rightarrow> unicode \<Rightarrow> (json \<Rightarrow> string) \<Rightarrow> string \<Rightarrow> int \<Rightarrow> string \<Rightarrow> bool \<Rightarrow> asker \<Rightarrow> generated \<Rightarrow> db
      \<Rightarrow> ask_result py \<times> db" where
  "ask_close c u py_str token uid text skip_duplicate a g s =
     (case g of
        CallTimedOut \<Rightarrow> (Inr AiTimeout, release_word_query c uid s)
      | PrepFailed \<Rightarrow> (Inr CardPrepError, release_word_query c uid s)
      | OtherFailure \<Rightarrow> (Inr AiError, release_word_query c uid s)
      | Card (JObj data) \<Rightarrow>
          if \<not> truthy (field data ''word'') then (Inr PersistError, release_word_query c uid s)
          else (case (if skip_duplicate then None
                      else usable_duplicate c u s uid (ask_str py_str (field data ''word'')) (a_lang a)) of
                  Some (row, alias_data) \<Rightarrow>
                    let s1 = release_word_query c uid s in
                    (Inr (Duplicate (q_token row)),
                     case create_query_result c u token uid text (q_word row) (a_lang a) (JObj alias_data) QUERY_TTL_SECONDS
                            (Some (q_token row)) s1 of
                       Inl _ \<Rightarrow> s1
                     | Inr s2 \<Rightarrow> s2)
                | None \<Rightarrow> map_prod Inr id (ask_persist c u token uid text a data s))
      | Card data \<Rightarrow> if truthy data then (Inl AttributeError, s) else (Inr PersistError, release_word_query c uid s))"

text \<open>
  The whole flow. \<open>c1\<close> and \<open>c2\<close> are the clocks before and after the call of the model, \<open>meanwhile\<close> is
  what other threads do to the database during the call.
\<close>

definition ask ::
    "('a env_scheme) \<Rightarrow> ('a env_scheme) \<Rightarrow> unicode \<Rightarrow> letters \<Rightarrow> (string \<Rightarrow> nat list) \<Rightarrow> (json \<Rightarrow> string) \<Rightarrow> (asker \<Rightarrow> string \<Rightarrow> generated)
      \<Rightarrow> (db \<Rightarrow> db) \<Rightarrow> string \<Rightarrow> int \<Rightarrow> string \<Rightarrow> bool \<Rightarrow> db \<Rightarrow> ask_result py \<times> db" where
  "ask c1 c2 u L points py_str generate_card meanwhile token uid text skip_duplicate s =
     (case ask_open c1 u L points uid text skip_duplicate s of
        (Inl result, s1) \<Rightarrow> (Inr result, s1)
      | (Inr a, s1) \<Rightarrow> ask_close c2 u py_str token uid text skip_duplicate a (generate_card a text) (meanwhile s1))"

section \<open>Saving an answer\<close>

datatype toggle_outcome = Toggled bool string string | Expired

definition toggle_save ::
    "('a clock_scheme) \<Rightarrow> unicode \<Rightarrow> (json \<Rightarrow> string) \<Rightarrow> string \<Rightarrow> int \<Rightarrow> db \<Rightarrow> (toggle_outcome \<times> db) py" where
  "toggle_save c u dumps token uid s =
     (case get_query_result c s token (Some uid) False of
        None \<Rightarrow> Inr (Expired, s)
      | Some row \<Rightarrow>
          case q_json row of
            NotJson _ \<Rightarrow> Inr (Expired, s)
          | JsonText result_data \<Rightarrow>
              let card_data = (case result_data of JObj kvs \<Rightarrow> Some (map_option dumps \<circ> map_of kvs) | _ \<Rightarrow> None) in
              py_bind (toggle_review_word c u s uid (q_word row) (q_lang row) card_data ''manual'') (\<lambda>(state, s1).
                if state = Saved
                then Inr (Toggled True (q_token row) (q_lang row), mark_query_result_saved c s1 token None)
                else Inr (Toggled False (q_token row) (q_lang row), clear_query_result_saved s1 token)))"

section \<open>The normalisation of old rows\<close>

text \<open>\<open>_backfill_query_results_normalization\<close>: rows with the same key after normalisation are merged.\<close>

fun parse_created :: "stamp \<Rightarrow> int option" where
  "parse_created (Stamp t) = Some t"
| "parse_created (BadStamp _) = None"

definition keeper_key :: "('a clock_scheme) \<Rightarrow> query_row \<Rightarrow> nat \<times> nat \<times> int option" where
  "keeper_key c q =
     (if q_saved_at q \<noteq> None \<or> q_saved_word q \<noteq> None then 1 else 0,
      case parse_created (q_expires q) of None \<Rightarrow> 0 | Some t \<Rightarrow> if t > utc_now c then 1 else 0,
      parse_created (q_created q))"

definition merge_key :: "unicode \<Rightarrow> query_row \<Rightarrow> int \<times> string \<times> string" where
  "merge_key u q = (q_user q, q_lang q, normalize_word u (q_text q))"

text \<open>\<open>items.sort(key=..., reverse=True)\<close> keeps the order of equal items.\<close>

definition sort_desc :: "('a \<Rightarrow> 'k :: linorder) \<Rightarrow> 'a list \<Rightarrow> 'a list" where
  "sort_desc k xs = rev (sort_key k (rev xs))"

definition merge_groups :: "('a clock_scheme) \<Rightarrow> unicode \<Rightarrow> query_row list \<Rightarrow> query_row list list" where
  "merge_groups c u rows =
     map (\<lambda>k. sort_desc (keeper_key c) (filter (\<lambda>q. merge_key u q = k) rows)) (rev (remdups (rev (map (merge_key u) rows))))"

definition BACKFILL_FLAG :: string where
  "BACKFILL_FLAG = ''_migration_query_results_normalization_done''"

definition backfill_query_results :: "('a clock_scheme) \<Rightarrow> unicode \<Rightarrow> db \<Rightarrow> db" where
  "backfill_query_results c u s =
     (if settings s BACKFILL_FLAG \<noteq> None then s
      else let items = merge_groups c u (queries s);
               deletes = map q_token (concat (map tl items));
               updates = filter (\<lambda>q. q_text q \<noteq> normalize_word u (q_text q) \<or> q_word q \<noteq> normalize_word u (q_word q)) (map hd items);
               kept = fold (\<lambda>token qs. delete_where (\<lambda>q. q_token q = token) qs) deletes (queries s);
               renamed = fold (\<lambda>keeper qs. update_where (\<lambda>q. q_token q = q_token keeper)
                           (\<lambda>q. q\<lparr>q_text := normalize_word u (q_text keeper), q_word := normalize_word u (q_word keeper)\<rparr>) qs)
                           updates kept
           in set_setting (s\<lparr>queries := renamed\<rparr>) BACKFILL_FLAG ''1'')"

section \<open>The cap keeps the newest answers\<close>

lemma insort_key_snoc: "f y \<le> f x \<Longrightarrow> insort_key f y (zs @ [x]) = insort_key f y zs @ [x]"
  by (induction zs) auto

lemma sort_key_snoc: "(\<And>y. y \<in> set xs \<Longrightarrow> f y \<le> f x) \<Longrightarrow> sort_key f (xs @ [x]) = sort_key f xs @ [x]"
  by (induction xs) (simp_all add: insort_key_snoc)

lemma sorted_take_le:
  assumes "q \<in> set (take n (sort_key f xs))" and "r \<in> set xs" and "r \<notin> set (take n (sort_key f xs))"
  shows "f q \<le> f r"
proof -
  let ?ys = "sort_key f xs"
  have "r \<in> set ?ys" using assms(2) by simp
  then have "r \<in> set (drop n ?ys)" using assms(3) by (metis Un_iff append_take_drop_id set_append)
  moreover have "sorted (map f (take n ?ys @ drop n ?ys))" by simp
  ultimately show ?thesis using assms(1) unfolding map_append sorted_append by auto
qed

lemma length_filter_outside:
  assumes "distinct (map f xs)" and "set vs \<subseteq> set xs" and "distinct vs"
  shows "length (filter (\<lambda>x. f x \<notin> set (map f vs)) xs) = length xs - length vs"
proof -
  have inj: "inj_on f (set xs)" and d: "distinct xs" using assms(1) by (simp_all add: distinct_map)
  have "filter (\<lambda>x. f x \<notin> set (map f vs)) xs = filter (\<lambda>x. x \<notin> set vs) xs"
    using assms(2) inj by (intro filter_cong) (auto simp: inj_on_def)
  then have "length (filter (\<lambda>x. f x \<notin> set (map f vs)) xs) = card (set xs - set vs)"
    using d by (simp add: distinct_length_filter Int_def set_diff_eq conj_commute)
  also have "\<dots> = card (set xs) - card (set vs)" using assms(2) by (simp add: card_Diff_subset)
  finally show ?thesis using d assms(3) by (simp add: distinct_card)
qed

text \<open>The primary key of the table.\<close>

definition tokens_ok :: "db \<Rightarrow> bool" where
  "tokens_ok s \<longleftrightarrow> distinct (map q_token (queries s))"

lemma tokens_ok_inj: "tokens_ok s \<Longrightarrow> q \<in> set (queries s) \<Longrightarrow> r \<in> set (queries s) \<Longrightarrow> q_token q = q_token r \<Longrightarrow> q = r"
  by (auto simp: tokens_ok_def distinct_map inj_on_def)

lemma tokens_ok_subset: "tokens_ok s \<Longrightarrow> tokens_ok (s\<lparr>queries := filter P (queries s)\<rparr>)"
  by (simp add: tokens_ok_def distinct_map_filter)

lemma cap_victims_subset: "set (cap_victims c uid lang cap ex s) \<subseteq> {q \<in> set (queries s). live c uid lang q \<and> \<not> protected ex q}"
  unfolding cap_victims_def Let_def by (rule order_trans [OF set_take_subset]) auto

lemma enforce_eq:
  "enforce_query_results_cap c uid lang cap ex s =
     s\<lparr>queries := filter (\<lambda>q. q_token q \<notin> set (map q_token (cap_victims c uid lang cap ex s))) (queries s)\<rparr>"
  by (simp add: enforce_query_results_cap_def delete_where_def Let_def cap_victims_def count_where_def)

lemma in_enforce:
  "r \<in> set (queries (enforce_query_results_cap c uid lang cap ex s)) \<longleftrightarrow>
     r \<in> set (queries s) \<and> q_token r \<notin> q_token ` set (cap_victims c uid lang cap ex s)"
  unfolding enforce_eq by auto

lemma one_protected:
  assumes "tokens_ok s"
  shows "length (filter (live c uid lang) (queries s)) \<le> Suc (length (filter (\<lambda>q. \<not> protected ex q) (filter (live c uid lang) (queries s))))"
proof -
  let ?rows = "filter (live c uid lang) (queries s)"
  have "length (filter (protected ex) ?rows) \<le> 1"
  proof (rule ccontr)
    assume "\<not> ?thesis"
    then obtain a b xs where ab: "filter (protected ex) ?rows = a # b # xs"
      by (cases "filter (protected ex) ?rows"; cases "tl (filter (protected ex) ?rows)") auto
    then have "a \<in> set (filter (protected ex) ?rows)" "b \<in> set (filter (protected ex) ?rows)" by simp_all
    then have "q_token a = q_token b" by (auto simp: protected_def)
    moreover have "distinct (map q_token (filter (protected ex) ?rows))"
      using assms by (simp add: tokens_ok_def distinct_map_filter)
    ultimately show False using ab by simp
  qed
  then show ?thesis using sum_length_filter_compl [of "protected ex" ?rows] by linarith
qed

lemma enforce_count:
  assumes "tokens_ok s" and "1 \<le> cap"
  shows "length (filter (live c uid lang) (queries (enforce_query_results_cap c uid lang cap ex s))) =
     min cap (length (filter (live c uid lang) (queries s)))"
proof -
  let ?rows = "filter (live c uid lang) (queries s)"
  let ?vs = "cap_victims c uid lang cap ex s"
  have d: "distinct (map q_token ?rows)" using assms(1) by (simp add: tokens_ok_def distinct_map_filter)
  then have rows: "distinct ?rows" by (simp add: distinct_map)
  have vs: "distinct ?vs" unfolding cap_victims_def Let_def using distinct_filter [OF rows] by (intro distinct_take) (simp del: filter_filter)
  have len: "length ?vs = length ?rows - cap"
    using one_protected [OF assms(1), of c uid lang ex] assms(2) by (simp add: cap_victims_def)
  have sub: "set ?vs \<subseteq> set ?rows" using cap_victims_subset by force
  have "filter (live c uid lang) (queries (enforce_query_results_cap c uid lang cap ex s)) =
      filter (\<lambda>q. q_token q \<notin> set (map q_token ?vs)) ?rows"
    by (simp add: enforce_eq conj_commute)
  then show ?thesis using length_filter_outside [OF d sub vs] len by simp
qed

lemma tokens_ok_enforce: "tokens_ok s \<Longrightarrow> tokens_ok (enforce_query_results_cap c uid lang cap ex s)"
  unfolding enforce_eq by (rule tokens_ok_subset)

lemma create_facts:
  assumes pk: "tokens_ok s" and run: "create_query_result c u token uid query_text word lang data ttl ex s = Inr s'"
  defines "row \<equiv> answer_row c u token uid query_text word lang data ttl"
  shows "tokens_ok s'" and "set (queries s') \<subseteq> insert row (set (queries s))"
    and "length (filter (live c uid lang) (queries s')) \<le> QUERY_RESULTS_CAP"
    and "q \<in> set (queries s) \<Longrightarrow> q \<notin> set (queries s') \<Longrightarrow> live c uid lang q \<and> \<not> protected ex q \<and>
       length (filter (live c uid lang) (queries s')) = QUERY_RESULTS_CAP \<and>
       (\<forall>r \<in> set (queries s'). live c uid lang r \<and> \<not> protected ex r \<longrightarrow> stamp_text c (q_created q) \<le> stamp_text c (q_created r))"
    and "s' = s\<lparr>queries := queries s'\<rparr>"
proof -
  let ?s = "s\<lparr>queries := queries s @ [row]\<rparr>"
  let ?vs = "cap_victims c uid lang QUERY_RESULTS_CAP ex ?s"
  have fresh: "token \<notin> q_token ` set (queries s)" and s': "s' = enforce_query_results_cap c uid lang QUERY_RESULTS_CAP ex ?s"
    using run by (auto simp: create_query_result_def row_def Let_def split: if_splits)
  have pk': "tokens_ok ?s" using pk fresh by (auto simp: tokens_ok_def row_def answer_row_def)
  show "tokens_ok s'" unfolding s' by (rule tokens_ok_enforce [OF pk'])
  show "set (queries s') \<subseteq> insert row (set (queries s))" unfolding s' enforce_eq by auto
  show "s' = s\<lparr>queries := queries s'\<rparr>" unfolding s' enforce_eq by simp
  have count: "length (filter (live c uid lang) (queries s')) = min QUERY_RESULTS_CAP (length (filter (live c uid lang) (queries ?s)))"
    unfolding s' by (rule enforce_count [OF pk']) (simp add: QUERY_RESULTS_CAP_def)
  then show "length (filter (live c uid lang) (queries s')) \<le> QUERY_RESULTS_CAP" by simp
  show "live c uid lang q \<and> \<not> protected ex q \<and> length (filter (live c uid lang) (queries s')) = QUERY_RESULTS_CAP \<and>
       (\<forall>r \<in> set (queries s'). live c uid lang r \<and> \<not> protected ex r \<longrightarrow> stamp_text c (q_created q) \<le> stamp_text c (q_created r))"
    if q: "q \<in> set (queries s)" "q \<notin> set (queries s')"
  proof -
    obtain v where v: "v \<in> set ?vs" "q_token v = q_token q" using q unfolding s' enforce_eq by auto
    have "v \<in> set (queries ?s)" using v(1) cap_victims_subset [of c uid lang QUERY_RESULTS_CAP ex ?s] by blast
    then have vq: "v = q" using tokens_ok_inj [OF pk' _ _ v(2)] q(1) by auto
    have qv: "q \<in> set ?vs" using v(1) vq by simp
    then have "live c uid lang q \<and> \<not> protected ex q" using cap_victims_subset [of c uid lang QUERY_RESULTS_CAP ex ?s] by auto
    moreover have "length (filter (live c uid lang) (queries ?s)) > QUERY_RESULTS_CAP"
    proof (rule ccontr)
      assume "\<not> ?thesis"
      then have "?vs = []" by (simp add: cap_victims_def)
      then show False using qv by simp
    qed
    moreover have "stamp_text c (q_created q) \<le> stamp_text c (q_created r)"
      if r: "r \<in> set (queries s')" "live c uid lang r \<and> \<not> protected ex r" for r
    proof -
      let ?cand = "filter (\<lambda>q. \<not> protected ex q) (filter (live c uid lang) (queries ?s))"
      have r': "r \<in> set (queries ?s)" "r \<notin> set ?vs" using r(1) unfolding s' in_enforce by blast+
      moreover have "r \<in> set ?cand" using r r'(1) by auto
      ultimately show ?thesis using sorted_take_le [of q _ "\<lambda>q. stamp_text c (q_created q)" ?cand r] qv
        unfolding cap_victims_def Let_def by blast
    qed
    ultimately show ?thesis using count by auto
  qed
qed

lemma new_answer_stays:
  assumes pk: "tokens_ok s" and run: "create_query_result c u token uid query_text word lang data ttl ex s = Inr s'"
    and newest: "\<forall>q \<in> set (queries s). live c uid lang q \<longrightarrow> stamp_text c (q_created q) \<le> now_text c"
  shows "answer_row c u token uid query_text word lang data ttl \<in> set (queries s')"
proof -
  define row where "row = answer_row c u token uid query_text word lang data ttl"
  let ?s = "s\<lparr>queries := queries s @ [row]\<rparr>"
  let ?key = "\<lambda>q. stamp_text c (q_created q)"
  let ?old = "filter (\<lambda>q. \<not> protected ex q) (filter (live c uid lang) (queries s))"
  have fresh: "token \<notin> q_token ` set (queries s)" and s': "s' = enforce_query_results_cap c uid lang QUERY_RESULTS_CAP ex ?s"
    using run by (auto simp: create_query_result_def row_def Let_def split: if_splits)
  have pk': "tokens_ok ?s" using pk fresh by (auto simp: tokens_ok_def row_def answer_row_def)
  have token: "q_token row = token" by (simp add: row_def answer_row_def)
  have "row \<notin> set (cap_victims c uid lang QUERY_RESULTS_CAP ex ?s)"
  proof (cases "live c uid lang row \<and> \<not> protected ex row")
    case True
    let ?n = "length (filter (live c uid lang) (queries ?s)) - QUERY_RESULTS_CAP"
    have "sort_key ?key (?old @ [row]) = sort_key ?key ?old @ [row]"
      using newest by (intro sort_key_snoc) (auto simp: row_def answer_row_def now_text_def)
    then have "cap_victims c uid lang QUERY_RESULTS_CAP ex ?s = take ?n (sort_key ?key ?old @ [row])"
      using True by (simp add: cap_victims_def)
    moreover have "?n \<le> length (sort_key ?key ?old)"
      using one_protected [OF pk', of c uid lang ex] True by (simp add: QUERY_RESULTS_CAP_def)
    moreover have "row \<notin> set (take ?n (sort_key ?key ?old))"
      using fresh token in_set_takeD [of row ?n "sort_key ?key ?old"] by auto
    ultimately show ?thesis by simp
  next
    case False
    then show ?thesis using cap_victims_subset [of c uid lang QUERY_RESULTS_CAP ex ?s] by auto
  qed
  then have "q_token row \<notin> set (map q_token (cap_victims c uid lang QUERY_RESULTS_CAP ex ?s))"
    using cap_victims_subset [of c uid lang QUERY_RESULTS_CAP ex ?s] tokens_ok_inj [OF pk', of row] by fastforce
  then show ?thesis unfolding s' enforce_eq row_def [symmetric] by simp
qed

text \<open>C36: the store of answers never holds more than a hundred live answers per user and language. Storing
  an answer evicts a live one of the same user and language only when the store is full, never the
  one that is excluded, and never one that is newer than a live answer that stays; the new answer
  itself stays when no live answer is newer.\<close>

theorem cap_evicts_oldest:
  assumes "tokens_ok s" and "create_query_result c u token uid query_text word lang data ttl ex s = Inr s'"
    and "\<forall>q \<in> set (queries s). live c uid lang q \<longrightarrow> stamp_text c (q_created q) \<le> now_text c"
  shows "tokens_ok s' \<and> length (filter (live c uid lang) (queries s')) \<le> 100 \<and>
     answer_row c u token uid query_text word lang data ttl \<in> set (queries s') \<and>
     set (queries s') \<subseteq> insert (answer_row c u token uid query_text word lang data ttl) (set (queries s)) \<and>
     (\<forall>q \<in> set (queries s) - set (queries s'). live c uid lang q \<and> \<not> protected ex q \<and>
        length (filter (live c uid lang) (queries s')) = 100 \<and>
        (\<forall>r \<in> set (queries s'). live c uid lang r \<and> \<not> protected ex r \<longrightarrow> stamp_text c (q_created q) \<le> stamp_text c (q_created r)))"
  using create_facts [OF assms(1,2)] new_answer_stays [OF assms] unfolding QUERY_RESULTS_CAP_def by blast

section \<open>Looking up an answer\<close>

lemma set_newest_first [simp]: "set (newest_first c qs) = set qs"
  by (simp add: newest_first_def)

lemma newest_first_sorted: "sorted_wrt (\<lambda>x y. stamp_text c (q_created y) \<le> stamp_text c (q_created x)) (newest_first c qs)"
proof -
  have "sorted (map (\<lambda>q. stamp_text c (q_created q)) (sort_key (\<lambda>q. stamp_text c (q_created q)) (rev qs)))" by simp
  then show ?thesis unfolding newest_first_def sorted_wrt_rev sorted_wrt_map by simp
qed

lemma find_sorted:
  "sorted_wrt R ys \<Longrightarrow> find P ys = Some q \<Longrightarrow> r \<in> set ys \<Longrightarrow> P r \<Longrightarrow> r = q \<or> R q r"
  by (induction ys) (auto split: if_splits)

lemma newest_found:
  assumes "find P (newest_first c qs) = Some q"
  shows "q \<in> set qs \<and> P q \<and> (\<forall>r \<in> set qs. P r \<longrightarrow> stamp_text c (q_created r) \<le> stamp_text c (q_created q))"
  using find_Some_D [OF assms] find_sorted [OF newest_first_sorted assms] by force

lemma strictly_newest_found:
  assumes "r \<in> set qs" and "P r"
    and "\<And>q. q \<in> set qs \<Longrightarrow> P q \<Longrightarrow> q \<noteq> r \<Longrightarrow> stamp_text c (q_created q) < stamp_text c (q_created r)"
  shows "find P (newest_first c qs) = Some r"
proof (cases "find P (newest_first c qs)")
  case None
  then show ?thesis using assms(1,2) by (simp add: find_None_all)
next
  case (Some q)
  with newest_found [OF Some] assms show ?thesis by (metis leD)
qed

section \<open>The steps of the flow\<close>

definition profile :: "db \<Rightarrow> int \<Rightarrow> (string option \<times> string option \<times> string) option" where
  "profile s uid = map_option (\<lambda>r. (u_target_lang r, u_goal r, u_level r)) (get_user s uid)"

lemma users_only [simp]:
  "word_used c uid (s\<lparr>queries := qs\<rparr>) = word_used c uid s" "word_inv c uid (s\<lparr>queries := qs\<rparr>) = word_inv c uid s"
  "profile (s\<lparr>queries := qs\<rparr>) uid = profile s uid" "get_user (s\<lparr>queries := qs\<rparr>) uid = get_user s uid"
  by (simp_all add: word_used_def word_inv_def profile_def get_user_def)

lemma create_frame:
  assumes "create_query_result c u token uid query_text word lang data ttl ex s = Inr s'"
  shows "word_used c' uid' s' = word_used c' uid' s" and "word_inv c' uid' s' = word_inv c' uid' s" and "profile s' uid' = profile s uid'"
  using assms by (auto simp: create_query_result_def Let_def enforce_eq split: if_splits)

lemma touch_frame:
  assumes "touch_streak c s uid = Inr (n, s')"
  shows "word_used c' uid' s' = word_used c' uid' s" and "queries s' = queries s" and "profile s' uid' = profile s uid'"
proof -
  have "s' = s \<or> (\<exists>k d. s' = update_user s uid (\<lambda>r. r\<lparr>u_streak := k, u_last_active := d\<rparr>))"
    using assms by (auto simp: touch_streak_def touch_streak_in_txn_def Let_def py_bind_Inr_iff split: option.splits)
  then have "queries s' = queries s \<and>
      (get_user s' uid' = get_user s uid' \<or>
       (\<exists>k d. get_user s' uid' = map_option (\<lambda>r. if u_id r = uid then r\<lparr>u_streak := k, u_last_active := d\<rparr> else r) (get_user s uid')))"
    unfolding update_user_def get_user_def by (elim disjE exE) (simp, force simp: find_update_where_if)
  then show "word_used c' uid' s' = word_used c' uid' s" and "queries s' = queries s" and "profile s' uid' = profile s uid'"
    by (cases "get_user s uid'"; auto simp: word_used_def profile_def)+
qed

lemma reserve_frame:
  assumes "reserve_word_query c uid n b s = (True, s')"
  shows "word_used c uid s' = word_used c uid s + 1" and "word_inv c uid s \<Longrightarrow> word_inv c uid s'"
    and "queries s' = queries s" and "profile s' uid = profile s uid" and "b \<or> n < 0 \<or> word_used c uid s < n"
  using assms
  by (auto simp: reserve_word_query_def Let_def word_used_def word_inv_def profile_def get_user_update_same current_daily_count_def
      split: option.splits if_splits)

lemma ask_openE:
  assumes "ask_open c u L points uid text skip s = (Inr a, s1)"
  obtains row where "get_user s uid = Some row" and "u_target_lang row = Some (a_lang a)" and "none_if_empty (u_target_lang row) \<noteq> None"
    and "none_if_empty (u_goal row) \<noteq> None" and "u_level row \<noteq> ''''"
    and "reserve_word_query c uid (a_limit a) (owner_bypass_limits c \<and> is_owner c uid) s = (True, s1)"
    and "a_limit a = daily_word_query_limit_for_plan s (text_or (u_plan row) ''free'')"
proof -
  obtain row where row: "get_user s uid = Some row" using assms by (cases "get_user s uid") (auto simp: ask_open_def)
  have complete: "none_if_empty (u_target_lang row) \<noteq> None \<and> none_if_empty (u_goal row) \<noteq> None \<and> u_level row \<noteq> ''''"
    using assms row by (auto simp: ask_open_def split: if_splits)
  then obtain lang where lang: "u_target_lang row = Some lang" by (cases "u_target_lang row") (auto simp: none_if_empty_def)
  have "a_lang a = lang \<and> reserve_word_query c uid (a_limit a) (owner_bypass_limits c \<and> is_owner c uid) s = (True, s1) \<and>
      a_limit a = daily_word_query_limit_for_plan s (text_or (u_plan row) ''free'')"
    using assms row complete lang
    by (auto simp: ask_open_def Let_def split: option.splits prod.splits if_splits)
  then show ?thesis using that row complete lang by blast
qed

lemma ask_open_result:
  assumes "ask_open c u L points uid text skip s = (Inl r, s1)"
  shows "s1 = s \<and> (\<forall>t crd usage. r \<noteq> AskOk t crd usage)"
  using assms
  by (auto simp: ask_open_def Let_def reserve_word_query_def split: option.splits prod.splits if_splits)

lemma ask_persistE:
  assumes "ask_persist c u token uid text a data s = (AskOk t crd usage, s')"
  obtains word s1 n where "create_query_result c u token uid text word (a_lang a) (JObj data) QUERY_TTL_SECONDS None s = Inr s1"
    and "touch_streak c s1 uid = Inr (n, s')" and "t = token" and "crd = JObj data"
proof (cases "case field data ''word'' of
    JStr word \<Rightarrow> create_query_result c u token uid text word (a_lang a) (JObj data) QUERY_TTL_SECONDS None s | _ \<Rightarrow> Inl TypeError")
  case (Inl e)
  then show ?thesis using assms by (simp add: ask_persist_def)
next
  case (Inr s1)
  then obtain word where word: "create_query_result c u token uid text word (a_lang a) (JObj data) QUERY_TTL_SECONDS None s = Inr s1"
    by (cases "field data ''word''") simp_all
  show ?thesis
  proof (cases "touch_streak c s1 uid")
    case (Inl e)
    then show ?thesis using assms Inr by (simp add: ask_persist_def)
  next
    case (Inr r)
    with assms \<open>(case field data ''word'' of JStr word \<Rightarrow> _ word | _ \<Rightarrow> _) = _\<close>
    have "t = token" "crd = JObj data" "snd r = s'" by (auto simp: ask_persist_def split: prod.splits)
    then show ?thesis using that [OF word, of "fst r"] Inr by (cases r) simp
  qed
qed

lemma ask_closeE:
  assumes "ask_close c u py_str token uid text skip a g s = (Inr (AskOk t crd usage), s')"
  obtains data where "ask_persist c u token uid text a data s = (AskOk t crd usage, s')"
proof (cases "\<exists>data. g = Card (JObj data)")
  case True
  then obtain data where g: "g = Card (JObj data)" by blast
  show ?thesis
  proof (cases "if skip then None else usable_duplicate c u s uid (ask_str py_str (field data ''word'')) (a_lang a)")
    case None
    then have "ask_persist c u token uid text a data s = (AskOk t crd usage, s')"
      using assms g by (cases "ask_persist c u token uid text a data s") (simp add: ask_close_def split: if_splits)
    then show ?thesis by (rule that)
  next
    case (Some d)
    then show ?thesis using assms g by (cases d) (simp add: ask_close_def Let_def split: if_splits)
  qed
next
  case False
  then show ?thesis using assms by (cases g; simp add: ask_close_def split: json.splits if_splits)
qed

section \<open>Quota is paid for answers only\<close>

lemma ask_persist_charges:
  assumes "today_iso c' = today_iso c" and inv: "word_inv c uid s" and pos: "1 \<le> word_used c uid s"
    and run: "ask_persist c' u token uid text a data s = (r, s')"
  shows "word_used c uid s' = word_used c uid s - (case r of AskOk _ _ _ \<Rightarrow> 0 | _ \<Rightarrow> 1)"
    and "(\<exists>t crd usage. r = AskOk t crd usage) \<or> r = PersistError"
proof -
  let ?m = "case field data ''word'' of
    JStr word \<Rightarrow> create_query_result c' u token uid text word (a_lang a) (JObj data) QUERY_TTL_SECONDS None s | _ \<Rightarrow> Inl TypeError"
  have release: "word_used c uid (release_word_query c' uid x) = word_used c uid s - 1"
    if "word_used c uid x = word_used c uid s" "word_inv c uid x" for x
    using word_gate.release_one [of c uid x] that pos assms(1) by (simp add: release_word_query_def)
  have "word_used c uid s' = word_used c uid s - (case r of AskOk _ _ _ \<Rightarrow> 0 | _ \<Rightarrow> 1) \<and> ((\<exists>t crd usage. r = AskOk t crd usage) \<or> r = PersistError)"
  proof (cases ?m)
    case (Inl e)
    then have "r = PersistError" "s' = release_word_query c' uid s" using run by (simp_all add: ask_persist_def)
    then show ?thesis using release [of s] inv by simp
  next
    case (Inr s1)
    then obtain word where "create_query_result c' u token uid text word (a_lang a) (JObj data) QUERY_TTL_SECONDS None s = Inr s1"
      by (cases "field data ''word''") simp_all
    note frame = create_frame(1,2) [OF this, where c' = c and uid' = uid]
    show ?thesis
    proof (cases "touch_streak c' s1 uid")
      case (Inl e)
      then have "r = PersistError" "s' = release_word_query c' uid s1" using run Inr by (simp_all add: ask_persist_def)
      then show ?thesis using release [of s1] frame inv by simp
    next
      case (Inr n)
      then obtain k s2 where n: "touch_streak c' s1 uid = Inr (k, s2)" by (cases n) auto
      then have "r = AskOk token (JObj data) (format_usage c' s2 (get_user s2 uid) (a_limit a))" "s' = s2"
        using run \<open>?m = Inr s1\<close> by (auto simp: ask_persist_def)
      then show ?thesis using touch_frame(1) [OF n, of c uid] frame by simp
    qed
  qed
  then show "word_used c uid s' = word_used c uid s - (case r of AskOk _ _ _ \<Rightarrow> 0 | _ \<Rightarrow> 1)"
    and "(\<exists>t crd usage. r = AskOk t crd usage) \<or> r = PersistError" by blast+
qed

text \<open>Which results leave the reservation standing.\<close>

fun charged :: "ask_result py \<Rightarrow> bool" where
  "charged (Inr (AskOk _ _ _)) = True"
| "charged (Inr _) = False"
| "charged (Inl _) = True"

lemma ask_close_charges:
  assumes day: "today_iso c' = today_iso c" and inv: "word_inv c uid s" and pos: "1 \<le> word_used c uid s"
    and run: "ask_close c' u py_str token uid text skip a g s = (r, s')"
  shows "word_used c uid s' = word_used c uid s - (if charged r then 0 else 1) \<and> (\<forall>e. r = Inl e \<longrightarrow> e = AttributeError)"
proof -
  have release: "word_used c uid (release_word_query c' uid s) = word_used c uid s - 1"
    using word_gate.release_one [OF inv] pos day by (simp add: release_word_query_def)
  show ?thesis
  proof (cases "\<exists>data. g = Card (JObj data) \<and> truthy (field data ''word'')")
    case True
    then obtain data where g: "g = Card (JObj data)" "truthy (field data ''word'')" by blast
    show ?thesis
    proof (cases "if skip then None else usable_duplicate c' u s uid (ask_str py_str (field data ''word'')) (a_lang a)")
      case None
      obtain r1 where r1: "ask_persist c' u token uid text a data s = (r1, s')" "r = Inr r1"
        using run g None by (cases "ask_persist c' u token uid text a data s") (auto simp: ask_close_def)
      show ?thesis using ask_persist_charges [OF day inv pos r1(1)] r1(2) by auto
    next
      case (Some d)
      obtain row alias_data where d: "d = (row, alias_data)" by (cases d)
      let ?m = "create_query_result c' u token uid text (q_word row) (a_lang a) (JObj alias_data) QUERY_TTL_SECONDS
          (Some (q_token row)) (release_word_query c' uid s)"
      have "r = Inr (Duplicate (q_token row))" and s': "s' = (case ?m of Inl _ \<Rightarrow> release_word_query c' uid s | Inr s2 \<Rightarrow> s2)"
        using run g Some d by (simp_all add: ask_close_def Let_def)
      moreover have "word_used c uid s' = word_used c uid s - 1"
      proof (cases ?m)
        case (Inr s2)
        show ?thesis unfolding s' using create_frame(1) [OF Inr, where c' = c and uid' = uid] release Inr by simp
      qed (simp add: s' release)
      ultimately show ?thesis by simp
    qed
  next
    case False
    then show ?thesis using run release by (cases g; auto simp: ask_close_def split: json.splits if_splits)
  qed
qed

text \<open>C7: quota is paid for delivered answers only. An ask within one day, during which nobody else touches
  the user's counter, takes one unit when it returns a card and leaves the counter as it was
  when it returns anything else. It can end without a result in one way: the model gave a value
  that is neither a dictionary nor empty; then the unit is lost. A card is returned only
  below the limit of the plan, to the owner, or where there is no limit.\<close>

theorem ask_charges_only_answers:
  assumes "word_inv c1 uid s" and "today_iso c2 = today_iso c1"
    and "\<And>x. word_inv c1 uid x \<Longrightarrow> word_inv c1 uid (meanwhile x) \<and> word_used c1 uid (meanwhile x) = word_used c1 uid x"
    and "ask c1 c2 u L points py_str generate_card meanwhile token uid text skip s = (r, s')"
  shows "word_used c1 uid s' = word_used c1 uid s + (if charged r then 1 else 0) \<and>
     (\<forall>e. r = Inl e \<longrightarrow> e = AttributeError) \<and>
     (charged r \<longrightarrow> owner_bypass_limits c1 \<and> is_owner c1 uid \<or>
        (\<exists>row. get_user s uid = Some row \<and>
           (let n = daily_word_query_limit_for_plan s (text_or (u_plan row) ''free'') in n < 0 \<or> word_used c1 uid s < n)))"
proof (cases "ask_open c1 u L points uid text skip s")
  case (Pair res s1)
  show ?thesis
  proof (cases res)
    case (Inl r1)
    then have "r = Inr r1" "s' = s1" using assms(4) Pair by (simp_all add: ask_def)
    moreover have "s1 = s \<and> (\<forall>t crd usage. r1 \<noteq> AskOk t crd usage)" using ask_open_result Pair Inl by blast
    ultimately show ?thesis by (cases r1) auto
  next
    case (Inr a)
    then have run: "ask_close c2 u py_str token uid text skip a (generate_card a text) (meanwhile s1) = (r, s')"
      using assms(4) Pair by (simp add: ask_def)
    have "ask_open c1 u L points uid text skip s = (Inr a, s1)" using Pair Inr by simp
    then obtain row where row: "get_user s uid = Some row"
      and res: "reserve_word_query c1 uid (a_limit a) (owner_bypass_limits c1 \<and> is_owner c1 uid) s = (True, s1)"
      and limit: "a_limit a = daily_word_query_limit_for_plan s (text_or (u_plan row) ''free'')"
      by (rule ask_openE)
    note after = reserve_frame(1,2,5) [OF res]
    have inv1: "word_inv c1 uid s1" using after(2) assms(1) by blast
    have used: "word_used c1 uid (meanwhile s1) = word_used c1 uid s + 1" "word_inv c1 uid (meanwhile s1)"
      using assms(3) [OF inv1] after(1) by auto
    have "1 \<le> word_used c1 uid (meanwhile s1)" using used(1) assms(1) by (simp add: word_inv_def)
    from ask_close_charges [OF assms(2) used(2) this run] used(1) after(3) limit row show ?thesis by (auto simp: Let_def)
  qed
qed

section \<open>Asking again is free\<close>

lemma find_duplicate_new:
  assumes "row \<in> set (queries s)" and "live c uid lang row" and "q_text row = normalize_word u text" and "readable (q_json row)"
    and "\<And>q. q \<in> set (queries s) \<Longrightarrow> q \<noteq> row \<Longrightarrow> stamp_text c (q_created q) < stamp_text c (q_created row)"
  shows "find_duplicate c u s uid text lang = Some (q_token row)"
proof -
  have "find (\<lambda>q. q_text q = normalize_word u text) (newest_first c (filter (live c uid lang) (queries s))) = Some row"
    using assms by (intro strictly_newest_found) auto
  then show ?thesis using assms(4) by (simp add: find_duplicate_def find_unexpired_query_def Let_def)
qed

lemma ask_open_duplicate:
  assumes "get_user s uid = Some row" and "u_target_lang row = Some lang" and "lang \<noteq> ''''" and "none_if_empty (u_goal row) \<noteq> None"
    and "u_level row \<noteq> ''''" and "validate_word_query L (points text) = None" and "find_duplicate c u s uid text lang = Some t"
  shows "ask_open c u L points uid text False s = (Inl (Duplicate t), s)"
  using assms by (simp add: ask_open_def none_if_empty_def)

text \<open>C8: asking again is free. Once a word was answered, every later question by the same user whose text is
  accepted and has the same normal form is answered with the stored card as long as that has not
  expired: the database does not change, so no quota is taken, and the model is not called. The
  rest of the store is older than the answer, and the profile of the user did not change
  during the first call.\<close>

theorem repeated_ask_is_free:
  assumes "ask c1 c2 u L points py_str generate_card meanwhile token uid text skip s = (Inr (AskOk t crd usage), s')"
    and "\<And>x. tokens_ok x \<Longrightarrow> tokens_ok (meanwhile x)" and "\<And>x. profile (meanwhile x) uid = profile x uid" and "tokens_ok s"
    and "\<And>x q. queries x = queries s \<Longrightarrow> q \<in> set (queries (meanwhile x)) \<Longrightarrow> stamp_text c2 (q_created q) < now_text c2"
    and "stamp_text c3 = stamp_text c2" and "now_text c3 < stamp_text c3 (Stamp (utc_now c2 + 2592000 * 1000000))"
    and "normalize_word u text' = normalize_word u text" and "validate_word_query L (points text') = None"
  shows "ask c3 c4 u L points py_str generate_card' meanwhile' token' uid text' False s' = (Inr (Duplicate t), s')"
proof -
  obtain a s1 where opened: "ask_open c1 u L points uid text skip s = (Inr a, s1)"
    and closed: "ask_close c2 u py_str token uid text skip a (generate_card a text) (meanwhile s1) = (Inr (AskOk t crd usage), s')"
    using assms(1) ask_open_result [of c1 u L points uid "text" skip s] by (auto simp: ask_def split: prod.splits sum.splits)
  from opened obtain row where row: "get_user s uid = Some row" "u_target_lang row = Some (a_lang a)" "none_if_empty (u_target_lang row) \<noteq> None"
      "none_if_empty (u_goal row) \<noteq> None" "u_level row \<noteq> ''''"
    and res: "reserve_word_query c1 uid (a_limit a) (owner_bypass_limits c1 \<and> is_owner c1 uid) s = (True, s1)"
    by (rule ask_openE)
  from closed obtain data where "ask_persist c2 u token uid text a data (meanwhile s1) = (AskOk t crd usage, s')" by (rule ask_closeE)
  then obtain word s2 n where made: "create_query_result c2 u token uid text word (a_lang a) (JObj data) QUERY_TTL_SECONDS None (meanwhile s1) = Inr s2"
    and touch: "touch_streak c2 s2 uid = Inr (n, s')" and t: "t = token"
    by (rule ask_persistE)
  let ?row = "answer_row c2 u token uid text word (a_lang a) (JObj data) QUERY_TTL_SECONDS"
  have s1: "queries s1 = queries s" by (rule reserve_frame(3) [OF res])
  then have pk: "tokens_ok (meanwhile s1)" using assms(2,4) by (simp add: tokens_ok_def)
  have older: "stamp_text c2 (q_created q) < now_text c2" if "q \<in> set (queries (meanwhile s1))" for q
    by (rule assms(5) [OF s1 that])
  then have new: "?row \<in> set (queries s2)" using less_imp_le by (intro new_answer_stays [OF pk made]) blast
  have s': "queries s' = queries s2" by (rule touch_frame(2) [OF touch])
  have "find_duplicate c3 u s' uid text' (a_lang a) = Some (q_token ?row)"
  proof (rule find_duplicate_new)
    show "?row \<in> set (queries s')" using new s' by simp
    show "live c3 uid (a_lang a) ?row" using assms(7) by (simp add: live_def answer_row_def QUERY_TTL_SECONDS_def)
    show "q_text ?row = normalize_word u text'" using assms(8) by (simp add: answer_row_def)
    show "readable (q_json ?row)" by (simp add: answer_row_def)
    fix q assume "q \<in> set (queries s')" "q \<noteq> ?row"
    then have "q \<in> set (queries (meanwhile s1))" using create_facts(2) [OF pk made] s' by auto
    then show "stamp_text c3 (q_created q) < stamp_text c3 (q_created ?row)"
      using older assms(6) by (simp add: answer_row_def now_text_def)
  qed
  moreover have "profile s' uid = profile s uid"
    using touch_frame(3) [OF touch] create_frame(3) [OF made] assms(3) reserve_frame(4) [OF res] by simp
  then obtain row' where "get_user s' uid = Some row'" "u_target_lang row' = u_target_lang row" "u_goal row' = u_goal row" "u_level row' = u_level row"
    using row(1) by (auto simp: profile_def)
  ultimately have "ask_open c3 u L points uid text' False s' = (Inl (Duplicate t), s')"
    using row(2-5) assms(9) t
    by (intro ask_open_duplicate [where row = row' and lang = "a_lang a"]) (auto simp: answer_row_def none_if_empty_def split: if_splits)
  then show ?thesis by (simp add: ask_def)
qed

section \<open>Merging old rows\<close>

lemma set_sort_desc [simp]: "set (sort_desc k xs) = set xs"
  by (simp add: sort_desc_def)

lemma distinct_sort_desc [simp]: "distinct (sort_desc k xs) = distinct xs"
  by (simp add: sort_desc_def)

lemma sort_desc_hd: "x \<in> set xs \<Longrightarrow> k x \<le> k (hd (sort_desc k xs))"
proof -
  assume x: "x \<in> set xs"
  have "sorted (map k (sort_key k (rev xs)))" by simp
  then have "sorted_wrt (\<lambda>a b. k b \<le> k a) (sort_desc k xs)" unfolding sort_desc_def sorted_wrt_rev sorted_wrt_map by simp
  moreover have "x \<in> set (sort_desc k xs)" using x by simp
  ultimately show ?thesis by (cases "sort_desc k xs") auto
qed

lemma fold_delete: "fold (\<lambda>t. delete_where (\<lambda>q. f q = t)) ts qs = filter (\<lambda>q. f q \<notin> set ts) qs"
  by (induction ts arbitrary: qs) (auto simp: delete_where_def intro: filter_cong)

lemma fold_update:
  assumes "\<And>k q. f (g k q) = f q" and "distinct (map f ks)"
  shows "fold (\<lambda>k. update_where (\<lambda>q. f q = f k) (g k)) ks qs = map (\<lambda>q. case find (\<lambda>k. f k = f q) ks of Some k \<Rightarrow> g k q | None \<Rightarrow> q) qs"
  using assms(2)
proof (induction ks arbitrary: qs)
  case (Cons k ks)
  have "find (\<lambda>k'. f k' = f q) ks = None" if "f q = f k" for q
    unfolding find_None_all using Cons.prems that by (auto simp: image_iff)
  then show ?case using Cons by (auto simp: update_where_def assms(1))
qed simp

definition normalized_row :: "unicode \<Rightarrow> query_row \<Rightarrow> query_row" where
  "normalized_row u q = q\<lparr>q_text := normalize_word u (q_text q), q_word := normalize_word u (q_word q)\<rparr>"

definition keeper_of :: "('a clock_scheme) \<Rightarrow> unicode \<Rightarrow> query_row list \<Rightarrow> (int \<times> string \<times> string) \<Rightarrow> query_row" where
  "keeper_of c u rows k = hd (sort_desc (keeper_key c) (filter (\<lambda>q. merge_key u q = k) rows))"

lemma keeper_of_in:
  fixes c :: "'a clock_scheme" and u :: unicode
  assumes "q \<in> set rows"
  defines "k \<equiv> keeper_of c u rows (merge_key u q)"
  shows "k \<in> set rows" and "merge_key u k = merge_key u q" and "keeper_key c q \<le> keeper_key c k"
proof -
  let ?g = "filter (\<lambda>x. merge_key u x = merge_key u q) rows"
  have "q \<in> set ?g" using assms by simp
  then have "sort_desc (keeper_key c) ?g \<noteq> []" by (metis empty_iff empty_set set_sort_desc)
  then have "k \<in> set ?g" unfolding k_def keeper_of_def by (metis hd_in_set set_sort_desc)
  then show "k \<in> set rows" and "merge_key u k = merge_key u q" by simp_all
  show "keeper_key c q \<le> keeper_key c k" unfolding k_def keeper_of_def using \<open>q \<in> set ?g\<close> by (rule sort_desc_hd)
qed

lemma set_tlD: "x \<in> set (tl xs) \<Longrightarrow> x \<in> set xs"
  by (cases xs) auto

lemma in_merge_tail:
  assumes "q \<in> set (concat (map tl (merge_groups c u rows)))"
  shows "q \<in> set rows" and "q \<in> set (tl (sort_desc (keeper_key c) (filter (\<lambda>x. merge_key u x = merge_key u q) rows)))"
proof -
  from assms obtain k where k: "q \<in> set (tl (sort_desc (keeper_key c) (filter (\<lambda>x. merge_key u x = k) rows)))"
    unfolding merge_groups_def set_concat set_map by blast
  then have "q \<in> set rows \<and> merge_key u q = k" using set_tlD [OF k] by simp
  with k show "q \<in> set rows" and "q \<in> set (tl (sort_desc (keeper_key c) (filter (\<lambda>x. merge_key u x = merge_key u q) rows)))"
    by simp_all
qed

lemma merged_away:
  assumes "distinct rows" and "q \<in> set rows"
  shows "q \<in> set (concat (map tl (merge_groups c u rows))) \<longleftrightarrow> q \<noteq> keeper_of c u rows (merge_key u q)"
proof -
  let ?g = "\<lambda>k. sort_desc (keeper_key c) (filter (\<lambda>q. merge_key u q = k) rows)"

  have "distinct (?g (merge_key u q))" using assms(1) by simp
  moreover have "q \<in> set (?g (merge_key u q))" using assms(2) by simp
  ultimately have "q \<in> set (tl (?g (merge_key u q))) \<longleftrightarrow> q \<noteq> hd (?g (merge_key u q))"
    by (cases "?g (merge_key u q)") auto
  moreover have "q \<in> set (concat (map tl (merge_groups c u rows))) \<longleftrightarrow> q \<in> set (tl (?g (merge_key u q)))"
  proof
    assume "q \<in> set (concat (map tl (merge_groups c u rows)))"
    then show "q \<in> set (tl (?g (merge_key u q)))" by (rule in_merge_tail)
  next
    assume "q \<in> set (tl (?g (merge_key u q)))"
    then show "q \<in> set (concat (map tl (merge_groups c u rows)))" using assms(2) by (auto simp: merge_groups_def)
  qed
  ultimately show ?thesis by (simp add: keeper_of_def)
qed

lemma backfill_queries:
  assumes pk: "tokens_ok s" and flag: "settings s BACKFILL_FLAG = None"
  shows "queries (backfill_query_results c u s) =
     map (normalized_row u) (filter (\<lambda>q. q = keeper_of c u (queries s) (merge_key u q)) (queries s))"
proof -
  let ?rows = "queries s"
  let ?items = "merge_groups c u ?rows"
  let ?ups = "filter (\<lambda>q. q_text q \<noteq> normalize_word u (q_text q) \<or> q_word q \<noteq> normalize_word u (q_word q)) (map hd ?items)"
  let ?gone = "concat (map tl ?items)"
  let ?f = "\<lambda>k q. q\<lparr>q_text := normalize_word u (q_text k), q_word := normalize_word u (q_word k)\<rparr>"
  have inj: "inj_on q_token (set ?rows)" and d: "distinct ?rows" using pk by (simp_all add: tokens_ok_def distinct_map)
  have gone_sub: "set ?gone \<subseteq> set ?rows"
    using in_merge_tail(1) by blast
  have kept: "fold (\<lambda>t. delete_where (\<lambda>q. q_token q = t)) (map q_token ?gone) ?rows = filter (\<lambda>q. q = keeper_of c u ?rows (merge_key u q)) ?rows"
    unfolding fold_delete
  proof (rule filter_cong)
    fix q assume q: "q \<in> set ?rows"
    then have "q_token q \<notin> set (map q_token ?gone) \<longleftrightarrow> q \<notin> set ?gone" using inj gone_sub by (auto simp: inj_on_def)
    then show "q_token q \<notin> set (map q_token ?gone) \<longleftrightarrow> q = keeper_of c u ?rows (merge_key u q)" using merged_away [OF d q] by blast
  qed simp
  let ?ks = "rev (remdups (rev (map (merge_key u) ?rows)))"
  have heads: "map hd ?items = map (keeper_of c u ?rows) ?ks" by (simp add: merge_groups_def keeper_of_def)
  have key: "merge_key u (keeper_of c u ?rows k) = k \<and> keeper_of c u ?rows k \<in> set ?rows" if "k \<in> set ?ks" for k
    using that keeper_of_in(1,2) by fastforce
  have "inj_on (keeper_of c u ?rows) (set ?ks)" using key by (metis inj_onI)
  then have dh: "distinct (map hd ?items)" unfolding heads by (simp add: distinct_map)
  have "set (map hd ?items) \<subseteq> set ?rows" unfolding heads using key by auto
  then have sub: "set ?ups \<subseteq> set ?rows" by auto
  have "distinct (map q_token ?ups)"
    unfolding distinct_map using distinct_filter [OF dh] inj_on_subset [OF inj sub] by blast
  note ups = this sub
  have renamed: "(case find (\<lambda>k. q_token k = q_token q) ?ups of Some k \<Rightarrow> ?f k q | None \<Rightarrow> q) = normalized_row u q"
    if q: "q \<in> set ?rows" "q = keeper_of c u ?rows (merge_key u q)" for q
  proof (cases "find (\<lambda>k. q_token k = q_token q) ?ups")
    case None
    have "merge_key u q \<in> set ?ks" using q(1) by simp
    then have "q \<in> set (map hd ?items)" unfolding heads set_map using q(2) by (rule rev_image_eqI)
    moreover have "q \<notin> set ?ups" using None unfolding find_None_all by blast
    ultimately have "q_text q = normalize_word u (q_text q) \<and> q_word q = normalize_word u (q_word q)"
      unfolding set_filter by blast
    then show ?thesis using None by (simp add: normalized_row_def)
  next
    case (Some k)
    have k: "k \<in> set ?ups \<and> q_token k = q_token q" by (rule find_Some_D [OF Some])
    have "k = q" by (rule inj_onD [OF inj]) (use k ups(2) q(1) in blast)+
    then show ?thesis using Some by (simp add: normalized_row_def)
  qed
  have "queries (backfill_query_results c u s) =
      fold (\<lambda>k. update_where (\<lambda>q. q_token q = q_token k) (?f k)) ?ups (filter (\<lambda>q. q = keeper_of c u ?rows (merge_key u q)) ?rows)"
    unfolding kept [symmetric] by (simp add: backfill_query_results_def flag Let_def)
  also have "\<dots> = map (\<lambda>q. case find (\<lambda>k. q_token k = q_token q) ?ups of Some k \<Rightarrow> ?f k q | None \<Rightarrow> q)
      (filter (\<lambda>q. q = keeper_of c u ?rows (merge_key u q)) ?rows)"
    by (rule fold_update [OF _ ups(1)]) simp
  also have "\<dots> = map (normalized_row u) (filter (\<lambda>q. q = keeper_of c u ?rows (merge_key u q)) ?rows)"
    using renamed by (intro map_cong) auto
  finally show ?thesis .
qed

text \<open>The normalisation of old rows merges without losing: afterwards every row is in normal form, there
  is one row per user, language and text, every text asked before still has a row, and that row
  ranks at least as high as each row it replaces: a saved answer is never dropped for an unsaved
  one, nor a live one for an expired one, nor a newer one for an older one of the same standing.
  Running it again, at any time, changes nothing.\<close>

theorem old_rows_are_merged:
  assumes "tokens_ok s" and "settings s BACKFILL_FLAG = None"
    and "\<forall>q \<in> set (queries s). normalize_word u (normalize_word u (q_text q)) = normalize_word u (q_text q) \<and>
       normalize_word u (normalize_word u (q_word q)) = normalize_word u (q_word q)"
  shows "let s' = backfill_query_results c u s; key = \<lambda>q. (q_user q, q_lang q, q_text q) in
     tokens_ok s' \<and> distinct (map key (queries s')) \<and>
     (\<forall>q \<in> set (queries s'). q_text q = normalize_word u (q_text q) \<and> q_word q = normalize_word u (q_word q)) \<and>
     (\<forall>q \<in> set (queries s). \<exists>r \<in> set (queries s'). key r = merge_key u q \<and> keeper_key c q \<le> keeper_key c r) \<and>
     set (queries s') \<subseteq> normalized_row u ` set (queries s) \<and> backfill_query_results c' u s' = s'"
proof -
  define s' where "s' = backfill_query_results c u s"
  let ?k = "keeper_of c u (queries s)"
  have qs: "queries s' = map (normalized_row u) (filter (\<lambda>q. q = ?k (merge_key u q)) (queries s))"
    unfolding s'_def by (rule backfill_queries [OF assms(1,2)])
  have key: "(q_user (normalized_row u q), q_lang (normalized_row u q), q_text (normalized_row u q)) = merge_key u q" for q
    by (simp add: normalized_row_def merge_key_def)
  have rank: "keeper_key c (normalized_row u q) = keeper_key c q" and tok: "q_token (normalized_row u q) = q_token q" for q
    by (simp_all add: normalized_row_def keeper_key_def)
  have d: "distinct (queries s)" using assms(1) by (simp add: tokens_ok_def distinct_map)
  have "tokens_ok s'" using assms(1) by (simp add: tokens_ok_def qs comp_def tok distinct_map_filter)
  moreover have "distinct (map (\<lambda>q. (q_user q, q_lang q, q_text q)) (queries s'))"
    unfolding qs map_map comp_def key distinct_map using distinct_filter [OF d] by (auto intro: inj_onI)
  moreover have "\<forall>q \<in> set (queries s'). q_text q = normalize_word u (q_text q) \<and> q_word q = normalize_word u (q_word q)"
    using assms(3) by (auto simp: qs normalized_row_def)
  moreover have "\<exists>r \<in> set (queries s'). (q_user r, q_lang r, q_text r) = merge_key u q \<and> keeper_key c q \<le> keeper_key c r"
    if q: "q \<in> set (queries s)" for q
  proof (rule bexI)
    note k = keeper_of_in [OF q, where c = c and u = u]
    show "(q_user (normalized_row u (?k (merge_key u q))), q_lang (normalized_row u (?k (merge_key u q))),
        q_text (normalized_row u (?k (merge_key u q)))) = merge_key u q \<and> keeper_key c q \<le> keeper_key c (normalized_row u (?k (merge_key u q)))"
      using k(2,3) unfolding key rank by blast
    show "normalized_row u (?k (merge_key u q)) \<in> set (queries s')" unfolding qs set_map using k(1,2) by auto
  qed
  moreover have "set (queries s') \<subseteq> normalized_row u ` set (queries s)" by (auto simp: qs)
  moreover have "settings s' BACKFILL_FLAG \<noteq> None" by (simp add: s'_def backfill_query_results_def assms(2) Let_def set_setting_def)
  then have "backfill_query_results c' u s' = s'" by (simp add: backfill_query_results_def)
  ultimately show ?thesis unfolding s'_def [symmetric] Let_def by blast
qed

section \<open>Expired answers\<close>

lemma find_filter: "find P (filter Q xs) = find (\<lambda>x. Q x \<and> P x) xs"
  by (induction xs) auto

text \<open>Removing expired answers is invisible: every lookup at the time of the removal or later, by text, by
  word or by token, gives the same with and without it.\<close>

theorem expired_answers_are_invisible:
  assumes "tokens_ok s" and "stamp_text c' = stamp_text c" and "now_text c \<le> now_text c'"
  shows "find_unexpired_query c' u (cleanup_expired_query_results c s) uid query_text lang = find_unexpired_query c' u s uid query_text lang \<and>
     find_unexpired_query_by_word c' u (cleanup_expired_query_results c s) uid word lang = find_unexpired_query_by_word c' u s uid word lang \<and>
     get_query_result c' (cleanup_expired_query_results c s) token owner False = get_query_result c' s token owner False"
proof -
  have kept: "\<not> query_result_expired c q" if "\<not> query_result_expired c' q" for q
    using that assms(2,3) by (auto simp: query_result_expired_def)
  have "filter (live c' uid lang) (queries (cleanup_expired_query_results c s)) = filter (live c' uid lang) (queries s)"
    using kept by (auto simp: cleanup_expired_query_results_def delete_where_def live_def query_result_expired_def not_le intro!: filter_cong)
  moreover have "get_query_result c' (cleanup_expired_query_results c s) token owner False = get_query_result c' s token owner False"
  proof -
    let ?p = "\<lambda>q. q_token q = token \<and> (case owner of None \<Rightarrow> True | Some i \<Rightarrow> q_user q = i)"
    let ?q = "\<lambda>q. ?p q \<and> \<not> query_result_expired c q"
    have del: "find ?p (queries (cleanup_expired_query_results c s)) = find ?q (queries s)"
      by (simp add: cleanup_expired_query_results_def delete_where_def find_filter conj_commute)
    show ?thesis
    proof (cases "find ?p (queries s)")
      case None
      then have "find ?q (queries s) = None" by (auto simp: find_None_all)
      then show ?thesis using None del by (simp add: get_query_result_def)
    next
      case (Some r)
      note r = find_Some_D [OF Some]
      have uniq: "q = r" if "q \<in> set (queries s)" "?p q" for q
        using tokens_ok_inj [OF assms(1) that(1), of r] that(2) r by simp
      show ?thesis
      proof (cases "query_result_expired c r")
        case True
        then have "find ?q (queries s) = None" unfolding find_None_all using uniq by blast
        moreover have "query_result_expired c' r" using True kept by blast
        ultimately show ?thesis using Some del by (simp add: get_query_result_def)
      next
        case False
        then have "find ?q (queries s) = Some r"
        proof (cases "find ?q (queries s)")
          case None
          then show ?thesis using r False by (auto simp: find_None_all)
        next
          case (Some q)
          then show ?thesis using find_Some_D [OF Some] uniq by blast
        qed
        then show ?thesis using Some del by (simp add: get_query_result_def)
      qed
    qed
  qed
  ultimately show ?thesis by (simp add: find_unexpired_query_def find_unexpired_query_by_word_def Let_def)
qed

section \<open>Concrete runs\<close>

text \<open>A clock whose texts distinguish three times, a learner, letters of ASCII and a model that answers.\<close>

definition ask_clock :: "instant \<Rightarrow> env" where
  "ask_clock t = \<lparr>utc_now = t, today = (2026, 1, 31), app_date = (\<lambda>_. (2026, 1, 31)), app_midnight = (\<lambda>_. 0),
     utc_date = (\<lambda>_. (2026, 1, 31)), utc_time = (\<lambda>i. if i < 5 then ''a'' else if i < 1000 then ''b'' else ''c''),
     sql_datetime_ok = (\<lambda>_. False), owner_id = 0, owner_bypass_limits = False\<rparr>"

definition learner_db :: db where
  "learner_db = empty_db\<lparr>users := [(sample_user None 0)\<lparr>u_target_lang := Some ''en'', u_goal := Some ''work''\<rparr>]\<rparr>"

definition old_answer :: query_row where
  "old_answer = answer_row (ask_clock 0) plain_unicode ''old'' 2 ''dog'' ''dog'' ''en'' JNull 5"

text \<open>Another user's answer is stored during the call.\<close>

definition other_user :: "db \<Rightarrow> db" where
  "other_user s = s\<lparr>queries := [old_answer]\<rparr>"

definition latin :: letters where
  "latin = \<lparr>is_alpha = (\<lambda>x. 97 \<le> x \<and> x \<le> 122), is_blank = (\<lambda>x. x = 32), nfc_points = id\<rparr>"

definition code_points :: "string \<Rightarrow> nat list" where
  "code_points t = map of_char t"

definition answering :: "asker \<Rightarrow> string \<Rightarrow> generated" where
  "answering a t = Card (JObj [(''word'', JStr t)])"

lemma cat_is_valid: "validate_word_query latin (code_points ''cat'') = None" "validate_word_query latin (code_points '' cat'') = None"
  by (simp_all add: validate_word_query_def normalize_custom_word_input_def code_points_def latin_def strip_points_def
      CUSTOM_WORD_MAX_CHARS_def CUSTOM_WORD_MAX_WORDS_def MIN_LETTERS_def of_char_def)

lemma cat_is_new: "find_duplicate (ask_clock 7) plain_unicode learner_db 1 ''cat'' ''en'' = None"
  by (simp add: find_duplicate_def find_unexpired_query_def newest_first_def learner_db_def)

lemma learner: "get_user learner_db 1 = Some ((sample_user None 0)\<lparr>u_target_lang := Some ''en'', u_goal := Some ''work''\<rparr>)"
  by (simp add: learner_db_def get_user_def sample_user_def new_user_row_def)

lemma learner_limit: "daily_word_query_limit_for_plan learner_db ''free'' = 2"
  by code_simp

definition learner_asker :: asker where
  "learner_asker = \<lparr>a_lang = ''en'', a_level = ''beginner'', a_plan = ''free'', a_limit = 2\<rparr>"

lemma cat_opens:
  obtains s1 where "ask_open (ask_clock 7) plain_unicode latin code_points 1 ''cat'' False learner_db = (Inr learner_asker, s1)"
    and "get_user s1 1 \<noteq> None" and "queries s1 = []"
proof -
  obtain s1 where s1: "reserve_word_query (ask_clock 7) 1 2 False learner_db = (True, s1)"
    by (simp add: reserve_word_query_def learner current_daily_count_def sample_user_def new_user_row_def)
  have "owner_bypass_limits (ask_clock 7) = False" by (simp add: ask_clock_def)
  then have "ask_open (ask_clock 7) plain_unicode latin code_points 1 ''cat'' False learner_db = (Inr learner_asker, s1)"
    using s1 by (simp add: ask_open_def learner cat_is_valid cat_is_new learner_limit learner_asker_def none_if_empty_def text_or_def
        sample_user_def new_user_row_def)
  moreover have "word_inv (ask_clock 7) 1 learner_db"
    by (simp add: word_inv_def word_used_def learner current_daily_count_def sample_user_def new_user_row_def)
  then have "get_user s1 1 \<noteq> None" using reserve_frame(2) [OF s1] by (simp add: word_inv_def)
  moreover have "queries s1 = []" using reserve_frame(3) [OF s1] by (simp add: learner_db_def)
  ultimately show ?thesis by (rule that)
qed

lemma answer_run_eq:
  obtains crd usage s' where
    "ask (ask_clock 7) (ask_clock 8) plain_unicode latin code_points (\<lambda>_. '''') answering other_user ''tok'' 1 ''cat'' False learner_db =
      (Inr (AskOk ''tok'' crd usage), s')"
proof (rule cat_opens)
  fix s1 assume opened: "ask_open (ask_clock 7) plain_unicode latin code_points 1 ''cat'' False learner_db = (Inr learner_asker, s1)"
    and user: "get_user s1 1 \<noteq> None"
  let ?s = "other_user s1" and ?data = "[(''word'', JStr ''cat'')]"
  obtain s2 where made: "create_query_result (ask_clock 8) plain_unicode ''tok'' 1 ''cat'' ''cat'' ''en'' (JObj ?data) QUERY_TTL_SECONDS None ?s = Inr s2"
    by (simp add: create_query_result_def other_user_def old_answer_def answer_row_def)
  obtain n s3 where touched: "touch_streak (ask_clock 8) s2 1 = Inr (n, s3)"
    using touch_streak_total [of "ask_clock 8" s2 1] by (auto simp: ask_clock_def days_in_month_def)
  have fresh: "usable_duplicate (ask_clock 8) plain_unicode ?s 1 ''cat'' ''en'' = None"
    by (simp add: usable_duplicate_def find_unexpired_query_by_word_def live_def other_user_def old_answer_def answer_row_def newest_first_def Let_def)
  have "ask (ask_clock 7) (ask_clock 8) plain_unicode latin code_points (\<lambda>_. '''') answering other_user ''tok'' 1 ''cat'' False learner_db =
      (Inr (AskOk ''tok'' (JObj ?data) (format_usage (ask_clock 8) s3 (get_user s3 1) 2)), s3)"
    using made touched fresh
    by (simp add: ask_def opened answering_def ask_close_def ask_persist_def learner_asker_def)
  then show ?thesis by (rule that)
qed

theorem ask_charges_only_answers_witness:
  "\<exists>r s'. ask (ask_clock 7) (ask_clock 8) plain_unicode latin code_points (\<lambda>_. '''') answering other_user ''tok'' 1 ''cat'' False learner_db = (r, s') \<and>
     charged r \<and> word_used (ask_clock 7) 1 s' = 1"
proof (rule answer_run_eq)
  fix crd usage s'
  assume run: "ask (ask_clock 7) (ask_clock 8) plain_unicode latin code_points (\<lambda>_. '''') answering other_user ''tok'' 1 ''cat'' False learner_db =
      (Inr (AskOk ''tok'' crd usage), s')"
  have used: "word_used (ask_clock 7) 1 learner_db = 0" and day: "today_iso (ask_clock 8) = today_iso (ask_clock 7)" by code_simp+
  have "get_user learner_db 1 \<noteq> None" by (simp add: learner_db_def get_user_def sample_user_def new_user_row_def)
  then have "word_inv (ask_clock 7) 1 learner_db" using used by (simp add: word_inv_def)
  from ask_charges_only_answers [OF this day _ run] used run show ?thesis by (simp add: other_user_def)
qed

theorem repeated_ask_is_free_witness:
  "\<exists>crd usage s'.
     ask (ask_clock 7) (ask_clock 8) plain_unicode latin code_points (\<lambda>_. '''') answering other_user ''tok'' 1 ''cat'' False learner_db =
       (Inr (AskOk ''tok'' crd usage), s') \<and>
     ask (ask_clock 9) (ask_clock 9) plain_unicode latin code_points (\<lambda>_. '''') (\<lambda>_ _. CallTimedOut) id ''other'' 1 '' cat'' False s' =
       (Inr (Duplicate ''tok''), s')"
proof (rule answer_run_eq)
  fix crd usage s'
  assume run: "ask (ask_clock 7) (ask_clock 8) plain_unicode latin code_points (\<lambda>_. '''') answering other_user ''tok'' 1 ''cat'' False learner_db =
      (Inr (AskOk ''tok'' crd usage), s')"
  have "stamp_text (ask_clock 8) (q_created old_answer) < now_text (ask_clock 8)" by code_simp
  then have older: "stamp_text (ask_clock 8) (q_created q) < now_text (ask_clock 8)" if "q \<in> set (queries (other_user x))" for q x
    using that by (simp add: other_user_def)
  have same: "stamp_text (ask_clock 9) = stamp_text (ask_clock 8)"
  proof
    show "stamp_text (ask_clock 9) x = stamp_text (ask_clock 8) x" for x by (cases x) (simp_all add: ask_clock_def)
  qed
  have later: "now_text (ask_clock 9) < stamp_text (ask_clock 9) (Stamp (utc_now (ask_clock 8) + 2592000 * 1000000))" by code_simp
  have form: "normalize_word plain_unicode '' cat'' = normalize_word plain_unicode ''cat''" by code_simp
  have pk: "tokens_ok learner_db" by (simp add: tokens_ok_def learner_db_def)
  have "ask (ask_clock 9) (ask_clock 9) plain_unicode latin code_points (\<lambda>_. '''') (\<lambda>_ _. CallTimedOut) id ''other'' 1 '' cat'' False s' =
      (Inr (Duplicate ''tok''), s')"
    by (rule repeated_ask_is_free [OF run _ _ pk _ same later form cat_is_valid(2)]) (use older in \<open>auto simp: other_user_def tokens_ok_def\<close>)
  then show ?thesis using run by blast
qed

theorem cap_evicts_oldest_witness:
  "\<exists>s'. create_query_result (ask_clock 8) plain_unicode ''tok'' 1 ''cat'' ''cat'' ''en'' (JObj []) QUERY_TTL_SECONDS None (other_user learner_db) = Inr s' \<and>
     length (filter (live (ask_clock 8) 1 ''en'') (queries s')) \<le> 100 \<and>
     answer_row (ask_clock 8) plain_unicode ''tok'' 1 ''cat'' ''cat'' ''en'' (JObj []) QUERY_TTL_SECONDS \<in> set (queries s')"
proof -
  have pk: "tokens_ok (other_user learner_db)" by (simp add: tokens_ok_def other_user_def)
  have older: "\<forall>q \<in> set (queries (other_user learner_db)). live (ask_clock 8) 1 ''en'' q \<longrightarrow> stamp_text (ask_clock 8) (q_created q) \<le> now_text (ask_clock 8)"
    by code_simp
  obtain s' where run: "create_query_result (ask_clock 8) plain_unicode ''tok'' 1 ''cat'' ''cat'' ''en'' (JObj []) QUERY_TTL_SECONDS None (other_user learner_db) = Inr s'"
    by (simp add: create_query_result_def other_user_def old_answer_def answer_row_def)
  from cap_evicts_oldest [OF pk run older] run show ?thesis by blast
qed

definition legacy_db :: db where
  "legacy_db = empty_db\<lparr>queries :=
     [(answer_row (ask_clock 0) plain_unicode ''s'' 1 ''cat'' ''cat'' ''en'' JNull QUERY_TTL_SECONDS)\<lparr>q_text := ''Cat'', q_saved_word := Some 3\<rparr>,
      answer_row (ask_clock 5) plain_unicode ''n'' 1 ''cat'' ''cat'' ''en'' JNull QUERY_TTL_SECONDS]\<rparr>"

theorem old_rows_are_merged_witness:
  "map q_token (queries (backfill_query_results (ask_clock 8) plain_unicode legacy_db)) = [''s''] \<and>
   backfill_query_results (ask_clock 9) plain_unicode (backfill_query_results (ask_clock 8) plain_unicode legacy_db) =
     backfill_query_results (ask_clock 8) plain_unicode legacy_db"
proof -
  have pk: "tokens_ok legacy_db" by (simp add: tokens_ok_def legacy_db_def answer_row_def)
  have flag: "settings legacy_db BACKFILL_FLAG = None" by (simp add: legacy_db_def)
  have stable: "\<forall>q \<in> set (queries legacy_db).
      normalize_word plain_unicode (normalize_word plain_unicode (q_text q)) = normalize_word plain_unicode (q_text q) \<and>
      normalize_word plain_unicode (normalize_word plain_unicode (q_word q)) = normalize_word plain_unicode (q_word q)"
    by code_simp
  have "map q_token (queries (backfill_query_results (ask_clock 8) plain_unicode legacy_db)) = [''s'']" by code_simp
  then show ?thesis using old_rows_are_merged [OF pk flag stable, of "ask_clock 8" "ask_clock 9"] by (simp add: Let_def)
qed

theorem expired_answers_are_invisible_witness:
  "find_unexpired_query (ask_clock 9) plain_unicode (cleanup_expired_query_results (ask_clock 8) (other_user learner_db)) 2 ''dog'' ''en'' =
   find_unexpired_query (ask_clock 9) plain_unicode (other_user learner_db) 2 ''dog'' ''en''"
proof -
  have pk: "tokens_ok (other_user learner_db)" by (simp add: tokens_ok_def other_user_def)
  have same: "stamp_text (ask_clock 9) = stamp_text (ask_clock 8)"
  proof
    show "stamp_text (ask_clock 9) x = stamp_text (ask_clock 8) x" for x by (cases x) (simp_all add: ask_clock_def)
  qed
  have "now_text (ask_clock 8) \<le> now_text (ask_clock 9)" by code_simp
  from expired_answers_are_invisible [OF pk same this] show ?thesis by blast
qed

end
