(* ===== verification/AuxTables.thy ===== *)
theory AuxTables imports SessionStore Costs Queries begin

text \<open>
  The two auxiliary tables of \<open>services/db/legacy_aux.py\<close>: the audit of configuration tests, which
  prunes itself when it has grown, and the retired grammar tips. The JSON texts are the caller's.
\<close>

section \<open>The tables\<close>

record test_row =
  ct_id :: int
  ct_type :: string
  ct_preset :: string
  ct_prompt :: string
  ct_result :: string
  ct_created :: stamp

record tip_row =
  gt_id :: int
  gt_user :: int
  gt_date :: string
  gt_title :: string
  gt_lang :: string
  gt_goal :: string
  gt_level :: string
  gt_tip :: string
  gt_created :: stamp
  gt_provenance :: string

record aux_db =
  tests :: "test_row list"
  next_test_id :: int
  tips :: "tip_row list"
  next_tip_id :: int

section \<open>Grammar tips\<close>

definition add_grammar_tip ::
    "('a clock_scheme) \<Rightarrow> int \<Rightarrow> string \<Rightarrow> string \<Rightarrow> string \<Rightarrow> string \<Rightarrow> string \<Rightarrow> string \<Rightarrow> aux_db \<Rightarrow> aux_db" where
  "add_grammar_tip c uid title lang goal level tip provenance s =
     (let title' = join_sp (py_split title) in
      if title' = '''' then s
      else s\<lparr>tips := tips s @ [\<lparr>gt_id = next_tip_id s, gt_user = uid, gt_date = today_iso c, gt_title = title', gt_lang = lang,
                               gt_goal = goal, gt_level = level, gt_tip = tip, gt_created = Stamp (utc_now c), gt_provenance = provenance\<rparr>],
             next_tip_id := next_tip_id s + 1\<rparr>)"

definition recent_grammar_tip_titles :: "('a clock_scheme) \<Rightarrow> int \<Rightarrow> string option \<Rightarrow> int \<Rightarrow> aux_db \<Rightarrow> string list" where
  "recent_grammar_tip_titles c uid lang limit s =
     map gt_title (sql_page limit 0 (sort_desc (\<lambda>t. stamp_text c (gt_created t))
       (filter (\<lambda>t. gt_user t = uid \<and> (case lang of None \<Rightarrow> True | Some l \<Rightarrow> gt_lang t = l)) (tips s))))"

text \<open>Every row goes, in the order of the ids.\<close>

definition purge_grammar_tips :: "int \<Rightarrow> nat option \<Rightarrow> aux_db \<Rightarrow> (nat \<times> aux_db) option" where
  "purge_grammar_tips batch budget s =
     map_option (\<lambda>(tips', n, _). (n, s\<lparr>tips := tips'\<rparr>)) (purge_loop (\<lambda>_. True) batch budget (sort_key gt_id (tips s)) 0)"

section \<open>The audit of configuration tests\<close>

definition audit_cutoff :: "('a clock_scheme) \<Rightarrow> int \<Rightarrow> string" where
  "audit_cutoff c max_age_days = stamp_text c (Stamp (utc_now c - max_age_days * day_us))"

definition audit_key :: "('a clock_scheme) \<Rightarrow> test_row \<Rightarrow> string \<times> int" where
  "audit_key c r = (stamp_text c (ct_created r), ct_id r)"

definition stale_test :: "('a clock_scheme) \<Rightarrow> int \<Rightarrow> test_row \<Rightarrow> bool" where
  "stale_test c max_age_days r \<longleftrightarrow> stamp_text c (ct_created r) < audit_cutoff c max_age_days"

definition config_tests_prune_due :: "('a clock_scheme) \<Rightarrow> int \<Rightarrow> int \<Rightarrow> aux_db \<Rightarrow> bool" where
  "config_tests_prune_due c max_rows max_age_days s =
     (if int (length (tests s)) > max_rows then True
      else if tests s = [] then False
      else Min (set (map (\<lambda>r. stamp_text c (ct_created r)) (tests s))) < audit_cutoff c max_age_days)"

text \<open>The second loop: the oldest rows go, a batch at a time, until \<open>max_rows\<close> are left.\<close>

partial_function (option) keep_newest ::
    "('a clock_scheme) \<Rightarrow> int \<Rightarrow> int \<Rightarrow> nat option \<Rightarrow> test_row list \<Rightarrow> nat \<Rightarrow> (test_row list \<times> nat) option" where
  "keep_newest c max_rows batch budget rows deleted =
     (if budget = Some 0 then Some (rows, deleted)
      else let count = int (length rows) in
        if count \<le> max_rows then Some (rows, deleted)
        else let ids = map ct_id (sql_page (min (count - max_rows) batch) 0 (sort_key (audit_key c) rows));
                 rows' = delete_where (\<lambda>r. ct_id r \<in> set ids) rows
             in keep_newest c max_rows batch (map_option (\<lambda>b. b - 1) budget) rows' (deleted + (length rows - length rows')))"

definition prune_config_tests :: "('a clock_scheme) \<Rightarrow> int \<Rightarrow> int \<Rightarrow> int \<Rightarrow> nat option \<Rightarrow> aux_db \<Rightarrow> (nat \<times> aux_db) option" where
  "prune_config_tests c max_rows max_age_days batch budget s =
     Option.bind (purge_loop (stale_test c max_age_days) batch budget (tests s) 0) (\<lambda>(rows, n, budget1).
       map_option (\<lambda>(rows', n'). (n', s\<lparr>tests := rows'\<rparr>)) (keep_newest c max_rows batch budget1 rows n))"

definition log_config_test :: "('a clock_scheme) \<Rightarrow> string \<Rightarrow> string \<Rightarrow> string \<Rightarrow> string \<Rightarrow> aux_db \<Rightarrow> aux_db option" where
  "log_config_test c test_type preset prompt result_json s =
     (let s1 = s\<lparr>tests := tests s @ [\<lparr>ct_id = next_test_id s, ct_type = test_type, ct_preset = preset, ct_prompt = prompt,
                                     ct_result = result_json, ct_created = Stamp (utc_now c)\<rparr>],
                 next_test_id := next_test_id s + 1\<rparr>
      in if config_tests_prune_due c 1000 30 s1 then map_option snd (prune_config_tests c 1000 30 500 None s1) else Some s1)"

section \<open>What a prune removes\<close>

definition tests_ok :: "aux_db \<Rightarrow> bool" where
  "tests_ok s \<longleftrightarrow> distinct (map ct_id (tests s)) \<and> (\<forall>r \<in> set (tests s). ct_id r < next_test_id s)"

lemma oldest_deleted:
  fixes c :: "'a clock_scheme" and rows :: "test_row list"
  assumes "distinct (map ct_id rows)" and "0 \<le> l"
  defines "ids \<equiv> map ct_id (sql_page l 0 (sort_key (audit_key c) rows))"
  defines "rows' \<equiv> delete_where (\<lambda>r. ct_id r \<in> set ids) rows"
  shows "length rows' = length rows - nat l" and "rows' = filter (\<lambda>r. ct_id r \<notin> set ids) rows"
    and "\<forall>q \<in> set rows. q \<notin> set rows' \<longrightarrow> (\<forall>r \<in> set rows'. audit_key c q \<le> audit_key c r)"
proof -
  let ?old = "take (nat l) (sort_key (audit_key c) rows)"
  have ids: "ids = map ct_id ?old" using assms(2) by (simp add: ids_def sql_page_def Let_def)
  show f: "rows' = filter (\<lambda>r. ct_id r \<notin> set ids) rows" by (simp add: rows'_def delete_where_def)
  have inj: "inj_on ct_id (set rows)" using assms(1) by (simp add: distinct_map)
  have d: "distinct (map ct_id (sort_key (audit_key c) rows))" using assms(1) unfolding distinct_map by simp
  then have "distinct ids" unfolding ids take_map [symmetric] by (rule distinct_take)
  moreover have "set ids \<subseteq> ct_id ` set rows" by (auto simp: ids dest: in_set_takeD)
  ultimately have "length (filter (\<lambda>k. k \<notin> set ids) (map ct_id rows)) = length (map ct_id rows) - length ids"
    using length_filter_outside [of id "map ct_id rows" ids] assms(1) by simp
  then show "length rows' = length rows - nat l" by (simp add: f filter_map comp_def ids)
  show "\<forall>q \<in> set rows. q \<notin> set rows' \<longrightarrow> (\<forall>r \<in> set rows'. audit_key c q \<le> audit_key c r)"
  proof (intro ballI impI)
    fix q r assume q: "q \<in> set rows" "q \<notin> set rows'" and r: "r \<in> set rows'"
    obtain q' where "q' \<in> set ?old" "ct_id q' = ct_id q" using q by (auto simp: f ids)
    moreover have "q' \<in> set rows" using in_set_takeD [OF calculation(1)] by simp
    ultimately have "q \<in> set ?old" using inj q(1) by (auto simp: inj_on_def)
    moreover have "r \<in> set rows" "r \<notin> set ?old" using r by (auto simp: f ids)
    ultimately show "audit_key c q \<le> audit_key c r" using sorted_take_le [of q "nat l" "audit_key c" rows r] by simp
  qed
qed

lemma keep_newest_facts:
  assumes "distinct (map ct_id rows)" and "0 < batch" and "0 \<le> max_rows"
  shows "\<exists>rows' q. keep_newest c max_rows batch budget rows d = Some (rows', d + (length rows - length rows')) \<and> rows' = filter q rows \<and>
     min (int (length rows)) max_rows \<le> int (length rows') \<and> (budget = None \<longrightarrow> int (length rows') \<le> max_rows) \<and>
     (\<forall>x \<in> set rows. x \<notin> set rows' \<longrightarrow> (\<forall>r \<in> set rows'. audit_key c x \<le> audit_key c r))"
  using assms(1)
proof (induction "length rows" arbitrary: rows d budget rule: less_induct)
  case less
  let ?l = "min (int (length rows) - max_rows) batch"
  let ?ids = "map ct_id (sql_page ?l 0 (sort_key (audit_key c) rows))"
  let ?rows = "delete_where (\<lambda>r. ct_id r \<in> set ?ids) rows"
  let ?budget = "map_option (\<lambda>b. b - 1) budget"
  show ?case
  proof (cases "budget = Some 0 \<or> int (length rows) \<le> max_rows")
    case True
    then have "keep_newest c max_rows batch budget rows d = Some (rows, d)" by (subst keep_newest.simps) (auto simp: Let_def)
    then show ?thesis using True by (intro exI [of _ rows] exI [of _ "\<lambda>_. True"]) auto
  next
    case False
    then have l: "0 < ?l" "0 \<le> ?l" using assms(2) by auto
    note old = oldest_deleted [OF less.prems l(2), of c]
    have len: "int (length ?rows) = int (length rows) - ?l" using old(1) l(2) assms(3) by linarith
    then have shorter: "length ?rows < length rows" using l(1) by linarith
    have d: "distinct (map ct_id ?rows)" using less.prems by (simp add: delete_where_def distinct_map_filter)
    obtain rows' q where IH: "keep_newest c max_rows batch ?budget ?rows (d + (length rows - length ?rows)) =
        Some (rows', d + (length rows - length ?rows) + (length ?rows - length rows'))" "rows' = filter q ?rows"
      "min (int (length ?rows)) max_rows \<le> int (length rows')" "?budget = None \<longrightarrow> int (length rows') \<le> max_rows"
      "\<forall>x \<in> set ?rows. x \<notin> set rows' \<longrightarrow> (\<forall>r \<in> set rows'. audit_key c x \<le> audit_key c r)"
      using less.hyps [OF shorter d, of ?budget "d + (length rows - length ?rows)"] by (elim exE conjE) (rule that)
    have sub: "set rows' \<subseteq> set ?rows" "length rows' \<le> length ?rows" using IH(2) by auto
    have "keep_newest c max_rows batch budget rows d =
        keep_newest c max_rows batch ?budget ?rows (d + (length rows - length ?rows))"
      using False by (subst keep_newest.simps) (simp add: Let_def)
    then have "keep_newest c max_rows batch budget rows d = Some (rows', d + (length rows - length rows'))"
      using IH(1) sub(2) shorter by simp
    moreover have "rows' = filter (\<lambda>r. ct_id r \<notin> set ?ids \<and> q r) rows"
      by (simp add: IH(2) delete_where_def)
    moreover have "min (int (length rows)) max_rows \<le> int (length rows')" using IH(3) False len l(1) assms(2) by auto
    moreover have "budget = None \<longrightarrow> int (length rows') \<le> max_rows" using IH(4) by simp
    moreover have "\<forall>x \<in> set rows. x \<notin> set rows' \<longrightarrow> (\<forall>r \<in> set rows'. audit_key c x \<le> audit_key c r)"
      using IH(5) old(3) sub(1) by blast
    ultimately show ?thesis by blast
  qed
qed

lemma keep_newest_returns:
  assumes "0 < batch" and "0 \<le> max_rows"
  shows "\<exists>r. keep_newest c max_rows batch budget rows d = Some r"
proof (induction "length rows" arbitrary: rows d budget rule: less_induct)
  case less
  let ?ids = "map ct_id (sql_page (min (int (length rows) - max_rows) batch) 0 (sort_key (audit_key c) rows))"
  let ?rows = "delete_where (\<lambda>r. ct_id r \<in> set ?ids) rows"
  show ?case
  proof (cases "budget = Some 0 \<or> int (length rows) \<le> max_rows")
    case True
    then show ?thesis by (subst keep_newest.simps) (auto simp: Let_def)
  next
    case False
    then have l: "0 < min (int (length rows) - max_rows) batch" using assms(1) by simp
    have ne: "sort_key (audit_key c) rows \<noteq> []" using False assms(2) by (metis length_sort list.size(3) of_nat_0)
    obtain x xs where s: "sort_key (audit_key c) rows = x # xs" using ne by (cases "sort_key (audit_key c) rows") auto
    then have "x \<in> set rows" by (metis list.set_intros(1) set_sort)
    moreover have "ct_id x \<in> set ?ids" using s l by (cases "nat (min (int (length rows) - max_rows) batch)") (auto simp: sql_page_def Let_def)
    ultimately have "length ?rows < length rows" unfolding delete_where_def by (intro length_filter_less) auto
    then show ?thesis using less.hyps [of ?rows] False by (subst keep_newest.simps) (simp add: Let_def)
  qed
qed

lemma delete_first_distinct: "distinct (map f rows) \<Longrightarrow> distinct (map f (delete_first n p rows)) \<and> set (delete_first n p rows) \<subseteq> set rows"
  by (induction n p rows rule: delete_first.induct) auto

lemma purge_loop_distinct:
  assumes "purge_loop p batch budget rows k = Some (rows', n, b)"
  shows "distinct (map f rows) \<longrightarrow> distinct (map f rows')"
proof -
  have "\<forall>r. (rows', n, b) = r \<longrightarrow> distinct (map f rows) \<longrightarrow> distinct (map f (fst r))"
    by (rule purge_loop.raw_induct [where P = "\<lambda>p batch budget rows k y. \<forall>r. y = r \<longrightarrow> distinct (map f rows) \<longrightarrow> distinct (map f (fst r))", OF _ assms])
      (fastforce simp: Let_def delete_first_distinct split: if_splits)
  then show ?thesis by simp
qed

lemma purge_loop_any:
  assumes "0 < batch"
  shows "\<exists>rows' n b. purge_loop p batch budget rows k = Some (rows', n, b) \<and>
     filter (\<lambda>r. \<not> p r) rows' = filter (\<lambda>r. \<not> p r) rows \<and> set rows' \<subseteq> set rows \<and>
     (budget = None \<longrightarrow> b = None \<and> rows' = filter (\<lambda>r. \<not> p r) rows)"
proof (cases budget)
  case None
  then show ?thesis using purge_loop_all [OF assms, of p rows k] by auto
next
  case (Some m)
  then show ?thesis using purge_loop_deadline [of p batch m rows k] by fastforce
qed

section \<open>Properties\<close>

lemma prune_config_facts:
  assumes "distinct (map ct_id (tests s))" and "0 < batch" and "0 \<le> max_rows"
  shows "\<exists>n s'. prune_config_tests c max_rows max_age_days batch budget s = Some (n, s') \<and> s' = s\<lparr>tests := tests s'\<rparr> \<and>
     set (tests s') \<subseteq> set (tests s) \<and> distinct (map ct_id (tests s')) \<and>
     (\<forall>x \<in> set (tests s). x \<notin> set (tests s') \<longrightarrow> stale_test c max_age_days x \<or>
        (max_rows \<le> int (length (tests s')) \<and> (\<forall>r \<in> set (tests s'). audit_key c x \<le> audit_key c r))) \<and>
     (budget = None \<longrightarrow> int (length (tests s')) \<le> max_rows \<and> (\<forall>r \<in> set (tests s'). \<not> stale_test c max_age_days r))"
proof -
  let ?stale = "stale_test c max_age_days"
  obtain rows n b where p1: "purge_loop ?stale batch budget (tests s) 0 = Some (rows, n, b)"
    and r: "filter (\<lambda>r. \<not> ?stale r) rows = filter (\<lambda>r. \<not> ?stale r) (tests s)" "set rows \<subseteq> set (tests s)"
    and all: "budget = None \<longrightarrow> b = None \<and> rows = filter (\<lambda>r. \<not> ?stale r) (tests s)"
    using purge_loop_any [OF assms(2), of ?stale budget "tests s" 0] by blast
  have d: "distinct (map ct_id rows)" using purge_loop_distinct [OF p1, of ct_id] assms(1) by blast
  obtain rows' q where p2: "keep_newest c max_rows batch b rows n = Some (rows', n + (length rows - length rows'))"
    and q: "rows' = filter q rows" and least: "min (int (length rows)) max_rows \<le> int (length rows')"
    and most: "b = None \<longrightarrow> int (length rows') \<le> max_rows"
    and oldest: "\<forall>x \<in> set rows. x \<notin> set rows' \<longrightarrow> (\<forall>r \<in> set rows'. audit_key c x \<le> audit_key c r)"
    using keep_newest_facts [OF d assms(2,3), of c b n] by blast
  have kept: "x \<in> set rows" if "x \<in> set (tests s)" "\<not> ?stale x" for x
  proof -
    have "x \<in> set (filter (\<lambda>r. \<not> ?stale r) rows)" unfolding r(1) using that by simp
    then show ?thesis by simp
  qed
  have full: "max_rows \<le> int (length rows')" if "x \<in> set rows" "x \<notin> set rows'" for x
  proof -
    have "length rows' < length rows" unfolding q using that by (intro length_filter_less) (auto simp: q)
    then show ?thesis using least by linarith
  qed
  have "distinct (map ct_id rows')" using d by (simp add: q distinct_map_filter)
  moreover have "\<forall>x \<in> set (tests s). x \<notin> set rows' \<longrightarrow> ?stale x \<or>
      (max_rows \<le> int (length rows') \<and> (\<forall>r \<in> set rows'. audit_key c x \<le> audit_key c r))"
    using kept full oldest by blast
  moreover have "set rows' \<subseteq> set (tests s)" using q r(2) by auto
  moreover have "budget = None \<longrightarrow> int (length rows') \<le> max_rows \<and> (\<forall>r \<in> set rows'. \<not> ?stale r)"
    using all most by (auto simp: q)
  ultimately show ?thesis using p1 p2 by (simp add: prune_config_tests_def)
qed

lemma not_due: "\<not> config_tests_prune_due c max_rows max_age_days s \<Longrightarrow>
   int (length (tests s)) \<le> max_rows \<and> (\<forall>r \<in> set (tests s). \<not> stale_test c max_age_days r)"
  by (auto simp: config_tests_prune_due_def stale_test_def Min_less_iff split: if_splits)

text \<open>The audit of configuration tests stays within its bounds. Logging a test always returns; afterwards the
  table has the new row, at most 1000 rows and none older than 30 days, the ids stay unique, and
  a row is gone only when it was older than that or when 1000 rows at least as new stay.\<close>

theorem audit_stays_bounded:
  assumes "tests_ok s" and "\<forall>r \<in> set (tests s). stamp_text c (ct_created r) \<le> now_text c" and "audit_cutoff c 30 \<le> now_text c"
  shows "\<exists>s'. log_config_test c test_type preset prompt result_json s = Some s' \<and> tests_ok s' \<and>
     \<lparr>ct_id = next_test_id s, ct_type = test_type, ct_preset = preset, ct_prompt = prompt, ct_result = result_json,
      ct_created = Stamp (utc_now c)\<rparr> \<in> set (tests s') \<and>
     length (tests s') \<le> 1000 \<and> (\<forall>r \<in> set (tests s'). \<not> stale_test c 30 r) \<and>
     (\<forall>x \<in> set (tests s). x \<notin> set (tests s') \<longrightarrow> stale_test c 30 x \<or>
        (length (tests s') = 1000 \<and> (\<forall>r \<in> set (tests s'). audit_key c x \<le> audit_key c r)))"
proof -
  define row where "row = \<lparr>ct_id = next_test_id s, ct_type = test_type, ct_preset = preset, ct_prompt = prompt,
      ct_result = result_json, ct_created = Stamp (utc_now c)\<rparr>"
  define s1 where "s1 = s\<lparr>tests := tests s @ [row], next_test_id := next_test_id s + 1\<rparr>"
  have log: "log_config_test c test_type preset prompt result_json s =
      (if config_tests_prune_due c 1000 30 s1 then map_option snd (prune_config_tests c 1000 30 500 None s1) else Some s1)"
    by (simp add: log_config_test_def s1_def row_def Let_def)
  have ok1: "tests_ok s1" using assms(1) by (fastforce simp: tests_ok_def s1_def row_def)
  have fresh: "\<not> stale_test c 30 row" using assms(3) by (simp add: stale_test_def row_def now_text_def)
  have newest: "audit_key c x < audit_key c row" if "x \<in> set (tests s)" for x
    using assms(1,2) that by (fastforce simp: audit_key_def row_def tests_ok_def now_text_def)
  show ?thesis
  proof (cases "config_tests_prune_due c 1000 30 s1")
    case False
    then show ?thesis using not_due [OF False] log ok1 by (intro exI [of _ s1]) (simp add: s1_def row_def)
  next
    case True
    have d1: "distinct (map ct_id (tests s1))" using ok1 by (simp add: tests_ok_def)
    have limits: "(0::int) < 500" "(0::int) \<le> 1000" by simp_all
    obtain n s' where p: "prune_config_tests c 1000 30 500 None s1 = Some (n, s')" "s' = s1\<lparr>tests := tests s'\<rparr>"
      "set (tests s') \<subseteq> set (tests s1)" "distinct (map ct_id (tests s'))"
      "\<forall>x \<in> set (tests s1). x \<notin> set (tests s') \<longrightarrow> stale_test c 30 x \<or>
         (1000 \<le> int (length (tests s')) \<and> (\<forall>r \<in> set (tests s'). audit_key c x \<le> audit_key c r))"
      "int (length (tests s')) \<le> 1000" "\<forall>r \<in> set (tests s'). \<not> stale_test c 30 r"
      using prune_config_facts [OF d1 limits, of c 30 None] by blast
    have "row \<in> set (tests s')"
    proof (rule ccontr)
      assume out: "row \<notin> set (tests s')"
      moreover have "row \<in> set (tests s1)" by (simp add: s1_def)
      ultimately have full: "1000 \<le> int (length (tests s'))" "\<forall>r \<in> set (tests s'). audit_key c row \<le> audit_key c r"
        using p(5) fresh by blast+
      then obtain r where r: "r \<in> set (tests s')" by (cases "tests s'") auto
      then have "r \<in> set (tests s)" using p(3) out by (auto simp: s1_def)
      then show False using newest [of r] full(2) r by auto
    qed
    moreover have "tests_ok s'"
    proof -
      have "next_test_id s' = next_test_id s1" by (subst p(2)) simp
      then show ?thesis using ok1 p(3,4) by (auto simp: tests_ok_def)
    qed
    moreover have "\<forall>x \<in> set (tests s). x \<notin> set (tests s') \<longrightarrow> stale_test c 30 x \<or>
        (length (tests s') = 1000 \<and> (\<forall>r \<in> set (tests s'). audit_key c x \<le> audit_key c r))"
    proof (intro ballI impI)
      fix x assume "x \<in> set (tests s)" "x \<notin> set (tests s')"
      then have "stale_test c 30 x \<or> (1000 \<le> int (length (tests s')) \<and> (\<forall>r \<in> set (tests s'). audit_key c x \<le> audit_key c r))"
        using p(5) by (auto simp: s1_def)
      then show "stale_test c 30 x \<or> (length (tests s') = 1000 \<and> (\<forall>r \<in> set (tests s'). audit_key c x \<le> audit_key c r))"
        using p(6) by auto
    qed
    ultimately show ?thesis using True log p(1,6,7) by (intro exI [of _ s']) (simp add: row_def)
  qed
qed

theorem audit_stays_bounded_witness:
  "\<exists>s'. log_config_test (ask_clock 3) ''t'' ''p'' ''q'' ''r'' \<lparr>tests = [], next_test_id = 1, tips = [], next_tip_id = 1\<rparr> = Some s' \<and>
     length (tests s') \<le> 1000"
proof -
  let ?s = "\<lparr>tests = [], next_test_id = 1, tips = [], next_tip_id = 1\<rparr>"
  have "tests_ok ?s" "\<forall>r \<in> set (tests ?s). stamp_text (ask_clock 3) (ct_created r) \<le> now_text (ask_clock 3)"
    by (simp_all add: tests_ok_def)
  moreover have "audit_cutoff (ask_clock 3) 30 \<le> now_text (ask_clock 3)" by (simp add: audit_cutoff_def now_text_def ask_clock_def day_us_def)
  ultimately show ?thesis using audit_stays_bounded [of ?s "ask_clock 3"] by blast
qed

end
