(* ===== verification/Delivery.thy ===== *)
theory Delivery imports Users begin

text \<open>
  The sending of Telegram messages: the send core of \<open>services/send_pretty.py\<close> and the retry loops of
  \<open>services/utils/helpers_retry.py\<close>. The Bot API is a parameter that says how the n-th call ends;
  the state logs every call with its end, the waits, and what the loops change. The limiter of
  concurrent calls is not modelled: it only delays a call.
\<close>

section \<open>The Bot API\<close>

text \<open>
  The exceptions of the client library; \<open>BadRequest\<close> and \<open>TimedOut\<close> are subclasses of
  \<open>NetworkError\<close>, so a clause for \<open>NetworkError\<close> catches all three.
\<close>

datatype tg_error = Forbidden | BadRequest | EndPointNotFound | RetryAfter real | TimedOut | NetworkError | OtherError

fun is_network_error :: "tg_error \<Rightarrow> bool" where
  "is_network_error BadRequest = True"
| "is_network_error TimedOut = True"
| "is_network_error NetworkError = True"
| "is_network_error _ = False"

text \<open>What the code reads of a sent message: the voice's two ids, if there is a voice, and the message id.\<close>

record sent_message =
  m_file_id :: "string option"
  m_unique_id :: "string option"
  m_message_id :: "int option"

type_synonym answer = "tg_error + sent_message"

text \<open>
  What a caller passes as media: a text, a file id or another value with no reading position; a
  buffer; an \<open>InputFile\<close>. The content is missing when it cannot be read.
\<close>

datatype media = Handle string | Buffer "string option" "string option" | InputFile "string option" "string option"

datatype upload = AsIs media | NamedFile string string | Unnamed string

datatype call = Call int string upload

record world =
  calls :: "(call \<times> answer) list"
  naps :: "real list"
  offline :: bool
  health_failures :: nat
  users_db :: db

definition issue :: "(nat \<Rightarrow> answer) \<Rightarrow> call \<Rightarrow> world \<Rightarrow> answer \<times> world" where
  "issue api q w = (let r = api (length (calls w)) in (r, w\<lparr>calls := calls w @ [(q, r)]\<rparr>))"

definition nap :: "real \<Rightarrow> world \<Rightarrow> world" where
  "nap t w = w\<lparr>naps := naps w @ [t]\<rparr>"

definition reset_telegram_cb :: "world \<Rightarrow> world" where
  "reset_telegram_cb w = w\<lparr>offline := False, health_failures := 0\<rparr>"

text \<open>\<open>db.set_user_blocked\<close>, for a private chat. The write is taken to succeed; the code swallows a failing one and
  goes on, and the user then stays unmarked.\<close>

definition note_blocked :: "int \<Rightarrow> world \<Rightarrow> world" where
  "note_blocked chat w = (if chat > 0 then w\<lparr>users_db := set_user_blocked (users_db w) chat\<rparr> else w)"

definition RETRY_BACKOFF_SLEEP_MAX :: real where
  "RETRY_BACKOFF_SLEEP_MAX = 30"

definition RETRY_BACKOFF_BASE_MAX :: real where
  "RETRY_BACKOFF_BASE_MAX = 60"

definition TELEGRAM_RETRY_MAX_ATTEMPTS :: nat where
  "TELEGRAM_RETRY_MAX_ATTEMPTS = 3"

definition TELEGRAM_RETRY_BASE_DELAY :: real where
  "TELEGRAM_RETRY_BASE_DELAY = 1 / 2"

definition TELEGRAM_RETRY_MAX_DELAY :: real where
  "TELEGRAM_RETRY_MAX_DELAY = 30"

text \<open>
  The environment variable that scales the waits: absent, a text that is no finite number
  (\<open>Some None\<close>), or a number.
\<close>

definition retry_backoff_base :: "real option option \<Rightarrow> real" where
  "retry_backoff_base raw =
     (case raw of
        None \<Rightarrow> 1
      | Some None \<Rightarrow> 1
      | Some (Some v) \<Rightarrow> if v \<le> 0 then 1 else if v > RETRY_BACKOFF_BASE_MAX then RETRY_BACKOFF_BASE_MAX else v)"

definition retry_sleep :: "real option option \<Rightarrow> nat \<Rightarrow> real" where
  "retry_sleep raw attempt = min (retry_backoff_base raw * 2 ^ attempt) RETRY_BACKOFF_SLEEP_MAX"

section \<open>The send core\<close>

text \<open>The content, the file name and whether the media is an \<open>InputFile\<close>.\<close>

definition capture_media_bytes :: "media \<Rightarrow> string option \<Rightarrow> string option \<times> string option \<times> bool" where
  "capture_media_bytes m filename_hint =
     (case m of
        Handle _ \<Rightarrow> (None, filename_hint, False)
      | Buffer content name \<Rightarrow> (content, (case filename_hint of None \<Rightarrow> name | Some f \<Rightarrow> Some f), False)
      | InputFile content name \<Rightarrow> (content, (case none_if_empty name of None \<Rightarrow> filename_hint | Some f \<Rightarrow> Some f), True))"

text \<open>\<open>to_send\<close>, rebuilt for every attempt.\<close>

definition to_send :: "string option \<Rightarrow> media \<Rightarrow> string option \<Rightarrow> upload" where
  "to_send media_kw m filename =
     (if media_kw = None then AsIs m
      else case capture_media_bytes m filename of
        (None, _, _) \<Rightarrow> AsIs m
      | (Some b, fname, True) \<Rightarrow>
          NamedFile b (case none_if_empty fname of Some f \<Rightarrow> f | None \<Rightarrow> if media_kw = Some ''voice'' then ''voice.mp3'' else ''file.db'')
      | (Some b, fname, False) \<Rightarrow> (case none_if_empty fname of Some f \<Rightarrow> NamedFile b f | None \<Rightarrow> Unnamed b))"

definition SEND_METHOD_ALLOWLIST :: "string list" where
  "SEND_METHOD_ALLOWLIST = [''send_message'', ''send_voice'', ''send_document'']"

definition SEND_MEDIA_EXPECTED :: "string \<Rightarrow> string option" where
  "SEND_MEDIA_EXPECTED method = (if method = ''send_voice'' then Some ''voice'' else if method = ''send_document'' then Some ''document'' else None)"

text \<open>
  The loop of \<open>range(3)\<close>, by the attempts that are left. \<open>Inr None\<close> would be the end of the loop with
  no attempt left.
\<close>

fun send_attempts :: "(nat \<Rightarrow> answer) \<Rightarrow> bool \<Rightarrow> int \<Rightarrow> call \<Rightarrow> nat \<Rightarrow> world \<Rightarrow> (tg_error + sent_message option) \<times> world" where
  "send_attempts api reset chat q 0 w = (Inr None, w)"
| "send_attempts api reset chat q (Suc k) w =
     (let (r, w) = issue api q w in
      case r of
        Inr m \<Rightarrow> (Inr (Some m), if reset then reset_telegram_cb w else w)
      | Inl Forbidden \<Rightarrow> (Inl Forbidden, note_blocked chat w)
      | Inl (RetryAfter t) \<Rightarrow>
          if k = 0 then (Inl (RetryAfter t), w)
          else send_attempts api reset chat q k (nap (min t RETRY_BACKOFF_SLEEP_MAX) w)
      | Inl e \<Rightarrow> (Inl e, w))"

text \<open>\<open>None\<close> is the \<open>ValueError\<close> of a wrong method or media keyword.\<close>

definition send_media_with_retry ::
    "(nat \<Rightarrow> answer) \<Rightarrow> int \<Rightarrow> string \<Rightarrow> string option \<Rightarrow> media \<Rightarrow> string option \<Rightarrow> bool \<Rightarrow> world
      \<Rightarrow> ((tg_error + sent_message option) \<times> world) option" where
  "send_media_with_retry api chat method media_kw m filename reset w =
     (if method \<notin> set SEND_METHOD_ALLOWLIST then None
      else if media_kw \<notin> {None, Some ''voice'', Some ''document''} then None
      else if SEND_MEDIA_EXPECTED method \<noteq> media_kw then None
      else Some (send_attempts api reset chat (Call chat method (to_send media_kw m filename)) 3 w))"

definition send_with_retry :: "(nat \<Rightarrow> answer) \<Rightarrow> int \<Rightarrow> string \<Rightarrow> bool \<Rightarrow> world \<Rightarrow> ((tg_error + sent_message option) \<times> world) option" where
  "send_with_retry api chat body reset w = send_media_with_retry api chat ''send_message'' None (Handle body) None reset w"

section \<open>Edits and deletions\<close>

text \<open>
  \<open>_execute_telegram_action_with_retry\<close> around an action; \<open>uniform\<close> is the random number of a wait.
\<close>

fun action_attempts ::
    "(world \<Rightarrow> answer \<times> world) \<Rightarrow> (nat \<Rightarrow> real \<Rightarrow> real \<Rightarrow> real) \<Rightarrow> bool \<Rightarrow> bool \<Rightarrow> nat \<Rightarrow> world
      \<Rightarrow> (tg_error + sent_message option) \<times> world" where
  "action_attempts action uniform idempotent reset 0 w = (Inr None, w)"
| "action_attempts action uniform idempotent reset (Suc k) w =
     (let (r, w) = action w; attempt = TELEGRAM_RETRY_MAX_ATTEMPTS - k in
      case r of
        Inr m \<Rightarrow> (Inr (Some m), if reset then reset_telegram_cb w else w)
      | Inl (RetryAfter t) \<Rightarrow>
          if t > TELEGRAM_RETRY_MAX_DELAY then (Inl (RetryAfter t), w)
          else if k = 0 then (Inl (RetryAfter t), w)
          else action_attempts action uniform idempotent reset k (nap t w)
      | Inl e \<Rightarrow>
          if e \<noteq> BadRequest \<and> is_network_error e then
            (if \<not> idempotent then (Inl e, w)
             else if k = 0 then (Inl e, w)
             else let exp_delay = TELEGRAM_RETRY_BASE_DELAY * 2 ^ (attempt - 1)
                  in action_attempts action uniform idempotent reset k
                       (nap (uniform (length (naps w)) (1 / 10) (min exp_delay TELEGRAM_RETRY_MAX_DELAY)) w))
          else (Inl e, w))"

definition execute_telegram_action_with_retry ::
    "(world \<Rightarrow> answer \<times> world) \<Rightarrow> (nat \<Rightarrow> real \<Rightarrow> real \<Rightarrow> real) \<Rightarrow> bool \<Rightarrow> bool \<Rightarrow> world \<Rightarrow> (tg_error + sent_message option) \<times> world" where
  "execute_telegram_action_with_retry action uniform idempotent reset w =
     action_attempts action uniform idempotent reset TELEGRAM_RETRY_MAX_ATTEMPTS w"

definition issue_noting_block :: "(nat \<Rightarrow> answer) \<Rightarrow> int \<Rightarrow> call \<Rightarrow> world \<Rightarrow> answer \<times> world" where
  "issue_noting_block api chat q w =
     (case issue api q w of (r, w') \<Rightarrow> (r, if r = Inl Forbidden then note_blocked chat w' else w'))"

definition edit_message_with_retry ::
    "(nat \<Rightarrow> answer) \<Rightarrow> (nat \<Rightarrow> real \<Rightarrow> real \<Rightarrow> real) \<Rightarrow> int \<Rightarrow> string \<Rightarrow> bool \<Rightarrow> world \<Rightarrow> (tg_error + sent_message option) \<times> world" where
  "edit_message_with_retry api uniform chat body reset w =
     execute_telegram_action_with_retry (issue_noting_block api chat (Call chat ''edit_message_text'' (AsIs (Handle body))))
       uniform True reset w"

text \<open>The loops of \<open>_edit_with_retry\<close> (no clause for \<open>Forbidden\<close>), \<open>_edit_markup_with_retry\<close> and \<open>_delete_with_retry\<close>.\<close>

fun edit_attempts ::
    "(world \<Rightarrow> answer \<times> world) \<Rightarrow> real option option \<Rightarrow> bool \<Rightarrow> nat \<Rightarrow> world \<Rightarrow> (tg_error + sent_message option) \<times> world" where
  "edit_attempts action raw reset 0 w = (Inr None, w)"
| "edit_attempts action raw reset (Suc k) w =
     (let (r, w) = action w; attempt = 2 - k in
      case r of
        Inr m \<Rightarrow> (Inr (Some m), if reset then reset_telegram_cb w else w)
      | Inl (RetryAfter t) \<Rightarrow>
          if k = 0 then (Inl (RetryAfter t), w)
          else edit_attempts action raw reset k (nap (min t RETRY_BACKOFF_SLEEP_MAX) w)
      | Inl e \<Rightarrow>
          if e \<noteq> BadRequest \<and> is_network_error e then
            (if k = 0 then (Inl e, w) else edit_attempts action raw reset k (nap (retry_sleep raw attempt) w))
          else (Inl e, w))"

definition edit_with_retry :: "(nat \<Rightarrow> answer) \<Rightarrow> real option option \<Rightarrow> int \<Rightarrow> string \<Rightarrow> bool \<Rightarrow> world \<Rightarrow> (tg_error + sent_message option) \<times> world" where
  "edit_with_retry api raw chat body reset w =
     edit_attempts (issue api (Call chat ''edit_message_text'' (AsIs (Handle body)))) raw reset 3 w"

definition edit_markup_with_retry :: "(nat \<Rightarrow> answer) \<Rightarrow> real option option \<Rightarrow> int \<Rightarrow> string \<Rightarrow> bool \<Rightarrow> world \<Rightarrow> (tg_error + sent_message option) \<times> world" where
  "edit_markup_with_retry api raw chat markup reset w =
     edit_attempts (issue_noting_block api chat (Call chat ''edit_message_reply_markup'' (AsIs (Handle markup)))) raw reset 3 w"

definition delete_with_retry :: "(nat \<Rightarrow> answer) \<Rightarrow> real option option \<Rightarrow> int \<Rightarrow> string \<Rightarrow> bool \<Rightarrow> world \<Rightarrow> (tg_error + sent_message option) \<times> world" where
  "delete_with_retry api raw chat message_ref reset w =
     edit_attempts (issue_noting_block api chat (Call chat ''delete_message'' (AsIs (Handle message_ref)))) raw reset 3 w"

section \<open>Bounded retries\<close>

text \<open>
  What all loops share: a step makes one call, whose end the log shows, and either is the last or is
  followed by a wait of at most \<open>cap\<close> seconds. \<open>mark\<close> is what a final \<open>Forbidden\<close> does to the database.
\<close>

locale bounded_retry =
  fixes step :: "world \<Rightarrow> answer \<times> world"
    and again :: "nat \<Rightarrow> tg_error \<Rightarrow> world \<Rightarrow> real option"
    and loop :: "nat \<Rightarrow> world \<Rightarrow> (tg_error + sent_message option) \<times> world"
    and q :: call and cap :: real and mark :: "db \<Rightarrow> db" and retryable :: "tg_error \<Rightarrow> bool"
  assumes loop_Suc: "loop (Suc k) w =
      (case step w of
         (Inr m, w1) \<Rightarrow> (Inr (Some m), w1)
       | (Inl e, w1) \<Rightarrow> (case again k e w1 of None \<Rightarrow> (Inl e, w1) | Some t \<Rightarrow> loop k (nap t w1)))"
    and again_0: "again 0 e w = None"
    and again_Some: "again k e w = Some t \<Longrightarrow> t \<le> cap \<and> retryable e \<and> e \<noteq> Forbidden"
    and step_calls: "calls (snd (step w)) = calls w @ [(q, fst (step w))]"
    and step_naps: "naps (snd (step w)) = naps w"
    and step_db: "users_db (snd (step w)) = (if fst (step w) = Inl Forbidden then mark (users_db w) else users_db w)"
begin

text \<open>All answers but the last are errors after which the loop tries again.\<close>

definition traced :: "nat \<Rightarrow> world \<Rightarrow> tg_error + sent_message option \<Rightarrow> world \<Rightarrow> bool" where
  "traced k w res w' \<longleftrightarrow> (\<exists>es r ts. calls w' = calls w @ map (\<lambda>x. (q, x)) (map Inl es @ [r]) \<and>
     length es \<le> k \<and> (\<forall>e \<in> set es. retryable e) \<and> res = map_sum id Some r \<and>
     naps w' = naps w @ ts \<and> length ts = length es \<and> (\<forall>t \<in> set ts. t \<le> cap) \<and>
     users_db w' = (if r = Inl Forbidden then mark (users_db w) else users_db w))"

lemma traced_last:
  assumes "step w = (r, w1)"
  shows "traced k w (map_sum id Some r) w1"
  unfolding traced_def using assms step_calls [of w] step_naps [of w] step_db [of w]
  by (intro exI [of _ "[]"] exI [of _ r]) simp

lemma loop_traced: "loop (Suc k) w = (res, w') \<Longrightarrow> traced k w res w'"
proof (induction k arbitrary: w)
  case 0
  obtain r w1 where s: "step w = (r, w1)" by (cases "step w")
  have "res = map_sum id Some r \<and> w' = w1" using 0 s by (cases r) (auto simp: loop_Suc [of 0] again_0)
  then show ?case using traced_last [OF s] by simp
next
  case (Suc k)
  obtain r w1 where s: "step w = (r, w1)" by (cases "step w")
  show ?case
  proof (cases "\<exists>e t. r = Inl e \<and> again (Suc k) e w1 = Some t")
    case False
    then have "res = map_sum id Some r \<and> w' = w1"
      using Suc.prems s by (cases r) (auto simp: loop_Suc [of "Suc k"] split: option.splits)
    then show ?thesis using traced_last [OF s] by simp
  next
    case True
    then obtain e t where e: "r = Inl e" "again (Suc k) e w1 = Some t" by blast
    then have "loop (Suc k) (nap t w1) = (res, w')" using Suc.prems s by (simp add: loop_Suc [of "Suc k"])
    from Suc.IH [OF this, unfolded traced_def] obtain es r' ts where
      t: "calls w' = calls (nap t w1) @ map (\<lambda>x. (q, x)) (map Inl es @ [r'])" "length es \<le> k" "\<forall>e \<in> set es. retryable e"
        "res = map_sum id Some r'" "naps w' = naps (nap t w1) @ ts" "length ts = length es" "\<forall>t \<in> set ts. t \<le> cap"
        "users_db w' = (if r' = Inl Forbidden then mark (users_db (nap t w1)) else users_db (nap t w1))"
      by blast
    have w1: "calls w1 = calls w @ [(q, Inl e)]" "naps w1 = naps w" "users_db w1 = users_db w"
      using step_calls [of w] step_naps [of w] step_db [of w] s e again_Some [OF e(2)] by simp_all
    have "calls w' = calls w @ map (\<lambda>x. (q, x)) (map Inl (e # es) @ [r'])" "naps w' = naps w @ (t # ts)"
      using t(1,5) w1 by (simp_all add: nap_def)
    moreover have "users_db w' = (if r' = Inl Forbidden then mark (users_db w) else users_db w)"
      using t(8) w1(3) by (simp add: nap_def)
    ultimately show ?thesis
      unfolding traced_def using t(2-4,6,7) again_Some [OF e(2)]
      by (intro exI [of _ "e # es"] exI [of _ r'] exI [of _ "t # ts"]) simp
  qed
qed

end

text \<open>The send loop, the action loop and the edit loop meet the contract.\<close>

definition send_step :: "(nat \<Rightarrow> answer) \<Rightarrow> bool \<Rightarrow> int \<Rightarrow> call \<Rightarrow> world \<Rightarrow> answer \<times> world" where
  "send_step api reset chat q w =
     (case issue_noting_block api chat q w of
        (Inr m, w1) \<Rightarrow> (Inr m, if reset then reset_telegram_cb w1 else w1)
      | (Inl e, w1) \<Rightarrow> (Inl e, w1))"

definition send_again :: "nat \<Rightarrow> tg_error \<Rightarrow> world \<Rightarrow> real option" where
  "send_again k e w = (case e of RetryAfter t \<Rightarrow> if k = 0 then None else Some (min t RETRY_BACKOFF_SLEEP_MAX) | _ \<Rightarrow> None)"

definition mark_blocked :: "int \<Rightarrow> db \<Rightarrow> db" where
  "mark_blocked chat s = (if chat > 0 then set_user_blocked s chat else s)"

fun refused :: "tg_error \<Rightarrow> bool" where
  "refused (RetryAfter _) = True"
| "refused _ = False"

lemmas step_defs = issue_def issue_noting_block_def note_blocked_def reset_telegram_cb_def Let_def

interpretation send_loop: bounded_retry "send_step api reset chat q" send_again "send_attempts api reset chat q" q
    RETRY_BACKOFF_SLEEP_MAX "mark_blocked chat" refused
  for api :: "nat \<Rightarrow> answer" and reset :: bool and chat :: int and q :: call
proof unfold_locales
  show "send_attempts api reset chat q (Suc k) w =
      (case send_step api reset chat q w of
         (Inr m, w1) \<Rightarrow> (Inr (Some m), w1)
       | (Inl e, w1) \<Rightarrow> (case send_again k e w1 of None \<Rightarrow> (Inl e, w1) | Some t \<Rightarrow> send_attempts api reset chat q k (nap t w1)))" for k w
    by (cases "api (length (calls w))") (auto simp: send_step_def send_again_def step_defs split: tg_error.splits)
qed (auto simp: send_step_def send_again_def step_defs mark_blocked_def split: tg_error.splits sum.splits if_splits)

definition action_again :: "(nat \<Rightarrow> real \<Rightarrow> real \<Rightarrow> real) \<Rightarrow> bool \<Rightarrow> nat \<Rightarrow> tg_error \<Rightarrow> world \<Rightarrow> real option" where
  "action_again uniform idempotent k e w =
     (case e of
        RetryAfter t \<Rightarrow> if t > TELEGRAM_RETRY_MAX_DELAY \<or> k = 0 then None else Some t
      | _ \<Rightarrow> if e \<noteq> BadRequest \<and> is_network_error e \<and> idempotent \<and> k \<noteq> 0
             then Some (uniform (length (naps w)) (1 / 10) (min (TELEGRAM_RETRY_BASE_DELAY * 2 ^ (TELEGRAM_RETRY_MAX_ATTEMPTS - k - 1)) TELEGRAM_RETRY_MAX_DELAY))
             else None)"

definition edit_again :: "real option option \<Rightarrow> nat \<Rightarrow> tg_error \<Rightarrow> world \<Rightarrow> real option" where
  "edit_again raw k e w =
     (case e of
        RetryAfter t \<Rightarrow> if k = 0 then None else Some (min t RETRY_BACKOFF_SLEEP_MAX)
      | _ \<Rightarrow> if e \<noteq> BadRequest \<and> is_network_error e \<and> k \<noteq> 0 then Some (retry_sleep raw (2 - k)) else None)"

text \<open>After which errors a repeated call is harmless when the action is idempotent.\<close>

definition transient :: "tg_error \<Rightarrow> bool" where
  "transient e \<longleftrightarrow> refused e \<or> e = TimedOut \<or> e = NetworkError"

definition plain_step :: "(nat \<Rightarrow> answer) \<Rightarrow> bool \<Rightarrow> call \<Rightarrow> world \<Rightarrow> answer \<times> world" where
  "plain_step api reset q w =
     (case issue api q w of
        (Inr m, w1) \<Rightarrow> (Inr m, if reset then reset_telegram_cb w1 else w1)
      | (Inl e, w1) \<Rightarrow> (Inl e, w1))"

interpretation edit_loop: bounded_retry "send_step api reset chat q" "edit_again raw"
    "edit_attempts (issue_noting_block api chat q) raw reset" q RETRY_BACKOFF_SLEEP_MAX "mark_blocked chat" transient
  for api :: "nat \<Rightarrow> answer" and reset :: bool and chat :: int and q :: call and raw :: "real option option"
proof unfold_locales
  show "edit_attempts (issue_noting_block api chat q) raw reset (Suc k) w =
      (case send_step api reset chat q w of
         (Inr m, w1) \<Rightarrow> (Inr (Some m), w1)
       | (Inl e, w1) \<Rightarrow> (case edit_again raw k e w1 of None \<Rightarrow> (Inl e, w1)
           | Some t \<Rightarrow> edit_attempts (issue_noting_block api chat q) raw reset k (nap t w1)))" for k w
    by (cases "api (length (calls w))") (auto simp: send_step_def edit_again_def step_defs split: tg_error.splits)
qed (auto simp: send_step_def edit_again_def step_defs mark_blocked_def transient_def retry_sleep_def
      split: tg_error.splits sum.splits if_splits)

interpretation plain_edit_loop: bounded_retry "plain_step api reset q" "edit_again raw"
    "edit_attempts (issue api q) raw reset" q RETRY_BACKOFF_SLEEP_MAX "\<lambda>s. s" transient
  for api :: "nat \<Rightarrow> answer" and reset :: bool and q :: call and raw :: "real option option"
proof unfold_locales
  show "edit_attempts (issue api q) raw reset (Suc k) w =
      (case plain_step api reset q w of
         (Inr m, w1) \<Rightarrow> (Inr (Some m), w1)
       | (Inl e, w1) \<Rightarrow> (case edit_again raw k e w1 of None \<Rightarrow> (Inl e, w1)
           | Some t \<Rightarrow> edit_attempts (issue api q) raw reset k (nap t w1)))" for k w
    by (cases "api (length (calls w))") (auto simp: plain_step_def edit_again_def step_defs split: tg_error.splits)
qed (auto simp: plain_step_def edit_again_def step_defs transient_def retry_sleep_def split: tg_error.splits sum.splits if_splits)

text \<open>The action loop meets it for a random number that stays below its upper bound.\<close>

definition bounded_above :: "(nat \<Rightarrow> real \<Rightarrow> real \<Rightarrow> real) \<Rightarrow> bool" where
  "bounded_above uniform \<longleftrightarrow> (\<forall>n a b. a \<le> b \<longrightarrow> uniform n a b \<le> b)"

lemma action_loop:
  assumes "bounded_above uniform"
  shows "bounded_retry (send_step api reset chat q) (action_again uniform idempotent)
    (action_attempts (issue_noting_block api chat q) uniform idempotent reset) q RETRY_BACKOFF_SLEEP_MAX (mark_blocked chat) transient"
proof unfold_locales
  show "action_attempts (issue_noting_block api chat q) uniform idempotent reset (Suc k) w =
      (case send_step api reset chat q w of
         (Inr m, w1) \<Rightarrow> (Inr (Some m), w1)
       | (Inl e, w1) \<Rightarrow> (case action_again uniform idempotent k e w1 of None \<Rightarrow> (Inl e, w1)
           | Some t \<Rightarrow> action_attempts (issue_noting_block api chat q) uniform idempotent reset k (nap t w1)))" for k w
    by (cases "api (length (calls w))") (auto simp: send_step_def action_again_def step_defs split: tg_error.splits)
  have "uniform n (1 / 10) (min (TELEGRAM_RETRY_BASE_DELAY * 2 ^ i) TELEGRAM_RETRY_MAX_DELAY) \<le> RETRY_BACKOFF_SLEEP_MAX" for n i
  proof -
    have "1 / 10 \<le> (1 / 2) * (2::real) ^ i" using one_le_power [of "2::real" i] by linarith
    then have "1 / 10 \<le> min (TELEGRAM_RETRY_BASE_DELAY * 2 ^ i) TELEGRAM_RETRY_MAX_DELAY"
      unfolding TELEGRAM_RETRY_BASE_DELAY_def TELEGRAM_RETRY_MAX_DELAY_def by (rule min.boundedI) simp
    then have "uniform n (1 / 10) (min (TELEGRAM_RETRY_BASE_DELAY * 2 ^ i) TELEGRAM_RETRY_MAX_DELAY) \<le>
        min (TELEGRAM_RETRY_BASE_DELAY * 2 ^ i) TELEGRAM_RETRY_MAX_DELAY" using assms unfolding bounded_above_def by blast
    then show ?thesis by (simp add: TELEGRAM_RETRY_MAX_DELAY_def RETRY_BACKOFF_SLEEP_MAX_def)
  qed
  then show "action_again uniform idempotent k e w = Some t \<Longrightarrow> t \<le> RETRY_BACKOFF_SLEEP_MAX \<and> transient e \<and> e \<noteq> Forbidden" for k e w t
    by (auto simp: action_again_def transient_def TELEGRAM_RETRY_MAX_DELAY_def RETRY_BACKOFF_SLEEP_MAX_def split: tg_error.splits if_splits)
qed (auto simp: send_step_def action_again_def step_defs mark_blocked_def split: tg_error.splits sum.splits if_splits)

section \<open>What the loops guarantee\<close>

text \<open>The bytes a media value carries and those an upload carries.\<close>

fun media_bytes :: "media \<Rightarrow> string option" where
  "media_bytes (Handle _) = None"
| "media_bytes (Buffer b _) = b"
| "media_bytes (InputFile b _) = b"

fun upload_bytes :: "upload \<Rightarrow> string option" where
  "upload_bytes (AsIs m) = None"
| "upload_bytes (NamedFile b _) = Some b"
| "upload_bytes (Unnamed b) = Some b"

lemma to_send_bytes: "media_kw \<noteq> None \<Longrightarrow> upload_bytes (to_send media_kw m filename) = media_bytes m"
  by (cases m) (auto simp: to_send_def capture_media_bytes_def split: option.splits)

lemma send_traced:
  assumes "send_media_with_retry api chat method media_kw m filename reset w = Some (res, w')"
  shows "\<exists>es r ts. calls w' = calls w @ map (\<lambda>x. (Call chat method (to_send media_kw m filename), x)) (map Inl es @ [r]) \<and>
     length es \<le> 2 \<and> (\<forall>e \<in> set es. refused e) \<and> res = map_sum id Some r \<and>
     naps w' = naps w @ ts \<and> length ts = length es \<and> (\<forall>t \<in> set ts. t \<le> 30) \<and>
     users_db w' = (if r = Inl Forbidden \<and> chat > 0 then set_user_blocked (users_db w) chat else users_db w)"
proof -
  have "send_attempts api reset chat (Call chat method (to_send media_kw m filename)) (Suc 2) w = (res, w')"
    using assms by (simp add: send_media_with_retry_def numeral_3_eq_3 numeral_2_eq_2 split: if_splits)
  from send_loop.loop_traced [OF this, unfolded send_loop.traced_def] obtain es r ts where
    t: "calls w' = calls w @ map (\<lambda>x. (Call chat method (to_send media_kw m filename), x)) (map Inl es @ [r])"
      "length es \<le> 2" "\<forall>e \<in> set es. refused e" "res = map_sum id Some r" "naps w' = naps w @ ts" "length ts = length es"
      "\<forall>t \<in> set ts. t \<le> RETRY_BACKOFF_SLEEP_MAX"
      "users_db w' = (if r = Inl Forbidden then mark_blocked chat (users_db w) else users_db w)"
    by blast
  have "users_db w' = (if r = Inl Forbidden \<and> chat > 0 then set_user_blocked (users_db w) chat else users_db w)"
    using t(8) by (simp add: mark_blocked_def)
  with t(1-7) show ?thesis unfolding RETRY_BACKOFF_SLEEP_MAX_def by (intro exI conjI) assumption+
qed

text \<open>C12: a message is sent at most once. Sending calls the Bot API at most three times, always with the same
  upload, which carries all the bytes of the media. Every call but the last was refused with a
  wait, so nothing was delivered by it; the answer of the last one is what the caller gets,
  and an error after which the message may have arrived is always the last. No wait is longer than
  thirty seconds, and the only change of the database is the note that a user blocked the bot.\<close>

theorem message_sent_at_most_once:
  assumes "send_media_with_retry api chat method media_kw m filename reset w = Some (res, w')"
  shows "\<exists>es r ts. calls w' = calls w @ map (\<lambda>x. (Call chat method (to_send media_kw m filename), x)) (map Inl es @ [r]) \<and>
     length es \<le> 2 \<and> (\<forall>e \<in> set es. \<exists>t. e = RetryAfter t) \<and> res = map_sum id Some r \<and>
     (media_kw \<noteq> None \<longrightarrow> upload_bytes (to_send media_kw m filename) = media_bytes m) \<and>
     naps w' = naps w @ ts \<and> length ts = length es \<and> (\<forall>t \<in> set ts. t \<le> 30) \<and>
     users_db w' = (if r = Inl Forbidden \<and> chat > 0 then set_user_blocked (users_db w) chat else users_db w)"
proof -
  obtain es r ts where t: "calls w' = calls w @ map (\<lambda>x. (Call chat method (to_send media_kw m filename), x)) (map Inl es @ [r])"
    "length es \<le> 2" "\<forall>e \<in> set es. refused e" "res = map_sum id Some r" "naps w' = naps w @ ts" "length ts = length es" "\<forall>t \<in> set ts. t \<le> 30"
    "users_db w' = (if r = Inl Forbidden \<and> chat > 0 then set_user_blocked (users_db w) chat else users_db w)"
    using send_traced [OF assms] by blast
  have "\<exists>t. e = RetryAfter t" if "e \<in> set es" for e using t(3) that by (cases e) auto
  then show ?thesis using t to_send_bytes by (intro exI [of _ es] exI [of _ r] exI [of _ ts]) blast
qed

text \<open>An edit or a deletion ends after at most three calls and at most a minute of waiting, with the answer
  of the last call. Calls are repeated only after a refusal with a wait, a timeout or a network
  error, never after a bad request or a block.\<close>

theorem edits_end_in_time:
  assumes "bounded_above uniform"
    and "f \<in> {edit_message_with_retry api uniform chat body reset, edit_with_retry api raw chat body reset,
       edit_markup_with_retry api raw chat body reset, delete_with_retry api raw chat body reset}"
    and "f w = (res, w')"
  shows "\<exists>q es r ts. calls w' = calls w @ map (\<lambda>x. (q, x)) (map Inl es @ [r]) \<and> length es \<le> 2 \<and>
     (\<forall>e \<in> set es. e \<noteq> BadRequest \<and> e \<noteq> Forbidden \<and> e \<noteq> OtherError) \<and> res = map_sum id Some r \<and>
     naps w' = naps w @ ts \<and> sum_list ts \<le> 60"
proof -
  have three: "(3::nat) = Suc 2" by simp
  have out: "\<exists>q es r ts. calls w' = calls w @ map (\<lambda>x. (q, x)) (map Inl es @ [r]) \<and> length es \<le> 2 \<and>
      (\<forall>e \<in> set es. e \<noteq> BadRequest \<and> e \<noteq> Forbidden \<and> e \<noteq> OtherError) \<and> res = map_sum id Some r \<and>
      naps w' = naps w @ ts \<and> sum_list ts \<le> 60"
    if l: "bounded_retry step again loop q RETRY_BACKOFF_SLEEP_MAX mark transient" and run: "loop (Suc 2) w = (res, w')" for step again loop q mark
  proof -
    from bounded_retry.loop_traced [OF l run] obtain es r ts where
      t: "calls w' = calls w @ map (\<lambda>x. (q, x)) (map Inl es @ [r])" "length es \<le> 2" "\<forall>e \<in> set es. transient e"
        "res = map_sum id Some r" "naps w' = naps w @ ts" "length ts = length es" "\<forall>t \<in> set ts. t \<le> RETRY_BACKOFF_SLEEP_MAX"
      unfolding bounded_retry.traced_def [OF l] by blast
    have "sum_list ts \<le> sum_list (map (\<lambda>_. 30) ts)" using t(7) by (intro sum_list_mono [of ts id, simplified]) (simp add: RETRY_BACKOFF_SLEEP_MAX_def)
    also have "\<dots> = 30 * real (length ts)" by (simp add: sum_list_triv)
    also have "\<dots> \<le> 60" using t(2,6) by simp
    finally have "sum_list ts \<le> 60" .
    moreover have "\<forall>e \<in> set es. e \<noteq> BadRequest \<and> e \<noteq> Forbidden \<and> e \<noteq> OtherError" using t(3) by (auto simp: transient_def)
    ultimately show ?thesis using t(1,2,4,5) by (intro exI conjI) assumption+
  qed
  show ?thesis using assms(2,3) unfolding insert_iff empty_iff
  proof (elim disjE)
    assume f: "f = edit_message_with_retry api uniform chat body reset"
    show ?thesis
      by (rule out [OF action_loop [OF assms(1)]])
        (use assms(3) in \<open>simp only: f edit_message_with_retry_def execute_telegram_action_with_retry_def TELEGRAM_RETRY_MAX_ATTEMPTS_def three\<close>)
  next
    assume f: "f = edit_with_retry api raw chat body reset"
    show ?thesis by (rule out [OF plain_edit_loop.bounded_retry_axioms]) (use assms(3) in \<open>simp only: f edit_with_retry_def three\<close>)
  next
    assume f: "f = edit_markup_with_retry api raw chat body reset"
    show ?thesis by (rule out [OF edit_loop.bounded_retry_axioms]) (use assms(3) in \<open>simp only: f edit_markup_with_retry_def three\<close>)
  next
    assume f: "f = delete_with_retry api raw chat body reset"
    show ?thesis by (rule out [OF edit_loop.bounded_retry_axioms]) (use assms(3) in \<open>simp only: f delete_with_retry_def three\<close>)
  qed simp
qed

section \<open>Concrete calls\<close>

definition quiet_world :: world where
  "quiet_world = \<lparr>calls = [], naps = [], offline = True, health_failures = 2, users_db = empty_db\<rparr>"

definition sent :: sent_message where
  "sent = \<lparr>m_file_id = Some ''f'', m_unique_id = None, m_message_id = Some 7\<rparr>"

text \<open>The first call is refused with a long wait, the second one succeeds.\<close>

definition busy_api :: "nat \<Rightarrow> answer" where
  "busy_api n = (if n = 0 then Inl (RetryAfter 90) else Inr sent)"

theorem message_sent_at_most_once_witness:
  "\<exists>w'. send_media_with_retry busy_api 5 ''send_voice'' (Some ''voice'') (Buffer (Some ''bytes'') None) None True quiet_world = Some (Inr (Some sent), w') \<and>
     length (calls w') = 2 \<and> naps w' = [30] \<and> users_db w' = empty_db"
proof -
  obtain w' where run: "send_media_with_retry busy_api 5 ''send_voice'' (Some ''voice'') (Buffer (Some ''bytes'') None) None True quiet_world = Some (Inr (Some sent), w')"
    and n: "naps w' = [30]" "length (calls w') = 2"
    by (simp add: send_media_with_retry_def SEND_METHOD_ALLOWLIST_def SEND_MEDIA_EXPECTED_def numeral_3_eq_3 busy_api_def quiet_world_def
        issue_def nap_def reset_telegram_cb_def RETRY_BACKOFF_SLEEP_MAX_def Let_def)
  from message_sent_at_most_once [OF run] obtain r where "Inr (Some sent) = map_sum id Some r"
    "users_db w' = (if r = Inl Forbidden \<and> (5::int) > 0 then set_user_blocked (users_db quiet_world) 5 else users_db quiet_world)"
    by blast
  then have "users_db w' = empty_db" by (cases r) (auto simp: quiet_world_def)
  then show ?thesis using run n by blast
qed

theorem edits_end_in_time_witness:
  "\<exists>res w'. delete_with_retry (\<lambda>_. Inl TimedOut) None 5 ''m'' True quiet_world = (res, w') \<and>
     (\<exists>ts. naps w' = ts \<and> sum_list ts \<le> 60)"
proof -
  obtain res w' where run: "delete_with_retry (\<lambda>_. Inl TimedOut) None 5 ''m'' True quiet_world = (res, w')" by fastforce
  have "bounded_above (\<lambda>n a b. b)" by (simp add: bounded_above_def)
  from edits_end_in_time [where f = "delete_with_retry (\<lambda>_. Inl TimedOut) None 5 ''m'' True" and raw = None and chat = 5 and body = "''m''"
      and reset = True and api = "\<lambda>_. Inl TimedOut", OF this _ run]
  show ?thesis using run by (auto simp: quiet_world_def)
qed

end
