(* ===== verification/Speech.thy ===== *)
theory Speech imports Delivery Queries begin

text \<open>
  Spoken pronunciations: the keys and captions of \<open>services/tts.py\<close>, the cache of uploaded voices with
  its purge, \<open>services/tts_cache.py\<close>, and the service that speaks a word, \<open>services/tts_service.py\<close>. The
  speech generator, the digest that names a file and the failures of files and of the cache
  database are parameters.
\<close>

section \<open>Keys and captions\<close>

definition normalize_tts_text :: "string \<Rightarrow> string" where
  "normalize_tts_text t = join_sp (py_split t)"

text \<open>\<open>ellipsis\<close> is the character that marks a cut.\<close>

definition tts_caption :: "char \<Rightarrow> string \<Rightarrow> string" where
  "tts_caption ellipsis t =
     (let norm_text = normalize_tts_text t in if length norm_text > 1024 then take 1023 norm_text @ [ellipsis] else norm_text)"

definition tts_cache_key :: "unicode \<Rightarrow> string \<Rightarrow> string \<Rightarrow> string" where
  "tts_cache_key u t lang = lang @ '':'' @ casefold u (join_sp (py_split (nfc u t)))"

definition CACHE_KEY_HASH_LEN :: nat where
  "CACHE_KEY_HASH_LEN = 16"

definition mp3_path_for_cache_key :: "(string \<Rightarrow> string) \<Rightarrow> string \<Rightarrow> string" where
  "mp3_path_for_cache_key digest key = take CACHE_KEY_HASH_LEN (digest key) @ ''.mp3''"

section \<open>The cache\<close>

record tts_row =
  t_key :: string
  t_lang :: string
  t_text :: string
  t_file_id :: string
  t_unique_id :: string
  t_channel_message :: "int option"
  t_created :: stamp
  t_last_used :: stamp

text \<open>The table, the copy in memory with the most recently used entry last, and the sizes of the files.\<close>

record tts_store =
  rows :: "tts_row list"
  lru :: "(string \<times> tts_row) list"
  mp3 :: "string \<Rightarrow> nat option"

definition LRU_CAP :: nat where
  "LRU_CAP = 3000"

definition lru_put :: "string \<Rightarrow> tts_row \<Rightarrow> (string \<times> tts_row) list \<Rightarrow> (string \<times> tts_row) list" where
  "lru_put key d l =
     (let l' = filter (\<lambda>e. fst e \<noteq> key) l @ [(key, d)] in if length l' > LRU_CAP then tl l' else l')"

text \<open>\<open>can_read\<close>: the row can be read; \<open>can_touch\<close>: the time of use can be written.\<close>

definition get_cached :: "('a clock_scheme) \<Rightarrow> bool \<Rightarrow> bool \<Rightarrow> string \<Rightarrow> tts_store \<Rightarrow> tts_row option \<times> tts_store" where
  "get_cached c can_read can_touch key s =
     (case map_of (lru s) key of
        Some d \<Rightarrow> (Some d, s\<lparr>lru := filter (\<lambda>e. fst e \<noteq> key) (lru s) @ [(key, d)]\<rparr>)
      | None \<Rightarrow>
          if \<not> can_read then (None, s)
          else case find (\<lambda>r. t_key r = key) (rows s) of
            None \<Rightarrow> (None, s)
          | Some row \<Rightarrow>
              let now = Stamp (utc_now c); d = row\<lparr>t_last_used := now\<rparr> in
              (Some d, s\<lparr>rows := (if can_touch then update_where (\<lambda>r. t_key r = key) (\<lambda>r. r\<lparr>t_last_used := now\<rparr>) (rows s) else rows s),
                         lru := lru_put key d (lru s)\<rparr>))"

definition put_cached :: "('a clock_scheme) \<Rightarrow> string \<Rightarrow> string \<Rightarrow> string \<Rightarrow> string \<Rightarrow> string \<Rightarrow> int option \<Rightarrow> tts_store \<Rightarrow> tts_store" where
  "put_cached c key lang body file_id unique_id channel_message s =
     (let now = Stamp (utc_now c);
          d = \<lparr>t_key = key, t_lang = lang, t_text = body, t_file_id = file_id, t_unique_id = unique_id,
               t_channel_message = channel_message, t_created = now, t_last_used = now\<rparr>
      in s\<lparr>rows := delete_where (\<lambda>r. t_key r = key) (rows s) @ [d], lru := lru_put key d (lru s)\<rparr>)"

definition clear_lru :: "tts_store \<Rightarrow> tts_store" where
  "clear_lru s = s\<lparr>lru := []\<rparr>"

text \<open>\<open>removable\<close>: the file of a key can be removed.\<close>

definition delete_rows_and_files :: "(string \<Rightarrow> string) \<Rightarrow> (string \<Rightarrow> bool) \<Rightarrow> string list \<Rightarrow> tts_store \<Rightarrow> tts_store" where
  "delete_rows_and_files digest removable keys s =
     (if keys = [] then s
      else s\<lparr>rows := delete_where (\<lambda>r. t_key r \<in> set keys) (rows s),
             lru := filter (\<lambda>e. fst e \<notin> set keys) (lru s),
             mp3 := fold (\<lambda>key files. if removable key then files(mp3_path_for_cache_key digest key := None) else files) keys (mp3 s)\<rparr>)"

definition MAX_BYTES :: int where
  "MAX_BYTES = 2 * 1024 * 1024 * 1024"

definition UNUSED_DAYS :: int where
  "UNUSED_DAYS = 90"

definition oldest_unused :: "('a clock_scheme) \<Rightarrow> string \<Rightarrow> nat \<Rightarrow> tts_store \<Rightarrow> string list" where
  "oldest_unused c cutoff batch s =
     map t_key (take batch (sort_key (\<lambda>r. stamp_text c (t_last_used r)) (filter (\<lambda>r. stamp_text c (t_last_used r) < cutoff) (rows s))))"

text \<open>The first pass; the deadline is the number of times it is checked before it has passed.\<close>

function evict_unused :: "('a clock_scheme) \<Rightarrow> (string \<Rightarrow> string) \<Rightarrow> (string \<Rightarrow> bool) \<Rightarrow> string \<Rightarrow> nat \<Rightarrow> nat option \<Rightarrow> tts_store \<Rightarrow> nat
    \<Rightarrow> nat \<times> nat option \<times> tts_store" where
  "evict_unused c digest removable cutoff batch budget s counted =
     (if budget = Some 0 then (counted, budget, s)
      else let keys = oldest_unused c cutoff batch s; budget' = map_option (\<lambda>b. b - 1) budget in
        if keys = [] then (counted, budget', s)
        else let s' = delete_rows_and_files digest removable keys s in
          if length keys < batch then (counted + length keys, budget', s')
          else evict_unused c digest removable cutoff batch budget' s' (counted + length keys))"
  by pat_completeness auto

text \<open>The shortest part of the list whose sizes make up for what is over the cap.\<close>

fun make_room :: "(string \<Rightarrow> int) \<Rightarrow> int \<Rightarrow> string list \<Rightarrow> string list" where
  "make_room bytes_of over [] = []"
| "make_room bytes_of over (key # keys) = key # (if bytes_of key \<ge> over then [] else make_room bytes_of (over - bytes_of key) keys)"

fun evict_chunks :: "(string \<Rightarrow> string) \<Rightarrow> (string \<Rightarrow> bool) \<Rightarrow> string list list \<Rightarrow> nat option \<Rightarrow> tts_store \<Rightarrow> nat \<Rightarrow> nat \<times> tts_store" where
  "evict_chunks digest removable [] budget s counted = (counted, s)"
| "evict_chunks digest removable (chunk # rest) budget s counted =
     (if budget = Some 0 then (counted, s)
      else evict_chunks digest removable rest (map_option (\<lambda>b. b - 1) budget)
             (delete_rows_and_files digest removable chunk s) (counted + length chunk))"

definition file_size :: "(string \<Rightarrow> string) \<Rightarrow> tts_store \<Rightarrow> string \<Rightarrow> int" where
  "file_size digest s key = int (or_else (mp3 s (mp3_path_for_cache_key digest key)) 0)"

definition oldest_used_first :: "('a clock_scheme) \<Rightarrow> tts_store \<Rightarrow> string list" where
  "oldest_used_first c s = map t_key (sort_key (\<lambda>r. (stamp_text c (t_last_used r), t_key r)) (rows s))"

definition evict_over_cap :: "('a clock_scheme) \<Rightarrow> (string \<Rightarrow> string) \<Rightarrow> (string \<Rightarrow> bool) \<Rightarrow> nat \<Rightarrow> int \<Rightarrow> nat option \<Rightarrow> tts_store \<Rightarrow> nat \<times> tts_store" where
  "evict_over_cap c digest removable batch max_bytes budget s =
     (if budget = Some 0 then (0, s)
      else let ordered = oldest_used_first c s; over = sum_list (map (file_size digest s) ordered) - max_bytes in
        if over > 0
        then evict_chunks digest removable (chunks batch (make_room (file_size digest s) over ordered)) (map_option (\<lambda>b. b - 1) budget) s 0
        else (0, s))"

lemma evict_unused_shrinks:
  assumes "oldest_unused c cutoff batch s \<noteq> []"
  shows "length (rows (delete_rows_and_files digest removable (oldest_unused c cutoff batch s) s)) < length (rows s)"
proof -
  let ?old = "sort_key (\<lambda>r. stamp_text c (t_last_used r)) (filter (\<lambda>r. stamp_text c (t_last_used r) < cutoff) (rows s))"
  have "take batch ?old \<noteq> []" using assms unfolding oldest_unused_def by blast
  then obtain r where r: "r \<in> set (take batch ?old)" by (meson ex_in_conv set_empty)
  then have "r \<in> set (rows s)" "t_key r \<in> set (oldest_unused c cutoff batch s)" by (auto simp: oldest_unused_def dest: in_set_takeD)
  then show ?thesis using assms by (auto simp: delete_rows_and_files_def delete_where_def intro: length_filter_less)
qed

termination evict_unused
  by (relation "measure (\<lambda>(c, digest, removable, cutoff, batch, budget, s, counted). length (rows s))") (auto simp: evict_unused_shrinks)

declare evict_unused.simps [simp del]

definition purge_tts_cache ::
    "('a clock_scheme) \<Rightarrow> (string \<Rightarrow> string) \<Rightarrow> (string \<Rightarrow> bool) \<Rightarrow> int \<Rightarrow> int \<Rightarrow> int \<Rightarrow> nat option \<Rightarrow> tts_store \<Rightarrow> (nat \<times> nat) \<times> tts_store" where
  "purge_tts_cache c digest removable batch max_bytes unused_days budget s =
     (let scan = nat (max 1 batch);
          cutoff = stamp_text c (Stamp (utc_now c - unused_days * day_us));
          (expired, budget1, s1) = evict_unused c digest removable cutoff scan budget s 0;
          (over_cap, s2) = evict_over_cap c digest removable scan max_bytes budget1 s1
      in ((expired, over_cap), s2))"

section \<open>The copy in memory agrees with the table\<close>

definition voice :: "tts_row \<Rightarrow> tts_row" where
  "voice r = r\<lparr>t_last_used := Stamp 0\<rparr>"

definition coherent :: "tts_store \<Rightarrow> bool" where
  "coherent s \<longleftrightarrow> distinct (map t_key (rows s)) \<and> distinct (map fst (lru s)) \<and> length (lru s) \<le> LRU_CAP \<and>
     (\<forall>(k, d) \<in> set (lru s). t_key d = k \<and> voice d \<in> voice ` set (rows s))"

lemma voice_key: "voice a = voice b \<Longrightarrow> t_key a = t_key b"
  by (cases a; cases b) (simp add: voice_def)

lemma voice_touch [simp]: "voice (r\<lparr>t_last_used := x\<rparr>) = voice r"
  by (simp add: voice_def)

lemma voice_touch_rows [simp]: "voice ` set (update_where p (\<lambda>r. r\<lparr>t_last_used := x\<rparr>) rs) = voice ` set rs"
proof -
  have "set (map voice (update_where p (\<lambda>r. r\<lparr>t_last_used := x\<rparr>) rs)) = set (map voice rs)"
    by (subst map_update_where) simp_all
  then show ?thesis by simp
qed

lemma LRU_CAP_pos: "1 \<le> LRU_CAP"
  by (simp add: LRU_CAP_def)

lemma set_lru_put: "set (lru_put key d l) \<subseteq> insert (key, d) {e \<in> set l. fst e \<noteq> key}"
  by (auto simp: lru_put_def Let_def dest: set_tlD)

lemma lru_put_ok:
  assumes "distinct (map fst l)" and "length l \<le> LRU_CAP"
  shows "distinct (map fst (lru_put key d l))" and "length (lru_put key d l) \<le> LRU_CAP" and "map_of (lru_put key d l) key = Some d"
proof -
  let ?l = "filter (\<lambda>e. fst e \<noteq> key) l @ [(key, d)]"
  have d: "distinct (map fst ?l)" using assms(1) by (auto simp: distinct_map_filter)
  then show "distinct (map fst (lru_put key d l))" by (simp add: lru_put_def Let_def map_tl distinct_tl)
  have "length (filter (\<lambda>e. fst e \<noteq> key) l) \<le> LRU_CAP" using assms(2) le_trans [OF length_filter_le] by blast
  then show "length (lru_put key d l) \<le> LRU_CAP" by (simp add: lru_put_def Let_def)
  have "(key, d) \<in> set (lru_put key d l)"
    using LRU_CAP_pos by (cases "filter (\<lambda>e. fst e \<noteq> key) l") (auto simp: lru_put_def Let_def)
  then show "map_of (lru_put key d l) key = Some d"
    using \<open>distinct (map fst (lru_put key d l))\<close> by simp
qed

lemma coherent_put: "coherent s \<Longrightarrow> coherent (put_cached c key lang body file_id unique_id channel_message s)"
proof -
  assume s: "coherent s"
  let ?s = "put_cached c key lang body file_id unique_id channel_message s"
  have "voice d \<in> voice ` set (rows ?s) \<and> t_key d = k" if e: "(k, d) \<in> set (lru ?s)" for k d
  proof -
    from e consider "k = key" "d = last (rows ?s)" "t_key d = key" | "(k, d) \<in> set (lru s)" "k \<noteq> key"
      using set_lru_put by (fastforce simp: put_cached_def Let_def)
    then show ?thesis
    proof cases
      case 1
      then show ?thesis by (auto simp: put_cached_def Let_def)
    next
      case 2
      then obtain r where "r \<in> set (rows s)" "voice d = voice r" "t_key d = k" using s by (auto simp: coherent_def)
      then have "r \<in> set (rows ?s)" using 2 voice_key [of d r] by (auto simp: put_cached_def Let_def)
      then show ?thesis using \<open>voice d = voice r\<close> \<open>t_key d = k\<close> by auto
    qed
  qed
  moreover have "distinct (map t_key (rows ?s))"
    using s by (auto simp: coherent_def put_cached_def Let_def delete_where_def distinct_map_filter)
  ultimately show ?thesis using s lru_put_ok(1,2) by (auto simp: coherent_def put_cached_def Let_def)
qed

lemma coherent_get: "coherent s \<Longrightarrow> coherent (snd (get_cached c can_read can_touch key s))"
proof (cases "map_of (lru s) key")
  case (Some d)
  assume s: "coherent s"
  have "length (filter (\<lambda>e. fst e \<noteq> key) (lru s)) < length (lru s)"
    using map_of_SomeD [OF Some] by (intro length_filter_less) auto
  moreover have "distinct (map fst (filter (\<lambda>e. fst e \<noteq> key) (lru s) @ [(key, d)]))"
    using s by (auto simp: coherent_def distinct_map_filter)
  ultimately show ?thesis using s Some map_of_SomeD [OF Some]
    by (auto simp: coherent_def get_cached_def)
next
  case None
  assume s: "coherent s"
  show ?thesis
  proof (cases "find (\<lambda>r. t_key r = key) (rows s)")
    case (Some row)
    note row = find_Some_D [OF Some]
    let ?s = "snd (get_cached c can_read can_touch key s)"
    show ?thesis
    proof (cases can_read)
      case True
      let ?d = "row\<lparr>t_last_used := Stamp (utc_now c)\<rparr>"
      have l: "lru ?s = lru_put key ?d (lru s)" and r: "voice ` set (rows ?s) = voice ` set (rows s)" "map t_key (rows ?s) = map t_key (rows s)"
        using None Some True by (simp_all add: get_cached_def Let_def map_update_where)
      have "t_key d = k \<and> voice d \<in> voice ` set (rows ?s)" if "(k, d) \<in> set (lru ?s)" for k d
        using that s row set_lru_put [of key ?d "lru s"] unfolding l r(1) by (auto simp: coherent_def)
      then show ?thesis using s lru_put_ok(1,2) l r(2) by (auto simp: coherent_def)
    next
      case False
      then show ?thesis using s None by (simp add: get_cached_def)
    qed
  next
    case None
    then show ?thesis using s \<open>map_of (lru s) key = None\<close> by (simp add: get_cached_def)
  qed
qed

lemma delete_store:
  "rows (delete_rows_and_files digest removable keys s) = filter (\<lambda>r. t_key r \<notin> set keys) (rows s)"
  "lru (delete_rows_and_files digest removable keys s) = filter (\<lambda>e. fst e \<notin> set keys) (lru s)"
  by (simp_all add: delete_rows_and_files_def delete_where_def)

lemma coherent_delete: "coherent s \<Longrightarrow> coherent (delete_rows_and_files digest removable keys s)"
proof -
  assume s: "coherent s"
  have "voice d \<in> voice ` {r \<in> set (rows s). t_key r \<notin> set keys}" if "(k, d) \<in> set (lru s)" "k \<notin> set keys" for k d
  proof -
    obtain r where "r \<in> set (rows s)" "voice d = voice r" "t_key d = k" using s \<open>(k, d) \<in> set (lru s)\<close> by (auto simp: coherent_def)
    then show ?thesis using that(2) voice_key [of d r] by auto
  qed
  moreover have "length (filter (\<lambda>e. fst e \<notin> set keys) (lru s)) \<le> LRU_CAP"
    using s le_trans [OF length_filter_le] by (auto simp: coherent_def)
  ultimately show ?thesis using s by (auto simp: coherent_def delete_store distinct_map_filter)
qed

section \<open>Evictions\<close>

text \<open>What an eviction of the keys \<open>K\<close> makes of the store.\<close>

definition evicted :: "(string \<Rightarrow> string) \<Rightarrow> (string \<Rightarrow> bool) \<Rightarrow> string list \<Rightarrow> tts_store \<Rightarrow> tts_store \<Rightarrow> bool" where
  "evicted digest removable K s s' \<longleftrightarrow>
     rows s' = filter (\<lambda>r. t_key r \<notin> set K) (rows s) \<and> lru s' = filter (\<lambda>e. fst e \<notin> set K) (lru s) \<and>
     (\<forall>p. mp3 s' p = (if \<exists>k \<in> set K. removable k \<and> mp3_path_for_cache_key digest k = p then None else mp3 s p))"

lemma fold_unlink:
  "fold (\<lambda>key files. if removable key then files(path key := None) else files) keys f p =
     (if \<exists>k \<in> set keys. removable k \<and> path k = p then None else f p)"
  by (induction keys arbitrary: f) auto

lemma evicted_delete: "evicted digest removable keys s (delete_rows_and_files digest removable keys s)"
proof -
  have "mp3 (delete_rows_and_files digest removable keys s) p =
      (if \<exists>k \<in> set keys. removable k \<and> mp3_path_for_cache_key digest k = p then None else mp3 s p)" for p
    by (cases "keys = []") (auto simp: delete_rows_and_files_def fold_unlink)
  then show ?thesis by (simp add: evicted_def delete_store)
qed

lemma evicted_Nil [simp]: "evicted digest removable [] s s"
  by (simp add: evicted_def)

lemma evicted_trans:
  "evicted digest removable K s s1 \<Longrightarrow> evicted digest removable K' s1 s2 \<Longrightarrow> evicted digest removable (K @ K') s s2"
  unfolding evicted_def by (auto simp: conj_commute intro!: filter_cong)

lemma coherent_evicted: "evicted digest removable K s s' \<Longrightarrow> coherent s \<Longrightarrow> coherent s'"
  using coherent_delete [of s digest removable K] by (simp add: evicted_def coherent_def delete_store)

definition unused_since :: "('a clock_scheme) \<Rightarrow> string \<Rightarrow> tts_row \<Rightarrow> bool" where
  "unused_since c cutoff r \<longleftrightarrow> stamp_text c (t_last_used r) < cutoff"

lemma oldest_unused_facts:
  assumes "coherent s"
  shows "distinct (oldest_unused c cutoff batch s)"
    and "set (oldest_unused c cutoff batch s) \<subseteq> t_key ` {r \<in> set (rows s). unused_since c cutoff r}"
    and "length (oldest_unused c cutoff batch s) < batch \<Longrightarrow> r \<in> set (rows s) \<Longrightarrow> unused_since c cutoff r \<Longrightarrow>
       t_key r \<in> set (oldest_unused c cutoff batch s)"
proof -
  let ?f = "filter (\<lambda>r. stamp_text c (t_last_used r) < cutoff) (rows s)"
  let ?old = "sort_key (\<lambda>r. stamp_text c (t_last_used r)) ?f"
  have keys: "distinct (map t_key ?f)" using assms by (simp add: coherent_def distinct_map_filter)
  have "distinct (map t_key ?old)" using keys unfolding distinct_map by simp
  then show "distinct (oldest_unused c cutoff batch s)" unfolding oldest_unused_def take_map [symmetric] by (rule distinct_take)
  show "set (oldest_unused c cutoff batch s) \<subseteq> t_key ` {r \<in> set (rows s). unused_since c cutoff r}"
    by (auto simp: oldest_unused_def unused_since_def dest!: in_set_takeD)
  show "t_key r \<in> set (oldest_unused c cutoff batch s)"
    if "length (oldest_unused c cutoff batch s) < batch" "r \<in> set (rows s)" "unused_since c cutoff r"
  proof -
    have "length ?old \<le> batch" using that(1) by (simp add: oldest_unused_def)
    then have "take batch ?old = ?old" by simp
    then show ?thesis using that(2,3) by (simp add: oldest_unused_def unused_since_def)
  qed
qed

lemma evict_unused_facts:
  assumes "coherent s" and "1 \<le> batch" and "evict_unused c digest removable cutoff batch None s n = (m, b', s')"
  shows "\<exists>K. distinct K \<and> set K = t_key ` {r \<in> set (rows s). unused_since c cutoff r} \<and> evicted digest removable K s s' \<and>
     m = n + length K \<and> b' = None"
  using assms
proof (induction "length (rows s)" arbitrary: s n rule: less_induct)
  case less
  let ?keys = "oldest_unused c cutoff batch s"
  let ?s = "delete_rows_and_files digest removable ?keys s"
  note facts = oldest_unused_facts [OF less.prems(1), of c cutoff batch]
  have run: "(m, b', s') = (if ?keys = [] then (n, None, s)
      else if length ?keys < batch then (n + length ?keys, None, ?s) else evict_unused c digest removable cutoff batch None ?s (n + length ?keys))"
    using less.prems(3) by (subst (asm) evict_unused.simps) (auto simp: Let_def)
  show ?case
  proof (cases "length ?keys < batch")
    case True
    then have "t_key ` {r \<in> set (rows s). unused_since c cutoff r} \<subseteq> set ?keys" using facts(3) by auto
    then have all: "set ?keys = t_key ` {r \<in> set (rows s). unused_since c cutoff r}" using facts(2) by auto
    have "evicted digest removable ?keys s s' \<and> m = n + length ?keys \<and> b' = None"
      using run True evicted_delete [of digest removable ?keys s] by (cases "?keys = []") auto
    then show ?thesis using all facts(1) by blast
  next
    case False
    then have ne: "?keys \<noteq> []" using less.prems(2) by auto
    then have rec: "evict_unused c digest removable cutoff batch None ?s (n + length ?keys) = (m, b', s')" using run False by simp
    have co: "coherent ?s" by (rule coherent_delete [OF less.prems(1)])
    obtain K where K: "distinct K" "set K = t_key ` {r \<in> set (rows ?s). unused_since c cutoff r}" "evicted digest removable K ?s s'"
      "m = n + length ?keys + length K" "b' = None"
      using less.hyps [OF evict_unused_shrinks [OF ne] co less.prems(2) rec] by blast
    have "set K = t_key ` {r \<in> set (rows s). unused_since c cutoff r} - set ?keys" using K(2) by (auto simp: delete_store)
    then have "distinct (?keys @ K)" "set (?keys @ K) = t_key ` {r \<in> set (rows s). unused_since c cutoff r}"
      using facts(1,2) K(1) by auto
    moreover have "evicted digest removable (?keys @ K) s s'" by (rule evicted_trans [OF evicted_delete K(3)])
    ultimately show ?thesis using K(4,5) by (intro exI [of _ "?keys @ K"]) simp
  qed
qed

lemma evict_chunks_facts:
  assumes "evict_chunks digest removable chs None s n = (m, s')"
  shows "evicted digest removable (concat chs) s s' \<and> m = n + length (concat chs)"
  using assms
proof (induction chs arbitrary: s n)
  case (Cons chunk chs)
  then have "evict_chunks digest removable chs None (delete_rows_and_files digest removable chunk s) (n + length chunk) = (m, s')" by simp
  from Cons.IH [OF this] show ?case using evicted_trans [OF evicted_delete] by fastforce
qed simp

lemma make_room_take: "\<exists>n. make_room bytes_of over ks = take n ks"
proof (induction bytes_of over ks rule: make_room.induct)
  case (2 bytes_of over key keys)
  show ?case
  proof (cases "bytes_of key \<ge> over")
    case True
    then have "make_room bytes_of over (key # keys) = take (Suc 0) (key # keys)" by simp
    then show ?thesis ..
  next
    case False
    then obtain n where "make_room bytes_of (over - bytes_of key) keys = take n keys" using 2 by blast
    then have "make_room bytes_of over (key # keys) = take (Suc n) (key # keys)" using False by simp
    then show ?thesis ..
  qed
qed simp

lemma make_room_enough:
  "over \<le> sum_list (map bytes_of ks) \<Longrightarrow> over \<le> sum_list (map bytes_of (make_room bytes_of over ks))"
  by (induction bytes_of over ks rule: make_room.induct) (auto split: if_splits)

text \<open>Nothing is evicted that the cap does not ask for.\<close>

lemma make_room_minimal:
  "0 < over \<Longrightarrow> make_room bytes_of over ks = xs @ [x] \<Longrightarrow> sum_list (map bytes_of xs) < over"
proof (induction bytes_of over ks arbitrary: xs rule: make_room.induct)
  case (2 bytes_of over key keys)
  show ?case
  proof (cases "bytes_of key \<ge> over")
    case True
    then show ?thesis using 2 by simp
  next
    case False
    show ?thesis
    proof (cases xs)
      case Nil
      then show ?thesis using 2 by simp
    next
      case (Cons k xs')
      then have "k = key" "make_room bytes_of (over - bytes_of key) keys = xs' @ [x]" using 2(3) False Cons by auto
      then show ?thesis using 2(1) [OF False _ \<open>make_room _ _ keys = _\<close>] False Cons by simp
    qed
  qed
qed simp

section \<open>What the purge guarantees\<close>

lemma keys_not_taken:
  assumes "distinct xs"
  shows "filter (\<lambda>k. k \<notin> set (take n xs)) xs = drop n xs"
proof -
  have "filter (\<lambda>k. k \<notin> set ys) (ys @ zs) = zs" if "distinct (ys @ zs)" for ys zs :: "'a list"
    using that by (auto simp: filter_empty_conv filter_id_conv)
  from this [of "take n xs" "drop n xs"] show ?thesis using assms by simp
qed

lemma file_size_evicted:
  "evicted digest removable K s s' \<Longrightarrow> file_size digest s' key \<le> file_size digest s key"
  by (auto simp: file_size_def evicted_def or_else_def split: option.splits)

lemma evict_over_cap_facts:
  assumes s: "coherent s" and cap: "0 \<le> max_bytes" and run: "evict_over_cap c digest removable batch max_bytes None s = (m, s')"
  shows "\<exists>K. distinct K \<and> evicted digest removable K s s' \<and> m = length K \<and> set K \<subseteq> t_key ` set (rows s) \<and>
     sum_list (map (\<lambda>r. file_size digest s' (t_key r)) (rows s')) \<le> max_bytes \<and>
     (\<forall>q \<in> set (rows s). t_key q \<in> set K \<longrightarrow> (\<forall>r \<in> set (rows s'). stamp_text c (t_last_used q) \<le> stamp_text c (t_last_used r))) \<and>
     (\<forall>ks k. K = ks @ [k] \<longrightarrow>
        max_bytes < sum_list (map (\<lambda>r. file_size digest s (t_key r)) (filter (\<lambda>r. t_key r \<notin> set ks) (rows s))))"
proof -
  let ?key = "\<lambda>r. (stamp_text c (t_last_used r), t_key r)"
  let ?sorted = "sort_key ?key (rows s)"
  let ?ordered = "oldest_used_first c s" and ?b = "file_size digest s"
  let ?over = "sum_list (map ?b ?ordered) - max_bytes"
  have mset: "mset (map t_key ?sorted) = mset (map t_key (rows s))" by simp
  have dist: "distinct ?ordered" using s mset_eq_imp_distinct_iff [OF mset] by (simp add: oldest_used_first_def coherent_def)
  have sum: "sum_list (map f ?ordered) = sum_list (map (\<lambda>r. f (t_key r)) (rows s))" for f :: "string \<Rightarrow> int"
    unfolding oldest_used_first_def map_map comp_def sum_mset_sum_list [symmetric] mset_map mset_sort ..
  show ?thesis
  proof (cases "?over > 0")
    case False
    then have "m = 0" "s' = s" using run by (simp_all add: evict_over_cap_def Let_def)
    moreover have "sum_list (map (\<lambda>r. ?b (t_key r)) (rows s)) \<le> max_bytes" using False sum [of ?b] by simp
    ultimately show ?thesis by (intro exI [of _ "[]"]) simp
  next
    case True
    let ?K = "make_room ?b ?over ?ordered"
    obtain n where n: "?K = take n ?ordered" using make_room_take by blast
    have ev: "evicted digest removable ?K s s'" "m = length ?K"
      using run True evict_chunks_facts [of digest removable "chunks batch ?K" s 0 m s'] by (simp_all add: evict_over_cap_def Let_def concat_chunks)
    have dK: "distinct ?K" unfolding n using dist by (rule distinct_take)
    have subK: "set ?K \<subseteq> t_key ` set (rows s)" unfolding n by (auto simp: oldest_used_first_def dest!: in_set_takeD)
    have left: "sum_list (map (\<lambda>r. ?b (t_key r)) (filter (\<lambda>r. t_key r \<notin> set (take i ?ordered)) (rows s))) =
        sum_list (map ?b ?ordered) - sum_list (map ?b (take i ?ordered))" for i
    proof -
      have "sum_list (map (\<lambda>r. ?b (t_key r)) (filter (\<lambda>r. t_key r \<notin> set (take i ?ordered)) (rows s))) =
          sum_list (map ?b (filter (\<lambda>k. k \<notin> set (take i ?ordered)) (map t_key (rows s))))"
        by (simp add: filter_map comp_def)
      also have "\<dots> = sum_list (map ?b (filter (\<lambda>k. k \<notin> set (take i ?ordered)) ?ordered))"
        unfolding sum_mset_sum_list [symmetric] mset_map mset_filter using mset by (simp add: oldest_used_first_def)
      also have "\<dots> = sum_list (map ?b (drop i ?ordered))" unfolding keys_not_taken [OF dist] ..
      also have "\<dots> = sum_list (map ?b ?ordered) - sum_list (map ?b (take i ?ordered))"
        by (metis add_diff_cancel_left' append_take_drop_id map_append sum_list_append)
      finally show ?thesis .
    qed
    have "sum_list (map (\<lambda>r. ?b (t_key r)) (rows s')) = sum_list (map ?b ?ordered) - sum_list (map ?b ?K)"
      using ev(1) left [of n] by (simp add: evicted_def flip: n)
    also have "\<dots> \<le> max_bytes" using make_room_enough [of ?over ?b ?ordered] cap by simp
    finally have "sum_list (map (\<lambda>r. ?b (t_key r)) (rows s')) \<le> max_bytes" .
    moreover have "sum_list (map (\<lambda>r. file_size digest s' (t_key r)) (rows s')) \<le> sum_list (map (\<lambda>r. ?b (t_key r)) (rows s'))"
      using file_size_evicted [OF ev(1)] by (intro sum_list_mono) blast
    ultimately have under: "sum_list (map (\<lambda>r. file_size digest s' (t_key r)) (rows s')) \<le> max_bytes" by simp
    have order: "stamp_text c (t_last_used q) \<le> stamp_text c (t_last_used r)"
      if q: "q \<in> set (rows s)" "t_key q \<in> set ?K" and r: "r \<in> set (rows s')" for q r
    proof -
      have r': "r \<in> set (rows s)" "t_key r \<notin> set ?K" using r ev(1) by (auto simp: evicted_def)
      have taken: "set ?K = t_key ` set (take n ?sorted)" unfolding n by (simp add: oldest_used_first_def take_map)
      have inj: "inj_on t_key (set (rows s))" using s by (simp add: coherent_def distinct_map)
      obtain q' where q': "q' \<in> set (take n ?sorted)" "t_key q' = t_key q" using q(2) taken by auto
      have "q' \<in> set (rows s)" using in_set_takeD [OF q'(1)] by simp
      then have "q' = q" using inj q(1) q'(2) by (auto simp: inj_on_def)
      moreover have "r \<notin> set (take n ?sorted)" using r'(2) taken by auto
      ultimately have "?key q \<le> ?key r" using sorted_take_le [of q n ?key "rows s" r] q'(1) r'(1) by simp
      then show ?thesis by auto
    qed
    have needed: "max_bytes < sum_list (map (\<lambda>r. ?b (t_key r)) (filter (\<lambda>r. t_key r \<notin> set ks) (rows s)))"
      if K: "?K = ks @ [k]" for ks k
    proof -
      have "ks = take (length ks) ?K" by (simp add: K)
      also have "\<dots> = take (length ks) (take n ?ordered)" using n by simp
      also have "\<dots> = take (min (length ks) n) ?ordered" by simp
      finally have "ks = take (min (length ks) n) ?ordered" .
      then show ?thesis using left [of "min (length ks) n"] make_room_minimal [OF _ K] True by simp
    qed
    show ?thesis using dK ev subK under order needed by (intro exI [of _ ?K]) blast
  qed
qed

lemma voice_purge_aux:
  assumes "coherent s" and "0 \<le> max_bytes"
    and "purge_tts_cache c digest removable batch max_bytes unused_days None s = ((n, m), s')"
  defines "cutoff \<equiv> stamp_text c (Stamp (utc_now c - unused_days * day_us))"
  shows "\<exists>K. distinct K \<and> evicted digest removable K s s' \<and> coherent s' \<and> length K = n + m \<and> length (rows s') = length (rows s) - length K \<and>
     (\<forall>r \<in> set (rows s'). \<not> unused_since c cutoff r) \<and>
     sum_list (map (\<lambda>r. file_size digest s' (t_key r)) (rows s')) \<le> max_bytes \<and>
     (\<forall>q \<in> set (rows s). t_key q \<in> set K \<longrightarrow> unused_since c cutoff q \<or>
        (\<forall>r \<in> set (rows s'). stamp_text c (t_last_used q) \<le> stamp_text c (t_last_used r))) \<and>
     (\<exists>K1 K2 s1. K = K1 @ K2 \<and> length K1 = n \<and> length K2 = m \<and> evicted digest removable K1 s s1 \<and> evicted digest removable K2 s1 s' \<and>
        set K1 = t_key ` {r \<in> set (rows s). unused_since c cutoff r} \<and>
        (\<forall>ks k. K2 = ks @ [k] \<longrightarrow>
           max_bytes < sum_list (map (\<lambda>r. file_size digest s1 (t_key r)) (filter (\<lambda>r. t_key r \<notin> set ks) (rows s1)))))"
proof -
  obtain b1 s1 where p1: "evict_unused c digest removable cutoff (nat (max 1 batch)) None s 0 = (n, b1, s1)"
    and p2: "evict_over_cap c digest removable (nat (max 1 batch)) max_bytes b1 s1 = (m, s')"
    using assms(3) unfolding purge_tts_cache_def Let_def cutoff_def by (auto split: prod.splits)
  have scan: "1 \<le> nat (max 1 batch)" by simp
  obtain K1 where K1: "distinct K1" "set K1 = t_key ` {r \<in> set (rows s). unused_since c cutoff r}" "evicted digest removable K1 s s1"
    "n = length K1" "b1 = None"
    using evict_unused_facts [OF assms(1) scan p1] by auto
  have s1: "coherent s1" by (rule coherent_evicted [OF K1(3) assms(1)])
  obtain K2 where K2: "distinct K2" "evicted digest removable K2 s1 s'" "m = length K2" "set K2 \<subseteq> t_key ` set (rows s1)"
    "sum_list (map (\<lambda>r. file_size digest s' (t_key r)) (rows s')) \<le> max_bytes"
    "\<forall>q \<in> set (rows s1). t_key q \<in> set K2 \<longrightarrow> (\<forall>r \<in> set (rows s'). stamp_text c (t_last_used q) \<le> stamp_text c (t_last_used r))"
    "\<forall>ks k. K2 = ks @ [k] \<longrightarrow>
       max_bytes < sum_list (map (\<lambda>r. file_size digest s1 (t_key r)) (filter (\<lambda>r. t_key r \<notin> set ks) (rows s1)))"
    using evict_over_cap_facts [OF s1 assms(2) p2 [unfolded K1(5)]] by (elim exE conjE) (rule that)
  have ev: "evicted digest removable (K1 @ K2) s s'" by (rule evicted_trans [OF K1(3) K2(2)])
  have rows1: "rows s1 = filter (\<lambda>r. t_key r \<notin> set K1) (rows s)" and rows': "rows s' = filter (\<lambda>r. t_key r \<notin> set (K1 @ K2)) (rows s)"
    using K1(3) ev by (simp_all add: evicted_def)
  have d: "distinct (K1 @ K2)" using K1(1) K2(1,4) by (auto simp: rows1)
  have sub: "set (K1 @ K2) \<subseteq> t_key ` set (rows s)" using K1(2) K2(4) by (auto simp: rows1)
  have "length (rows s') = length (filter (\<lambda>k. k \<notin> set (K1 @ K2)) (map t_key (rows s)))"
    by (simp add: rows' filter_map comp_def del: set_append)
  also have "\<dots> = length (rows s) - length (K1 @ K2)"
    using length_filter_outside [of id "map t_key (rows s)" "K1 @ K2"] d sub assms(1) by (simp add: coherent_def)
  finally have len: "length (rows s') = length (rows s) - length (K1 @ K2)" .
  have fresh: "\<not> unused_since c cutoff r" if "r \<in> set (rows s')" for r using that K1(2) by (auto simp: rows')
  have old: "unused_since c cutoff q \<or> (\<forall>r \<in> set (rows s'). stamp_text c (t_last_used q) \<le> stamp_text c (t_last_used r))"
    if q: "q \<in> set (rows s)" "t_key q \<in> set (K1 @ K2)" for q
  proof (cases "t_key q \<in> set K1")
    case True
    then obtain r where "r \<in> set (rows s)" "unused_since c cutoff r" "t_key r = t_key q" using K1(2) by auto
    moreover have "inj_on t_key (set (rows s))" using assms(1) by (simp add: coherent_def distinct_map)
    ultimately show ?thesis using q(1) by (auto simp: inj_on_def)
  next
    case False
    then have "q \<in> set (rows s1)" "t_key q \<in> set K2" using q by (auto simp: rows1)
    then show ?thesis using K2(6) by blast
  qed
  have parts: "\<exists>L1 L2 s1. K1 @ K2 = L1 @ L2 \<and> length L1 = n \<and> length L2 = m \<and> evicted digest removable L1 s s1 \<and> evicted digest removable L2 s1 s' \<and>
        set L1 = t_key ` {r \<in> set (rows s). unused_since c cutoff r} \<and>
        (\<forall>ks k. L2 = ks @ [k] \<longrightarrow>
           max_bytes < sum_list (map (\<lambda>r. file_size digest s1 (t_key r)) (filter (\<lambda>r. t_key r \<notin> set ks) (rows s1))))"
    by (rule exI [of _ K1], rule exI [of _ K2], rule exI [of _ s1], intro conjI) (rule refl K1(4) [symmetric] K2(3) [symmetric] K1(3) K2(2) K1(2) K2(7))+
  have count: "length (K1 @ K2) = n + m" using K1(4) K2(3) by simp
  have all_fresh: "\<forall>r \<in> set (rows s'). \<not> unused_since c cutoff r" using fresh by blast
  have all_old: "\<forall>q \<in> set (rows s). t_key q \<in> set (K1 @ K2) \<longrightarrow> unused_since c cutoff q \<or>
      (\<forall>r \<in> set (rows s'). stamp_text c (t_last_used q) \<le> stamp_text c (t_last_used r))" using old by blast
  show ?thesis
    by (rule exI [of _ "K1 @ K2"], intro conjI)
      (rule d ev coherent_evicted [OF ev assms(1)] count len all_fresh K2(5) all_old parts)+
qed

text \<open>C33: the voice purge keeps its bounds and takes no more than they ask for. Run to its end it removes
  exactly the voices not used for the given number of days, and then the least recently used ones only
  until the files of the voices that stay fit the cap: with the last of these still there they would
  not fit. A row goes together with its entry in memory and its file, the rows that stay are
  unchanged, and the counts add up.\<close>

theorem voice_purge_keeps_bounds:
  assumes "coherent s" and "0 \<le> max_bytes"
    and "purge_tts_cache c digest removable batch max_bytes unused_days None s = ((n, m), s')"
  defines "cutoff \<equiv> stamp_text c (Stamp (utc_now c - unused_days * day_us))"
  shows "\<exists>K. distinct K \<and> evicted digest removable K s s' \<and> coherent s' \<and> length K = n + m \<and> length (rows s') = length (rows s) - length K \<and>
     (\<forall>r \<in> set (rows s'). \<not> unused_since c cutoff r) \<and>
     sum_list (map (\<lambda>r. file_size digest s' (t_key r)) (rows s')) \<le> max_bytes \<and>
     (\<forall>q \<in> set (rows s). t_key q \<in> set K \<longrightarrow> unused_since c cutoff q \<or>
        (\<forall>r \<in> set (rows s'). stamp_text c (t_last_used q) \<le> stamp_text c (t_last_used r))) \<and>
     (\<exists>K1 K2 s1. K = K1 @ K2 \<and> length K1 = n \<and> length K2 = m \<and> evicted digest removable K1 s s1 \<and> evicted digest removable K2 s1 s' \<and>
        set K1 = t_key ` {r \<in> set (rows s). unused_since c cutoff r} \<and>
        (\<forall>ks k. K2 = ks @ [k] \<longrightarrow>
           max_bytes < sum_list (map (\<lambda>r. file_size digest s1 (t_key r)) (filter (\<lambda>r. t_key r \<notin> set ks) (rows s1)))))"
  unfolding cutoff_def by (rule voice_purge_aux [OF assms(1-3)])

lemma get_cached_row:
  assumes "coherent s" and got: "fst (get_cached c can_read can_touch key s) = Some d"
  shows "\<exists>r \<in> set (rows s). voice d = voice r \<and> t_key r = key"
proof (cases "map_of (lru s) key")
  case (Some e)
  then have "(key, d) \<in> set (lru s)" using got map_of_SomeD [OF Some] by (simp add: get_cached_def)
  then obtain r where "r \<in> set (rows s)" "voice d = voice r" "t_key d = key" using assms(1) by (auto simp: coherent_def)
  then show ?thesis using voice_key [of d r] by auto
next
  case None
  then obtain r where r: "find (\<lambda>r. t_key r = key) (rows s) = Some r" and d: "d = r\<lparr>t_last_used := Stamp (utc_now c)\<rparr>"
    using got by (auto simp: get_cached_def Let_def split: option.splits if_splits)
  show ?thesis using find_Some_D [OF r] d by (intro bexI [of _ r]) simp_all
qed

lemma coherent_evict_unused:
  "coherent s \<Longrightarrow> evict_unused c digest removable cutoff batch budget s n = (m, b', s') \<Longrightarrow> coherent s'"
proof (induction c digest removable cutoff batch budget s n arbitrary: m b' s' rule: evict_unused.induct)
  case (1 c digest removable cutoff batch budget s n)
  let ?keys = "oldest_unused c cutoff batch s"
  have d: "coherent (delete_rows_and_files digest removable ?keys s)" by (rule coherent_delete [OF 1(2)])
  have run: "(m, b', s') = (if budget = Some 0 then (n, budget, s) else if ?keys = [] then (n, map_option (\<lambda>b. b - 1) budget, s)
      else if length ?keys < batch then (n + length ?keys, map_option (\<lambda>b. b - 1) budget, delete_rows_and_files digest removable ?keys s)
      else evict_unused c digest removable cutoff batch (map_option (\<lambda>b. b - 1) budget) (delete_rows_and_files digest removable ?keys s) (n + length ?keys))"
    using 1(3) by (subst (asm) evict_unused.simps) (auto simp: Let_def)
  show ?case
  proof (cases "budget = Some 0 \<or> ?keys = [] \<or> length ?keys < batch")
    case True
    then show ?thesis using run d 1(2) by (auto split: if_splits)
  next
    case False
    then have "evict_unused c digest removable cutoff batch (map_option (\<lambda>b. b - 1) budget) (delete_rows_and_files digest removable ?keys s)
        (n + length ?keys) = (m, b', s')" using run by simp
    then show ?thesis by (rule 1(1) [OF _ refl refl _ refl _ d, rotated -1]) (use False in blast)+
  qed
qed

lemma coherent_evict_chunks: "coherent s \<Longrightarrow> coherent (snd (evict_chunks digest removable chs budget s n))"
proof (induction chs arbitrary: budget s n)
  case (Cons chunk chs)
  then show ?case using coherent_delete [OF Cons.prems, of digest removable chunk] by simp
qed simp

lemma coherent_purge: "coherent s \<Longrightarrow> coherent (snd (purge_tts_cache c digest removable batch max_bytes unused_days budget s))"
proof -
  assume s: "coherent s"
  let ?cutoff = "stamp_text c (Stamp (utc_now c - unused_days * day_us))"
  obtain n b s1 where p1: "evict_unused c digest removable ?cutoff (nat (max 1 batch)) budget s 0 = (n, b, s1)"
    by (cases "evict_unused c digest removable ?cutoff (nat (max 1 batch)) budget s 0") auto
  have s1: "coherent s1" by (rule coherent_evict_unused [OF s p1])
  have "coherent (snd (evict_over_cap c digest removable (nat (max 1 batch)) max_bytes b s1))"
    unfolding evict_over_cap_def Let_def by (simp add: s1 coherent_evict_chunks)
  then show ?thesis using p1 by (simp add: purge_tts_cache_def Let_def split_beta)
qed

text \<open>The copy in memory never contradicts the table: every operation keeps the keys unique, the copy within
  its limit of 3000 entries, and each entry equal to the row of its key but for the time of use.
  So a lookup only returns voices of the table, and it returns the voice that was stored last.\<close>

theorem voice_cache_coherent:
  assumes "coherent s"
  shows "coherent (snd (get_cached c can_read can_touch key s)) \<and>
     coherent (put_cached c key lang body file_id unique_id channel_message s) \<and>
     coherent (snd (purge_tts_cache c digest removable batch max_bytes unused_days budget s)) \<and> coherent (clear_lru s) \<and>
     (\<forall>d. fst (get_cached c can_read can_touch key s) = Some d \<longrightarrow> (\<exists>r \<in> set (rows s). voice d = voice r \<and> t_key r = key)) \<and>
     map_option t_file_id (fst (get_cached c' can_read can_touch key (put_cached c key lang body file_id unique_id channel_message s))) = Some file_id"
proof (intro conjI allI impI)
  show "coherent (snd (get_cached c can_read can_touch key s))" by (rule coherent_get [OF assms])
  show "coherent (put_cached c key lang body file_id unique_id channel_message s)" by (rule coherent_put [OF assms])
  show "coherent (snd (purge_tts_cache c digest removable batch max_bytes unused_days budget s))" by (rule coherent_purge [OF assms])
  show "coherent (clear_lru s)" using assms by (simp add: coherent_def clear_lru_def)
  show "\<exists>r \<in> set (rows s). voice d = voice r \<and> t_key r = key" if "fst (get_cached c can_read can_touch key s) = Some d" for d
    using that by (rule get_cached_row [OF assms])
  show "map_option t_file_id (fst (get_cached c' can_read can_touch key (put_cached c key lang body file_id unique_id channel_message s))) = Some file_id"
    using lru_put_ok(3) [of "lru s" key] assms by (simp add: get_cached_def put_cached_def Let_def coherent_def)
qed

section \<open>Channel of the cache\<close>

text \<open>\<open>^(?:-100\d{5,}|-\d{5,})$\<close>; the first alternative is a case of the second.\<close>

definition chat_id_text :: "string \<Rightarrow> bool" where
  "chat_id_text t = (case t of ch # ds \<Rightarrow> ch = CHR ''-'' \<and> 5 \<le> length ds \<and> list_all is_digit ds | [] \<Rightarrow> False)"

definition coerce_tts_cache_chat_id :: "string \<Rightarrow> int option" where
  "coerce_tts_cache_chat_id raw =
     (let t = strip raw in
      if t = '''' then None else if \<not> chat_id_text t then None else case py_int_of t of Inr n \<Rightarrow> Some n | Inl _ \<Rightarrow> None)"

definition validate_tts_cache_chat_id :: "string \<Rightarrow> int option py" where
  "validate_tts_cache_chat_id raw =
     (let t = strip raw in
      if t = '''' then Inr None else if \<not> chat_id_text t then Inl ValueError else map_sum id Some (py_int_of t))"

text \<open>The setting wins over the environment, also when it is blank or wrong.\<close>

definition resolve_tts_cache_chat_id :: "db \<Rightarrow> string \<Rightarrow> int option" where
  "resolve_tts_cache_chat_id s env_raw =
     (case settings s ''tts_cache_chat_id'' of
        Some raw \<Rightarrow> if strip raw = '''' then None else coerce_tts_cache_chat_id (strip raw)
      | None \<Rightarrow> coerce_tts_cache_chat_id env_raw)"

section \<open>Locks of the keys\<close>

text \<open>
  The table of locks, oldest first. A full table loses idle locks until it is below the limit;
  \<open>fresh\<close> is the new lock.
\<close>

definition MAX_SPEAK_LOCKS :: nat where
  "MAX_SPEAK_LOCKS = 2000"

fun evict_idle :: "('l \<Rightarrow> bool) \<Rightarrow> nat \<Rightarrow> (string \<times> 'l) list \<Rightarrow> (string \<times> 'l) list" where
  "evict_idle locked size_now [] = []"
| "evict_idle locked size_now ((k, l) # rest) =
     (if locked l then (k, l) # evict_idle locked size_now rest
      else if size_now - 1 < MAX_SPEAK_LOCKS then rest
      else evict_idle locked (size_now - 1) rest)"

definition get_speak_lock :: "('l \<Rightarrow> bool) \<Rightarrow> string \<Rightarrow> 'l \<Rightarrow> (string \<times> 'l) list \<Rightarrow> 'l \<times> (string \<times> 'l) list" where
  "get_speak_lock locked key fresh table =
     (case map_of table key of
        Some l \<Rightarrow> (l, table)
      | None \<Rightarrow>
          let table' = (if length table \<ge> MAX_SPEAK_LOCKS then evict_idle locked (length table) table else table)
          in (fresh, table' @ [(key, fresh)]))"

section \<open>Speaking a word\<close>

text \<open>The word behind a button: \<open>q\<close> names a stored answer, \<open>s\<close> a saved word of the user.\<close>

datatype resolved = Word string string | Refused string

definition resolve_word :: "('a clock_scheme) \<Rightarrow> db \<Rightarrow> string \<Rightarrow> string list \<Rightarrow> int \<Rightarrow> resolved" where
  "resolve_word c s source parts uid =
     (if source = ''q'' then
        (if length parts \<noteq> 2 then Refused ''invalid''
         else case get_query_result c s (parts ! 1) (Some uid) False of
           None \<Rightarrow> Refused ''expired''
         | Some qr \<Rightarrow> Word (q_word qr) (q_lang qr))
      else if source = ''s'' then
        (if length parts \<noteq> 3 then Refused ''invalid''
         else case (py_int_of (parts ! 1), py_int_of (parts ! 2)) of
           (Inr target_user_id, Inr word_id) \<Rightarrow>
             if uid \<noteq> target_user_id then Refused ''cross_user''
             else (case get_saved_word s word_id (Some uid) of
                     None \<Rightarrow> Refused ''not_found''
                   | Some sw \<Rightarrow> Word (w_word sw) (w_lang sw))
         | _ \<Rightarrow> Refused ''invalid'')
      else Refused ''invalid'')"

text \<open>A sent message may be missing only when the send loop ran out of attempts.\<close>

definition send_voice :: "(nat \<Rightarrow> answer) \<Rightarrow> int \<Rightarrow> media \<Rightarrow> world \<Rightarrow> (tg_error + sent_message option) \<times> world" where
  "send_voice api chat m w =
     (case send_media_with_retry api chat ''send_voice'' (Some ''voice'') m None True w of
        Some r \<Rightarrow> r
      | None \<Rightarrow> (Inl OtherError, w))"

datatype spoken = FileIdHit | ChannelUpload | DirectFallback

datatype speech_error = Tg tg_error | NoAudio

text \<open>
  What the world does to one call: whether the cache can be read, touched and written; the audio the
  generator makes, if any; and what reading the file gives before the upload and before the
  direct send.
\<close>

record fortune =
  f_read :: bool
  f_touch :: bool
  f_write :: bool
  f_audio :: bool
  f_upload_bytes :: "string option"
  f_direct_bytes :: "string option"

definition tts_get :: "('a clock_scheme) \<Rightarrow> fortune \<Rightarrow> string \<Rightarrow> tts_store \<Rightarrow> tts_row option \<times> tts_store" where
  "tts_get c f key st = get_cached c (f_read f) (f_touch f) key st"

definition tts_put :: "('a clock_scheme) \<Rightarrow> fortune \<Rightarrow> string \<Rightarrow> string \<Rightarrow> string \<Rightarrow> string \<Rightarrow> string \<Rightarrow> int option \<Rightarrow> tts_store \<Rightarrow> tts_store" where
  "tts_put c f key lang body file_id unique_id channel_message st =
     (if f_write f then put_cached c key lang body file_id unique_id channel_message st else st)"

definition speak_direct :: "(nat \<Rightarrow> answer) \<Rightarrow> fortune \<Rightarrow> int \<Rightarrow> tts_store \<Rightarrow> world \<Rightarrow> (speech_error + spoken) \<times> tts_store \<times> world" where
  "speak_direct api f chat st w =
     (case f_direct_bytes f of
        None \<Rightarrow> (Inl NoAudio, st, w)
      | Some b \<Rightarrow> (case send_voice api chat (Handle b) w of
                    (Inl e, w) \<Rightarrow> (Inl (Tg e), st, w)
                  | (Inr _, w) \<Rightarrow> (Inr DirectFallback, st, w)))"

text \<open>The upload to the channel; \<open>None\<close> when the code goes on to the direct send.\<close>

definition speak_channel ::
    "('a clock_scheme) \<Rightarrow> (nat \<Rightarrow> answer) \<Rightarrow> fortune \<Rightarrow> string \<Rightarrow> string \<Rightarrow> string \<Rightarrow> int \<Rightarrow> int \<Rightarrow> tts_store \<Rightarrow> world
      \<Rightarrow> (speech_error + spoken) option \<times> tts_store \<times> world" where
  "speak_channel c api f lang caption key channel chat st w =
     (case f_upload_bytes f of
        None \<Rightarrow> (None, st, w)
      | Some b \<Rightarrow>
          case send_voice api channel (Handle b) w of
            (Inl e, w) \<Rightarrow> (if e \<noteq> BadRequest \<and> is_network_error e then Some (Inl (Tg e)) else None, st, w)
          | (Inr msg, w) \<Rightarrow>
              case none_if_empty (Option.bind msg m_file_id) of
                None \<Rightarrow> (None, st, w)
              | Some fid \<Rightarrow>
                  let st = tts_put c f key lang caption fid (or_else (Option.bind msg m_unique_id) '''') (Option.bind msg m_message_id) st in
                  case send_voice api chat (Handle fid) w of
                    (Inl e, w) \<Rightarrow> (if e \<noteq> BadRequest \<and> is_network_error e then Some (Inl (Tg e)) else None, st, w)
                  | (Inr _, w) \<Rightarrow> (Some (Inr ChannelUpload), st, w))"

definition speak_fresh ::
    "('a clock_scheme) \<Rightarrow> (nat \<Rightarrow> answer) \<Rightarrow> fortune \<Rightarrow> string \<Rightarrow> string \<Rightarrow> string \<Rightarrow> int option \<Rightarrow> int \<Rightarrow> tts_store \<Rightarrow> world
      \<Rightarrow> (speech_error + spoken) \<times> tts_store \<times> world" where
  "speak_fresh c api f lang caption key channel chat st w =
     (if \<not> f_audio f then (Inl NoAudio, st, w)
      else case (case channel of Some ch \<Rightarrow> if ch \<noteq> 0 then speak_channel c api f lang caption key ch chat st w else (None, st, w)
                               | None \<Rightarrow> (None, st, w)) of
        (Some r, st, w) \<Rightarrow> (r, st, w)
      | (None, st, w) \<Rightarrow> speak_direct api f chat st w)"

text \<open>
  \<open>_speak_locked\<close>. In the first \<open>try\<close> the clause for \<open>NetworkError\<close> comes before the one for
  \<open>BadRequest\<close>, so it also catches a bad request.
\<close>

definition speak_locked ::
    "('a clock_scheme) \<Rightarrow> (nat \<Rightarrow> answer) \<Rightarrow> fortune \<Rightarrow> string \<Rightarrow> string \<Rightarrow> string \<Rightarrow> int option \<Rightarrow> int \<Rightarrow> tts_store \<Rightarrow> world
      \<Rightarrow> (speech_error + spoken) \<times> tts_store \<times> world" where
  "speak_locked c api f lang caption key channel chat st w =
     (if channel = None \<or> channel = Some 0 then speak_fresh c api f lang caption key channel chat st w
      else case tts_get c f key st of
        (None, st) \<Rightarrow> speak_fresh c api f lang caption key channel chat st w
      | (Some cached, st) \<Rightarrow>
          if t_file_id cached = '''' then speak_fresh c api f lang caption key channel chat st w
          else case send_voice api chat (Handle (t_file_id cached)) w of
            (Inr _, w) \<Rightarrow> (Inr FileIdHit, st, w)
          | (Inl e, w) \<Rightarrow>
              if is_network_error e then (Inl (Tg e), st, w)
              else if e = Forbidden then speak_fresh c api f lang caption key channel chat st w
              else (Inl (Tg e), st, w))"

definition speak ::
    "('a clock_scheme) \<Rightarrow> unicode \<Rightarrow> char \<Rightarrow> (nat \<Rightarrow> answer) \<Rightarrow> fortune \<Rightarrow> string \<Rightarrow> string \<Rightarrow> string \<Rightarrow> int \<Rightarrow> tts_store \<Rightarrow> world
      \<Rightarrow> (speech_error + spoken) \<times> tts_store \<times> world" where
  "speak c u ellipsis api f env_raw word lang chat st w =
     speak_locked c api f lang (tts_caption ellipsis word) (tts_cache_key u word lang)
       (resolve_tts_cache_chat_id (users_db w) env_raw) chat st w"

section \<open>A pronunciation is sent once\<close>

text \<open>The answers to the calls for one chat, in order.\<close>

definition chat_answers :: "int \<Rightarrow> world \<Rightarrow> answer list" where
  "chat_answers chat w = map snd (filter (\<lambda>(q, _). case q of Call ch _ _ \<Rightarrow> ch = chat) (calls w))"

text \<open>Errors after which nothing can have arrived at the chat.\<close>

definition quiet :: "answer list \<Rightarrow> bool" where
  "quiet xs \<longleftrightarrow> (\<forall>x \<in> set xs. \<exists>e. x = Inl e \<and> e \<noteq> TimedOut \<and> e \<noteq> NetworkError)"

fun sent_once :: "speech_error + spoken \<Rightarrow> answer list \<Rightarrow> bool" where
  "sent_once (Inr _) xs \<longleftrightarrow> quiet (butlast xs) \<and> xs \<noteq> [] \<and> (\<exists>m. last xs = Inr m)"
| "sent_once (Inl _) xs \<longleftrightarrow> quiet (butlast xs) \<and> (\<forall>x \<in> set xs. \<exists>e. x = Inl e)"

lemma quiet_simps [simp]: "quiet []" "quiet (xs @ ys) \<longleftrightarrow> quiet xs \<and> quiet ys"
  by (auto simp: quiet_def)

lemma sent_once_append: "quiet pre \<Longrightarrow> sent_once r xs \<Longrightarrow> sent_once r (pre @ xs)"
  by (cases r; cases "xs = []") (auto simp: butlast_append quiet_def dest: in_set_butlastD)

lemma send_voice_answers:
  assumes "send_voice api ch m w = (res, w')"
  obtains es r where "\<And>chat. chat_answers chat w' = chat_answers chat w @ (if ch = chat then map Inl es @ [r] else [])"
    and "quiet (map Inl es)" and "length es \<le> 2" and "res = map_sum id Some r"
proof -
  have s: "send_media_with_retry api ch ''send_voice'' (Some ''voice'') m None True w = Some (res, w')"
    using assms by (simp add: send_voice_def send_media_with_retry_def SEND_METHOD_ALLOWLIST_def SEND_MEDIA_EXPECTED_def)
  obtain es r ts where t: "calls w' = calls w @ map (\<lambda>x. (Call ch ''send_voice'' (to_send (Some ''voice'') m None), x)) (map Inl es @ [r])"
    "length es \<le> 2" "\<forall>e \<in> set es. refused e" "res = map_sum id Some r"
    using send_traced [OF s] by blast
  have "chat_answers chat w' = chat_answers chat w @ (if ch = chat then map Inl es @ [r] else [])" for chat
    by (simp add: chat_answers_def t(1) filter_map comp_def)
  moreover have "quiet (map Inl es)" using t(3) by (force simp: quiet_def)
  ultimately show ?thesis using t(2,4) by (intro that) auto
qed

lemma send_voice_here:
  assumes "send_voice api chat m w = (res, w')"
  shows "\<exists>es r. chat_answers chat w' = chat_answers chat w @ map Inl es @ [r] \<and> quiet (map Inl es) \<and> res = map_sum id Some r"
proof -
  obtain es r where t: "\<And>chat'. chat_answers chat' w' = chat_answers chat' w @ (if chat = chat' then map Inl es @ [r] else [])"
    and "quiet (map Inl es)" and "length es \<le> 2" and "res = map_sum id Some r"
    using send_voice_answers [OF assms] by blast
  then show ?thesis using t [of chat] by auto
qed

lemma send_voice_elsewhere:
  assumes "send_voice api ch m w = (res, w')" and "ch \<noteq> chat"
  shows "chat_answers chat w' = chat_answers chat w"
proof -
  obtain es r where "\<And>chat'. chat_answers chat' w' = chat_answers chat' w @ (if ch = chat' then map Inl es @ [r] else [])"
    using send_voice_answers [OF assms(1)] by blast
  from this [of chat] show ?thesis using assms(2) by simp
qed

lemma speak_direct_once:
  assumes "speak_direct api f chat st w = (res, st', w')"
  shows "\<exists>xs. chat_answers chat w' = chat_answers chat w @ xs \<and> sent_once res xs"
proof (cases "f_direct_bytes f")
  case None
  then show ?thesis using assms by (intro exI [of _ "[]"]) (auto simp: speak_direct_def)
next
  case (Some b)
  obtain r1 w1 where s: "send_voice api chat (Handle b) w = (r1, w1)" by (cases "send_voice api chat (Handle b) w")
  obtain es r where t: "chat_answers chat w1 = chat_answers chat w @ map Inl es @ [r]" "quiet (map Inl es)" "r1 = map_sum id Some r"
    using send_voice_here [OF s] by blast
  have "w' = w1 \<and> sent_once res (map Inl es @ [r])"
    using assms Some s t(2,3) by (cases r) (auto simp: speak_direct_def)
  then show ?thesis using t(1) by blast
qed

lemma speak_channel_once:
  assumes "speak_channel c api f lang caption key channel chat st w = (res, st', w')" and "channel \<noteq> chat"
  shows "\<exists>xs. chat_answers chat w' = chat_answers chat w @ xs \<and> (case res of None \<Rightarrow> quiet xs | Some r \<Rightarrow> sent_once r xs)"
proof (cases "f_upload_bytes f")
  case None
  then show ?thesis using assms(1) by (intro exI [of _ "[]"]) (auto simp: speak_channel_def)
next
  case (Some b)
  obtain r1 w1 where s: "send_voice api channel (Handle b) w = (r1, w1)" by (cases "send_voice api channel (Handle b) w")
  have same: "chat_answers chat w1 = chat_answers chat w" by (rule send_voice_elsewhere [OF s assms(2)])
  show ?thesis
  proof (cases "\<exists>msg fid. r1 = Inr msg \<and> none_if_empty (Option.bind msg m_file_id) = Some fid")
    case False
    then have "w' = w1 \<and> (case res of None \<Rightarrow> True | Some r \<Rightarrow> sent_once r [])"
      using assms(1) Some s by (cases r1) (auto simp: speak_channel_def split: option.splits if_splits)
    then show ?thesis using same by (intro exI [of _ "[]"]) (auto split: option.splits)
  next
    case True
    then obtain msg fid where m: "r1 = Inr msg" "none_if_empty (Option.bind msg m_file_id) = Some fid" by blast
    obtain r2 w2 where s2: "send_voice api chat (Handle fid) w1 = (r2, w2)" by (cases "send_voice api chat (Handle fid) w1")
    obtain es r where t: "chat_answers chat w2 = chat_answers chat w1 @ map Inl es @ [r]" "quiet (map Inl es)" "r2 = map_sum id Some r"
      using send_voice_here [OF s2] by blast
    have "w' = w2 \<and> (case res of None \<Rightarrow> quiet (map Inl es @ [r]) | Some r' \<Rightarrow> sent_once r' (map Inl es @ [r]))"
    proof (cases r)
      case (Inl e)
      then show ?thesis using assms(1) Some s s2 m t(2,3) by (cases e) (auto simp: speak_channel_def Let_def quiet_def)
    next
      case (Inr m')
      then show ?thesis using assms(1) Some s s2 m t(2,3) by (auto simp: speak_channel_def Let_def)
    qed
    then show ?thesis using t(1) same by auto
  qed
qed

lemma speak_fresh_once:
  assumes "speak_fresh c api f lang caption key channel chat st w = (res, st', w')" and "channel \<noteq> Some chat"
  shows "\<exists>xs. chat_answers chat w' = chat_answers chat w @ xs \<and> sent_once res xs"
proof (cases "f_audio f")
  case False
  then show ?thesis using assms(1) by (intro exI [of _ "[]"]) (auto simp: speak_fresh_def)
next
  case True
  let ?step = "case channel of Some ch \<Rightarrow> if ch \<noteq> 0 then speak_channel c api f lang caption key ch chat st w else (None, st, w)
                             | None \<Rightarrow> (None, st, w)"
  obtain r1 st1 w1 where s: "?step = (r1, st1, w1)" by (cases ?step)
  have "\<exists>xs. chat_answers chat w1 = chat_answers chat w @ xs \<and> (case r1 of None \<Rightarrow> quiet xs | Some r \<Rightarrow> sent_once r xs)"
  proof (cases "\<exists>ch. channel = Some ch \<and> ch \<noteq> 0")
    case True
    then obtain ch where ch: "channel = Some ch" "ch \<noteq> 0" by blast
    then have "speak_channel c api f lang caption key ch chat st w = (r1, st1, w1)" "ch \<noteq> chat" using s assms(2) by auto
    then show ?thesis by (rule speak_channel_once)
  next
    case False
    then have "r1 = None" "w1 = w" using s by (auto split: option.splits if_splits)
    then show ?thesis by (intro exI [of _ "[]"]) simp
  qed
  then obtain xs where xs: "chat_answers chat w1 = chat_answers chat w @ xs" "case r1 of None \<Rightarrow> quiet xs | Some r \<Rightarrow> sent_once r xs" by blast
  show ?thesis
  proof (cases r1)
    case (Some r)
    then show ?thesis using assms(1) True s xs by (auto simp: speak_fresh_def)
  next
    case None
    then have "speak_direct api f chat st1 w1 = (res, st', w')" using assms(1) True s by (simp add: speak_fresh_def)
    then obtain ys where "chat_answers chat w' = chat_answers chat w1 @ ys" "sent_once res ys" using speak_direct_once by blast
    then show ?thesis using xs None sent_once_append [of xs res ys] by auto
  qed
qed

text \<open>C17: a pronunciation reaches the user once. Whatever path it takes, over the stored voice, over the upload
  to the channel or directly, every call for the user's chat but the last ended with an error after which
  nothing can have arrived; a timeout or a network error is never followed by another send. The result
  is a success exactly when the last call succeeded.\<close>

theorem pronunciation_sent_once:
  assumes "speak_locked c api f lang caption key channel chat st w = (res, st', w')" and "channel \<noteq> Some chat"
  shows "\<exists>xs. chat_answers chat w' = chat_answers chat w @ xs \<and> sent_once res xs"
proof (cases "channel = None \<or> channel = Some 0")
  case True
  then show ?thesis using assms speak_fresh_once [of c api f lang caption key channel chat st w] by (auto simp: speak_locked_def)
next
  case False
  obtain got st1 where g: "tts_get c f key st = (got, st1)" by (cases "tts_get c f key st")
  show ?thesis
  proof (cases "\<exists>cached. got = Some cached \<and> t_file_id cached \<noteq> ''''")
    case none: False
    then have "speak_fresh c api f lang caption key channel chat st1 w = (res, st', w')"
      using assms(1) False g by (auto simp: speak_locked_def split: option.splits)
    then show ?thesis using speak_fresh_once assms(2) by blast
  next
    case True
    then obtain cached where cached: "got = Some cached" "t_file_id cached \<noteq> ''''" by blast
    obtain r1 w1 where s: "send_voice api chat (Handle (t_file_id cached)) w = (r1, w1)"
      by (cases "send_voice api chat (Handle (t_file_id cached)) w")
    obtain es r where t: "chat_answers chat w1 = chat_answers chat w @ map Inl es @ [r]" "quiet (map Inl es)" "r1 = map_sum id Some r"
      using send_voice_here [OF s] by blast
    show ?thesis
    proof (cases "r = Inl Forbidden")
      case True
      then have "speak_fresh c api f lang caption key channel chat st1 w1 = (res, st', w')"
        using assms(1) False g cached s t(3) by (simp add: speak_locked_def)
      then obtain ys where ys: "chat_answers chat w' = chat_answers chat w1 @ ys" "sent_once res ys" using speak_fresh_once assms(2) by blast
      have "quiet (map Inl es @ [r])" using t(2) True by (simp add: quiet_def)
      from sent_once_append [OF this ys(2)] show ?thesis using t(1) ys(1) by auto
    next
      case other: False
      have "w' = w1 \<and> sent_once res (map Inl es @ [r])"
      proof (cases r)
        case (Inl e)
        then show ?thesis using assms(1) False g cached s t(2,3) other by (auto simp: speak_locked_def split: if_splits)
      next
        case (Inr m)
        then show ?thesis using assms(1) False g cached s t(2,3) by (auto simp: speak_locked_def)
      qed
      then show ?thesis using t(1) by blast
    qed
  qed
qed


section \<open>The locks in use\<close>

lemma evict_idle_facts:
  assumes "length xs \<le> n" and "MAX_SPEAK_LOCKS \<le> n"
  shows "set (evict_idle locked n xs) \<subseteq> set xs" and "filter (\<lambda>e. locked (snd e)) (evict_idle locked n xs) = filter (\<lambda>e. locked (snd e)) xs"
    and "distinct (map fst xs) \<Longrightarrow> distinct (map fst (evict_idle locked n xs))"
    and "length (evict_idle locked n xs) + (n - length xs) < MAX_SPEAK_LOCKS \<or> evict_idle locked n xs = filter (\<lambda>e. locked (snd e)) xs"
proof -
  have "set (evict_idle locked n xs) \<subseteq> set xs \<and> filter (\<lambda>e. locked (snd e)) (evict_idle locked n xs) = filter (\<lambda>e. locked (snd e)) xs \<and>
      (distinct (map fst xs) \<longrightarrow> distinct (map fst (evict_idle locked n xs))) \<and>
      (length (evict_idle locked n xs) + (n - length xs) < MAX_SPEAK_LOCKS \<or> evict_idle locked n xs = filter (\<lambda>e. locked (snd e)) xs)"
    using assms
  proof (induction locked n xs rule: evict_idle.induct)
    case (2 locked n k l rest)
    show ?case
    proof (cases "locked l")
      case True
      then have "set (evict_idle locked n rest) \<subseteq> set rest \<and> filter (\<lambda>e. locked (snd e)) (evict_idle locked n rest) = filter (\<lambda>e. locked (snd e)) rest \<and>
          (distinct (map fst rest) \<longrightarrow> distinct (map fst (evict_idle locked n rest))) \<and>
          (length (evict_idle locked n rest) + (n - length rest) < MAX_SPEAK_LOCKS \<or> evict_idle locked n rest = filter (\<lambda>e. locked (snd e)) rest)"
        using 2 by simp
      moreover have "n - length rest = Suc (n - length ((k, l) # rest))" using 2(3) by simp
      ultimately show ?thesis using True by (auto 0 3)
    next
      case idle: False
      show ?thesis
      proof (cases "n - 1 < MAX_SPEAK_LOCKS")
        case True
        then show ?thesis using idle 2(3) by auto
      next
        case False
        then have "set (evict_idle locked (n - 1) rest) \<subseteq> set rest \<and>
            filter (\<lambda>e. locked (snd e)) (evict_idle locked (n - 1) rest) = filter (\<lambda>e. locked (snd e)) rest \<and>
            (distinct (map fst rest) \<longrightarrow> distinct (map fst (evict_idle locked (n - 1) rest))) \<and>
            (length (evict_idle locked (n - 1) rest) + (n - 1 - length rest) < MAX_SPEAK_LOCKS \<or>
             evict_idle locked (n - 1) rest = filter (\<lambda>e. locked (snd e)) rest)"
          using 2 idle by simp
        then show ?thesis using idle False by auto
      qed
    qed
  qed simp
  then show "set (evict_idle locked n xs) \<subseteq> set xs" and "filter (\<lambda>e. locked (snd e)) (evict_idle locked n xs) = filter (\<lambda>e. locked (snd e)) xs"
    and "distinct (map fst xs) \<Longrightarrow> distinct (map fst (evict_idle locked n xs))"
    and "length (evict_idle locked n xs) + (n - length xs) < MAX_SPEAK_LOCKS \<or> evict_idle locked n xs = filter (\<lambda>e. locked (snd e)) xs"
    by blast+
qed

text \<open>The table of locks is bounded and never forgets a lock in use: a key that has a lock keeps it, every
  lock that is held stays in the table, keys stay unique, and the table has at most 2000 entries
  unless more than that many locks are held at once.\<close>

theorem locks_in_use_stay:
  assumes "distinct (map fst table)" and "length table \<le> MAX_SPEAK_LOCKS"
    and "get_speak_lock locked key fresh table = (l, table')"
  shows "map_of table' key = Some l \<and> l = or_else (map_of table key) fresh \<and> distinct (map fst table') \<and>
     (\<forall>k l'. map_of table k = Some l' \<and> locked l' \<longrightarrow> map_of table' k = Some l') \<and>
     length table' \<le> max MAX_SPEAK_LOCKS (Suc (length (filter (\<lambda>e. locked (snd e)) table)))"
proof (cases "map_of table key")
  case (Some l0)
  then show ?thesis using assms by (auto simp: get_speak_lock_def)
next
  case None
  let ?t = "if length table \<ge> MAX_SPEAK_LOCKS then evict_idle locked (length table) table else table"
  have r: "l = fresh" "table' = ?t @ [(key, fresh)]" using None assms(3) by (auto simp: get_speak_lock_def Let_def)
  have sub: "set ?t \<subseteq> set table" and keep: "filter (\<lambda>e. locked (snd e)) ?t = filter (\<lambda>e. locked (snd e)) table" and d: "distinct (map fst ?t)"
    using evict_idle_facts(1-3) [of table "length table" locked] assms(1) by auto
  have len: "length ?t \<le> max (MAX_SPEAK_LOCKS - 1) (length (filter (\<lambda>e. locked (snd e)) table))"
    using evict_idle_facts(4) [of table "length table" locked] by auto
  have k: "key \<notin> fst ` set ?t" using None sub by (auto simp: map_of_eq_None_iff)
  then have d': "distinct (map fst table')" using d r by (simp del: split_paired_All)
  have "map_of table' k = Some l'" if "map_of table k = Some l'" "locked l'" for k l'
  proof -
    have "(k, l') \<in> set (filter (\<lambda>e. locked (snd e)) ?t)" unfolding keep using that by (auto dest: map_of_SomeD)
    then show ?thesis using d' unfolding r(2) by (intro map_of_is_SomeI) auto
  qed
  moreover have "map_of table' key = Some l" using d' r by (intro map_of_is_SomeI) auto
  moreover have "MAX_SPEAK_LOCKS > 0" by (simp add: MAX_SPEAK_LOCKS_def)
  then have "length table' \<le> max MAX_SPEAK_LOCKS (Suc (length (filter (\<lambda>e. locked (snd e)) table)))" using len r by auto
  ultimately show ?thesis using None r d' by auto
qed

section \<open>A stored voice that Telegram rejects\<close>

lemma map_of_moved: "set l \<subseteq> {e. fst e \<noteq> key} \<Longrightarrow> map_of (l @ [(key, d)]) key = Some d"
  by (induction l) auto

lemma map_of_moved_key: "map_of (filter (\<lambda>e. fst e \<noteq> key) l @ [(key, d)]) key = Some d"
  by (rule map_of_moved) auto

lemma map_of_lru_put: "map_of (lru_put key d l) key = Some d"
proof -
  have "map_of (tl (filter (\<lambda>e. fst e \<noteq> key) l @ [(key, d)])) key = Some d"
    if "length (filter (\<lambda>e. fst e \<noteq> key) l @ [(key, d)]) > LRU_CAP"
  proof -
    have "filter (\<lambda>e. fst e \<noteq> key) l \<noteq> []" using that LRU_CAP_pos by auto
    then have "tl (filter (\<lambda>e. fst e \<noteq> key) l @ [(key, d)]) = tl (filter (\<lambda>e. fst e \<noteq> key) l) @ [(key, d)]" by simp
    moreover have "set (tl (filter (\<lambda>e. fst e \<noteq> key) l)) \<subseteq> {e. fst e \<noteq> key}" by (auto dest: set_tlD)
    ultimately show ?thesis by (simp only: map_of_moved)
  qed
  then show ?thesis by (simp add: lru_put_def Let_def map_of_moved_key del: map_of_append)
qed

lemma tts_get_again:
  assumes "tts_get c f key st = (Some d, st')"
  shows "fst (tts_get c' f' key st') = Some d"
proof -
  have "map_of (lru st') key = Some d"
    using assms map_of_lru_put
    by (auto simp: tts_get_def get_cached_def Let_def map_of_moved_key simp del: map_of_append split: option.splits if_splits)
  then show ?thesis by (simp add: tts_get_def get_cached_def)
qed

text \<open>C34: a stored voice that Telegram rejects is never replaced. When the call that sends the stored file id ends with
  a bad request, speaking fails with that error after this one call, and the same file id is what
  every later lookup of the word returns, so the word fails again at every press.\<close>

theorem rejected_voice_stays_cached:
  assumes "channel = Some ch" and "ch \<noteq> 0" and "fst (tts_get c f key st) = Some d" and "t_file_id d \<noteq> ''''"
    and "api (length (calls w)) = Inl BadRequest"
  shows "\<exists>st' w'. speak_locked c api f lang caption key channel chat st w = (Inl (Tg BadRequest), st', w') \<and>
     calls w' = calls w @ [(Call chat ''send_voice'' (AsIs (Handle (t_file_id d))), Inl BadRequest)] \<and>
     (\<forall>c' f'. fst (tts_get (c' :: 'b clock_scheme) f' key st') = Some d)"
proof -
  obtain st1 where g: "tts_get c f key st = (Some d, st1)" using assms(3) by (cases "tts_get c f key st") auto
  have "send_voice api chat (Handle (t_file_id d)) w =
      (Inl BadRequest, w\<lparr>calls := calls w @ [(Call chat ''send_voice'' (AsIs (Handle (t_file_id d))), Inl BadRequest)]\<rparr>)"
    using assms(5) by (simp add: send_voice_def send_media_with_retry_def SEND_METHOD_ALLOWLIST_def SEND_MEDIA_EXPECTED_def
        numeral_3_eq_3 issue_def Let_def to_send_def capture_media_bytes_def)
  then show ?thesis 
    using assms(1,2,4) g tts_get_again [OF g, where c' = c' for c' :: "'b clock_scheme"] by (simp add: speak_locked_def)
qed


section \<open>Concrete voices\<close>

definition old_voice :: "string \<Rightarrow> int \<Rightarrow> tts_row" where
  "old_voice key t = \<lparr>t_key = key, t_lang = ''en'', t_text = ''cat'', t_file_id = ''f'' @ key, t_unique_id = '''',
     t_channel_message = None, t_created = Stamp 0, t_last_used = Stamp t\<rparr>"

definition voices :: tts_store where
  "voices = \<lparr>rows = [old_voice ''a'' 7, old_voice ''b'' 1, old_voice ''c'' 8], lru = [(''a'', old_voice ''a'' 6)], mp3 = (\<lambda>_. Some 10)\<rparr>"

definition lucky :: fortune where
  "lucky = \<lparr>f_read = True, f_touch = True, f_write = True, f_audio = True, f_upload_bytes = Some ''mp3'', f_direct_bytes = Some ''mp3''\<rparr>"

lemma voices_coherent: "coherent voices"
  by (simp add: coherent_def voices_def old_voice_def voice_def LRU_CAP_def)

theorem voice_purge_keeps_bounds_witness:
  "\<exists>n m s' K1 K2 s1. purge_tts_cache (ask_clock 9) id (\<lambda>_. True) 2 15 0 None voices = ((n, m), s') \<and> coherent s' \<and>
     set K1 = {''b''} \<and> evicted id (\<lambda>_. True) K1 voices s1 \<and> evicted id (\<lambda>_. True) K2 s1 s' \<and> K2 \<noteq> [] \<and>
     15 < sum_list (map (\<lambda>r. file_size id s1 (t_key r)) (filter (\<lambda>r. t_key r \<notin> set (butlast K2)) (rows s1)))"
proof -
  obtain n m s' where run: "purge_tts_cache (ask_clock 9) id (\<lambda>_. True) 2 15 0 None voices = ((n, m), s')"
    by (cases "purge_tts_cache (ask_clock 9) id (\<lambda>_. True) 2 15 0 None voices") auto
  have "(0::int) \<le> 15" by simp
  from voice_purge_keeps_bounds [OF voices_coherent this run] obtain K K1 K2 s1 where
    coh: "coherent s'" and fit: "sum_list (map (\<lambda>r. file_size id s' (t_key r)) (rows s')) \<le> 15" and
    K1: "evicted id (\<lambda>_. True) K1 voices s1" and K2: "evicted id (\<lambda>_. True) K2 s1 s'" and
    old: "set K1 = t_key ` {r \<in> set (rows voices). unused_since (ask_clock 9)
      (stamp_text (ask_clock 9) (Stamp (utc_now (ask_clock 9) - 0 * day_us))) r}" and
    needed: "\<forall>ks k. K2 = ks @ [k] \<longrightarrow>
      15 < sum_list (map (\<lambda>r. file_size id s1 (t_key r)) (filter (\<lambda>r. t_key r \<notin> set ks) (rows s1)))"
    by (elim exE conjE) (rule that)
  define late where "late = unused_since (ask_clock 9) (stamp_text (ask_clock 9) (Stamp (utc_now (ask_clock 9) - 0 * day_us)))"
  have texts: "late (old_voice k t) \<longleftrightarrow> t < 5" if "t < 1000" for k t
    using that by (simp add: late_def unused_since_def old_voice_def ask_clock_def pad2_def)
  have "{r \<in> set (rows voices). late r} = {old_voice ''b'' 1}" by (auto simp: voices_def texts)
  then have b: "set K1 = {''b''}" unfolding old late_def [symmetric] by (simp add: old_voice_def)
  have "K2 \<noteq> []"
  proof
    assume "K2 = []"
    then have "rows s' = rows s1" "mp3 s' = mp3 s1" using K2 by (auto simp: evicted_def)
    then show False using fit K1 by (auto simp: evicted_def b voices_def old_voice_def file_size_def mp3_path_for_cache_key_def CACHE_KEY_HASH_LEN_def or_else_def)
  qed
  moreover from this have "K2 = butlast K2 @ [last K2]" by simp
  with needed have "15 < sum_list (map (\<lambda>r. file_size id s1 (t_key r)) (filter (\<lambda>r. t_key r \<notin> set (butlast K2)) (rows s1)))" by blast
  ultimately show ?thesis using run coh b K1 K2 by (intro exI conjI)
qed

theorem voice_cache_coherent_witness:
  "coherent (snd (get_cached (ask_clock 9) True True ''b'' voices)) \<and>
   map_option t_file_id (fst (get_cached (ask_clock 9) True True ''b'' voices)) = Some ''fb'' \<and>
   map_option t_file_id (fst (get_cached (ask_clock 9) True True ''b'' (put_cached (ask_clock 9) ''b'' ''en'' ''cat'' ''new'' '''' None voices))) = Some ''new''"
proof -
  have hit: "map_option t_file_id (fst (get_cached (ask_clock 9) True True ''b'' voices)) = Some ''fb''" by code_simp
  show ?thesis
    using hit voice_cache_coherent [OF voices_coherent, of "ask_clock 9" True True "''b''" "''en''" "''cat''" "''new''" "''''" None id "\<lambda>_. True" 2 15 0 None "ask_clock 9"]
    by blast
qed

theorem pronunciation_sent_once_witness:
  "\<exists>st' w'. speak_locked (ask_clock 9) busy_api lucky ''en'' ''cat'' ''a'' (Some 100) 5 voices quiet_world = (Inr FileIdHit, st', w') \<and>
     (\<exists>xs. chat_answers 5 w' = xs \<and> sent_once (Inr FileIdHit) xs)"
proof -
  obtain st' w' where run: "speak_locked (ask_clock 9) busy_api lucky ''en'' ''cat'' ''a'' (Some 100) 5 voices quiet_world = (Inr FileIdHit, st', w')"
    by (simp add: speak_locked_def tts_get_def get_cached_def voices_def old_voice_def send_voice_def send_media_with_retry_def
        SEND_METHOD_ALLOWLIST_def SEND_MEDIA_EXPECTED_def numeral_3_eq_3 busy_api_def quiet_world_def issue_def nap_def reset_telegram_cb_def Let_def)
  have "Some (100::int) \<noteq> Some 5" by simp
  from pronunciation_sent_once [OF run this] show ?thesis using run by (simp add: chat_answers_def quiet_world_def)
qed

theorem locks_in_use_stay_witness:
  "\<exists>l t. get_speak_lock (\<lambda>l. l = (1::nat)) ''b'' 2 [(''a'', 1)] = (l, t) \<and> map_of t ''a'' = Some 1 \<and> map_of t ''b'' = Some l"
proof -
  obtain l t where run: "get_speak_lock (\<lambda>l. l = (1::nat)) ''b'' 2 [(''a'', 1)] = (l, t)" by fastforce
  have "distinct (map fst [(''a'', 1::nat)])" "length [(''a'', 1::nat)] \<le> MAX_SPEAK_LOCKS" by (simp_all add: MAX_SPEAK_LOCKS_def)
  from locks_in_use_stay [OF this run] show ?thesis using run by simp
qed

theorem rejected_voice_stays_cached_witness:
  "\<exists>st' w'. speak_locked (ask_clock 9) (\<lambda>_. Inl BadRequest) lucky ''en'' ''cat'' ''a'' (Some 100) 5 voices quiet_world = (Inl (Tg BadRequest), st', w') \<and>
     map_option t_file_id (fst (tts_get (ask_clock 10) lucky ''a'' st')) = Some ''fa''"
proof -
  let ?d = "old_voice ''a'' 6"
  have got: "fst (tts_get (ask_clock 9) lucky ''a'' voices) = Some ?d" by (simp add: tts_get_def get_cached_def voices_def)
  have "(100::int) \<noteq> 0" "t_file_id ?d \<noteq> ''''" by (simp_all add: old_voice_def)
  from rejected_voice_stays_cached [where c = "ask_clock 9" and f = lucky and key = "''a''" and api = "\<lambda>_. Inl BadRequest" and w = quiet_world
      and chat = 5 and lang = "''en''" and caption = "''cat''", OF refl this(1) got this(2) refl]
  obtain st' w' where "speak_locked (ask_clock 9) (\<lambda>_. Inl BadRequest) lucky ''en'' ''cat'' ''a'' (Some 100) 5 voices quiet_world = (Inl (Tg BadRequest), st', w')"
    "fst (tts_get (ask_clock 10) lucky ''a'' st') = Some ?d" by blast
  then show ?thesis by (simp add: old_voice_def)
qed

end
