(* ===== verification/Retention.thy ===== *)
theory Retention imports AuxTables Summary Quota Presets Speech begin

text \<open>
  The nightly retention job, \<open>services/retention.py\<close>: ten purges of the modelled components, run in a fixed
  order with a time budget. A purge may be stopped by its deadline, may fail in the middle (the
  transactions before the failure stay), or may be skipped; the theory shows what holds all the same.
\<close>

section \<open>The stores of the job\<close>

record house =
  h_ai :: ai_db \<comment> \<open>its \<open>conf\<close> is the main database\<close>
  h_costs :: cost_db
  h_aux :: aux_db
  h_voices :: tts_store

abbreviation main :: "house \<Rightarrow> db" where
  "main h \<equiv> conf (h_ai h)"

definition set_main :: "db \<Rightarrow> house \<Rightarrow> house" where
  "set_main s h = h\<lparr>h_ai := (h_ai h)\<lparr>conf := s\<rparr>\<rparr>"

section \<open>The steps\<close>

text \<open>
  A step gets the number of times its deadline is checked before it has passed, and runs with the
  defaults of its purge. \<open>Inl\<close> is an exception before anything was written, \<open>None\<close> a loop that never ends.
\<close>

type_synonym purge = "nat option \<Rightarrow> house \<Rightarrow> house py option"

definition hourly_step :: "('a clock_scheme) \<Rightarrow> purge" where
  "hourly_step c budget h = Some (Inr (h\<lparr>h_ai := prune_preset_hourly_usage c 24 (h_ai h)\<rparr>))"

definition query_step :: "('a clock_scheme) \<Rightarrow> purge" where
  "query_step c budget h = Some (Inr (set_main (cleanup_expired_query_results c (main h)) h))"

definition report_step :: "('a clock_scheme) \<Rightarrow> purge" where
  "report_step c budget h = map_option (\<lambda>(_, s). Inr (set_main s h)) (purge_expired_session_reports c 500 budget (main h))"

definition config_step :: "('a clock_scheme) \<Rightarrow> purge" where
  "config_step c budget h = map_option (\<lambda>(_, s). Inr (h\<lparr>h_aux := s\<rparr>)) (prune_config_tests c 1000 30 500 budget (h_aux h))"

definition llm_step :: "('a clock_scheme) \<Rightarrow> purge" where
  "llm_step c budget h = Some (map_sum id (\<lambda>(_, s). h\<lparr>h_costs := s\<rparr>) (purge_old_llm_requests c 90 500 budget (h_costs h)))"

definition review_step :: "('a clock_scheme) \<Rightarrow> purge" where
  "review_step c budget h = Some (Inr (set_main (snd (prune_old_review_events c 90 2 500 budget (main h))) h))"

definition session_step :: "('a clock_scheme) \<Rightarrow> purge" where
  "session_step c budget h = map_option (map_sum id (\<lambda>(_, s). set_main s h)) (purge_stale_study_sessions c 500 budget (main h))"

text \<open>\<open>listing\<close>: the keys of the settings table as the query lists them.\<close>

definition slot_step :: "((string \<Rightarrow> string option) \<Rightarrow> string list) \<Rightarrow> ('a clock_scheme) \<Rightarrow> purge" where
  "slot_step listing c budget h =
     Some (map_sum id (\<lambda>(_, s). set_main s h) (purge_old_session_slot_keys c 500 budget (listing (settings (main h))) (main h)))"

definition voice_step :: "(string \<Rightarrow> string) \<Rightarrow> (string \<Rightarrow> bool) \<Rightarrow> ('a clock_scheme) \<Rightarrow> purge" where
  "voice_step digest removable c budget h =
     Some (Inr (h\<lparr>h_voices := snd (purge_tts_cache c digest removable 500 MAX_BYTES UNUSED_DAYS budget (h_voices h))\<rparr>))"

definition tip_step :: purge where
  "tip_step budget h = map_option (\<lambda>(_, s). Inr (h\<lparr>h_aux := s\<rparr>)) (purge_grammar_tips 500 budget (h_aux h))"

text \<open>What the job relies on: the clock every step reads, and the parameters of the steps.\<close>

record 'a house_env =
  clock_of :: "string \<Rightarrow> 'a clock_scheme"
  listing_of :: "(string \<Rightarrow> string option) \<Rightarrow> string list"
  digest_of :: "string \<Rightarrow> string"
  can_remove :: "string \<Rightarrow> bool"

text \<open>The name of a step, whether it is a single statement, and its purge.\<close>

definition nightly_steps :: "'a house_env \<Rightarrow> (string \<times> bool \<times> purge) list" where
  "nightly_steps E =
     [(''hourly_usage'', True, hourly_step (clock_of E ''hourly_usage'')),
      (''query_expired'', True, query_step (clock_of E ''query_expired'')),
      (''session_reports'', False, report_step (clock_of E ''session_reports'')),
      (''config'', False, config_step (clock_of E ''config'')),
      (''llm'', False, llm_step (clock_of E ''llm'')),
      (''reviews'', False, review_step (clock_of E ''reviews'')),
      (''sessions'', False, session_step (clock_of E ''sessions'')),
      (''slots'', False, slot_step (listing_of E) (clock_of E ''slots'')),
      (''tts'', False, voice_step (digest_of E) (can_remove E) (clock_of E ''tts'')),
      (''grammar'', False, tip_step)]"

definition NIGHTLY_STEP_NAMES :: "string list" where
  "NIGHTLY_STEP_NAMES =
     [''hourly_usage'', ''query_expired'', ''session_reports'', ''config'', ''llm'', ''reviews'', ''sessions'', ''slots'', ''tts'', ''grammar'']"

definition NIGHTLY_BUDGET_SECONDS :: real where
  "NIGHTLY_BUDGET_SECONDS = 600"

section \<open>The job\<close>

record sweep =
  ran :: "string list"
  failed :: "string list"
  skipped :: "string list"

text \<open>
  What the night does to the run: the monotonic clock when a step is about to begin, the checks of the
  deadline a step gets, and the steps that fail, with the number of transactions before the failure.
\<close>

record night =
  tick :: "string \<Rightarrow> real"
  checks :: "string \<Rightarrow> nat option"
  crash :: "string \<Rightarrow> nat option"

fun run_steps :: "night \<Rightarrow> real \<Rightarrow> (string \<times> bool \<times> purge) list \<Rightarrow> house \<Rightarrow> sweep \<Rightarrow> (sweep \<times> house) option" where
  "run_steps N deadline [] h r = Some (r, h)"
| "run_steps N deadline ((name, whole, run) # rest) h r =
     (if tick N name \<ge> deadline then run_steps N deadline rest h (r\<lparr>skipped := skipped r @ [name]\<rparr>)
      else case crash N name of
        Some k \<Rightarrow>
          if whole then run_steps N deadline rest h (r\<lparr>failed := failed r @ [name]\<rparr>)
          else Option.bind (run (Some k) h) (\<lambda>res.
                 run_steps N deadline rest (case res of Inr h' \<Rightarrow> h' | Inl _ \<Rightarrow> h) (r\<lparr>failed := failed r @ [name]\<rparr>))
      | None \<Rightarrow>
          Option.bind (run (checks N name) h) (\<lambda>res.
            case res of
              Inl _ \<Rightarrow> run_steps N deadline rest h (r\<lparr>failed := failed r @ [name]\<rparr>)
            | Inr h' \<Rightarrow> run_steps N deadline rest h' (r\<lparr>ran := ran r @ [name]\<rparr>)))"

text \<open>\<open>locked\<close>: a previous run still holds the lock; \<open>t0\<close>: the monotonic clock at the start.\<close>

definition nightly_retention_job :: "'a house_env \<Rightarrow> night \<Rightarrow> bool \<Rightarrow> real \<Rightarrow> house \<Rightarrow> (sweep \<times> house) option" where
  "nightly_retention_job E N locked t0 h =
     (if locked then Some (\<lparr>ran = [], failed = [], skipped = NIGHTLY_STEP_NAMES\<rparr>, h)
      else run_steps N (t0 + NIGHTLY_BUDGET_SECONDS) (nightly_steps E) h \<lparr>ran = [], failed = [], skipped = []\<rparr>)"

section \<open>Every step returns\<close>

lemma total_steps:
  "\<exists>res. hourly_step c b h = Some res" "\<exists>res. query_step c b h = Some res" "\<exists>res. report_step c b h = Some res"
  "\<exists>res. llm_step c b h = Some res" "\<exists>res. review_step c b h = Some res" "\<exists>res. slot_step l c b h = Some res"
  "\<exists>res. voice_step d m c b h = Some res" "\<exists>res. tip_step b h = Some res" "\<exists>res. session_step c b h = Some res"
proof -
  show "\<exists>res. hourly_step c b h = Some res" "\<exists>res. query_step c b h = Some res" "\<exists>res. llm_step c b h = Some res"
    "\<exists>res. review_step c b h = Some res" "\<exists>res. slot_step l c b h = Some res" "\<exists>res. voice_step d m c b h = Some res"
    by (simp_all add: hourly_step_def query_step_def llm_step_def review_step_def slot_step_def voice_step_def)
  have batch: "(0::int) < max 1 500" "(0::int) < 500" by simp_all
  show "\<exists>res. report_step c b h = Some res"
    using purge_loop_any [OF batch(1), of "expired c" b "reports (main h)" 0]
    by (auto simp: report_step_def purge_expired_session_reports_def)
  show "\<exists>res. tip_step b h = Some res"
    using purge_loop_any [OF batch(2), of "\<lambda>_. True" b "sort_key gt_id (tips (h_aux h))" 0]
    by (auto simp: tip_step_def purge_grammar_tips_def)
  show "\<exists>res. session_step c b h = Some res"
  proof (cases "day_before (today c)")
    case (Inr y)
    obtain rs n b1 where p1: "purge_loop (\<lambda>r. s_date r < isoformat y) 500 b (studies (main h)) 0 = Some (rs, n, b1)"
      using purge_loop_any [OF batch(2), of "\<lambda>r. s_date r < isoformat y" b "studies (main h)" 0] by blast
    let ?old = "\<lambda>l. stamp_text c (l_graded_at l) < stamp_text c (Stamp (utc_now c - 2 * day_us))"
    obtain ls m b2 where p2: "purge_loop ?old 500 b1 (ledger (main h)) 0 = Some (ls, m, b2)"
      using purge_loop_any [OF batch(2), of ?old b1 "ledger (main h)" 0] by blast
    show ?thesis using Inr p1 p2 by (simp add: session_step_def purge_stale_study_sessions_def Let_def del: stamp_text.simps isoformat.simps)
  qed (simp add: session_step_def purge_stale_study_sessions_def)
qed

lemma config_step_returns: "\<exists>res. config_step c b h = Some res"
proof -
  have batch: "(0::int) < 500" "(0::int) \<le> 1000" by simp_all
  obtain rs n b1 where p1: "purge_loop (stale_test c 30) 500 b (tests (h_aux h)) 0 = Some (rs, n, b1)"
    using purge_loop_any [OF batch(1), of "stale_test c 30" b "tests (h_aux h)" 0] by blast
  obtain r where "keep_newest c 1000 500 b1 rs n = Some r" using keep_newest_returns [OF batch] by blast
  then show ?thesis using p1 by (cases r) (simp add: config_step_def prune_config_tests_def)
qed

lemma nightly_step_returns: "(name, whole, run) \<in> set (nightly_steps E) \<Longrightarrow> \<exists>res. run b h = Some res"
  using total_steps config_step_returns by (fastforce simp: nightly_steps_def)

section \<open>What happens to each step\<close>

lemma run_steps_outcome:
  assumes "distinct (map fst steps)" and "\<And>name whole run b h. (name, whole, run) \<in> set steps \<Longrightarrow> \<exists>res. run b h = Some res"
  shows "\<exists>F r' h'. run_steps N deadline steps h r = Some (r', h') \<and>
     ran r' = ran r @ filter (\<lambda>n. tick N n < deadline \<and> n \<notin> F) (map fst steps) \<and>
     failed r' = failed r @ filter (\<lambda>n. tick N n < deadline \<and> n \<in> F) (map fst steps) \<and>
     skipped r' = skipped r @ filter (\<lambda>n. deadline \<le> tick N n) (map fst steps) \<and>
     (\<forall>n \<in> set (map fst steps). crash N n \<noteq> None \<longrightarrow> n \<in> F)"
  using assms
proof (induction steps arbitrary: h r)
  case (Cons step rest)
  obtain name whole run where step: "step = (name, whole, run)" by (cases step)
  let ?after = "\<lambda>h r. \<exists>F r' h'. run_steps N deadline rest h r = Some (r', h') \<and>
     ran r' = ran r @ filter (\<lambda>n. tick N n < deadline \<and> n \<notin> F) (map fst rest) \<and>
     failed r' = failed r @ filter (\<lambda>n. tick N n < deadline \<and> n \<in> F) (map fst rest) \<and>
     skipped r' = skipped r @ filter (\<lambda>n. deadline \<le> tick N n) (map fst rest) \<and>
     (\<forall>n \<in> set (map fst rest). crash N n \<noteq> None \<longrightarrow> n \<in> F)"
  have IH: "?after h r" for h r
    using Cons.prems by (intro Cons.IH) (simp, meson list.set_intros(2))
  have new: "name \<notin> set (map fst rest)" using Cons.prems(1) step by simp
  have comes: "\<exists>res. run b h = Some res" for b h using Cons.prems(2) [of name whole run] step by simp
  have same: "filter (\<lambda>n. tick N n < deadline \<and> n \<notin> insert name F) (map fst rest) = filter (\<lambda>n. tick N n < deadline \<and> n \<notin> F) (map fst rest)"
    "filter (\<lambda>n. tick N n < deadline \<and> n \<in> insert name F) (map fst rest) = filter (\<lambda>n. tick N n < deadline \<and> n \<in> F) (map fst rest)"
    "filter (\<lambda>n. tick N n < deadline \<and> n \<notin> F - {name}) (map fst rest) = filter (\<lambda>n. tick N n < deadline \<and> n \<notin> F) (map fst rest)"
    "filter (\<lambda>n. tick N n < deadline \<and> n \<in> F - {name}) (map fst rest) = filter (\<lambda>n. tick N n < deadline \<and> n \<in> F) (map fst rest)" for F
    using new by (auto intro!: filter_cong)
  consider (late) "deadline \<le> tick N name"
    | (fails) h1 where "tick N name < deadline" "run_steps N deadline (step # rest) h r = run_steps N deadline rest h1 (r\<lparr>failed := failed r @ [name]\<rparr>)"
    | (runs) h1 where "tick N name < deadline" "crash N name = None"
        "run_steps N deadline (step # rest) h r = run_steps N deadline rest h1 (r\<lparr>ran := ran r @ [name]\<rparr>)"
  proof (cases "deadline \<le> tick N name")
    case False
    show thesis
    proof (cases "crash N name")
      case (Some k)
      obtain res where "run (Some k) h = Some res" using comes by blast
      then have "\<exists>h1. run_steps N deadline (step # rest) h r = run_steps N deadline rest h1 (r\<lparr>failed := failed r @ [name]\<rparr>)"
        using False Some step by (cases whole) auto
      then show thesis using False fails by (meson not_le)
    next
      case None
      obtain res where "run (checks N name) h = Some res" using comes by blast
      then show thesis using False None step fails [of h] runs by (cases res) auto
    qed
  qed (rule late)
  then show ?case
  proof cases
    case late
    obtain F r' h' where r': "run_steps N deadline rest h (r\<lparr>skipped := skipped r @ [name]\<rparr>) = Some (r', h')"
      "ran r' = ran r @ filter (\<lambda>n. tick N n < deadline \<and> n \<notin> F) (map fst rest)"
      "failed r' = failed r @ filter (\<lambda>n. tick N n < deadline \<and> n \<in> F) (map fst rest)"
      "skipped r' = (skipped r @ [name]) @ filter (\<lambda>n. deadline \<le> tick N n) (map fst rest)"
      "\<forall>n \<in> set (map fst rest). crash N n \<noteq> None \<longrightarrow> n \<in> F"
      using IH [of h "r\<lparr>skipped := skipped r @ [name]\<rparr>"] by auto
    then show ?thesis using late step same [of F] by (intro exI [of _ "insert name F"] exI [of _ r'] exI [of _ h']) simp
  next
    case (fails h1)
    obtain F r' h' where r': "run_steps N deadline rest h1 (r\<lparr>failed := failed r @ [name]\<rparr>) = Some (r', h')"
      "ran r' = ran r @ filter (\<lambda>n. tick N n < deadline \<and> n \<notin> F) (map fst rest)"
      "failed r' = (failed r @ [name]) @ filter (\<lambda>n. tick N n < deadline \<and> n \<in> F) (map fst rest)"
      "skipped r' = skipped r @ filter (\<lambda>n. deadline \<le> tick N n) (map fst rest)"
      "\<forall>n \<in> set (map fst rest). crash N n \<noteq> None \<longrightarrow> n \<in> F"
      using IH [of h1 "r\<lparr>failed := failed r @ [name]\<rparr>"] by auto
    then show ?thesis unfolding fails(2) using fails(1) step same [of F]
      by (intro exI [of _ "insert name F"] exI [of _ r'] exI [of _ h']) simp
  next
    case (runs h1)
    obtain F r' h' where r': "run_steps N deadline rest h1 (r\<lparr>ran := ran r @ [name]\<rparr>) = Some (r', h')"
      "ran r' = (ran r @ [name]) @ filter (\<lambda>n. tick N n < deadline \<and> n \<notin> F) (map fst rest)"
      "failed r' = failed r @ filter (\<lambda>n. tick N n < deadline \<and> n \<in> F) (map fst rest)"
      "skipped r' = skipped r @ filter (\<lambda>n. deadline \<le> tick N n) (map fst rest)"
      "\<forall>n \<in> set (map fst rest). crash N n \<noteq> None \<longrightarrow> n \<in> F"
      using IH [of h1 "r\<lparr>ran := ran r @ [name]\<rparr>"] by auto
    have "\<forall>n \<in> set (map fst (step # rest)). crash N n \<noteq> None \<longrightarrow> n \<in> F - {name}" using r'(5) runs(2) step new by auto
    then show ?thesis unfolding runs(3) using runs(1) step r'(1-4) same(3,4) [of F]
      by (intro exI [of _ "F - {name}"] exI [of _ r'] exI [of _ h']) simp
  qed
qed simp

lemma nightly_names: "map fst (nightly_steps E) = NIGHTLY_STEP_NAMES"
  by (simp add: nightly_steps_def NIGHTLY_STEP_NAMES_def)

lemma filter_sorted_tail: "sorted (map f xs) \<Longrightarrow> filter (\<lambda>x. d \<le> f x) xs = dropWhile (\<lambda>x. f x < (d :: real)) xs"
proof (induction xs)
  case (Cons x xs)
  show ?case
  proof (cases "f x < d")
    case False
    then have "filter (\<lambda>y. d \<le> f y) (x # xs) = x # xs" using Cons.prems by (intro filter_True) auto
    then show ?thesis using False by simp
  qed (use Cons in auto)
qed simp

lemma job_outcome:
  "\<exists>r h' F. nightly_retention_job E N locked t0 h = Some (r, h') \<and>
     (if locked then r = \<lparr>ran = [], failed = [], skipped = NIGHTLY_STEP_NAMES\<rparr> \<and> h' = h
      else ran r = filter (\<lambda>n. tick N n < t0 + 600 \<and> n \<notin> F) NIGHTLY_STEP_NAMES \<and>
        failed r = filter (\<lambda>n. tick N n < t0 + 600 \<and> n \<in> F) NIGHTLY_STEP_NAMES \<and>
        skipped r = filter (\<lambda>n. t0 + 600 \<le> tick N n) NIGHTLY_STEP_NAMES \<and>
        (\<forall>n \<in> set NIGHTLY_STEP_NAMES. crash N n \<noteq> None \<longrightarrow> n \<in> F) \<and>
        (sorted (map (tick N) NIGHTLY_STEP_NAMES) \<longrightarrow> skipped r = dropWhile (\<lambda>n. tick N n < t0 + 600) NIGHTLY_STEP_NAMES))"
proof (cases locked)
  case True
  then show ?thesis by (simp add: nightly_retention_job_def)
next
  case False
  have "distinct NIGHTLY_STEP_NAMES" by (simp add: NIGHTLY_STEP_NAMES_def)
  then have d: "distinct (map fst (nightly_steps E))" unfolding nightly_names .
  have steps: "\<exists>res. run b h = Some res" if "(name, whole, run) \<in> set (nightly_steps E)" for name whole run b h
    using nightly_step_returns [OF that] .
  note outcome = run_steps_outcome [where steps = "nightly_steps E", OF d, where N = N and deadline = "t0 + 600" and h = h
      and r = "\<lparr>ran = [], failed = [], skipped = []\<rparr>"]
  obtain F r h' where "run_steps N (t0 + 600) (nightly_steps E) h \<lparr>ran = [], failed = [], skipped = []\<rparr> = Some (r, h')"
    "ran r = filter (\<lambda>n. tick N n < t0 + 600 \<and> n \<notin> F) NIGHTLY_STEP_NAMES"
    "failed r = filter (\<lambda>n. tick N n < t0 + 600 \<and> n \<in> F) NIGHTLY_STEP_NAMES"
    "skipped r = filter (\<lambda>n. t0 + 600 \<le> tick N n) NIGHTLY_STEP_NAMES"
    "\<forall>n \<in> set NIGHTLY_STEP_NAMES. crash N n \<noteq> None \<longrightarrow> n \<in> F"
    using outcome steps unfolding nightly_names by (auto simp del: filter.simps)
  then show ?thesis using False filter_sorted_tail [of "tick N" NIGHTLY_STEP_NAMES "t0 + 600"]
    by (simp add: nightly_retention_job_def NIGHTLY_BUDGET_SECONDS_def) blast
qed

text \<open>C35: the nightly job always ends and accounts for every step: the steps that ran, that failed and that were
  skipped are each listed in the fixed order and together are all ten; a step is skipped exactly when
  the budget was used up before it began, so with a clock that does not go back the skipped steps are the
  last ones; a step that crashed counts as failed; and a second run beside a first one does nothing.\<close>

theorem nightly_accounts_for_every_step:
  "\<exists>r h' F. nightly_retention_job E N locked t0 h = Some (r, h') \<and>
     (if locked then r = \<lparr>ran = [], failed = [], skipped = NIGHTLY_STEP_NAMES\<rparr> \<and> h' = h
      else ran r = filter (\<lambda>n. tick N n < t0 + 600 \<and> n \<notin> F) NIGHTLY_STEP_NAMES \<and>
        failed r = filter (\<lambda>n. tick N n < t0 + 600 \<and> n \<in> F) NIGHTLY_STEP_NAMES \<and>
        skipped r = filter (\<lambda>n. t0 + 600 \<le> tick N n) NIGHTLY_STEP_NAMES \<and>
        (\<forall>n \<in> set NIGHTLY_STEP_NAMES. crash N n \<noteq> None \<longrightarrow> n \<in> F) \<and>
        (sorted (map (tick N) NIGHTLY_STEP_NAMES) \<longrightarrow> skipped r = dropWhile (\<lambda>n. tick N n < t0 + 600) NIGHTLY_STEP_NAMES))"
  by (rule job_outcome)

section \<open>What a sweep leaves alone\<close>

text \<open>A step leaves the house as it was or as one run of its purge, to its end or to a deadline, leaves it.\<close>

definition moved :: "purge \<Rightarrow> house \<Rightarrow> house \<Rightarrow> bool" where
  "moved run h h' \<longleftrightarrow> h' = h \<or> (\<exists>b. run b h = Some (Inr h'))"

fun chain :: "purge list \<Rightarrow> house \<Rightarrow> house \<Rightarrow> bool" where
  "chain [] h h' \<longleftrightarrow> h' = h"
| "chain (run # runs) h h' \<longleftrightarrow> (\<exists>h1. moved run h h1 \<and> chain runs h1 h')"

lemma run_steps_chain:
  "run_steps N deadline steps h r = Some (r', h') \<Longrightarrow> chain (map (\<lambda>(_, _, run). run) steps) h h'"
proof (induction steps arbitrary: h r)
  case (Cons step rest)
  obtain name whole run where step: "step = (name, whole, run)" by (cases step)
  note run_it = Cons.prems [unfolded step run_steps.simps]
  have "\<exists>h1 r1. moved run h h1 \<and> run_steps N deadline rest h1 r1 = Some (r', h')"
  proof (cases "deadline \<le> tick N name")
    case True
    then show ?thesis using run_it by (auto simp: moved_def)
  next
    case late: False
    show ?thesis
    proof (cases "crash N name")
      case (Some k)
      show ?thesis
      proof (cases whole)
        case True
        then show ?thesis using run_it late Some by (auto simp: moved_def)
      next
        case False
        then obtain res where "run (Some k) h = Some res" using run_it late Some by (cases "run (Some k) h") auto
        then show ?thesis using run_it late Some False by (cases res) (auto simp: moved_def)
      qed
    next
      case None
      then obtain res where "run (checks N name) h = Some res" using run_it late by (cases "run (checks N name) h") auto
      then show ?thesis using run_it late None by (cases res) (auto simp: moved_def)
    qed
  qed
  then show ?case using Cons.IH step by auto
qed simp

subsection \<open>The voice purge under a deadline\<close>

lemma evict_unused_any:
  "coherent s \<Longrightarrow> evict_unused c digest removable cutoff batch budget s n = (m, b', s') \<Longrightarrow>
     \<exists>K. set K \<subseteq> t_key ` {r \<in> set (rows s). unused_since c cutoff r} \<and> evicted digest removable K s s'"
proof (induction c digest removable cutoff batch budget s n arbitrary: m b' s' rule: evict_unused.induct)
  case (1 c digest removable cutoff batch budget s n)
  let ?keys = "oldest_unused c cutoff batch s"
  let ?s = "delete_rows_and_files digest removable ?keys s"
  have run: "(m, b', s') = (if budget = Some 0 then (n, budget, s) else if ?keys = [] then (n, map_option (\<lambda>b. b - 1) budget, s)
      else if length ?keys < batch then (n + length ?keys, map_option (\<lambda>b. b - 1) budget, ?s)
      else evict_unused c digest removable cutoff batch (map_option (\<lambda>b. b - 1) budget) ?s (n + length ?keys))"
    using 1(3) by (subst (asm) evict_unused.simps) (auto simp: Let_def)
  note keys = oldest_unused_facts(2) [OF 1(2), of c cutoff batch]
  consider (stop) "s' = s" | (last_batch) "s' = ?s" | (more) "\<not> budget = Some 0" "?keys \<noteq> []" "\<not> length ?keys < batch"
      "evict_unused c digest removable cutoff batch (map_option (\<lambda>b. b - 1) budget) ?s (n + length ?keys) = (m, b', s')"
    using run by (auto split: if_splits)
  then show ?case
  proof cases
    case stop
    then show ?thesis by (intro exI [of _ "[]"]) simp
  next
    case last_batch
    then show ?thesis using keys evicted_delete [of digest removable ?keys s] by blast
  next
    case more
    have d: "coherent ?s" by (rule coherent_delete [OF 1(2)])
    obtain K where K: "set K \<subseteq> t_key ` {r \<in> set (rows ?s). unused_since c cutoff r}" "evicted digest removable K ?s s'"
      using 1(1) [OF more(1) refl refl more(2) refl more(3) d more(4)] by blast
    have "set (?keys @ K) \<subseteq> t_key ` {r \<in> set (rows s). unused_since c cutoff r}" using K(1) keys by (auto simp: delete_store)
    then show ?thesis using evicted_trans [OF evicted_delete K(2)] by blast
  qed
qed

lemma evict_chunks_any: "\<exists>K. evicted digest removable K s (snd (evict_chunks digest removable chs budget s n))"
proof (induction chs arbitrary: budget s n)
  case Nil
  then show ?case by (intro exI [of _ "[]"]) simp
next
  case (Cons chunk chs)
  show ?case
  proof (cases "budget = Some 0")
    case True
    then show ?thesis by (intro exI [of _ "[]"]) simp
  next
    case False
    obtain K where "evicted digest removable K (delete_rows_and_files digest removable chunk s)
        (snd (evict_chunks digest removable chs (map_option (\<lambda>b. b - 1) budget) (delete_rows_and_files digest removable chunk s) (n + length chunk)))"
      using Cons.IH by blast
    from evicted_trans [OF evicted_delete this] show ?thesis using False by auto
  qed
qed

lemma sum_list_sort_int: "sum_list (map g (sort_key k xs)) = (sum_list (map g xs) :: int)"
  by (metis mset_map mset_sort sum_mset_sum_list)

lemma sum_sizes_evicted:
  assumes "evicted digest removable K s s'"
  shows "sum_list (map (file_size digest s') (oldest_used_first c s')) \<le> sum_list (map (\<lambda>r. file_size digest s (t_key r)) (rows s))"
proof -
  let ?f = "\<lambda>r. file_size digest s (t_key r)"
  have smaller: "file_size digest s' k \<le> file_size digest s k" for k using assms by (auto simp: file_size_def evicted_def)
  have "sum_list (map (file_size digest s') (oldest_used_first c s')) = sum_list (map (\<lambda>r. file_size digest s' (t_key r)) (rows s'))"
    unfolding oldest_used_first_def map_map comp_def by (rule sum_list_sort_int)
  also have "\<dots> \<le> sum_list (map ?f (rows s'))" using smaller by (intro sum_list_mono)
  also have "\<dots> \<le> sum_list (map ?f (rows s))"
  proof -
    have "sum_list (map ?f (filter p rs)) \<le> sum_list (map ?f rs)" for p rs by (induction rs) (auto simp: file_size_def)
    then show ?thesis using assms by (simp add: evicted_def)
  qed
  finally show ?thesis .
qed

lemma purge_any:
  assumes "coherent s" and "purge_tts_cache c digest removable batch max_bytes unused_days budget s = (nm, s')"
  shows "\<exists>K. evicted digest removable K s s' \<and>
     (sum_list (map (\<lambda>r. file_size digest s (t_key r)) (rows s)) \<le> max_bytes \<longrightarrow>
        set K \<subseteq> t_key ` {r \<in> set (rows s). unused_since c (stamp_text c (Stamp (utc_now c - unused_days * day_us))) r})"
proof -
  let ?cutoff = "stamp_text c (Stamp (utc_now c - unused_days * day_us))"
  let ?batch = "nat (max 1 batch)"
  obtain n b s1 where p1: "evict_unused c digest removable ?cutoff ?batch budget s 0 = (n, b, s1)"
    by (cases "evict_unused c digest removable ?cutoff ?batch budget s 0") auto
  then have s': "s' = snd (evict_over_cap c digest removable ?batch max_bytes b s1)"
    using assms(2) by (auto simp: purge_tts_cache_def Let_def split_beta simp del: stamp_text.simps)
  obtain K1 where K1: "set K1 \<subseteq> t_key ` {r \<in> set (rows s). unused_since c ?cutoff r}" "evicted digest removable K1 s s1"
    using evict_unused_any [OF assms(1) p1] by blast
  show ?thesis
  proof (cases "sum_list (map (\<lambda>r. file_size digest s (t_key r)) (rows s)) \<le> max_bytes")
    case True
    then have "\<not> sum_list (map (file_size digest s1) (oldest_used_first c s1)) - max_bytes > 0"
      using sum_sizes_evicted [OF K1(2), of c] by linarith
    then have "s' = s1" by (simp add: s' evict_over_cap_def Let_def)
    then show ?thesis using K1 by blast
  next
    case False
    have "\<exists>K2. evicted digest removable K2 s1 s'"
      using evict_chunks_any [of digest removable s1] evicted_Nil [of digest removable s1]
      by (auto simp: s' evict_over_cap_def Let_def simp del: evicted_Nil)
    then show ?thesis using evicted_trans [OF K1(2)] False by blast
  qed
qed

subsection \<open>One step\<close>

text \<open>The day before today as a text, below every date where there is none.\<close>

definition yesterday :: "('a clock_scheme) \<Rightarrow> string" where
  "yesterday c = (case day_before (today c) of Inr d \<Rightarrow> isoformat d | Inl _ \<Rightarrow> '''')"

definition old_grade :: "('a clock_scheme) \<Rightarrow> ledger_row \<Rightarrow> bool" where
  "old_grade c l \<longleftrightarrow> stamp_text c (l_graded_at l) < stamp_text c (Stamp (utc_now c - 2 * day_us))"

definition old_event :: "('a clock_scheme) \<Rightarrow> event_row \<Rightarrow> bool" where
  "old_event c e \<longleftrightarrow> stamp_text c (e_created e) < stamp_text c (Stamp (utc_now c - 90 * day_us))"

definition old_slot :: "('a clock_scheme) \<Rightarrow> string \<Rightarrow> bool" where
  "old_slot c k \<longleftrightarrow> (case slot_key_date k of Some d \<Rightarrow> d < yesterday c | None \<Rightarrow> False)"

definition old_voice_row :: "('a clock_scheme) \<Rightarrow> tts_row \<Rightarrow> bool" where
  "old_voice_row c r \<longleftrightarrow> unused_since c (stamp_text c (Stamp (utc_now c - 90 * day_us))) r"

lemma set_main_same [simp]: "set_main (main h) h = h"
  by (simp add: set_main_def)

lemma main_set_main [simp]: "main (set_main s h) = s" "h_costs (set_main s h) = h_costs h" "h_aux (set_main s h) = h_aux h"
  "h_voices (set_main s h) = h_voices h" "presets (h_ai (set_main s h)) = presets (h_ai h)" "groups (h_ai (set_main s h)) = groups (h_ai h)"
  "hourly (h_ai (set_main s h)) = hourly (h_ai h)"
  by (simp_all add: set_main_def)

lemma moved_hourly:
  assumes "moved (hourly_step c) h h1"
  shows "\<exists>H. h1 = h\<lparr>h_ai := (h_ai h)\<lparr>hourly := H\<rparr>\<rparr> \<and>
     filter (\<lambda>u. \<not> h_bucket u < usage_cutoff c 24) H = filter (\<lambda>u. \<not> h_bucket u < usage_cutoff c 24) (hourly (h_ai h))"
  using assms unfolding moved_def
proof (elim disjE exE)
  assume "h1 = h"
  then show ?thesis by (intro exI [of _ "hourly (h_ai h)"]) simp
next
  fix b assume "hourly_step c b h = Some (Inr h1)"
  then show ?thesis
    by (intro exI [of _ "delete_where (\<lambda>u. h_bucket u < usage_cutoff c 24) (hourly (h_ai h))"])
      (auto simp: hourly_step_def prune_preset_hourly_usage_def delete_where_def)
qed

lemma moved_query:
  assumes "moved (query_step c) h h1"
  shows "\<exists>Q. h1 = set_main ((main h)\<lparr>queries := Q\<rparr>) h \<and>
     filter (\<lambda>q. \<not> query_result_expired c q) Q = filter (\<lambda>q. \<not> query_result_expired c q) (queries (main h))"
  using assms unfolding moved_def
proof (elim disjE exE)
  assume "h1 = h"
  then show ?thesis by (intro exI [of _ "queries (main h)"]) simp
next
  fix b assume "query_step c b h = Some (Inr h1)"
  then show ?thesis
    by (intro exI [of _ "delete_where (query_result_expired c) (queries (main h))"])
      (auto simp: query_step_def cleanup_expired_query_results_def delete_where_def)
qed

lemma moved_report:
  assumes "moved (report_step c) h h1"
  shows "\<exists>R. h1 = set_main ((main h)\<lparr>reports := R\<rparr>) h \<and>
     filter (\<lambda>r. \<not> expired c r) R = filter (\<lambda>r. \<not> expired c r) (reports (main h))"
  using assms unfolding moved_def
proof (elim disjE exE)
  assume "h1 = h"
  then show ?thesis by (intro exI [of _ "reports (main h)"]) simp
next
  fix b assume run: "report_step c b h = Some (Inr h1)"
  have "(0::int) < max 1 500" by simp
  then obtain R n b1 where "purge_loop (expired c) (max 1 500) b (reports (main h)) 0 = Some (R, n, b1)"
    "filter (\<lambda>r. \<not> expired c r) R = filter (\<lambda>r. \<not> expired c r) (reports (main h))"
    using purge_loop_any [of "max 1 500" "expired c" b "reports (main h)" 0] by blast
  then show ?thesis using run by (intro exI [of _ R]) (simp add: report_step_def purge_expired_session_reports_def)
qed

lemma moved_config:
  assumes "moved (config_step c) h h1" and "distinct (map ct_id (tests (h_aux h)))"
  shows "\<exists>T. h1 = h\<lparr>h_aux := (h_aux h)\<lparr>tests := T\<rparr>\<rparr> \<and>
     (\<forall>x \<in> set (tests (h_aux h)). x \<notin> set T \<longrightarrow> stale_test c 30 x \<or> (1000 \<le> length T \<and> (\<forall>r \<in> set T. audit_key c x \<le> audit_key c r)))"
  using assms(1) unfolding moved_def
proof (elim disjE exE)
  assume "h1 = h"
  then show ?thesis by (intro exI [of _ "tests (h_aux h)"]) simp
next
  fix b assume run: "config_step c b h = Some (Inr h1)"
  have "(0::int) < 500" "(0::int) \<le> 1000" by simp_all
  from prune_config_facts [OF assms(2) this, of c 30 b] obtain n s where
    p: "prune_config_tests c 1000 30 500 b (h_aux h) = Some (n, s)" "s = (h_aux h)\<lparr>tests := tests s\<rparr>"
      "\<forall>x \<in> set (tests (h_aux h)). x \<notin> set (tests s) \<longrightarrow> stale_test c 30 x \<or>
        (1000 \<le> int (length (tests s)) \<and> (\<forall>r \<in> set (tests s). audit_key c x \<le> audit_key c r))" by blast
  have "h1 = h\<lparr>h_aux := s\<rparr>" using run p(1) by (simp add: config_step_def)
  then have "h1 = h\<lparr>h_aux := (h_aux h)\<lparr>tests := tests s\<rparr>\<rparr>" using p(2) by simp
  then show ?thesis using p(3) by (intro exI [of _ "tests s"]) auto
qed

lemma moved_llm:
  assumes "moved (llm_step c) h h1" and "cost_reachable (h_costs h)"
  shows "\<exists>L. h1 = h\<lparr>h_costs := L\<rparr> \<and>
     (\<forall>d. minus_days (today c) 90 = Inr d \<longrightarrow>
        filter (\<lambda>r. \<not> lq_date r < isoformat d) (llm L) = filter (\<lambda>r. \<not> lq_date r < isoformat d) (llm (h_costs h))) \<and>
     (\<forall>f. rollup_eligible f \<longrightarrow> summarize_llm_requests f L = summarize_llm_requests f (h_costs h) \<and>
        daily_costs_grouped f L = daily_costs_grouped f (h_costs h))"
  using assms(1) unfolding moved_def
proof (elim disjE exE)
  assume "h1 = h"
  then show ?thesis by (intro exI [of _ "h_costs h"]) simp
next
  fix b assume run: "llm_step c b h = Some (Inr h1)"
  then obtain n L where p: "purge_old_llm_requests c 90 500 b (h_costs h) = Inr (n, L)" "h1 = h\<lparr>h_costs := L\<rparr>"
    by (cases "purge_old_llm_requests c 90 500 b (h_costs h)") (auto simp: llm_step_def)
  have inv: "cost_inv (h_costs h)" by (rule cost_reachable_inv [OF assms(2)])
  have "filter (\<lambda>r. \<not> lq_date r < isoformat d) (llm L) = filter (\<lambda>r. \<not> lq_date r < isoformat d) (llm (h_costs h))"
    if "minus_days (today c) 90 = Inr d" for d
  proof -
    have "purge_llm_loop (isoformat d) (nat (max 1 500)) b (h_costs h) 0 = (n, L)" using p(1) that by (simp add: purge_old_llm_requests_def)
    from purge_loop_result [OF this inv] show ?thesis by simp
  qed
  then show ?thesis using p(2) purge_is_invisible_aux [OF assms(2) p(1)] by (intro exI [of _ L]) simp
qed

lemma moved_review:
  assumes "moved (review_step c) h h1" and "events_ok (main h)"
  shows "\<exists>W V. h1 = set_main ((main h)\<lparr>words := W, events := V\<rparr>) h \<and>
     map (\<lambda>r. r\<lparr>w_total := 0, w_lapses := 0\<rparr>) W = map (\<lambda>r. r\<lparr>w_total := 0, w_lapses := 0\<rparr>) (words (main h)) \<and>
     (\<forall>e \<in> set (events (main h)). e \<in> set V \<or> (old_event c e \<and> 2 \<le> newer_count c V e))"
  using assms(1) unfolding moved_def
proof (elim disjE exE)
  assume "h1 = h"
  then show ?thesis by (intro exI [of _ "words (main h)"] exI [of _ "events (main h)"]) simp
next
  fix b assume run: "review_step c b h = Some (Inr h1)"
  obtain n s where p: "prune_old_review_events c 90 2 500 b (main h) = (n, s)" by fastforce
  have h1: "h1 = set_main s h" using run p by (simp add: review_step_def)
  have cols: "map (\<lambda>r. r\<lparr>w_total := 0, w_lapses := 0\<rparr>) W' = map (\<lambda>r. r\<lparr>w_total := 0, w_lapses := 0\<rparr>) W"
    if "list_all2 grows W W'" for W W'
    using that by (induction W W' rule: list_all2_induct) (auto dest: grows_cols)
  show ?thesis
    using p assms(2)
  proof (cases rule: prune_cases)
    case stopped
    then show ?thesis using h1 cols by (intro exI [of _ "words s"] exI [of _ "events s"]) simp
  next
    case (ran b1)
    have "distinct (map e_id (events (main h)))" using assms(2) by (simp add: events_ok_def)
    from prune_victims_safe [OF ran(2) this]
    have "\<forall>e \<in> set (events (main h)). e \<in> set (events s) \<or> (old_event c e \<and> 2 \<le> newer_count c (events s) e)"
      by (auto simp: surplus_def old_event_def simp del: stamp_text.simps)
    then show ?thesis using h1 ran(4) cols [OF ran(3)] by (intro exI [of _ "words s"] exI [of _ "events s"]) simp
  qed
qed

lemma moved_session:
  assumes "moved (session_step c) h h1"
  shows "\<exists>S L. h1 = set_main ((main h)\<lparr>studies := S, ledger := L\<rparr>) h \<and>
     filter (\<lambda>r. \<not> s_date r < yesterday c) S = filter (\<lambda>r. \<not> s_date r < yesterday c) (studies (main h)) \<and>
     filter (\<lambda>l. \<not> old_grade c l) L = filter (\<lambda>l. \<not> old_grade c l) (ledger (main h))"
  using assms unfolding moved_def
proof (elim disjE exE)
  assume "h1 = h"
  then show ?thesis by (intro exI [of _ "studies (main h)"] exI [of _ "ledger (main h)"]) simp
next
  fix b assume run: "session_step c b h = Some (Inr h1)"
  then obtain d where d: "day_before (today c) = Inr d"
    by (cases "day_before (today c)") (auto simp: session_step_def purge_stale_study_sessions_def)
  then have y: "yesterday c = isoformat d" by (simp add: yesterday_def)
  have batch: "(0::int) < 500" by simp
  obtain S n b1 where S: "purge_loop (\<lambda>r. s_date r < isoformat d) 500 b (studies (main h)) 0 = Some (S, n, b1)"
    "filter (\<lambda>r. \<not> s_date r < isoformat d) S = filter (\<lambda>r. \<not> s_date r < isoformat d) (studies (main h))"
    using purge_loop_any [OF batch, of "\<lambda>r. s_date r < isoformat d" b "studies (main h)" 0] by blast
  obtain L m b2 where L: "purge_loop (old_grade c) 500 b1 (ledger (main h)) 0 = Some (L, m, b2)"
    "filter (\<lambda>l. \<not> old_grade c l) L = filter (\<lambda>l. \<not> old_grade c l) (ledger (main h))"
    using purge_loop_any [OF batch, of "old_grade c" b1 "ledger (main h)" 0] by blast
  have "h1 = set_main ((main h)\<lparr>studies := S, ledger := L\<rparr>) h"
    using run d S(1) L(1) [unfolded old_grade_def [abs_def]]
    by (simp add: session_step_def purge_stale_study_sessions_def Let_def del: stamp_text.simps isoformat.simps)
  then show ?thesis using S(2) L(2) y by (intro exI [of _ S] exI [of _ L]) simp
qed

lemma delete_batches_outside: "k \<notin> set (concat chs) \<Longrightarrow> fst (delete_batches budget chs kv n) k = kv k"
proof (induction chs arbitrary: budget kv n)
  case (Cons chunk chs)
  then show ?case by (auto simp: restrict_map_def)
qed simp

lemma moved_slot:
  assumes "moved (slot_step listing c) h h1"
  shows "\<exists>kv. h1 = set_main ((main h)\<lparr>settings := kv\<rparr>) h \<and> (\<forall>k. \<not> old_slot c k \<longrightarrow> kv k = settings (main h) k)"
  using assms unfolding moved_def
proof (elim disjE exE)
  assume "h1 = h"
  then show ?thesis by (intro exI [of _ "settings (main h)"]) simp
next
  fix b assume run: "slot_step listing c b h = Some (Inr h1)"
  then obtain d where d: "day_before (today c) = Inr d"
    by (cases "day_before (today c)") (auto simp: slot_step_def purge_old_session_slot_keys_def)
  let ?stale = "filter (\<lambda>k. case slot_key_date k of Some x \<Rightarrow> x < isoformat d | None \<Rightarrow> False) (listing (settings (main h)))"
  obtain kv n where kv: "delete_batches b (chunks (nat 500) ?stale) (settings (main h)) 0 = (kv, n)" by fastforce
  have "h1 = set_main ((main h)\<lparr>settings := kv\<rparr>) h"
    using run d kv by (simp add: slot_step_def purge_old_session_slot_keys_def Let_def)
  moreover have "kv k = settings (main h) k" if "\<not> old_slot c k" for k
  proof -
    have "k \<notin> set ?stale" using that d by (auto simp: old_slot_def yesterday_def split: option.splits)
    then show ?thesis using delete_batches_outside [of k "chunks (nat 500) ?stale" b "settings (main h)" 0] kv by (simp add: concat_chunks)
  qed
  ultimately show ?thesis by blast
qed

lemma moved_voice:
  assumes "moved (voice_step digest removable c) h h1" and "coherent (h_voices h)"
  shows "\<exists>V K. h1 = h\<lparr>h_voices := V\<rparr> \<and> evicted digest removable K (h_voices h) V \<and>
     (sum_list (map (\<lambda>r. file_size digest (h_voices h) (t_key r)) (rows (h_voices h))) \<le> MAX_BYTES \<longrightarrow>
        set K \<subseteq> t_key ` {r \<in> set (rows (h_voices h)). old_voice_row c r})"
  using assms(1) unfolding moved_def
proof (elim disjE exE)
  assume "h1 = h"
  then show ?thesis by (intro exI [of _ "h_voices h"] exI [of _ "[]"]) simp
next
  fix b assume run: "voice_step digest removable c b h = Some (Inr h1)"
  obtain nm V where p: "purge_tts_cache c digest removable 500 MAX_BYTES UNUSED_DAYS b (h_voices h) = (nm, V)" by fastforce
  have "h1 = h\<lparr>h_voices := V\<rparr>" using run p by (simp add: voice_step_def)
  then show ?thesis using purge_any [OF assms(2) p] by (auto simp: old_voice_row_def [abs_def] UNUSED_DAYS_def simp del: stamp_text.simps)
qed

lemma moved_tip:
  assumes "moved tip_step h h1"
  shows "\<exists>X. h1 = h\<lparr>h_aux := (h_aux h)\<lparr>tips := X\<rparr>\<rparr>"
  using assms unfolding moved_def
proof (elim disjE exE)
  assume "h1 = h"
  then show ?thesis by (intro exI [of _ "tips (h_aux h)"]) simp
next
  fix b assume "tip_step b h = Some (Inr h1)"
  then show ?thesis by (auto simp: tip_step_def purge_grammar_tips_def)
qed

subsection \<open>The whole night\<close>

text \<open>
  The specification of a sweep. Nothing changes in the users, the plans and the presets, in the
  scheduling columns of the words and in the settings but old slot keys; of every other table only
  rows that have expired, or that enough newer rows outlive, may go; and no total of the cost ledger
  changes.
\<close>

definition keeps_live :: "'a house_env \<Rightarrow> house \<Rightarrow> house \<Rightarrow> bool" where
  "keeps_live E h h' \<longleftrightarrow>
     users (main h') = users (main h) \<and> plans (main h') = plans (main h) \<and>
     next_word_id (main h') = next_word_id (main h) \<and> next_event_id (main h') = next_event_id (main h) \<and>
     presets (h_ai h') = presets (h_ai h) \<and> groups (h_ai h') = groups (h_ai h) \<and>
     map (\<lambda>r. r\<lparr>w_total := 0, w_lapses := 0\<rparr>) (words (main h')) = map (\<lambda>r. r\<lparr>w_total := 0, w_lapses := 0\<rparr>) (words (main h)) \<and>
     (\<forall>k. \<not> old_slot (clock_of E ''slots'') k \<longrightarrow> settings (main h') k = settings (main h) k) \<and>
     (\<forall>e \<in> set (events (main h)). e \<in> set (events (main h')) \<or>
        (old_event (clock_of E ''reviews'') e \<and> 2 \<le> newer_count (clock_of E ''reviews'') (events (main h')) e)) \<and>
     filter (\<lambda>q. \<not> query_result_expired (clock_of E ''query_expired'') q) (queries (main h')) =
       filter (\<lambda>q. \<not> query_result_expired (clock_of E ''query_expired'') q) (queries (main h)) \<and>
     filter (\<lambda>r. \<not> expired (clock_of E ''session_reports'') r) (reports (main h')) =
       filter (\<lambda>r. \<not> expired (clock_of E ''session_reports'') r) (reports (main h)) \<and>
     filter (\<lambda>r. \<not> s_date r < yesterday (clock_of E ''sessions'')) (studies (main h')) =
       filter (\<lambda>r. \<not> s_date r < yesterday (clock_of E ''sessions'')) (studies (main h)) \<and>
     filter (\<lambda>l. \<not> old_grade (clock_of E ''sessions'') l) (ledger (main h')) =
       filter (\<lambda>l. \<not> old_grade (clock_of E ''sessions'') l) (ledger (main h)) \<and>
     filter (\<lambda>u. \<not> h_bucket u < usage_cutoff (clock_of E ''hourly_usage'') 24) (hourly (h_ai h')) =
       filter (\<lambda>u. \<not> h_bucket u < usage_cutoff (clock_of E ''hourly_usage'') 24) (hourly (h_ai h)) \<and>
     (\<forall>x \<in> set (tests (h_aux h)). x \<notin> set (tests (h_aux h')) \<longrightarrow> stale_test (clock_of E ''config'') 30 x \<or>
        (1000 \<le> length (tests (h_aux h')) \<and>
         (\<forall>r \<in> set (tests (h_aux h')). audit_key (clock_of E ''config'') x \<le> audit_key (clock_of E ''config'') r))) \<and>
     (\<forall>d. minus_days (today (clock_of E ''llm'')) 90 = Inr d \<longrightarrow>
        filter (\<lambda>r. \<not> lq_date r < isoformat d) (llm (h_costs h')) = filter (\<lambda>r. \<not> lq_date r < isoformat d) (llm (h_costs h))) \<and>
     (\<forall>f. rollup_eligible f \<longrightarrow> summarize_llm_requests f (h_costs h') = summarize_llm_requests f (h_costs h) \<and>
        daily_costs_grouped f (h_costs h') = daily_costs_grouped f (h_costs h)) \<and>
     (\<exists>K. evicted (digest_of E) (can_remove E) K (h_voices h) (h_voices h') \<and>
        (sum_list (map (\<lambda>r. file_size (digest_of E) (h_voices h) (t_key r)) (rows (h_voices h))) \<le> MAX_BYTES \<longrightarrow>
           set K \<subseteq> t_key ` {r \<in> set (rows (h_voices h)). old_voice_row (clock_of E ''tts'') r}))"

lemma sweep_keeps_live:
  assumes "chain (map (\<lambda>(_, _, run). run) (nightly_steps E)) h h'"
    and "events_ok (main h)" and "cost_reachable (h_costs h)" and "tests_ok (h_aux h)" and "coherent (h_voices h)"
  shows "keeps_live E h h'"
proof -
  obtain h1 h2 h3 h4 h5 h6 h7 h8 h9 where
    steps: "moved (hourly_step (clock_of E ''hourly_usage'')) h h1" "moved (query_step (clock_of E ''query_expired'')) h1 h2"
      "moved (report_step (clock_of E ''session_reports'')) h2 h3" "moved (config_step (clock_of E ''config'')) h3 h4"
      "moved (llm_step (clock_of E ''llm'')) h4 h5" "moved (review_step (clock_of E ''reviews'')) h5 h6"
      "moved (session_step (clock_of E ''sessions'')) h6 h7" "moved (slot_step (listing_of E) (clock_of E ''slots'')) h7 h8"
      "moved (voice_step (digest_of E) (can_remove E) (clock_of E ''tts'')) h8 h9" "moved tip_step h9 h'"
    using assms(1) by (auto simp: nightly_steps_def)
  note s1 = moved_hourly [OF steps(1)]
  note s2 = moved_query [OF steps(2)]
  note s3 = moved_report [OF steps(3)]
  have "distinct (map ct_id (tests (h_aux h3)))" using s1 s2 s3 assms(4) by (auto simp: tests_ok_def)
  note s4 = moved_config [OF steps(4) this]
  have "cost_reachable (h_costs h4)" using s1 s2 s3 s4 assms(3) by auto
  note s5 = moved_llm [OF steps(5) this]
  have "events_ok (main h5)" using s1 s2 s3 s4 s5 assms(2) by (auto simp: events_ok_def)
  note s6 = moved_review [OF steps(6) this]
  note s7 = moved_session [OF steps(7)]
  note s8 = moved_slot [OF steps(8)]
  have "coherent (h_voices h8)" using s1 s2 s3 s4 s5 s6 s7 s8 assms(5) by auto
  note s9 = moved_voice [OF steps(9) this]
  note s10 = moved_tip [OF steps(10)]
  show ?thesis unfolding keeps_live_def
    using s1 s2 s3 s4 s5 s6 s7 s8 s9 s10
    by (elim exE conjE) (simp, rule exI, rule conjI, assumption, assumption)
qed

text \<open>C10: whatever the night brings, the job deletes nothing that is still needed: with any deadline, any skipped
  step and any failure in the middle of a step, users, plans, presets, schedules, settings and
  every row that has not expired are afterwards what they were, a deleted review event is older than
  90 days and survived by two newer ones of its card, no total of the cost ledger changes,
  and while the voices fit their cap only voices unused for 90 days go.\<close>

theorem nightly_keeps_live_data:
  assumes "nightly_retention_job E N locked t0 h = Some (r, h')"
    and "events_ok (main h)" and "cost_reachable (h_costs h)" and "tests_ok (h_aux h)" and "coherent (h_voices h)"
  shows "keeps_live E h h'"
proof (cases locked)
  case True
  have "\<exists>K. evicted (digest_of E) (can_remove E) K (h_voices h) (h_voices h) \<and> set K \<subseteq> t_key ` {r \<in> set (rows (h_voices h)). old_voice_row (clock_of E ''tts'') r}"
    by (intro exI [of _ "[]"]) simp
  then show ?thesis using assms(1) True by (auto simp: nightly_retention_job_def keeps_live_def)
next
  case False
  then have "run_steps N (t0 + NIGHTLY_BUDGET_SECONDS) (nightly_steps E) h \<lparr>ran = [], failed = [], skipped = []\<rparr> = Some (r, h')"
    using assms(1) by (simp add: nightly_retention_job_def)
  from sweep_keeps_live [OF run_steps_chain [OF this] assms(2-5)] show ?thesis .
qed

section \<open>A calm night\<close>

lemma calm_hourly: "\<exists>h1. hourly_step c None h = Some (Inr h1) \<and> (\<forall>u \<in> set (hourly (h_ai h1)). \<not> h_bucket u < usage_cutoff c 24)"
  by (simp add: hourly_step_def prune_preset_hourly_usage_def delete_where_def)

lemma calm_query: "\<exists>h1. query_step c None h = Some (Inr h1) \<and> (\<forall>q \<in> set (queries (main h1)). \<not> query_result_expired c q)"
  by (simp add: query_step_def cleanup_expired_query_results_def delete_where_def)

lemma calm_report: "\<exists>h1. report_step c None h = Some (Inr h1) \<and> (\<forall>r \<in> set (reports (main h1)). \<not> expired c r)"
  by (simp add: report_step_def purge_expired_session_reports_def purge_loop_all)

lemma calm_config:
  assumes "distinct (map ct_id (tests (h_aux h)))"
  shows "\<exists>h1. config_step c None h = Some (Inr h1) \<and> length (tests (h_aux h1)) \<le> 1000 \<and> (\<forall>r \<in> set (tests (h_aux h1)). \<not> stale_test c 30 r)"
proof -
  have "(0::int) < 500" "(0::int) \<le> 1000" by simp_all
  from prune_config_facts [OF assms this, of c 30 None] show ?thesis by (auto simp: config_step_def)
qed

lemma calm_llm:
  assumes "cost_reachable (h_costs h)" and "minus_days (today c) 90 = Inr d"
  shows "\<exists>h1. llm_step c None h = Some (Inr h1) \<and> (\<forall>r \<in> set (llm (h_costs h1)). \<not> lq_date r < isoformat d)"
proof -
  obtain n L where l: "purge_llm_loop (isoformat d) (nat (max 1 500)) None (h_costs h) 0 = (n, L)" by fastforce
  have "0 < nat (max 1 500)" by simp
  then have "count_where (\<lambda>r. lq_date r < isoformat d) (llm L) = 0"
    using purge_loop_result [OF l cost_reachable_inv [OF assms(1)]] cost_reachable_rollup [OF assms(1)] by auto
  then show ?thesis using assms(2) l by (simp add: llm_step_def purge_old_llm_requests_def count_where_0_iff del: isoformat.simps)
qed

lemma calm_session:
  assumes "day_before (today c) = Inr d"
  shows "\<exists>h1. session_step c None h = Some (Inr h1) \<and> (\<forall>r \<in> set (studies (main h1)). \<not> s_date r < yesterday c) \<and>
     (\<forall>l \<in> set (ledger (main h1)). \<not> old_grade c l)"
  using assms by (simp add: session_step_def purge_stale_study_sessions_def purge_loop_all yesterday_def old_grade_def Let_def
      del: stamp_text.simps isoformat.simps)

lemma delete_batches_all:
  "fst (delete_batches None chs kv n) k = (if k \<in> set (concat chs) then None else kv k)"
  by (induction chs arbitrary: kv n) (auto simp: restrict_map_def)

lemma calm_slot:
  assumes "day_before (today c) = Inr d" and "\<And>k. settings (main h) k \<noteq> None \<Longrightarrow> slot_key_date k \<noteq> None \<Longrightarrow> k \<in> set (listing (settings (main h)))"
  shows "\<exists>h1. slot_step listing c None h = Some (Inr h1) \<and> (\<forall>k. old_slot c k \<longrightarrow> settings (main h1) k = None)"
proof -
  let ?stale = "filter (\<lambda>k. case slot_key_date k of Some x \<Rightarrow> x < isoformat d | None \<Rightarrow> False) (listing (settings (main h)))"
  obtain kv n where kv: "delete_batches None (chunks (nat 500) ?stale) (settings (main h)) 0 = (kv, n)" by fastforce
  have "kv k = None" if "old_slot c k" for k
  proof -
    have "settings (main h) k = None \<or> k \<in> set ?stale"
      using that assms(1) assms(2) [of k] by (cases "settings (main h) k") (auto simp: old_slot_def yesterday_def split: option.splits)
    moreover have "kv k = (if k \<in> set ?stale then None else settings (main h) k)"
      using delete_batches_all [of "chunks (nat 500) ?stale" "settings (main h)" 0 k] kv by (simp add: concat_chunks)
    ultimately show ?thesis by (simp split: if_splits)
  qed
  then show ?thesis using assms(1) kv by (simp add: slot_step_def purge_old_session_slot_keys_def Let_def)
qed

lemma calm_voice:
  assumes "coherent (h_voices h)"
  shows "\<exists>h1. voice_step digest removable c None h = Some (Inr h1) \<and> (\<forall>r \<in> set (rows (h_voices h1)). \<not> old_voice_row c r) \<and>
     sum_list (map (\<lambda>r. file_size digest (h_voices h1) (t_key r)) (rows (h_voices h1))) \<le> MAX_BYTES"
proof -
  obtain n m V where p: "purge_tts_cache c digest removable 500 MAX_BYTES UNUSED_DAYS None (h_voices h) = ((n, m), V)"
    by (cases "purge_tts_cache c digest removable 500 MAX_BYTES UNUSED_DAYS None (h_voices h)") auto
  have "0 \<le> MAX_BYTES" by (simp add: MAX_BYTES_def)
  from voice_purge_aux [OF assms this p]
  have "(\<forall>r \<in> set (rows V). \<not> old_voice_row c r) \<and> sum_list (map (\<lambda>r. file_size digest V (t_key r)) (rows V)) \<le> MAX_BYTES"
    unfolding old_voice_row_def UNUSED_DAYS_def by (elim exE conjE) (intro conjI)
  then show ?thesis using p by (simp add: voice_step_def)
qed

lemma calm_tip: "\<exists>h1. tip_step None h = Some (Inr h1) \<and> tips (h_aux h1) = []"
  by (simp add: tip_step_def purge_grammar_tips_def purge_loop_all)

text \<open>An event that the pruning rule deletes: old, and two newer ones of its card are there.\<close>

definition prunable_event :: "('a clock_scheme) \<Rightarrow> event_row list \<Rightarrow> event_row \<Rightarrow> bool" where
  "prunable_event c evs e \<longleftrightarrow> old_event c e \<and> 2 \<le> newer_count c evs e"

lemma prunable_surplus: "prunable_event c evs e \<longleftrightarrow> surplus c 2 (Stamp (utc_now c - 90 * day_us)) evs e"
  by (auto simp: prunable_event_def surplus_def old_event_def simp del: stamp_text.simps)

lemma calm_review:
  assumes "events_ok (main h)"
  shows "\<exists>h1. review_step c None h = Some (Inr h1) \<and>
    (in_time_order c (events (main h)) \<longrightarrow> (\<forall>e \<in> set (events (main h1)). \<not> prunable_event c (events (main h1)) e))"
proof -
  obtain n s' where p: "prune_old_review_events c 90 2 500 None (main h) = (n, s')" by fastforce
  have "in_time_order c (events (main h)) \<longrightarrow> (\<forall>e \<in> set (events s'). \<not> prunable_event c (events s') e)"
    using prune_leaves_no_surplus [OF p assms] unfolding prunable_surplus by blast
  then show ?thesis using p by (simp add: review_step_def)
qed

text \<open>What a calm night leaves: nothing that has expired in any table.\<close>

definition all_clear :: "'a house_env \<Rightarrow> house \<Rightarrow> bool" where
  "all_clear E h \<longleftrightarrow>
     (\<forall>u \<in> set (hourly (h_ai h)). \<not> h_bucket u < usage_cutoff (clock_of E ''hourly_usage'') 24) \<and>
     (\<forall>q \<in> set (queries (main h)). \<not> query_result_expired (clock_of E ''query_expired'') q) \<and>
     (\<forall>r \<in> set (reports (main h)). \<not> expired (clock_of E ''session_reports'') r) \<and>
     length (tests (h_aux h)) \<le> 1000 \<and> (\<forall>r \<in> set (tests (h_aux h)). \<not> stale_test (clock_of E ''config'') 30 r) \<and>
     (\<forall>d. minus_days (today (clock_of E ''llm'')) 90 = Inr d \<longrightarrow> (\<forall>r \<in> set (llm (h_costs h)). \<not> lq_date r < isoformat d)) \<and>
     (\<forall>r \<in> set (studies (main h)). \<not> s_date r < yesterday (clock_of E ''sessions'')) \<and>
     (\<forall>l \<in> set (ledger (main h)). \<not> old_grade (clock_of E ''sessions'') l) \<and>
     (\<forall>k. old_slot (clock_of E ''slots'') k \<longrightarrow> settings (main h) k = None) \<and>
     (\<forall>r \<in> set (rows (h_voices h)). \<not> old_voice_row (clock_of E ''tts'') r) \<and>
     sum_list (map (\<lambda>r. file_size (digest_of E) (h_voices h) (t_key r)) (rows (h_voices h))) \<le> MAX_BYTES \<and>
     tips (h_aux h) = []"

lemma calm_cons:
  assumes "run None h = Some (Inr h1)" and "(deadline \<le> tick N name) = False" and "checks N name = None" and "crash N name = None"
    and "run_steps N deadline rest h1 (r\<lparr>ran := ran r @ [name]\<rparr>) = res"
  shows "run_steps N deadline ((name, whole, run) # rest) h r = res"
  using assms by simp

lemma calm_run:
  assumes "events_ok (main h)" and "cost_reachable (h_costs h)" and "tests_ok (h_aux h)" and "coherent (h_voices h)"
    and "day_before (today (clock_of E ''sessions'')) = Inr d1" and "day_before (today (clock_of E ''slots'')) = Inr d2"
    and "minus_days (today (clock_of E ''llm'')) 90 = Inr d3"
    and "\<And>k. settings (main h) k \<noteq> None \<Longrightarrow> slot_key_date k \<noteq> None \<Longrightarrow> k \<in> set (listing_of E (settings (main h)))"
    and "\<And>n. tick N n < deadline \<and> checks N n = None \<and> crash N n = None"
  shows "\<exists>h'. run_steps N deadline (nightly_steps E) h r = Some (r\<lparr>ran := ran r @ NIGHTLY_STEP_NAMES\<rparr>, h') \<and> all_clear E h' \<and>
    (in_time_order (clock_of E ''reviews'') (events (main h)) \<longrightarrow>
       (\<forall>e \<in> set (events (main h')). \<not> prunable_event (clock_of E ''reviews'') (events (main h')) e))"
proof -
  obtain h1 where h1: "hourly_step (clock_of E ''hourly_usage'') None h = Some (Inr h1)"
    "\<forall>u \<in> set (hourly (h_ai h1)). \<not> h_bucket u < usage_cutoff (clock_of E ''hourly_usage'') 24" using calm_hourly by blast
  obtain h2 where h2: "query_step (clock_of E ''query_expired'') None h1 = Some (Inr h2)"
    "\<forall>q \<in> set (queries (main h2)). \<not> query_result_expired (clock_of E ''query_expired'') q" using calm_query by blast
  obtain h3 where h3: "report_step (clock_of E ''session_reports'') None h2 = Some (Inr h3)"
    "\<forall>r \<in> set (reports (main h3)). \<not> expired (clock_of E ''session_reports'') r" using calm_report by blast
  have m1: "moved (hourly_step (clock_of E ''hourly_usage'')) h h1" using h1(1) by (auto simp: moved_def)
  note s1 = moved_hourly [OF m1]
  obtain H where e1: "h1 = h\<lparr>h_ai := (h_ai h)\<lparr>hourly := H\<rparr>\<rparr>" using s1 by (elim exE conjE) (rule that)
  have m2: "moved (query_step (clock_of E ''query_expired'')) h1 h2" using h2(1) by (auto simp: moved_def)
  note s2 = moved_query [OF m2]
  obtain Q where e2: "h2 = set_main ((main h1)\<lparr>queries := Q\<rparr>) h1" using s2 by (elim exE conjE) (rule that)
  have m3: "moved (report_step (clock_of E ''session_reports'')) h2 h3" using h3(1) by (auto simp: moved_def)
  note s3 = moved_report [OF m3]
  obtain R where e3: "h3 = set_main ((main h2)\<lparr>reports := R\<rparr>) h2" using s3 by (elim exE conjE) (rule that)
  have ids: "distinct (map ct_id (tests (h_aux h3)))" using assms(3) by (simp add: e1 e2 e3 tests_ok_def)
  obtain h4 where h4: "config_step (clock_of E ''config'') None h3 = Some (Inr h4)"
    "length (tests (h_aux h4)) \<le> 1000" "\<forall>r \<in> set (tests (h_aux h4)). \<not> stale_test (clock_of E ''config'') 30 r"
    using calm_config [OF ids] by blast
  have m4: "moved (config_step (clock_of E ''config'')) h3 h4" using h4(1) by (auto simp: moved_def)
  note s4 = moved_config [OF m4 ids]
  obtain T where e4: "h4 = h3\<lparr>h_aux := (h_aux h3)\<lparr>tests := T\<rparr>\<rparr>" using s4 by (elim exE conjE) (rule that)
  have cost: "cost_reachable (h_costs h4)" using assms(2) by (simp add: e1 e2 e3 e4)
  obtain h5 where h5: "llm_step (clock_of E ''llm'') None h4 = Some (Inr h5)" "\<forall>r \<in> set (llm (h_costs h5)). \<not> lq_date r < isoformat d3"
    using calm_llm [OF cost assms(7)] by blast
  have m5: "moved (llm_step (clock_of E ''llm'')) h4 h5" using h5(1) by (auto simp: moved_def)
  note s5 = moved_llm [OF m5 cost]
  obtain L where e5: "h5 = h4\<lparr>h_costs := L\<rparr>" using s5 by (elim exE conjE) (rule that)
  have evs: "events_ok (main h5)" using assms(1) by (simp add: e1 e2 e3 e4 e5 events_ok_def)
  obtain h6 where h6: "review_step (clock_of E ''reviews'') None h5 = Some (Inr h6)"
    "in_time_order (clock_of E ''reviews'') (events (main h5)) \<longrightarrow>
       (\<forall>e \<in> set (events (main h6)). \<not> prunable_event (clock_of E ''reviews'') (events (main h6)) e)"
    using calm_review [OF evs] by blast
  have m6: "moved (review_step (clock_of E ''reviews'')) h5 h6" using h6(1) by (auto simp: moved_def)
  note s6 = moved_review [OF m6 evs]
  obtain W V where e6: "h6 = set_main ((main h5)\<lparr>words := W, events := V\<rparr>) h5" using s6 by (elim exE conjE) (rule that)
  obtain h7 where h7: "session_step (clock_of E ''sessions'') None h6 = Some (Inr h7)"
    "\<forall>r \<in> set (studies (main h7)). \<not> s_date r < yesterday (clock_of E ''sessions'')"
    "\<forall>l \<in> set (ledger (main h7)). \<not> old_grade (clock_of E ''sessions'') l" using calm_session [OF assms(5)] by blast
  have m7: "moved (session_step (clock_of E ''sessions'')) h6 h7" using h7(1) by (auto simp: moved_def)
  note s7 = moved_session [OF m7]
  obtain S G where e7: "h7 = set_main ((main h6)\<lparr>studies := S, ledger := G\<rparr>) h6" using s7 by (elim exE conjE) (rule that)
  have kv7: "settings (main h7) = settings (main h)" by (simp add: e1 e2 e3 e4 e5 e6 e7)
  obtain h8 where h8: "slot_step (listing_of E) (clock_of E ''slots'') None h7 = Some (Inr h8)"
    "\<forall>k. old_slot (clock_of E ''slots'') k \<longrightarrow> settings (main h8) k = None"
    using calm_slot [where h = h7 and listing = "listing_of E", OF assms(6)] assms(8) unfolding kv7 by blast
  have m8: "moved (slot_step (listing_of E) (clock_of E ''slots'')) h7 h8" using h8(1) by (auto simp: moved_def)
  note s8 = moved_slot [OF m8]
  obtain kv where e8: "h8 = set_main ((main h7)\<lparr>settings := kv\<rparr>) h7" using s8 by (elim exE conjE) (rule that)
  have voices: "coherent (h_voices h8)" using assms(4) by (simp add: e1 e2 e3 e4 e5 e6 e7 e8)
  obtain h9 where h9: "voice_step (digest_of E) (can_remove E) (clock_of E ''tts'') None h8 = Some (Inr h9)"
    "\<forall>r \<in> set (rows (h_voices h9)). \<not> old_voice_row (clock_of E ''tts'') r"
    "sum_list (map (\<lambda>r. file_size (digest_of E) (h_voices h9) (t_key r)) (rows (h_voices h9))) \<le> MAX_BYTES"
    using calm_voice [OF voices] by blast
  have m9: "moved (voice_step (digest_of E) (can_remove E) (clock_of E ''tts'')) h8 h9" using h9(1) by (auto simp: moved_def)
  note s9 = moved_voice [OF m9 voices]
  obtain X where e9: "h9 = h8\<lparr>h_voices := X\<rparr>" using s9 by (elim exE conjE) (rule that)
  obtain h10 where h10: "tip_step None h9 = Some (Inr h10)" "tips (h_aux h10) = []" using calm_tip by blast
  have m10: "moved tip_step h9 h10" using h10(1) by (auto simp: moved_def)
  note s10 = moved_tip [OF m10]
  obtain Y where e10: "h10 = h9\<lparr>h_aux := (h_aux h9)\<lparr>tips := Y\<rparr>\<rparr>" using s10 by (elim exE conjE) (rule that)
  have calm: "(deadline \<le> tick N n) = False" "checks N n = None" "crash N n = None" for n using assms(9) [of n] by auto
  note go = calm_cons [OF _ calm]
  have "run_steps N deadline (nightly_steps E) h r = Some (r\<lparr>ran := ran r @ NIGHTLY_STEP_NAMES\<rparr>, h10)"
    unfolding nightly_steps_def
    by (rule go, rule h1(1), rule go, rule h2(1), rule go, rule h3(1), rule go, rule h4(1), rule go, rule h5(1), rule go, rule h6(1),
        rule go, rule h7(1), rule go, rule h8(1), rule go, rule h9(1), rule go, rule h10(1)) (simp add: NIGHTLY_STEP_NAMES_def)
  moreover have "all_clear E h10"
  proof -
    have same: "hourly (h_ai h10) = hourly (h_ai h1)" "queries (main h10) = queries (main h2)" "reports (main h10) = reports (main h3)"
      "tests (h_aux h10) = tests (h_aux h4)" "h_costs h10 = h_costs h5" "studies (main h10) = studies (main h7)"
      "ledger (main h10) = ledger (main h7)" "settings (main h10) = settings (main h8)" "h_voices h10 = h_voices h9"
      by (simp_all add: e2 e3 e4 e5 e6 e7 e8 e9 e10)
    show ?thesis unfolding all_clear_def same
      by (intro conjI h1(2) h2(2) h3(2) h4(2,3) h7(2,3) h8(2) h9(2,3) h10(2)) (use h5(2) assms(7) in simp)
  qed
  moreover have "events (main h5) = events (main h)" "events (main h10) = events (main h6)"
    by (simp_all add: e1 e2 e3 e4 e5 e7 e8 e9 e10)
  ultimately show ?thesis using h6(2) by auto
qed

text \<open>C11: a calm night clears everything that has expired: when no step is stopped or fails, all ten steps run, and
  afterwards no answer, report, session, grade, usage row, slot key, request or voice is past its time, the
  voices fit their cap, the audit has at most 1000 rows and the retired tips are gone. No review event is left
  that is older than 90 days and has two newer ones of its card, provided that the ids of a card's events grow with their
  time (see \<open>in_time_order\<close>). Nothing that is still needed was touched.\<close>

theorem calm_night_clears_expired:
  assumes "events_ok (main h)" and "cost_reachable (h_costs h)" and "tests_ok (h_aux h)" and "coherent (h_voices h)"
    and "day_before (today (clock_of E ''sessions'')) = Inr d1" and "day_before (today (clock_of E ''slots'')) = Inr d2"
    and "minus_days (today (clock_of E ''llm'')) 90 = Inr d3"
    and "\<And>k. settings (main h) k \<noteq> None \<Longrightarrow> slot_key_date k \<noteq> None \<Longrightarrow> k \<in> set (listing_of E (settings (main h)))"
    and "\<And>n. tick N n < t0 + 600 \<and> checks N n = None \<and> crash N n = None"
  shows "\<exists>h'. nightly_retention_job E N False t0 h = Some (\<lparr>ran = NIGHTLY_STEP_NAMES, failed = [], skipped = []\<rparr>, h') \<and>
     all_clear E h' \<and> keeps_live E h h' \<and>
     (in_time_order (clock_of E ''reviews'') (events (main h)) \<longrightarrow>
        (\<forall>e \<in> set (events (main h')). \<not> prunable_event (clock_of E ''reviews'') (events (main h')) e))"
proof -
  obtain h' where run: "run_steps N (t0 + 600) (nightly_steps E) h \<lparr>ran = [], failed = [], skipped = []\<rparr> =
      Some (\<lparr>ran = NIGHTLY_STEP_NAMES, failed = [], skipped = []\<rparr>, h')" and "all_clear E h'"
    and "in_time_order (clock_of E ''reviews'') (events (main h)) \<longrightarrow>
      (\<forall>e \<in> set (events (main h')). \<not> prunable_event (clock_of E ''reviews'') (events (main h')) e)"
    using calm_run [where N = N and deadline = "t0 + 600" and r = "\<lparr>ran = [], failed = [], skipped = []\<rparr>", OF assms] by auto
  then show ?thesis using sweep_keeps_live [OF run_steps_chain [OF run] assms(1-4)]
    by (simp add: nightly_retention_job_def NIGHTLY_BUDGET_SECONDS_def)
qed

section \<open>Concrete nights\<close>

definition night_env :: "unit env_ext house_env" where
  "night_env = \<lparr>clock_of = (\<lambda>_. ask_clock 3), listing_of = (\<lambda>_. []), digest_of = id, can_remove = (\<lambda>_. True)\<rparr>"

definition night_house :: house where
  "night_house = \<lparr>h_ai = \<lparr>conf = empty_db, presets = [], groups = [], hourly = []\<rparr>, h_costs = empty_costs,
     h_aux = \<lparr>tests = [], next_test_id = 1, tips = [], next_tip_id = 1\<rparr>, h_voices = voices\<rparr>"

text \<open>The reviews step fails, the clock passes the deadline before the last step.\<close>

definition rough_night :: night where
  "rough_night = \<lparr>tick = (\<lambda>n. if n = ''grammar'' then 700 else 0), checks = (\<lambda>_. None), crash = (\<lambda>n. if n = ''reviews'' then Some 0 else None)\<rparr>"

definition still_night :: night where
  "still_night = \<lparr>tick = (\<lambda>_. 0), checks = (\<lambda>_. None), crash = (\<lambda>_. None)\<rparr>"

lemma night_house_ok: "events_ok (main night_house)" "cost_reachable (h_costs night_house)" "tests_ok (h_aux night_house)"
  "coherent (h_voices night_house)"
  using voices_coherent by (simp_all add: night_house_def events_ok_def tests_ok_def fresh)

theorem nightly_keeps_live_data_witness:
  "\<exists>r h'. nightly_retention_job night_env rough_night False 0 night_house = Some (r, h') \<and> ''reviews'' \<in> set (failed r) \<and>
     skipped r = [''grammar''] \<and> users (main h') = []"
proof -
  obtain r h' F where run: "nightly_retention_job night_env rough_night False 0 night_house = Some (r, h')"
    and f: "failed r = filter (\<lambda>n. tick rough_night n < 0 + 600 \<and> n \<in> F) NIGHTLY_STEP_NAMES"
      "skipped r = filter (\<lambda>n. 0 + 600 \<le> tick rough_night n) NIGHTLY_STEP_NAMES"
      "\<forall>n \<in> set NIGHTLY_STEP_NAMES. crash rough_night n \<noteq> None \<longrightarrow> n \<in> F"
    using job_outcome [of night_env rough_night False 0 night_house] by auto
  have "''reviews'' \<in> F" using f(3) by (auto simp: rough_night_def NIGHTLY_STEP_NAMES_def)
  then have "''reviews'' \<in> set (failed r)" by (simp add: f(1) rough_night_def NIGHTLY_STEP_NAMES_def)
  moreover have "skipped r = [''grammar'']" by (simp add: f(2) rough_night_def NIGHTLY_STEP_NAMES_def)
  moreover have "users (main h') = users (main night_house)"
    using nightly_keeps_live_data [OF run night_house_ok] by (simp add: keeps_live_def)
  ultimately show ?thesis using run by (simp add: night_house_def)
qed

text \<open>A house with something to clear: of the three events of a card the first is old and has two newer ones, and
  there is a retired tip.\<close>

definition busy_clock :: env where
  "busy_clock = (ask_clock (200 * day_us))\<lparr>utc_date := utc_date two_day_clock, utc_time := utc_time two_day_clock\<rparr>"

definition busy_env :: "unit env_ext house_env" where
  "busy_env = night_env\<lparr>clock_of := (\<lambda>_. busy_clock)\<rparr>"

definition busy_house :: house where
  "busy_house = night_house\<lparr>h_ai := (h_ai night_house)\<lparr>conf := three_events_db\<rparr>,
     h_aux := (h_aux night_house)\<lparr>tips := [\<lparr>gt_id = 1, gt_user = 1, gt_date = ''2026-01-01'', gt_title = ''tip'', gt_lang = ''en'', gt_goal = ''work'', gt_level = ''A1'', gt_tip = ''t'', gt_created = Stamp 0, gt_provenance = ''''\<rparr>]\<rparr>\<rparr>"

lemma busy_house_ok: "events_ok (main busy_house)" "cost_reachable (h_costs busy_house)" "tests_ok (h_aux busy_house)"
  "coherent (h_voices busy_house)"
  using voices_coherent three_events_ok by (simp_all add: busy_house_def night_house_def tests_ok_def fresh)

lemma busy_text: "stamp_text busy_clock st = stamp_text two_day_clock st"
  by (cases st) (simp_all add: busy_clock_def)

lemma busy_now: "utc_now busy_clock = 200 * day_us"
  by (simp add: busy_clock_def ask_clock_def)

lemma busy_order: "in_time_order busy_clock (events three_events_db)"
  by (simp add: in_time_order_def three_events_db_def sample_event_def event_key_def busy_text two_day_text two_day_less two_day_not_less
      less_prod_def del: stamp_text.simps)

lemma busy_surplus: "filter (prunable_event busy_clock (events three_events_db)) (events three_events_db) \<noteq> []"
  by (simp add: prunable_event_def old_event_def newer_count_def count_where_def three_events_db_def sample_event_def event_key_def
      busy_text two_day_text two_day_less two_day_not_less less_prod_def busy_now day_us_def del: stamp_text.simps)

theorem calm_night_clears_expired_witness:
  "filter (prunable_event busy_clock (events (main busy_house))) (events (main busy_house)) \<noteq> [] \<and> tips (h_aux busy_house) \<noteq> [] \<and>
   (\<exists>h'. nightly_retention_job busy_env still_night False 0 busy_house =
       Some (\<lparr>ran = NIGHTLY_STEP_NAMES, failed = [], skipped = []\<rparr>, h') \<and> tips (h_aux h') = [] \<and>
     filter (prunable_event busy_clock (events (main h'))) (events (main h')) = [])"
proof -
  have days: "day_before (today (clock_of busy_env ''sessions'')) = Inr (2026, 1, 30)" "day_before (today (clock_of busy_env ''slots'')) = Inr (2026, 1, 30)"
    by (simp_all add: busy_env_def busy_clock_def ask_clock_def)
  have "minus_days (2026, 1, 31) 90 = Inr (2025, 11, 2)" by code_simp
  then have old: "minus_days (today (clock_of busy_env ''llm'')) 90 = Inr (2025, 11, 2)"
    by (simp add: busy_env_def busy_clock_def ask_clock_def)
  have listed: "k \<in> set (listing_of busy_env (settings (main busy_house)))" if "settings (main busy_house) k \<noteq> None" "slot_key_date k \<noteq> None" for k
    using that by (simp add: busy_house_def night_house_def three_events_db_def fresh_card_db_def sample_user_db_def)
  have still: "tick still_night n < 0 + 600 \<and> checks still_night n = None \<and> crash still_night n = None" for n
    by (simp add: still_night_def)
  obtain h' where job: "nightly_retention_job busy_env still_night False 0 busy_house =
      Some (\<lparr>ran = NIGHTLY_STEP_NAMES, failed = [], skipped = []\<rparr>, h')" and clear: "all_clear busy_env h'"
    and pruned: "in_time_order (clock_of busy_env ''reviews'') (events (main busy_house)) \<longrightarrow>
      (\<forall>e \<in> set (events (main h')). \<not> prunable_event (clock_of busy_env ''reviews'') (events (main h')) e)"
    using calm_night_clears_expired [where N = still_night and ?t0.0 = 0, OF busy_house_ok days old listed still] by blast
  have evs: "events (main busy_house) = events three_events_db" by (simp add: busy_house_def)
  have "filter (prunable_event busy_clock (events (main h'))) (events (main h')) = []"
    using pruned busy_order unfolding evs filter_empty_conv by (simp add: busy_env_def)
  moreover have "tips (h_aux h') = []" using clear by (simp add: all_clear_def)
  moreover have "tips (h_aux busy_house) \<noteq> []" by (simp add: busy_house_def)
  ultimately show ?thesis using job busy_surplus unfolding evs by blast
qed

theorem nightly_accounts_for_every_step_witness:
  "\<exists>r h'. nightly_retention_job night_env rough_night False 0 night_house = Some (r, h') \<and> skipped r = [''grammar''] \<and>
     ''reviews'' \<in> set (failed r)"
proof -
  obtain r h' F where run: "nightly_retention_job night_env rough_night False 0 night_house = Some (r, h')"
    and f: "failed r = filter (\<lambda>n. tick rough_night n < 0 + 600 \<and> n \<in> F) NIGHTLY_STEP_NAMES"
      "\<forall>n \<in> set NIGHTLY_STEP_NAMES. crash rough_night n \<noteq> None \<longrightarrow> n \<in> F"
      "sorted (map (tick rough_night) NIGHTLY_STEP_NAMES) \<longrightarrow> skipped r = dropWhile (\<lambda>n. tick rough_night n < 0 + 600) NIGHTLY_STEP_NAMES"
    using nightly_accounts_for_every_step [of night_env rough_night False 0 night_house] by auto
  have "sorted (map (tick rough_night) NIGHTLY_STEP_NAMES)" by (simp add: rough_night_def NIGHTLY_STEP_NAMES_def)
  then have "skipped r = [''grammar'']" using f(3) by (simp add: rough_night_def NIGHTLY_STEP_NAMES_def)
  moreover have "''reviews'' \<in> F" using f(2) by (auto simp: rough_night_def NIGHTLY_STEP_NAMES_def)
  then have "''reviews'' \<in> set (failed r)" by (simp add: f(1) rough_night_def NIGHTLY_STEP_NAMES_def)
  ultimately show ?thesis using run by blast
qed

end
