(* ===== verification/Markup.thy ===== *)
theory Markup imports Prelude begin

text \<open>
  Messages as trees of spans and their four renderings, \<open>services/send_pretty.py\<close>, with the escapes of
  \<open>services/utils/formatting_escape.py\<close>. A renderer that meets a span it does not know raises
  \<open>TypeError\<close>, here \<open>None\<close>. What a reader of the markup sees is specified by small readers: the
  renderings show the texts of the spans and no text can turn into markup, except where a
  backslash is not escaped.
\<close>

section \<open>Escapes\<close>

abbreviation backslash :: char where
  "backslash \<equiv> CHR 0x5C"

abbreviation newline :: char where
  "newline \<equiv> CHR 0x0A"

text \<open>\<open>re.sub\<close> with a class of characters, and \<open>str.replace\<close> of one character.\<close>

definition escape_chars :: "string \<Rightarrow> string \<Rightarrow> string" where
  "escape_chars special t = concat (map (\<lambda>c. if c \<in> set special then [backslash, c] else [c]) t)"

definition replace_char :: "char \<Rightarrow> string \<Rightarrow> string \<Rightarrow> string" where
  "replace_char c r t = concat (map (\<lambda>x. if x = c then r else [x]) t)"

definition MDV2_SPECIAL :: string where
  "MDV2_SPECIAL = ''_*[]()~`>#+-=|{}.!''"

definition escape_mdv2 :: "string \<Rightarrow> string" where
  "escape_mdv2 t = (if t = '''' then '''' else escape_chars MDV2_SPECIAL t)"

definition escape_mdv2_code :: "string \<Rightarrow> string" where
  "escape_mdv2_code t = (if t = '''' then '''' else escape_chars [CHR ''`'', backslash] t)"

definition html_escape :: "string \<Rightarrow> string" where
  "html_escape t =
     replace_char (CHR 0x27) ''&#x27;'' (replace_char (CHR 0x22) ''&quot;''
       (replace_char (CHR ''>'') ''&gt;'' (replace_char (CHR ''<'') ''&lt;'' (replace_char (CHR ''&'') ''&amp;'' t))))"

definition RICH_SPECIAL :: string where
  "RICH_SPECIAL = backslash # ''*_~|`[]()#><=-+.!''"

definition escape_rich :: "string \<Rightarrow> string" where
  "escape_rich t = (if t = '''' then '''' else escape_chars RICH_SPECIAL t)"

definition escape_rich_code :: "string \<Rightarrow> string" where
  "escape_rich_code t =
     (if t = '''' then '''' else replace_char (CHR ''`'') [backslash, CHR ''`''] (replace_char backslash [backslash, backslash] t))"

section \<open>Spans\<close>

text \<open>A table cell is a list of spans; a single span is a list of one.\<close>

datatype span =
    Plain string | Bold "span list" | Italic "span list" | Code string | Spoiler "span list" | Underline "span list"
  | Strikethrough "span list" | Marked "span list" | TgSpoiler "span list" | Link string "span list" | Quote "span list"
  | Newline | CustomEmoji string string | Heading int "span list" | Table "span list option" "span list list list"
  | ListItem "span list" | TaskListItem bool "span list" | ListOf bool "span list" | Details "span list" "span list" bool
  | Math string bool | Raw string

definition hashes :: "int \<Rightarrow> string" where
  "hashes n = replicate (nat n) (CHR ''#'')"

fun join_with :: "string \<Rightarrow> string list \<Rightarrow> string" where
  "join_with sep [] = ''''"
| "join_with sep [x] = x"
| "join_with sep (x # xs) = x @ sep @ join_with sep xs"

section \<open>Renderers\<close>

definition around :: "string \<Rightarrow> string option \<Rightarrow> string \<Rightarrow> string option" where
  "around opening body closing = map_option (\<lambda>b. opening @ b @ closing) body"

definition followed :: "string option \<Rightarrow> string option \<Rightarrow> string option" where
  "followed a b = Option.bind a (\<lambda>x. map_option (\<lambda>y. x @ y) b)"

fun mdv2_span :: "span \<Rightarrow> string option" and render_mdv2 :: "span list \<Rightarrow> string option" where
  "mdv2_span (Plain t) = Some (escape_mdv2 t)"
| "mdv2_span (Bold cs) = around ''*'' (render_mdv2 cs) ''*''"
| "mdv2_span (Italic cs) = around ''_'' (render_mdv2 cs) ''_''"
| "mdv2_span (Code t) = Some (''`'' @ escape_mdv2_code t @ ''`'')"
| "mdv2_span (Spoiler cs) = around ''||'' (render_mdv2 cs) ''||''"
| "mdv2_span (TgSpoiler cs) = around ''||'' (render_mdv2 cs) ''||''"
| "mdv2_span (Underline cs) = around ''__'' (render_mdv2 cs) ''__''"
| "mdv2_span (Strikethrough cs) = around ''~'' (render_mdv2 cs) ''~''"
| "mdv2_span (Marked cs) = around ''*'' (render_mdv2 cs) ''*''"
| "mdv2_span (Link url cs) = around ''['' (render_mdv2 cs) (''](''  @ escape_mdv2 url @ '')'')"
| "mdv2_span (Quote cs) = map_option (\<lambda>inner. ''> '' @ replace_char newline (newline # ''> '') inner) (render_mdv2 cs)"
| "mdv2_span Newline = Some [newline]"
| "mdv2_span (CustomEmoji eid fallback) = Some (''!['' @ escape_mdv2 fallback @ ''](tg://emoji?id='' @ eid @ '')'')"
| "mdv2_span _ = None"
| "render_mdv2 [] = Some ''''"
| "render_mdv2 (s # ss) = followed (mdv2_span s) (render_mdv2 ss)"

abbreviation quote_mark :: char where
  "quote_mark \<equiv> CHR 0x22"

definition html_tag :: "string \<Rightarrow> string \<Rightarrow> string" where
  "html_tag name val = name @ ''='' @ [quote_mark] @ val @ [quote_mark]"

fun html_span :: "span \<Rightarrow> string option" and render_html :: "span list \<Rightarrow> string option" where
  "html_span (Plain t) = Some (html_escape t)"
| "html_span (Bold cs) = around ''<b>'' (render_html cs) ''</b>''"
| "html_span (Italic cs) = around ''<i>'' (render_html cs) ''</i>''"
| "html_span (Code t) = Some (''<code>'' @ html_escape t @ ''</code>'')"
| "html_span (Spoiler cs) = around (''<'' @ html_tag ''span class'' ''tg-spoiler'' @ ''>'') (render_html cs) ''</span>''"
| "html_span (TgSpoiler cs) = around (''<'' @ html_tag ''span class'' ''tg-spoiler'' @ ''>'') (render_html cs) ''</span>''"
| "html_span (Underline cs) = around ''<u>'' (render_html cs) ''</u>''"
| "html_span (Strikethrough cs) = around ''<s>'' (render_html cs) ''</s>''"
| "html_span (Marked cs) = around ''<mark>'' (render_html cs) ''</mark>''"
| "html_span (Link url cs) = around (''<'' @ html_tag ''a href'' (html_escape url) @ ''>'') (render_html cs) ''</a>''"
| "html_span (Quote cs) = around ''<blockquote>'' (render_html cs) ''</blockquote>''"
| "html_span Newline = Some [newline]"
| "html_span (CustomEmoji eid fallback) =
     Some (''<'' @ html_tag ''tg-emoji emoji-id'' eid @ ''>'' @ html_escape fallback @ ''</tg-emoji>'')"
| "html_span _ = None"
| "render_html [] = Some ''''"
| "render_html (s # ss) = followed (html_span s) (render_html ss)"

definition item_marker :: "bool \<Rightarrow> nat \<Rightarrow> string" where
  "item_marker ordered i = (if ordered then nat_str i @ ''. '' else ''- '')"

fun plain_span :: "span \<Rightarrow> string" and render_plain :: "span list \<Rightarrow> string" and plain_items :: "bool \<Rightarrow> nat \<Rightarrow> span list \<Rightarrow> string list"
  and plain_cells :: "span list list \<Rightarrow> string list" and plain_header :: "span list \<Rightarrow> string list" and plain_rows :: "span list list list \<Rightarrow> string list" where
  "plain_span (Plain t) = t"
| "plain_span (Bold cs) = render_plain cs"
| "plain_span (Italic cs) = render_plain cs"
| "plain_span (Spoiler cs) = render_plain cs"
| "plain_span (TgSpoiler cs) = render_plain cs"
| "plain_span (Underline cs) = render_plain cs"
| "plain_span (Strikethrough cs) = render_plain cs"
| "plain_span (Marked cs) = render_plain cs"
| "plain_span (Quote cs) = render_plain cs"
| "plain_span (Code t) = t"
| "plain_span (Link url cs) = render_plain cs"
| "plain_span Newline = [newline]"
| "plain_span (CustomEmoji eid fallback) = fallback"
| "plain_span (Heading level cs) = hashes level @ '' '' @ render_plain cs"
| "plain_span (Math expr block) = expr"
| "plain_span (Raw t) = t"
| "plain_span (ListOf ordered items) = join_with [newline] (plain_items ordered 1 items)"
| "plain_span (ListItem cs) = ''- '' @ render_plain cs"
| "plain_span (TaskListItem checked cs) = (if checked then ''[x] '' else ''[ ] '') @ render_plain cs"
| "plain_span (Table header body) =
     join_with [newline]
       ((case header of None \<Rightarrow> [] | Some h \<Rightarrow> if h = [] then [] else [join_with '' | '' (plain_header h)]) @ plain_rows body)"
| "plain_span (Details summary cs is_open) = render_plain summary @ '': '' @ render_plain cs"
| "render_plain [] = ''''"
| "render_plain (s # ss) = plain_span s @ render_plain ss"
| "plain_items ordered i [] = []"
| "plain_items ordered i (TaskListItem checked cs # items) =
     ((if checked then ''[x] '' else ''[ ] '') @ render_plain cs) # plain_items ordered (Suc i) items"
| "plain_items ordered i (ListItem cs # items) = (item_marker ordered i @ render_plain cs) # plain_items ordered (Suc i) items"
| "plain_items ordered i (item # items) = (item_marker ordered i @ plain_span item) # plain_items ordered (Suc i) items"
| "plain_cells [] = []"
| "plain_cells (cell # cells) = render_plain cell # plain_cells cells"
| "plain_header [] = []"
| "plain_header (cell # cells) = plain_span cell # plain_header cells"
| "plain_rows [] = []"
| "plain_rows (row # body) = join_with '' | '' (plain_cells row) # plain_rows body"

definition rstrip_newlines :: "string \<Rightarrow> string" where
  "rstrip_newlines t = rev (dropWhile (\<lambda>c. c = newline) (rev t))"

fun rich_span :: "span \<Rightarrow> string" and render_rich :: "span list \<Rightarrow> string" and rich_items :: "bool \<Rightarrow> nat \<Rightarrow> span list \<Rightarrow> string list"
  and rich_cells :: "span list list \<Rightarrow> string list" and rich_header :: "span list \<Rightarrow> string list" and rich_rows :: "span list list list \<Rightarrow> string list" where
  "rich_span (Plain t) = escape_rich t"
| "rich_span (Bold cs) = ''**'' @ render_rich cs @ ''**''"
| "rich_span (Italic cs) = ''*'' @ render_rich cs @ ''*''"
| "rich_span (Code t) = ''`'' @ escape_rich_code t @ ''`''"
| "rich_span (Spoiler cs) = ''||'' @ render_rich cs @ ''||''"
| "rich_span (TgSpoiler cs) = ''<tg-spoiler>'' @ render_rich cs @ ''</tg-spoiler>''"
| "rich_span (Underline cs) = ''__'' @ render_rich cs @ ''__''"
| "rich_span (Strikethrough cs) = ''~~'' @ render_rich cs @ ''~~''"
| "rich_span (Marked cs) = ''=='' @ render_rich cs @ ''==''"
| "rich_span (Link url cs) =
     ''['' @ render_rich cs @ ''](''
       @ replace_char (CHR '')'') [backslash, CHR '')''] (replace_char backslash [backslash, backslash] url) @ '')''"
| "rich_span (Quote cs) = ''> '' @ replace_char newline (newline # ''>'' @ newline # ''> '') (render_rich cs)"
| "rich_span Newline = [newline]"
| "rich_span (CustomEmoji eid fallback) = ''![](tg://emoji?id='' @ eid @ '')''"
| "rich_span (Heading level cs) = hashes level @ '' '' @ render_rich cs"
| "rich_span (Math expr block) = (if block then ''$$'' @ expr @ ''$$'' else ''$'' @ expr @ ''$'')"
| "rich_span (Raw t) = t"
| "rich_span (Details summary cs is_open) =
     ''<details'' @ (if is_open then '' open'' else '''') @ ''><summary>'' @ render_rich summary @ ''</summary>''
       @ rstrip_newlines (render_rich cs) @ ''</details>''"
| "rich_span (Table header body) =
     join_with [newline]
       ((case header of
           None \<Rightarrow> []
         | Some h \<Rightarrow> if h = [] then []
             else [''| '' @ join_with '' | '' (rich_header h) @ '' |'', ''| '' @ join_with '' | '' (map (\<lambda>_. ''---'') h) @ '' |''])
        @ rich_rows body)"
| "rich_span (ListOf ordered items) = join_with [newline] (rich_items ordered 1 items)"
| "rich_span (ListItem cs) = ''- '' @ render_rich cs"
| "rich_span (TaskListItem checked cs) = ''- ['' @ (if checked then ''x'' else '' '') @ ''] '' @ render_rich cs"
| "render_rich [] = ''''"
| "render_rich (s # ss) = rich_span s @ render_rich ss"
| "rich_items ordered i [] = []"
| "rich_items ordered i (TaskListItem checked cs # items) =
     (''- ['' @ (if checked then ''x'' else '' '') @ ''] '' @ render_rich cs) # rich_items ordered (Suc i) items"
| "rich_items ordered i (ListItem cs # items) = (item_marker ordered i @ render_rich cs) # rich_items ordered (Suc i) items"
| "rich_items ordered i (item # items) = (item_marker ordered i @ rich_span item) # rich_items ordered (Suc i) items"
| "rich_cells [] = []"
| "rich_cells (cell # cells) = render_rich cell # rich_cells cells"
| "rich_header [] = []"
| "rich_header (cell # cells) = rich_span cell # rich_header cells"
| "rich_rows [] = []"
| "rich_rows (row # body) = (''| '' @ join_with '' | '' (rich_cells row) @ '' |'') # rich_rows body"

section \<open>What a reader sees of an escaped text\<close>

text \<open>
  A text outside of any markup: a backslash makes the next character literal, and a special character without one
  would begin markup.
\<close>

fun literal_read :: "string \<Rightarrow> string \<Rightarrow> string option" where
  "literal_read special [] = Some []"
| "literal_read special [c] = (if c = backslash \<or> c \<in> set special then None else Some [c])"
| "literal_read special (c # d # t) =
     (if c = backslash then map_option ((#) d) (literal_read special t)
      else if c \<in> set special then None else map_option ((#) c) (literal_read special (d # t)))"

lemma literal_read_plain: "c \<noteq> backslash \<Longrightarrow> c \<notin> set special \<Longrightarrow> literal_read special (c # t) = map_option ((#) c) (literal_read special t)"
  by (cases t) auto

lemma escape_chars_simps [simp]: "escape_chars sp [] = []" "escape_chars sp (c # t) = (if c \<in> set sp then [backslash, c] else [c]) @ escape_chars sp t"
  by (simp_all add: escape_chars_def)

lemma escaped_is_literal:
  assumes "set special \<subseteq> set sp" and "backslash \<in> set sp \<or> backslash \<notin> set t"
  shows "literal_read special (escape_chars sp t) = Some t"
  using assms(2)
proof (induction t)
  case (Cons c t)
  then have IH: "literal_read special (escape_chars sp t) = Some t" by auto
  show ?case
  proof (cases "c \<in> set sp")
    case False
    then have "c \<noteq> backslash" "c \<notin> set special" using Cons.prems assms(1) by auto
    then show ?thesis using False IH by (simp add: literal_read_plain)
  qed (simp add: IH)
qed simp

lemma escape_mdv2_chars: "escape_mdv2 t = escape_chars MDV2_SPECIAL t"
  by (simp add: escape_mdv2_def)

lemma replace_char_simps [simp]: "replace_char c r [] = []" "replace_char c r (x # t) = (if x = c then r else [x]) @ replace_char c r t"
  by (simp_all add: replace_char_def)

lemma replace_char_append [simp]: "replace_char c r (s @ t) = replace_char c r s @ replace_char c r t"
  by (simp add: replace_char_def)

lemma escape_rich_code_chars: "escape_rich_code t = escape_chars [CHR ''`'', backslash] t"
proof -
  have "replace_char (CHR ''`'') [backslash, CHR ''`''] (replace_char backslash [backslash, backslash] t) = escape_chars [CHR ''`'', backslash] t"
    by (induction t) auto
  then show ?thesis by (simp add: escape_rich_code_def)
qed

lemma lost_backslash:
  assumes "literal_read MDV2_SPECIAL (escape_chars MDV2_SPECIAL t) = Some r"
  shows "length r \<le> length t \<and> (backslash \<in> set t \<longrightarrow> length r < length t)"
  using assms
proof (induction "length t" arbitrary: t r rule: less_induct)
  case less
  have bs: "backslash \<notin> set MDV2_SPECIAL" by (simp add: MDV2_SPECIAL_def)
  show ?case
  proof (cases t)
    case (Cons c t')
    show ?thesis
    proof (cases "c = backslash")
      case False
      then have "literal_read MDV2_SPECIAL (escape_chars MDV2_SPECIAL t) = map_option ((#) c) (literal_read MDV2_SPECIAL (escape_chars MDV2_SPECIAL t'))"
        using Cons by (simp add: literal_read_plain)
      then obtain r' where "literal_read MDV2_SPECIAL (escape_chars MDV2_SPECIAL t') = Some r'" "r = c # r'"
        using less.prems by (cases "literal_read MDV2_SPECIAL (escape_chars MDV2_SPECIAL t')") auto
      then show ?thesis using less.hyps [of t' r'] Cons False by auto
    next
      case True
      show ?thesis
      proof (cases t')
        case Nil
        then show ?thesis using less.prems Cons True bs by simp
      next
        case (Cons d t'')
        have t: "t = backslash # d # t''" using \<open>t = c # t'\<close> True Cons by simp
        have "d \<notin> set MDV2_SPECIAL"
        proof
          assume d: "d \<in> set MDV2_SPECIAL"
          then have "d \<noteq> backslash" using bs by blast
          then show False using less.prems t bs d by (cases "escape_chars MDV2_SPECIAL t''") auto
        qed
        then obtain r' where "literal_read MDV2_SPECIAL (escape_chars MDV2_SPECIAL t'') = Some r'" "r = d # r'"
          using less.prems t bs by auto
        then show ?thesis using less.hyps [of t'' r'] t by auto
      qed
    qed
  qed (use less.prems in simp)
qed

text \<open>C26: an escaped text reads back as it was, with no character left that could begin markup: in Rich markdown,
  inside code in both dialects, and in MarkdownV2 exactly when the text has no backslash. The MarkdownV2
  escape leaves a backslash as it is, so that it swallows the escape of the character behind it.\<close>

theorem escapes_read_back:
  "literal_read RICH_SPECIAL (escape_rich t) = Some t \<and> literal_read [CHR ''`''] (escape_rich_code t) = Some t \<and>
   literal_read [CHR ''`''] (escape_mdv2_code t) = Some t \<and>
   (literal_read MDV2_SPECIAL (escape_mdv2 t) = Some t) = (backslash \<notin> set t)"
proof (intro conjI)
  show "literal_read RICH_SPECIAL (escape_rich t) = Some t"
    using escaped_is_literal [of RICH_SPECIAL RICH_SPECIAL t] by (auto simp: escape_rich_def RICH_SPECIAL_def)
  show "literal_read [CHR ''`''] (escape_rich_code t) = Some t" "literal_read [CHR ''`''] (escape_mdv2_code t) = Some t"
    using escaped_is_literal [of "[CHR ''`'']" "[CHR ''`'', backslash]" t] by (auto simp: escape_rich_code_chars escape_mdv2_code_def)
  show "(literal_read MDV2_SPECIAL (escape_mdv2 t) = Some t) = (backslash \<notin> set t)"
    using escaped_is_literal [of MDV2_SPECIAL MDV2_SPECIAL t] lost_backslash [of t t] by (auto simp: escape_mdv2_chars)
qed

section \<open>What a reader sees of the HTML\<close>

definition HTML_ENTITIES :: "(string \<times> char) list" where
  "HTML_ENTITIES = [(''amp'', CHR ''&''), (''lt'', CHR ''<''), (''gt'', CHR ''>''), (''quot'', quote_mark), (''#x27'', CHR 0x27)]"

text \<open>
  The text of an HTML message; \<open>open_tags\<close> are the tags that are open. \<open>None\<close> is text that is no well-formed HTML: a tag
  that is closed but not open, a tag with a stray quotation mark, an unknown entity, a bare \<open>>\<close>.
\<close>

definition tag_ok :: "string \<Rightarrow> bool" where
  "tag_ok tag \<longleftrightarrow> quote_mark \<notin> set tag \<or>
     (\<exists>name \<in> set [''span class'', ''a href'', ''tg-emoji emoji-id'']. let n = length name in
        take (n + 2) tag = name @ ''='' @ [quote_mark] \<and> drop (n + 2) tag \<noteq> [] \<and> last tag = quote_mark \<and>
        quote_mark \<notin> set (butlast (drop (n + 2) tag)))"

function html_read :: "string list \<Rightarrow> string \<Rightarrow> string option" where
  "html_read open_tags [] = (if open_tags = [] then Some [] else None)"
| "html_read open_tags (c # t) =
     (if c = CHR ''<'' then
        (let tag = takeWhile (\<lambda>x. x \<noteq> CHR ''>'') t; after = dropWhile (\<lambda>x. x \<noteq> CHR ''>'') t in
         if after = [] \<or> tag = [] then None
         else if hd tag = CHR ''/'' then (if open_tags \<noteq> [] \<and> hd open_tags = tl tag then html_read (tl open_tags) (tl after) else None)
         else if \<not> tag_ok tag then None
         else html_read (takeWhile (\<lambda>x. x \<noteq> CHR '' '') tag # open_tags) (tl after))
      else if c = CHR ''&'' then
        (let ent = takeWhile (\<lambda>x. x \<noteq> CHR '';'') t; after = dropWhile (\<lambda>x. x \<noteq> CHR '';'') t in
         if after = [] then None
         else case map_of HTML_ENTITIES ent of None \<Rightarrow> None | Some x \<Rightarrow> map_option ((#) x) (html_read open_tags (tl after)))
      else if c = CHR ''>'' then None
      else map_option ((#) c) (html_read open_tags t))"
  by pat_completeness auto
termination
  by (relation "measure (\<lambda>(_, t). length t)") (auto simp: less_Suc_eq_le intro: le_trans [OF diff_le_self length_dropWhile_le])

text \<open>The ids of the custom emojis in the spans that HTML and MarkdownV2 can show.\<close>

fun emoji_span :: "span \<Rightarrow> string list" and emoji_ids :: "span list \<Rightarrow> string list" where
  "emoji_span (Bold cs) = emoji_ids cs"
| "emoji_span (Italic cs) = emoji_ids cs"
| "emoji_span (Spoiler cs) = emoji_ids cs"
| "emoji_span (TgSpoiler cs) = emoji_ids cs"
| "emoji_span (Underline cs) = emoji_ids cs"
| "emoji_span (Strikethrough cs) = emoji_ids cs"
| "emoji_span (Marked cs) = emoji_ids cs"
| "emoji_span (Link url cs) = emoji_ids cs"
| "emoji_span (Quote cs) = emoji_ids cs"
| "emoji_span (CustomEmoji eid fallback) = [eid]"
| "emoji_span _ = []"
| "emoji_ids [] = []"
| "emoji_ids (s # ss) = emoji_span s @ emoji_ids ss"

definition html_char :: "char \<Rightarrow> string" where
  "html_char c = (if c = CHR ''&'' then ''&amp;'' else if c = CHR ''<'' then ''&lt;'' else if c = CHR ''>'' then ''&gt;''
     else if c = quote_mark then ''&quot;'' else if c = CHR 0x27 then ''&#x27;'' else [c])"

lemma html_escape_simps [simp]: "html_escape [] = []" "html_escape (c # t) = html_char c @ html_escape t"
  by (simp_all add: html_escape_def html_char_def)

lemma html_escape_safe: "c \<in> set (html_escape t) \<Longrightarrow> c \<noteq> quote_mark \<and> c \<noteq> CHR ''<'' \<and> c \<noteq> CHR ''>''"
  by (induction t) (auto simp: html_char_def split: if_splits)

declare html_read.simps [simp del]

lemma html_read_char: "html_read st (html_char c @ r) = map_option ((#) c) (html_read st r)"
  by (simp add: html_char_def html_read.simps(2) HTML_ENTITIES_def)

lemma html_read_text: "html_read st (html_escape t @ r) = map_option ((@) t) (html_read st r)"
  by (induction t) (simp_all add: html_read_char option.map_comp comp_def option.map_ident)

lemma html_read_newline: "html_read st (newline # r) = map_option ((#) newline) (html_read st r)"
  by (simp add: html_read.simps(2))

lemma html_read_open: "name \<in> {''b'', ''i'', ''code'', ''u'', ''s'', ''mark'', ''blockquote''} \<Longrightarrow>
   html_read st (CHR ''<'' # name @ CHR ''>'' # r) = html_read (name # st) r"
  by (elim insertE emptyE) (simp_all add: html_read.simps(2) tag_ok_def)

lemma html_read_close: "name \<in> {''b'', ''i'', ''code'', ''u'', ''s'', ''mark'', ''blockquote'', ''span'', ''a'', ''tg-emoji''} \<Longrightarrow>
   html_read (name # st) (CHR ''<'' # CHR ''/'' # name @ CHR ''>'' # r) = html_read st r"
  by (elim insertE emptyE) (simp_all add: html_read.simps(2))

lemma until_char:
  "c \<notin> set xs \<Longrightarrow> takeWhile (\<lambda>x. x \<noteq> c) (xs @ c # r) = xs"
  "c \<notin> set xs \<Longrightarrow> dropWhile (\<lambda>x. x \<noteq> c) (xs @ c # r) = c # r"
  by (induction xs) auto

lemma html_read_attribute:
  assumes "(name, tag) \<in> {(''span class'', ''span''), (''a href'', ''a''), (''tg-emoji emoji-id'', ''tg-emoji'')}"
    and "\<And>c. c \<in> set val \<Longrightarrow> c \<noteq> quote_mark \<and> c \<noteq> CHR ''>''"
  shows "html_read st (CHR ''<'' # html_tag name val @ CHR ''>'' # r) = html_read (tag # st) r"
proof -
  have gt: "CHR ''>'' \<notin> set (html_tag name val)" using assms by (auto simp: html_tag_def)
  then have "takeWhile (\<lambda>x. x \<noteq> CHR ''>'') (html_tag name val @ CHR ''>'' # r) = html_tag name val"
    "dropWhile (\<lambda>x. x \<noteq> CHR ''>'') (html_tag name val @ CHR ''>'' # r) = CHR ''>'' # r"
    by (simp_all add: until_char)
  moreover have "tag_ok (html_tag name val)"
    unfolding tag_ok_def using assms by (intro disjI2 bexI [of _ name]) (auto simp: html_tag_def Let_def butlast_append)
  moreover have "takeWhile (\<lambda>x. x \<noteq> CHR '' '') (html_tag name val) = tag" using assms(1) by (auto simp: html_tag_def)
  moreover have "html_tag name val \<noteq> []" "hd (html_tag name val) \<noteq> CHR ''/''" using assms(1) by (auto simp: html_tag_def)
  ultimately show ?thesis by (simp add: html_read.simps(2) Let_def)
qed

lemma html_id_safe: "list_all is_digit eid \<Longrightarrow> c \<in> set eid \<Longrightarrow> c \<noteq> quote_mark \<and> c \<noteq> CHR ''>''"
  by (auto simp: list_all_iff is_digit_def)

lemma around_Some: "around a b c = Some h \<longleftrightarrow> (\<exists>x. b = Some x \<and> h = a @ x @ c)"
  by (auto simp: around_def)

lemma followed_Some: "followed a b = Some h \<longleftrightarrow> (\<exists>x y. a = Some x \<and> b = Some y \<and> h = x @ y)"
  by (cases a; cases b) (auto simp: followed_def)

lemma html_read_spoiler:
  "html_read st (CHR ''<'' # html_tag ''span class'' ''tg-spoiler'' @ CHR ''>'' # r) = html_read (''span'' # st) r"
  by (rule html_read_attribute) auto

lemma html_read_link: "html_read st (CHR ''<'' # html_tag ''a href'' (html_escape url) @ CHR ''>'' # r) = html_read (''a'' # st) r"
  by (rule html_read_attribute) (use html_escape_safe in auto)

lemma html_read_emoji: "list_all is_digit eid \<Longrightarrow>
   html_read st (CHR ''<'' # html_tag ''tg-emoji emoji-id'' eid @ CHR ''>'' # r) = html_read (''tg-emoji'' # st) r"
  by (rule html_read_attribute) (use html_id_safe in auto)

lemma shown_nothing: "map_option (\<lambda>a. a) x = x"
  by (cases x) auto

lemma html_span_reads:
  "html_span s = Some h \<Longrightarrow> \<forall>eid \<in> set (emoji_span s). list_all is_digit eid \<Longrightarrow>
     html_read st (h @ r) = map_option ((@) (plain_span s)) (html_read st r)"
  "render_html ss = Some h \<Longrightarrow> \<forall>eid \<in> set (emoji_ids ss). list_all is_digit eid \<Longrightarrow>
     html_read st (h @ r) = map_option ((@) (render_plain ss)) (html_read st r)"
proof (induction s and ss arbitrary: h st r and h st r rule: html_span_render_html.induct)
  case (1 t)
  then show ?case by (auto simp: html_read_text)
next
  case (2 cs)
  then show ?case using html_read_open [of "''b''"] html_read_close [of "''b''"] by (auto simp: around_Some)
next
  case (3 cs)
  then show ?case using html_read_open [of "''i''"] html_read_close [of "''i''"] by (auto simp: around_Some)
next
  case (4 t)
  then show ?case using html_read_open [of "''code''"] html_read_close [of "''code''"] by (auto simp: html_read_text)
next
  case (5 cs)
  then show ?case using html_read_spoiler html_read_close [of "''span''"]
    by (auto simp: around_Some)
next
  case (6 cs)
  then show ?case using html_read_spoiler html_read_close [of "''span''"]
    by (auto simp: around_Some)
next
  case (7 cs)
  then show ?case using html_read_open [of "''u''"] html_read_close [of "''u''"] by (auto simp: around_Some)
next
  case (8 cs)
  then show ?case using html_read_open [of "''s''"] html_read_close [of "''s''"] by (auto simp: around_Some)
next
  case (9 cs)
  then show ?case using html_read_open [of "''mark''"] html_read_close [of "''mark''"] by (auto simp: around_Some)
next
  case (10 url cs)
  then show ?case using html_read_link html_read_close [of "''a''"]
    by (auto simp: around_Some)
next
  case (11 cs)
  then show ?case using html_read_open [of "''blockquote''"] html_read_close [of "''blockquote''"] by (auto simp: around_Some)
next
  case 12
  then show ?case by (cases "html_read st r") (auto simp: html_read_newline)
next
  case (13 eid fallback)
  then show ?case
    using html_read_emoji [of eid] html_read_close [of "''tg-emoji''"]
    by (auto simp: html_read_text)
next
  case 16
  then show ?case by (auto simp: followed_Some option.map_comp comp_def)
next
  case 15
  then show ?case by (auto simp: shown_nothing)
qed simp_all

text \<open>C25: an HTML message is well-formed and shows exactly its texts: whatever the texts and addresses contain, reading
  the rendering gives the plain rendering of the same spans, every tag is closed, and no text opens,
  closes or breaks out of a tag.\<close>

theorem html_shows_plain_text:
  assumes "render_html ss = Some h" and "\<forall>eid \<in> set (emoji_ids ss). list_all is_digit eid"
  shows "html_read [] h = Some (render_plain ss)"
  using html_span_reads(2) [OF assms, of "[]" "[]"] by (simp add: html_read.simps(1))

section \<open>What a reader sees of the MarkdownV2\<close>

text \<open>
  The characters a MarkdownV2 message shows: markers of entities are dropped, an address is skipped, code is
  literal. \<open>None\<close> is a special character that is neither escaped nor part of an entity.
\<close>

datatype md_mode = InText | InCode | InAddress

function md_read :: "md_mode \<Rightarrow> string \<Rightarrow> string option" where
  "md_read m [] = (if m = InText then Some [] else None)"
| "md_read m (c # t) =
     (if c = backslash then
        (if t = [] then None else if m = InAddress then md_read m (tl t) else map_option ((#) (hd t)) (md_read m (tl t)))
      else case m of
        InAddress \<Rightarrow> if c = CHR '')'' then md_read InText t else md_read InAddress t
      | InCode \<Rightarrow> if c = CHR ''`'' then md_read InText t else map_option ((#) c) (md_read InCode t)
      | InText \<Rightarrow>
          if c = CHR ''`'' then md_read InCode t
          else if c \<in> set ''*_~|['' then md_read InText t
          else if c = CHR '']'' then (if t \<noteq> [] \<and> hd t = CHR ''('' then md_read InAddress (tl t) else None)
          else if c = CHR ''!'' then (if t \<noteq> [] \<and> hd t = CHR ''['' then md_read InText (tl t) else None)
          else if c \<in> set MDV2_SPECIAL then None
          else map_option ((#) c) (md_read InText t))"
  by pat_completeness auto
termination
  by (relation "measure (\<lambda>(_, t). length t)") auto

declare md_read.simps [simp del]

text \<open>No backslash in a text, and no quotation, whose mark depends on the place in the line.\<close>

fun mdv2_safe :: "span \<Rightarrow> bool" and all_mdv2_safe :: "span list \<Rightarrow> bool" where
  "mdv2_safe (Plain t) = (backslash \<notin> set t)"
| "mdv2_safe (Bold cs) = all_mdv2_safe cs"
| "mdv2_safe (Italic cs) = all_mdv2_safe cs"
| "mdv2_safe (Spoiler cs) = all_mdv2_safe cs"
| "mdv2_safe (TgSpoiler cs) = all_mdv2_safe cs"
| "mdv2_safe (Underline cs) = all_mdv2_safe cs"
| "mdv2_safe (Strikethrough cs) = all_mdv2_safe cs"
| "mdv2_safe (Marked cs) = all_mdv2_safe cs"
| "mdv2_safe (Link url cs) = (backslash \<notin> set url \<and> all_mdv2_safe cs)"
| "mdv2_safe (Quote cs) = False"
| "mdv2_safe (CustomEmoji eid fallback) = (list_all is_digit eid \<and> backslash \<notin> set fallback)"
| "mdv2_safe _ = True"
| "all_mdv2_safe [] = True"
| "all_mdv2_safe (s # ss) = (mdv2_safe s \<and> all_mdv2_safe ss)"

lemma md_read_escaped: "backslash \<notin> set t \<Longrightarrow> md_read InText (escape_mdv2 t @ r) = map_option ((@) t) (md_read InText r)"
proof (induction t)
  case (Cons c t)
  have plain: "c \<notin> set ''*_~|[`]!''" if "c \<notin> set MDV2_SPECIAL" using that by (auto simp: MDV2_SPECIAL_def)
  show ?case
  proof (cases "c \<in> set MDV2_SPECIAL")
    case True
    then show ?thesis using Cons by (simp add: escape_mdv2_chars md_read.simps(2) option.map_comp comp_def)
  next
    case False
    then have "md_read InText (c # t') = map_option ((#) c) (md_read InText t')" for t'
      using plain [OF False] Cons.prems by (auto simp: md_read.simps(2))
    then show ?thesis using Cons False by (simp add: escape_mdv2_chars option.map_comp comp_def)
  qed
next
  case Nil
  then show ?case by (cases "md_read InText r") (auto simp: escape_mdv2_def escape_chars_def)
qed

lemma md_read_address: "backslash \<notin> set t \<Longrightarrow> md_read InAddress (escape_mdv2 t @ CHR '')'' # r) = md_read InText r"
proof (induction t)
  case (Cons c t)
  have "c \<noteq> CHR '')''" if "c \<notin> set MDV2_SPECIAL" using that by (auto simp: MDV2_SPECIAL_def)
  then show ?case using Cons by (auto simp: escape_mdv2_chars md_read.simps(2))
qed (simp add: escape_mdv2_def md_read.simps(2))

lemma md_read_id: "list_all is_digit t \<Longrightarrow> md_read InAddress (t @ CHR '')'' # r) = md_read InText r"
proof (induction t)
  case (Cons c t)
  then have "c \<noteq> backslash" "c \<noteq> CHR '')''" by (auto simp: is_digit_def)
  then show ?case using Cons by (simp add: md_read.simps(2))
qed (simp add: md_read.simps(2))

lemma md_read_code: "md_read InCode (escape_mdv2_code t @ CHR ''`'' # r) = map_option ((@) t) (md_read InText r)"
proof -
  have "md_read InCode (escape_chars [CHR ''`'', backslash] t @ CHR ''`'' # r) = map_option ((@) t) (md_read InText r)"
  proof (induction t)
    case Nil
    then show ?case by (cases "md_read InText r") (auto simp: md_read.simps(2))
  next
    case (Cons c t)
    then show ?case by (auto simp: md_read.simps(2) option.map_comp comp_def)
  qed
  then show ?thesis by (cases "t = []") (simp_all add: escape_mdv2_code_def)
qed

lemma md_read_mark: "c \<in> set ''*_~|['' \<Longrightarrow> md_read InText (c # r) = md_read InText r"
  by (auto simp: md_read.simps(2))

lemma md_read_emoji: "md_read InText (''!['' @ r) = md_read InText r" "md_read InText (''](tg://emoji?id='' @ r) = md_read InAddress r"
  "md_read InText (CHR '']'' # CHR ''('' # r) = md_read InAddress r" "md_read InText (CHR ''`'' # r) = md_read InCode r"
  by (simp_all add: md_read.simps(2))

lemma mdv2_span_reads:
  "mdv2_span s = Some h \<Longrightarrow> mdv2_safe s \<Longrightarrow> md_read InText (h @ r) = map_option ((@) (plain_span s)) (md_read InText r)"
  "render_mdv2 ss = Some h \<Longrightarrow> all_mdv2_safe ss \<Longrightarrow> md_read InText (h @ r) = map_option ((@) (render_plain ss)) (md_read InText r)"
proof (induction s and ss arbitrary: h r and h r rule: mdv2_span_render_mdv2.induct)
  case (1 t)
  then show ?case by (auto simp: md_read_escaped)
next
  case (4 t)
  then show ?case by (auto simp: md_read_emoji md_read_code)
next
  case (10 url cs)
  then show ?case by (auto simp: around_Some md_read_mark md_read_emoji md_read_address)
next
  case 12
  then show ?case by (cases "md_read InText r") (auto simp: md_read.simps(2) MDV2_SPECIAL_def)
next
  case (13 eid fallback)
  then show ?case using md_read_emoji(1) [of "escape_mdv2 fallback @ ''](tg://emoji?id='' @ eid @ '')'' @ r"]
      md_read_emoji(2) [of "eid @ '')'' @ r"] by (auto simp: md_read_escaped md_read_id)
next
  case 16
  then show ?case by (auto simp: followed_Some option.map_comp comp_def)
next
  case 15
  then show ?case by (auto simp: shown_nothing)
qed (auto simp: around_Some md_read_mark)

text \<open>The two renderers raise \<open>TypeError\<close> on the same spans.\<close>

lemma renderers_fail_alike:
  "mdv2_span s = None \<longleftrightarrow> html_span s = None"
  "render_mdv2 ss = None \<longleftrightarrow> render_html ss = None"
  by (induction s and ss rule: mdv2_span_render_mdv2.induct) (auto simp: around_def followed_def bind_eq_None_conv split: option.splits)

text \<open>A MarkdownV2 message without backslashes and quotations shows exactly its texts, addresses and code included,
  whatever other characters they contain, and the spans that MarkdownV2 can express are those that HTML
  can.\<close>

theorem mdv2_shows_plain_text:
  assumes "render_mdv2 ss = Some h" and "all_mdv2_safe ss"
  shows "md_read InText h = Some (render_plain ss) \<and> render_html ss \<noteq> None"
proof -
  have "render_html ss \<noteq> None" using assms(1) renderers_fail_alike(2) [of ss] by auto
  then show ?thesis using mdv2_span_reads(2) [OF assms, of "[]"] by (simp add: md_read.simps(1))
qed

section \<open>Concrete messages\<close>

definition tricky_spans :: "span list" where
  "tricky_spans = [Bold [Plain ''a<b>*_'', Code ''`x`''], Newline, Link ''t.me/?q=)'' [Plain ''see!''], CustomEmoji ''12'' ''(!)'']"

theorem html_shows_plain_text_witness:
  "\<exists>h. render_html tricky_spans = Some h \<and> html_read [] h = Some (render_plain tricky_spans)"
proof -
  obtain h where h: "render_html tricky_spans = Some h"
    unfolding tricky_spans_def by (auto simp: around_def followed_def)
  have "list_all is_digit eid" if "eid \<in> set (emoji_ids tricky_spans)" for eid
    using that by (auto simp: tricky_spans_def is_digit_def)
  then have "\<forall>eid \<in> set (emoji_ids tricky_spans). list_all is_digit eid" by blast
  from html_shows_plain_text [OF h this] h show ?thesis by blast
qed

theorem mdv2_shows_plain_text_witness:
  "\<exists>h. render_mdv2 tricky_spans = Some h \<and> md_read InText h = Some (''a<b>*_`x`'' @ [newline] @ ''see!(!)'')"
proof -
  obtain h where h: "render_mdv2 tricky_spans = Some h"
    unfolding tricky_spans_def by (auto simp: around_def followed_def)
  have "all_mdv2_safe tricky_spans" by (simp add: tricky_spans_def is_digit_def)
  from mdv2_shows_plain_text [OF h this] h show ?thesis by (simp add: tricky_spans_def)
qed

end
