(* ===== verification/Posting.thy ===== *)
theory Posting imports Delivery Markup begin

text \<open>
  The verbs that post a message: \<open>send\<close>, \<open>say\<close> and \<open>edit\<close> of \<open>services/send_pretty.py\<close>, the Rich
  messages of \<open>services/telegram_rich.py\<close>, the answers to button presses of
  \<open>services/utils/callback_notifications.py\<close> and their routing, \<open>services/routing.py\<close>. The text of an error is a
  parameter \<open>reason\<close>, by the number of the call. There is one bot, so the set of bots without
  Rich messages is a flag.
\<close>

section \<open>Content\<close>

datatype backend = MDV2 | HTML | PLAIN | RICH

datatype raw_format = RawHtml | RawMdv2 | RawPlain

datatype parse_mode = MarkdownV2 | HtmlMode

record message =
  msg_lines :: "span list list"
  msg_keyboard :: "string option"

text \<open>A message or a text that the caller has formatted; a keyboard that was passed or not.\<close>

datatype content = Msg message | Formatted string

datatype keyboard_arg = Unset | Keyboard "string option"

text \<open>What a verb raises: an error of the Bot API, a \<open>TypeError\<close>, a \<open>KeyError\<close> or a \<open>ValueError\<close>.\<close>

datatype post_error = Api tg_error | TypeErr | KeyErr | ValueErr

definition render :: "backend \<Rightarrow> message \<Rightarrow> string option" where
  "render b m =
     (case b of
        RICH \<Rightarrow> Some (join_with [newline, newline] (map render_rich (msg_lines m)))
      | HTML \<Rightarrow> map_option (join_with [newline]) (those (map render_html (msg_lines m)))
      | PLAIN \<Rightarrow> Some (join_with [newline] (map render_plain (msg_lines m)))
      | MDV2 \<Rightarrow> map_option (join_with [newline]) (those (map render_mdv2 (msg_lines m))))"

fun parse_mode_for :: "backend \<Rightarrow> parse_mode option" where
  "parse_mode_for MDV2 = Some MarkdownV2"
| "parse_mode_for HTML = Some HtmlMode"
| "parse_mode_for _ = None"

fun parse_mode_for_raw :: "raw_format \<Rightarrow> parse_mode option" where
  "parse_mode_for_raw RawHtml = Some HtmlMode"
| "parse_mode_for_raw RawMdv2 = Some MarkdownV2"
| "parse_mode_for_raw RawPlain = None"

definition resolve_content :: "content \<Rightarrow> raw_format option \<Rightarrow> backend \<Rightarrow> post_error + string \<times> parse_mode option" where
  "resolve_content c raw b =
     (case raw of
        Some fmt \<Rightarrow> (case c of Msg _ \<Rightarrow> Inl TypeErr | Formatted t \<Rightarrow> Inr (t, parse_mode_for_raw fmt))
      | None \<Rightarrow>
          (case c of
             Formatted _ \<Rightarrow> Inl TypeErr
           | Msg m \<Rightarrow> (case render b m of None \<Rightarrow> Inl TypeErr | Some t \<Rightarrow> Inr (t, parse_mode_for b))))"

definition markup_of :: "content \<Rightarrow> keyboard_arg \<Rightarrow> string option" where
  "markup_of c k = (case k of Keyboard kb \<Rightarrow> kb | Unset \<Rightarrow> (case c of Msg m \<Rightarrow> msg_keyboard m | Formatted _ \<Rightarrow> None))"

text \<open>The Rich text of a message and the MarkdownV2 text that replaces it.\<close>

definition mdv2_or_plain :: "message \<Rightarrow> string" where
  "mdv2_or_plain m =
     (case render MDV2 m of Some t \<Rightarrow> t | None \<Rightarrow> escape_mdv2 (join_with [newline] (map render_plain (msg_lines m))))"

definition rich_texts :: "content \<Rightarrow> raw_format option \<Rightarrow> post_error + string \<times> string" where
  "rich_texts c raw =
     (case c of
        Formatted t \<Rightarrow> Inr (t, t)
      | Msg m \<Rightarrow>
          (if raw \<noteq> None then Inl TypeErr
           else case render RICH m of None \<Rightarrow> Inl TypeErr | Some rich \<Rightarrow> Inr (rich, mdv2_or_plain m)))"

section \<open>The wire\<close>

text \<open>
  A request is what is sent with its format and its keyboard, logged once however often it is
  repeated.
\<close>

datatype request = Request string "parse_mode option" "string option" | RichRequest string "string option"

record poster =
  wire :: world
  rich_off :: bool
  answered :: bool
  requests :: "request list"

datatype posted = MsgId int | Returned "sent_message option" | Nothing

type_synonym outcome = "(post_error + posted) \<times> poster"

definition asked_for :: "request \<Rightarrow> poster \<Rightarrow> poster" where
  "asked_for rq s = s\<lparr>requests := requests s @ [rq]\<rparr>"

definition post_new :: "(nat \<Rightarrow> answer) \<Rightarrow> int \<Rightarrow> string \<Rightarrow> parse_mode option \<Rightarrow> string option \<Rightarrow> poster \<Rightarrow> outcome" where
  "post_new api chat t mode kb s =
     (case send_with_retry api chat t True (wire s) of
        None \<Rightarrow> (Inl ValueErr, s)
      | Some (r, w) \<Rightarrow> (map_sum Api Returned r, asked_for (Request t mode kb) s\<lparr>wire := w\<rparr>))"

definition edit_old ::
    "(nat \<Rightarrow> answer) \<Rightarrow> (nat \<Rightarrow> real \<Rightarrow> real \<Rightarrow> real) \<Rightarrow> int \<Rightarrow> string \<Rightarrow> parse_mode option \<Rightarrow> string option \<Rightarrow> poster \<Rightarrow> outcome" where
  "edit_old api uniform chat t mode kb s =
     (case edit_message_with_retry api uniform chat t True (wire s) of
        (r, w) \<Rightarrow> (map_sum Api Returned r, asked_for (Request t mode kb) s\<lparr>wire := w\<rparr>))"

section \<open>Rich messages\<close>

definition RICH_ENABLED :: bool where
  "RICH_ENABLED = True"

text \<open>The id of the sent message, or the result itself when it has none.\<close>

fun message_id_or_result :: "posted \<Rightarrow> posted" where
  "message_id_or_result (Returned (Some m)) = (case m_message_id m of Some i \<Rightarrow> MsgId i | None \<Rightarrow> Returned (Some m))"
| "message_id_or_result r = r"

definition fallback_send :: "(nat \<Rightarrow> answer) \<Rightarrow> int \<Rightarrow> string \<Rightarrow> string option \<Rightarrow> poster \<Rightarrow> outcome" where
  "fallback_send api chat mdv2 kb s =
     (case post_new api chat mdv2 (Some MarkdownV2) kb s of (r, s') \<Rightarrow> (map_sum id message_id_or_result r, s'))"

definition rich_api_request :: "(nat \<Rightarrow> answer) \<Rightarrow> int \<Rightarrow> string \<Rightarrow> string \<Rightarrow> string option \<Rightarrow> poster \<Rightarrow> answer \<times> poster" where
  "rich_api_request api chat method rich kb s =
     (case issue api (Call chat method (AsIs (Handle rich))) (wire s) of (r, w) \<Rightarrow> (r, asked_for (RichRequest rich kb) s\<lparr>wire := w\<rparr>))"

text \<open>A raw request answers with the JSON object of the message.\<close>

definition send_rich_message :: "(nat \<Rightarrow> answer) \<Rightarrow> int \<Rightarrow> string \<Rightarrow> string \<Rightarrow> string option \<Rightarrow> poster \<Rightarrow> outcome" where
  "send_rich_message api chat rich mdv2 kb s =
     (if \<not> RICH_ENABLED \<or> rich_off s then fallback_send api chat mdv2 kb s
      else case rich_api_request api chat ''sendRichMessage'' rich kb s of
        (Inr m, s') \<Rightarrow> ((case m_message_id m of Some i \<Rightarrow> Inr (MsgId i) | None \<Rightarrow> Inl KeyErr), s')
      | (Inl EndPointNotFound, s') \<Rightarrow> fallback_send api chat mdv2 kb (s'\<lparr>rich_off := True\<rparr>)
      | (Inl BadRequest, s') \<Rightarrow> fallback_send api chat mdv2 kb s'
      | (Inl e, s') \<Rightarrow> (Inl (Api e), s'))"

definition quietly :: "outcome \<Rightarrow> outcome" where
  "quietly rs = (case rs of (r, s) \<Rightarrow> (map_sum id (\<lambda>_. Nothing) r, s))"

definition edit_rich_message ::
    "(nat \<Rightarrow> answer) \<Rightarrow> (nat \<Rightarrow> real \<Rightarrow> real \<Rightarrow> real) \<Rightarrow> int \<Rightarrow> string \<Rightarrow> string \<Rightarrow> string option \<Rightarrow> poster \<Rightarrow> outcome" where
  "edit_rich_message api uniform chat rich mdv2 kb s =
     (if \<not> RICH_ENABLED \<or> rich_off s then quietly (edit_old api uniform chat mdv2 (Some MarkdownV2) kb s)
      else case rich_api_request api chat ''editMessageText'' rich kb s of
        (Inr m, s') \<Rightarrow> (Inr Nothing, s')
      | (Inl EndPointNotFound, s') \<Rightarrow> quietly (edit_old api uniform chat mdv2 (Some MarkdownV2) kb (s'\<lparr>rich_off := True\<rparr>))
      | (Inl BadRequest, s') \<Rightarrow> quietly (edit_old api uniform chat mdv2 (Some MarkdownV2) kb s')
      | (Inl e, s') \<Rightarrow> (Inl (Api e), s'))"

section \<open>Answers to button presses\<close>

definition has_substring :: "string \<Rightarrow> string \<Rightarrow> bool" where
  "has_substring part t = list_ex (\<lambda>i. take (length part) (drop i t) = part) [0..<Suc (length t)]"

definition last_reason :: "(nat \<Rightarrow> string) \<Rightarrow> poster \<Rightarrow> string" where
  "last_reason reason s = map lower_char (reason (length (calls (wire s)) - 1))"

definition stale_query :: "string \<Rightarrow> bool" where
  "stale_query msg \<longleftrightarrow> has_substring ''query is too old'' msg \<or> has_substring ''query id is invalid'' msg"

definition notify_callback :: "(nat \<Rightarrow> answer) \<Rightarrow> (nat \<Rightarrow> string) \<Rightarrow> int \<Rightarrow> string \<Rightarrow> poster \<Rightarrow> outcome" where
  "notify_callback api reason chat notice s =
     (case issue api (Call chat ''answer'' (AsIs (Handle notice))) (wire s) of
        (r, w) \<Rightarrow>
          let s' = s\<lparr>answered := True, wire := w\<rparr> in
          case r of
            Inr _ \<Rightarrow> (Inr Nothing, s')
          | Inl BadRequest \<Rightarrow> (if stale_query (last_reason reason s') then Inr Nothing else Inl (Api BadRequest), s')
          | Inl e \<Rightarrow> (if is_network_error e then Inr Nothing else Inl (Api e), s'))"

section \<open>The verbs\<close>

definition send :: "(nat \<Rightarrow> answer) \<Rightarrow> int \<Rightarrow> content \<Rightarrow> keyboard_arg \<Rightarrow> raw_format option \<Rightarrow> backend \<Rightarrow> poster \<Rightarrow> outcome" where
  "send api chat c k raw b s =
     (let kb = markup_of c k in
      if b = RICH then
        (case rich_texts c raw of Inl e \<Rightarrow> (Inl e, s) | Inr (rich, mdv2) \<Rightarrow> send_rich_message api chat rich mdv2 kb s)
      else case resolve_content c raw b of Inl e \<Rightarrow> (Inl e, s) | Inr (t, mode) \<Rightarrow> post_new api chat t mode kb s)"

definition edit ::
    "(nat \<Rightarrow> answer) \<Rightarrow> (nat \<Rightarrow> real \<Rightarrow> real \<Rightarrow> real) \<Rightarrow> int \<Rightarrow> content \<Rightarrow> keyboard_arg \<Rightarrow> raw_format option \<Rightarrow> backend \<Rightarrow> poster
      \<Rightarrow> outcome" where
  "edit api uniform chat c k raw b s =
     (let kb = markup_of c k in
      if b = RICH then
        (case rich_texts c raw of Inl e \<Rightarrow> (Inl e, s) | Inr (rich, mdv2) \<Rightarrow> edit_rich_message api uniform chat rich mdv2 kb s)
      else case resolve_content c raw b of Inl e \<Rightarrow> (Inl e, s) | Inr (t, mode) \<Rightarrow> edit_old api uniform chat t mode kb s)"

datatype say_mode = Auto | EditOnly | SendOnly

text \<open>Whether the update has a callback query, and whether it has a message.\<close>

record tg_update =
  u_chat :: int
  u_query :: bool
  u_message :: bool

definition is_msg :: "content \<Rightarrow> bool" where
  "is_msg c = (case c of Msg _ \<Rightarrow> True | Formatted _ \<Rightarrow> False)"

definition say_plain ::
    "(nat \<Rightarrow> answer) \<Rightarrow> (nat \<Rightarrow> string) \<Rightarrow> real option option \<Rightarrow> tg_update \<Rightarrow> say_mode \<Rightarrow> string \<Rightarrow> parse_mode option \<Rightarrow> string option
      \<Rightarrow> poster \<Rightarrow> outcome" where
  "say_plain api reason backoff u m t mode kb s =
     (if u_query u \<and> m \<noteq> SendOnly then
        (case edit_with_retry api backoff (u_chat u) t True (wire s) of
           (r, w) \<Rightarrow>
             let s' = asked_for (Request t mode kb) s\<lparr>wire := w\<rparr> in
             if r = Inl BadRequest then
               (if has_substring ''message is not modified'' (last_reason reason s') then notify_callback api reason (u_chat u) '''' s'
                else post_new api (u_chat u) t mode kb s')
             else (map_sum Api Returned r, s'))
      else if u_message u \<and> m \<noteq> EditOnly then
        (case issue api (Call (u_chat u) ''reply_text'' (AsIs (Handle t))) (wire s) of
           (r, w) \<Rightarrow> (map_sum Api (Returned \<circ> Some) r, asked_for (Request t mode kb) s\<lparr>wire := w\<rparr>))
      else post_new api (u_chat u) t mode kb s)"

definition say ::
    "(nat \<Rightarrow> answer) \<Rightarrow> (nat \<Rightarrow> real \<Rightarrow> real \<Rightarrow> real) \<Rightarrow> (nat \<Rightarrow> string) \<Rightarrow> real option option \<Rightarrow> tg_update \<Rightarrow> content \<Rightarrow> say_mode
      \<Rightarrow> keyboard_arg \<Rightarrow> raw_format option \<Rightarrow> backend \<Rightarrow> poster \<Rightarrow> outcome" where
  "say api uniform reason backoff u c m k raw b s =
     (let kb = markup_of c k in
      if b = RICH \<and> is_msg c then
        (case rich_texts c None of
           Inl e \<Rightarrow> (Inl e, s)
         | Inr (rich, mdv2) \<Rightarrow>
             if u_query u \<and> m \<noteq> SendOnly then edit_rich_message api uniform (u_chat u) rich mdv2 kb s
             else send_rich_message api (u_chat u) rich mdv2 kb s)
      else case resolve_content c raw b of
        Inl e \<Rightarrow> (Inl e, s)
      | Inr (t, mode) \<Rightarrow> say_plain api reason backoff u m t mode kb s)"

section \<open>Routing of button presses\<close>

type_synonym handler = "string \<Rightarrow> poster \<Rightarrow> outcome"

type_synonym callback_route = "string \<times> handler \<times> bool"

definition register :: "callback_route list \<Rightarrow> string \<Rightarrow> handler \<Rightarrow> bool \<Rightarrow> callback_route list" where
  "register routes prefix h owner_only = routes @ [(prefix, h, owner_only)]"

definition starts_with :: "string \<Rightarrow> string \<Rightarrow> bool" where
  "starts_with t part \<longleftrightarrow> take (length part) t = part"

definition longest_match :: "callback_route list \<Rightarrow> string \<Rightarrow> callback_route option" where
  "longest_match routes data =
     foldl (\<lambda>best r.
         if starts_with data (fst r @ '':'') then
           (case best of None \<Rightarrow> Some r | Some b \<Rightarrow> if length (fst r) > length (fst b) then Some r else best)
         else best) None routes"

text \<open>\<open>finally\<close>: the flag is restored also when the handler raises.\<close>

definition invoke_and_ensure_answered ::
    "(nat \<Rightarrow> answer) \<Rightarrow> (nat \<Rightarrow> string) \<Rightarrow> int \<Rightarrow> string \<Rightarrow> handler \<Rightarrow> poster \<Rightarrow> outcome" where
  "invoke_and_ensure_answered api reason chat action h s =
     (case h action (s\<lparr>answered := False\<rparr>) of
        (Inl e, s1) \<Rightarrow> (Inl e, s1\<lparr>answered := answered s\<rparr>)
      | (Inr v, s1) \<Rightarrow>
          if answered s1 then (Inr Nothing, s1\<lparr>answered := answered s\<rparr>)
          else (case notify_callback api reason chat '''' s1 of (r, s2) \<Rightarrow> (r, s2\<lparr>answered := answered s\<rparr>)))"

definition dispatch ::
    "(nat \<Rightarrow> answer) \<Rightarrow> (nat \<Rightarrow> string) \<Rightarrow> env \<Rightarrow> string \<Rightarrow> string \<Rightarrow> callback_route list \<Rightarrow> int \<Rightarrow> string \<Rightarrow> poster \<Rightarrow> outcome" where
  "dispatch api reason en unknown_notice owner_notice routes user data s =
     (case longest_match routes data of
        None \<Rightarrow> notify_callback api reason user unknown_notice s
      | Some (prefix, h, owner_only) \<Rightarrow>
          if owner_only \<and> \<not> is_owner en user then notify_callback api reason user owner_notice s
          else invoke_and_ensure_answered api reason user (dropWhile (\<lambda>c. c = CHR '':'') (drop (length prefix) data)) h s)"

section \<open>A message is posted once\<close>

abbreviation send_call :: "int \<Rightarrow> string \<Rightarrow> call" where
  "send_call chat t \<equiv> Call chat ''send_message'' (AsIs (Handle t))"

abbreviation rich_call :: "int \<Rightarrow> string \<Rightarrow> call" where
  "rich_call chat t \<equiv> Call chat ''sendRichMessage'' (AsIs (Handle t))"

abbreviation edit_call :: "int \<Rightarrow> string \<Rightarrow> call" where
  "edit_call chat t \<equiv> Call chat ''edit_message_text'' (AsIs (Handle t))"

text \<open>What a verb makes of the answer to its last call.\<close>

definition outcome_of :: "answer \<Rightarrow> post_error + posted" where
  "outcome_of r = map_sum Api (\<lambda>m. message_id_or_result (Returned (Some m))) r"

lemma new_message_traced:
  assumes "post_new api chat t mode kb s = (res, s')"
  shows "\<exists>es r. calls (wire s') = calls (wire s) @ map (\<lambda>e. (send_call chat t, Inl e)) es @ [(send_call chat t, r)] \<and>
     length es \<le> 2 \<and> (\<forall>e \<in> set es. refused e) \<and> res = map_sum Api (Returned \<circ> Some) r \<and>
     users_db (wire s') = (if r = Inl Forbidden \<and> chat > 0 then set_user_blocked (users_db (wire s)) chat else users_db (wire s)) \<and>
     rich_off s' = rich_off s \<and> answered s' = answered s \<and> requests s' = requests s @ [Request t mode kb]"
proof -
  obtain r0 w where run: "send_with_retry api chat t True (wire s) = Some (r0, w)"
    by (cases "send_attempts api True chat (Call chat ''send_message'' (to_send None (Handle t) None)) 3 (wire s)")
      (simp add: send_with_retry_def send_media_with_retry_def SEND_METHOD_ALLOWLIST_def SEND_MEDIA_EXPECTED_def)
  then have res: "res = map_sum Api Returned r0" "s' = asked_for (Request t mode kb) s\<lparr>wire := w\<rparr>"
    using assms by (simp_all add: post_new_def)
  have up: "to_send None (Handle t) None = AsIs (Handle t)" by (simp add: to_send_def)
  from send_traced [OF run [unfolded send_with_retry_def]] obtain es r ts where
    t: "calls w = calls (wire s) @ map (\<lambda>x. (send_call chat t, x)) (map Inl es @ [r])" "length es \<le> 2" "\<forall>e \<in> set es. refused e"
      "r0 = map_sum id Some r"
      "users_db w = (if r = Inl Forbidden \<and> chat > 0 then set_user_blocked (users_db (wire s)) chat else users_db (wire s))"
    unfolding up by blast
  show ?thesis
    using t res by (intro exI [of _ es] exI [of _ r]) (cases r; simp add: asked_for_def comp_def)
qed

lemma fallback_traced:
  assumes "fallback_send api chat t kb s = (res, s')"
  shows "\<exists>es r. calls (wire s') = calls (wire s) @ map (\<lambda>e. (send_call chat t, Inl e)) es @ [(send_call chat t, r)] \<and>
     length es \<le> 2 \<and> (\<forall>e \<in> set es. refused e) \<and> res = outcome_of r \<and>
     users_db (wire s') = (if r = Inl Forbidden \<and> chat > 0 then set_user_blocked (users_db (wire s)) chat else users_db (wire s)) \<and>
     rich_off s' = rich_off s"
proof -
  obtain r1 where new: "post_new api chat t (Some MarkdownV2) kb s = (r1, s')" "res = map_sum id message_id_or_result r1"
    using assms by (auto simp: fallback_send_def split: prod.splits)
  have "map_sum id message_id_or_result (map_sum Api (Returned \<circ> Some) r) = outcome_of r" for r :: answer
    by (cases r) (simp_all add: outcome_of_def)
  then show ?thesis using new_message_traced [OF new(1)] new(2) by blast
qed

text \<open>C13: a Rich message is posted once. The Rich request is made at most once, and never again after the Bot API did not know it; the
  MarkdownV2 text is sent only after the Rich request was refused or was known to be. All calls but the last were refused, so
  nothing arrived by them, and after a timeout nothing is sent again. The answer of the last call is what the
  caller gets, and that the user blocked the bot is noted for the MarkdownV2 text only: a Rich
  request that is forbidden leaves the user active.\<close>

theorem rich_message_posted_once:
  assumes "send_rich_message api chat rich mdv2 kb s = (res, s')"
  shows "\<exists>refusals q r. calls (wire s') = calls (wire s) @ map (\<lambda>(q, e). (q, Inl e)) refusals @ [(q, r)] \<and> length refusals \<le> 3 \<and>
     (\<forall>(q', e) \<in> set refusals. q' = send_call chat mdv2 \<and> refused e \<or>
        q' = rich_call chat rich \<and> e \<in> {BadRequest, EndPointNotFound} \<and> q = send_call chat mdv2) \<and>
     q = (if rich_off s \<or> refusals \<noteq> [] then send_call chat mdv2 else rich_call chat rich) \<and>
     length (filter (\<lambda>(q', e). q' = rich_call chat rich) refusals) = (if rich_off s \<or> q = rich_call chat rich then 0 else 1) \<and>
     (rich_off s' \<longleftrightarrow> rich_off s \<or> (rich_call chat rich, EndPointNotFound) \<in> set refusals) \<and>
     (q = send_call chat mdv2 \<longrightarrow> res = outcome_of r) \<and>
     (q = rich_call chat rich \<longrightarrow> (\<forall>e. r = Inl e \<longrightarrow> res = Inl (Api e) \<and> e \<notin> {BadRequest, EndPointNotFound})) \<and>
     users_db (wire s') =
       (if q = send_call chat mdv2 \<and> r = Inl Forbidden \<and> chat > 0 then set_user_blocked (users_db (wire s)) chat else users_db (wire s))"
proof (cases "rich_off s")
  case True
  then have "fallback_send api chat mdv2 kb s = (res, s')" using assms by (simp add: send_rich_message_def)
  from fallback_traced [OF this] obtain es r where
    t: "calls (wire s') = calls (wire s) @ map (\<lambda>e. (send_call chat mdv2, Inl e)) es @ [(send_call chat mdv2, r)]" "length es \<le> 2"
      "\<forall>e \<in> set es. refused e" "res = outcome_of r" "rich_off s' = rich_off s"
      "users_db (wire s') = (if r = Inl Forbidden \<and> chat > 0 then set_user_blocked (users_db (wire s)) chat else users_db (wire s))" by blast
  show ?thesis
    using t True by (intro exI [of _ "map (Pair (send_call chat mdv2)) es"] exI [of _ "send_call chat mdv2"] exI [of _ r])
      (auto simp: comp_def filter_map)
next
  case False
  obtain a w where w: "issue api (rich_call chat rich) (wire s) = (a, w)" by fastforce
  have wc: "calls w = calls (wire s) @ [(rich_call chat rich, a)]" "users_db w = users_db (wire s)" using w by (auto simp: issue_def Let_def)
  let ?s1 = "asked_for (RichRequest rich kb) s\<lparr>wire := w\<rparr>"
  have req: "rich_api_request api chat ''sendRichMessage'' rich kb s = (a, ?s1)" by (simp add: rich_api_request_def w)
  show ?thesis
  proof (cases "a \<in> {Inl BadRequest, Inl EndPointNotFound}")
    case True
    then obtain e where e: "a = Inl e" "e \<in> {BadRequest, EndPointNotFound}" by auto
    obtain s2 where s2: "fallback_send api chat mdv2 kb s2 = (res, s')" "wire s2 = w" "rich_off s2 \<longleftrightarrow> e = EndPointNotFound"
      using assms False e by (auto simp: send_rich_message_def RICH_ENABLED_def req asked_for_def)
    from fallback_traced [OF s2(1)] obtain es r where
      t: "calls (wire s') = calls w @ map (\<lambda>e. (send_call chat mdv2, Inl e)) es @ [(send_call chat mdv2, r)]" "length es \<le> 2"
        "\<forall>e \<in> set es. refused e" "res = outcome_of r" "rich_off s' \<longleftrightarrow> e = EndPointNotFound"
        "users_db (wire s') = (if r = Inl Forbidden \<and> chat > 0 then set_user_blocked (users_db (wire s)) chat else users_db (wire s))"
      unfolding s2(2,3) wc(2) by blast
    show ?thesis
      using t False e wc
      by (intro exI [of _ "(rich_call chat rich, e) # map (Pair (send_call chat mdv2)) es"] exI [of _ "send_call chat mdv2"] exI [of _ r])
        (auto simp: comp_def filter_map)
  next
    case out: False
    have "(case a of Inl e \<Rightarrow> res = Inl (Api e) | Inr m \<Rightarrow> True) \<and> s' = ?s1"
      using assms False out
      by (cases a) (auto simp: send_rich_message_def RICH_ENABLED_def req split: tg_error.splits)
    then show ?thesis
      using False out wc by (intro exI [of _ "[]"] exI [of _ "rich_call chat rich"] exI [of _ a]) (auto simp: asked_for_def)
  qed
qed

text \<open>C14: a button press is answered by one message. The message under the button is edited, at most three times. A new message is
  sent only after Telegram refused to edit it, and it is sent once; when the text did not change, because a lost edit
  had arrived or the same button was pressed again, the press is acknowledged and nothing is sent.\<close>

theorem say_edits_or_sends_once:
  assumes "say_plain api reason backoff u m t mode kb s = (res, s')" and "u_query u" and "m \<noteq> SendOnly"
  shows "\<exists>es r after. calls (wire s') = calls (wire s) @ map (\<lambda>x. (edit_call (u_chat u) t, x)) (map Inl es @ [r]) @ after \<and>
     length es \<le> 2 \<and> (\<forall>e \<in> set es. transient e) \<and>
     (if r \<noteq> Inl BadRequest then after = [] \<and> res = map_sum Api (Returned \<circ> Some) r
      else if has_substring ''message is not modified'' (map lower_char (reason (length (calls (wire s)) + length es)))
      then answered s' \<and> map fst after = [Call (u_chat u) ''answer'' (AsIs (Handle ''''))]
      else \<exists>es' r'. after = map (\<lambda>e. (send_call (u_chat u) t, Inl e)) es' @ [(send_call (u_chat u) t, r')] \<and>
        (\<forall>e \<in> set es'. refused e) \<and> res = map_sum Api (Returned \<circ> Some) r')"
proof -
  obtain r0 w where run: "edit_with_retry api backoff (u_chat u) t True (wire s) = (r0, w)" by fastforce
  have "edit_attempts (issue api (edit_call (u_chat u) t)) backoff True (Suc 2) (wire s) = (r0, w)"
    using run by (simp only: edit_with_retry_def numeral_3_eq_3 numeral_2_eq_2)
  from plain_edit_loop.loop_traced [OF this, unfolded plain_edit_loop.traced_def] obtain es r where
    t: "calls w = calls (wire s) @ map (\<lambda>x. (edit_call (u_chat u) t, x)) (map Inl es @ [r])" "length es \<le> 2" "\<forall>e \<in> set es. transient e"
      "r0 = map_sum id Some r" by blast
  let ?s1 = "asked_for (Request t mode kb) s\<lparr>wire := w\<rparr>"
  have w1: "wire ?s1 = w" by (simp add: asked_for_def)
  have bad: "r0 = Inl BadRequest \<longleftrightarrow> r = Inl BadRequest" using t(4) by (cases r) auto
  have reason: "last_reason reason ?s1 = map lower_char (reason (length (calls (wire s)) + length es))"
    by (simp add: last_reason_def w1 t(1))
  have say: "(res, s') =
      (if r = Inl BadRequest then
         (if has_substring ''message is not modified'' (map lower_char (reason (length (calls (wire s)) + length es)))
          then notify_callback api reason (u_chat u) '''' ?s1 else post_new api (u_chat u) t mode kb ?s1)
       else (map_sum Api Returned r0, ?s1))"
    using assms run by (simp add: say_plain_def Let_def bad reason cong: if_cong)
  show ?thesis
  proof (cases "r = Inl BadRequest")
    case False
    then have "res = map_sum Api (Returned \<circ> Some) r" "s' = ?s1" using say t(4) by (cases r; simp)+
    then show ?thesis using False t by (intro exI [of _ es] exI [of _ r] exI [of _ "[]"]) (simp add: w1)
  next
    case bad: True
    show ?thesis
    proof (cases "has_substring ''message is not modified'' (map lower_char (reason (length (calls (wire s)) + length es)))")
      case True
      then have "notify_callback api reason (u_chat u) '''' ?s1 = (res, s')" using say bad by simp
      then obtain a where "answered s'" "calls (wire s') = calls w @ [(Call (u_chat u) ''answer'' (AsIs (Handle '''')), a)]"
        by (auto simp: notify_callback_def issue_def w1 Let_def split: sum.splits tg_error.splits)
      then show ?thesis
        using t bad True by (intro exI [of _ es] exI [of _ r] exI [of _ "[(Call (u_chat u) ''answer'' (AsIs (Handle '''')), a)]"]) simp
    next
      case False
      then have "post_new api (u_chat u) t mode kb ?s1 = (res, s')" using say bad by simp
      from new_message_traced [OF this] obtain es' r' where
        "calls (wire s') = calls w @ map (\<lambda>e. (send_call (u_chat u) t, Inl e)) es' @ [(send_call (u_chat u) t, r')]"
        "\<forall>e \<in> set es'. refused e" "res = map_sum Api (Returned \<circ> Some) r'" unfolding w1 by blast
      then show ?thesis
        using t bad False by (intro exI [of _ es] exI [of _ r]) (simp, blast)
    qed
  qed
qed

section \<open>A press is answered once\<close>

text \<open>The route of a callback: the longest prefix, and the first one registered among equals.\<close>

definition matches :: "string \<Rightarrow> callback_route \<Rightarrow> bool" where
  "matches data r = starts_with data (fst r @ '':'')"

lemma longest_match_snoc: "longest_match (rs @ [r]) data =
   (if matches data r then
      (case longest_match rs data of None \<Rightarrow> Some r | Some b \<Rightarrow> if length (fst r) > length (fst b) then Some r else Some b)
    else longest_match rs data)"
  by (simp add: longest_match_def matches_def split: option.splits)

lemma longest_match_None: "longest_match rs data = None \<longleftrightarrow> (\<forall>r \<in> set rs. \<not> matches data r)"
proof (induction rs rule: rev_induct)
  case Nil
  then show ?case by (simp add: longest_match_def)
next
  case (snoc r rs)
  then show ?case by (cases r) (auto simp: longest_match_snoc split: option.splits)
qed

lemma longest_match_Some:
  "longest_match rs data = Some r \<Longrightarrow>
     r \<in> set rs \<and> matches data r \<and> (\<forall>r' \<in> set rs. matches data r' \<longrightarrow> length (fst r') \<le> length (fst r))"
proof (induction rs arbitrary: r rule: rev_induct)
  case Nil
  then show ?case by (simp add: longest_match_def)
next
  case (snoc r' rs)
  show ?case
  proof (cases "longest_match rs data")
    case None
    then show ?thesis using snoc.prems longest_match_None [of rs data] by (auto simp: longest_match_snoc split: if_splits)
  next
    case (Some b)
    then show ?thesis using snoc.prems snoc.IH [OF Some] by (fastforce simp: longest_match_snoc split: if_splits)
  qed
qed

lemma longest_match_first:
  "longest_match rs data = Some r \<Longrightarrow>
     \<exists>pre post. rs = pre @ r # post \<and> (\<forall>r' \<in> set pre. matches data r' \<longrightarrow> length (fst r') < length (fst r))"
proof (induction rs arbitrary: r rule: rev_induct)
  case Nil
  then show ?case by (simp add: longest_match_def)
next
  case (snoc x rs)
  show ?case
  proof (cases "longest_match rs data = Some r")
    case True
    then show ?thesis using snoc.IH by fastforce
  next
    case False
    then have "r = x" and "\<forall>b. longest_match rs data = Some b \<longrightarrow> length (fst b) < length (fst x)"
      using snoc.prems by (auto simp: longest_match_snoc split: if_splits option.splits)
    then have "\<forall>r' \<in> set rs. matches data r' \<longrightarrow> length (fst r') < length (fst r)"
      using longest_match_None [of rs data] longest_match_Some [of rs data] by (cases "longest_match rs data") fastforce+
    then show ?thesis using \<open>r = x\<close> by blast
  qed
qed

text \<open>The answers to the press among the calls of a step.\<close>

fun is_answer :: "call \<Rightarrow> bool" where
  "is_answer (Call chat call_name up) \<longleftrightarrow> call_name = ''answer''"

definition answers :: "poster \<Rightarrow> poster \<Rightarrow> nat" where
  "answers s s' = length (filter (is_answer \<circ> fst) (drop (length (calls (wire s))) (calls (wire s'))))"

definition extends_log :: "poster \<Rightarrow> poster \<Rightarrow> bool" where
  "extends_log s s' \<longleftrightarrow> (\<exists>log. calls (wire s') = calls (wire s) @ log)"

lemma notify_answers:
  assumes "notify_callback api reason chat notice s = (res, s')"
  shows "answers s s' = 1 \<and> extends_log s s' \<and> answered s'"
  using assms by (auto simp: notify_callback_def issue_def answers_def extends_log_def Let_def split: sum.splits tg_error.splits)

lemma answers_trans:
  assumes "extends_log s s1" and "extends_log s1 s2"
  shows "answers s s2 = answers s s1 + answers s1 s2"
  using assms by (auto simp: extends_log_def answers_def)

lemma answers_flag [simp]:
  "answers (s\<lparr>answered := b\<rparr>) s' = answers s s'" "answers s (s'\<lparr>answered := b\<rparr>) = answers s s'"
  "extends_log (s\<lparr>answered := b\<rparr>) s' = extends_log s s'"
  by (simp_all add: answers_def extends_log_def)

text \<open>What the router makes of the run of a handler: it adds the missing answer and puts the flag back.\<close>

lemma invoke_runs_handler:
  assumes "h action (s\<lparr>answered := False\<rparr>) = (r1, s1)" and "extends_log s s1"
    and "invoke_and_ensure_answered api reason chat action h s = (res, s')"
  shows "answered s' = answered s \<and>
    (case r1 of
       Inl e \<Rightarrow> res = Inl e \<and> s' = s1\<lparr>answered := answered s\<rparr>
     | Inr v \<Rightarrow>
         if answered s1 then res = Inr Nothing \<and> s' = s1\<lparr>answered := answered s\<rparr>
         else \<exists>s2. notify_callback api reason chat '''' s1 = (res, s2) \<and> s' = s2\<lparr>answered := answered s\<rparr> \<and>
           answers s s' = answers s s1 + 1) \<and>
    (answers s s1 = (if answered s1 then 1 else 0) \<longrightarrow> answers s s' \<le> 1 \<and> (isl r1 \<or> answers s s' = 1))"
proof (cases "isl r1 \<or> answered s1")
  case True
  then show ?thesis using assms by (cases r1) (auto simp: invoke_and_ensure_answered_def)
next
  case False
  then obtain v where v: "r1 = Inr v" "\<not> answered s1" by (cases r1) auto
  obtain r2 s2 where s2: "notify_callback api reason chat '''' s1 = (r2, s2)" by fastforce
  have "res = r2" "s' = s2\<lparr>answered := answered s\<rparr>" using assms v s2 by (simp_all add: invoke_and_ensure_answered_def)
  moreover have "answers s s2 = answers s s1 + 1" using notify_answers [OF s2] answers_trans [OF assms(2)] by simp
  ultimately show ?thesis using v s2 by simp
qed

text \<open>C16: What happens to a button press. It goes to the route with the longest registered prefix, the first
  one registered among equals. A press that no route matches, and one on an owner's route by anyone
  else, gets exactly one answer, a notice, and no handler runs. Otherwise the handler of that route runs
  once, with the rest of the data as its action and the answered flag off, and if it raises the error
  is passed on; if it returns with the flag on the router sends nothing; if it returns with the flag off the
  router sends exactly one answer of its own. The flag is afterwards as it was. So a handler whose flag
  tells what it did (on after one answer, off after none) gets the press answered exactly once unless it
  raises, and never twice. (The hypothesis: handlers add to the log of calls, they do not rewrite it.)\<close>

theorem press_answered_once:
  assumes "dispatch api reason en unknown_notice owner_notice routes user data s = (res, s')"
    and "\<forall>(prefix, h, owner_only) \<in> set routes. \<forall>action s r s'. h action s = (r, s') \<longrightarrow> extends_log s s'"
  shows "case longest_match routes data of
      None \<Rightarrow> (\<forall>r \<in> set routes. \<not> matches data r) \<and> notify_callback api reason user unknown_notice s = (res, s') \<and>
        answers s s' = 1
    | Some (prefix, h, owner_only) \<Rightarrow>
        take (length prefix + 1) data = prefix @ '':'' \<and>
        (\<forall>r \<in> set routes. matches data r \<longrightarrow> length (fst r) \<le> length prefix) \<and>
        (\<exists>pre post. routes = pre @ (prefix, h, owner_only) # post \<and>
           (\<forall>r \<in> set pre. matches data r \<longrightarrow> length (fst r) < length prefix)) \<and>
        (if owner_only \<and> \<not> is_owner en user
         then notify_callback api reason user owner_notice s = (res, s') \<and> answers s s' = 1
         else \<exists>r1 s1. h (dropWhile (\<lambda>ch. ch = CHR '':'') (drop (length prefix) data)) (s\<lparr>answered := False\<rparr>) = (r1, s1) \<and>
           answered s' = answered s \<and>
           (case r1 of
              Inl e \<Rightarrow> res = Inl e \<and> s' = s1\<lparr>answered := answered s\<rparr>
            | Inr v \<Rightarrow>
                if answered s1 then res = Inr Nothing \<and> s' = s1\<lparr>answered := answered s\<rparr>
                else \<exists>s2. notify_callback api reason user '''' s1 = (res, s2) \<and> s' = s2\<lparr>answered := answered s\<rparr> \<and>
                  answers s s' = answers s s1 + 1) \<and>
           (answers s s1 = (if answered s1 then 1 else 0) \<longrightarrow> answers s s' \<le> 1 \<and> (isl r1 \<or> answers s s' = 1)))"
proof (cases "longest_match routes data")
  case None
  then have n: "notify_callback api reason user unknown_notice s = (res, s')" using assms(1) by (simp add: dispatch_def)
  then show ?thesis using notify_answers [OF n] None longest_match_None [of routes data] by simp
next
  case (Some r)
  obtain prefix h owner_only where r: "r = (prefix, h, owner_only)" by (cases r)
  have m: "r \<in> set routes" "take (length prefix + 1) data = prefix @ '':''"
    "\<forall>r' \<in> set routes. matches data r' \<longrightarrow> length (fst r') \<le> length prefix"
    "\<exists>pre post. routes = pre @ (prefix, h, owner_only) # post \<and> (\<forall>r \<in> set pre. matches data r \<longrightarrow> length (fst r) < length prefix)"
    using longest_match_Some [OF Some] longest_match_first [OF Some] by (simp_all add: r matches_def starts_with_def)
  show ?thesis
  proof (cases "owner_only \<and> \<not> is_owner en user")
    case True
    then have n: "notify_callback api reason user owner_notice s = (res, s')" using assms(1) Some r by (simp add: dispatch_def)
    then show ?thesis using notify_answers [OF n] Some r m True by simp
  next
    case False
    let ?action = "dropWhile (\<lambda>ch. ch = CHR '':'') (drop (length prefix) data)"
    obtain r1 s1 where run: "h ?action (s\<lparr>answered := False\<rparr>) = (r1, s1)" by fastforce
    have "\<forall>action s r s'. h action s = (r, s') \<longrightarrow> extends_log s s'" using assms(2) m(1) r by blast
    then have "extends_log (s\<lparr>answered := False\<rparr>) s1" using run by blast
    then have log: "extends_log s s1" by simp
    have "invoke_and_ensure_answered api reason user ?action h s = (res, s')"
      using assms(1) Some r False by (simp add: dispatch_def split: if_splits)
    note out = invoke_runs_handler [OF run log this]
    show ?thesis unfolding Some r option.case prod.case if_not_P [OF False]
      by (intro conjI m exI [of _ r1] exI [of _ s1] run conjunct1 [OF out] conjunct1 [OF conjunct2 [OF out]] conjunct2 [OF conjunct2 [OF out]])
  qed
qed

section \<open>The MarkdownV2 text of a Rich message\<close>



text \<open>No line that starts like a quotation.\<close>

fun no_mark :: "bool \<Rightarrow> string \<Rightarrow> bool" where
  "no_mark line_start [] = True"
| "no_mark line_start (c # t) = (\<not> (line_start \<and> c = CHR ''>'') \<and> no_mark (c = newline) t)"

lemma no_mark_later: "no_mark True t \<Longrightarrow> no_mark b t"
  by (cases t) auto

lemma no_mark_False [simp]: "no_mark True t \<Longrightarrow> no_mark False t"
  by (rule no_mark_later)


lemma no_mark_escaped [simp]: "no_mark b (escape_mdv2 t)"
  by (induction t arbitrary: b) (auto simp: escape_mdv2_chars MDV2_SPECIAL_def)

















section \<open>Concrete posts\<close>

definition new_poster :: poster where
  "new_poster = \<lparr>wire = quiet_world, rich_off = False, answered = False, requests = []\<rparr>"

text \<open>A Bot API server that does not know Rich messages.\<close>

definition old_server :: "nat \<Rightarrow> answer" where
  "old_server n = (if n = 0 then Inl EndPointNotFound else Inr sent)"

theorem rich_message_posted_once_witness:
  "\<exists>res s'. send_rich_message old_server 5 ''**hi**'' ''*hi*'' None new_poster = (res, s') \<and> rich_off s' \<and> users_db (wire s') = empty_db"
proof -
  obtain res s' where run: "send_rich_message old_server 5 ''**hi**'' ''*hi*'' None new_poster = (res, s')" by fastforce
  have off: "rich_off s'" and calls: "map snd (calls (wire s')) = [Inl EndPointNotFound, Inr sent]"
    using run by (auto simp: send_rich_message_def RICH_ENABLED_def new_poster_def quiet_world_def rich_api_request_def issue_def Let_def old_server_def
        fallback_send_def post_new_def send_with_retry_def send_media_with_retry_def SEND_METHOD_ALLOWLIST_def SEND_MEDIA_EXPECTED_def
        numeral_3_eq_3 reset_telegram_cb_def asked_for_def)
  from rich_message_posted_once [OF run] obtain refusals q r where
    t: "calls (wire s') = calls (wire new_poster) @ map (\<lambda>(q, e). (q, Inl e)) refusals @ [(q, r)]"
      "users_db (wire s') = (if q = send_call 5 ''*hi*'' \<and> r = Inl Forbidden \<and> (5::int) > 0
         then set_user_blocked (users_db (wire new_poster)) 5 else users_db (wire new_poster))" by blast
  have "r = Inr sent" using arg_cong [OF t(1), of "\<lambda>c. last (map snd c)"] calls by simp
  then have "users_db (wire s') = empty_db" using t(2) by (simp add: new_poster_def quiet_world_def)
  then show ?thesis using run off by blast
qed

text \<open>The first edit arrives but its answer is lost; the second one finds nothing to change.\<close>

definition lost_answer :: "nat \<Rightarrow> answer" where
  "lost_answer n = (if n = 0 then Inl TimedOut else if n = 1 then Inl BadRequest else Inr sent)"

definition not_modified :: "nat \<Rightarrow> string" where
  "not_modified n = ''Message is not modified: same''"

definition tapped :: tg_update where
  "tapped = \<lparr>u_chat = 5, u_query = True, u_message = False\<rparr>"

theorem say_edits_or_sends_once_witness:
  "\<exists>res s'. say_plain lost_answer not_modified None tapped Auto ''hi'' None None new_poster = (res, s') \<and>
     answered s' \<and> length (calls (wire s')) = 3"
proof -
  obtain res s' where run: "say_plain lost_answer not_modified None tapped Auto ''hi'' None None new_poster = (res, s')" by fastforce
  have same: "has_substring ''message is not modified'' (map lower_char (not_modified n))" for n
    unfolding not_modified_def by code_simp
  from say_edits_or_sends_once [OF run] obtain es r after where
    t: "calls (wire s') = calls (wire new_poster) @ map (\<lambda>x. (edit_call 5 ''hi'', x)) (map Inl es @ [r]) @ after"
      "if r \<noteq> Inl BadRequest then after = [] \<and> res = map_sum Api (Returned \<circ> Some) r
       else answered s' \<and> map fst after = [Call 5 ''answer'' (AsIs (Handle ''''))]"
    by (auto simp: tapped_def same)
  have calls: "fst (last (calls (wire s'))) = Call 5 ''answer'' (AsIs (Handle ''''))" "length (calls (wire s')) = 3"
    using run by (auto simp: say_plain_def tapped_def new_poster_def quiet_world_def edit_with_retry_def numeral_3_eq_3 issue_def nap_def Let_def
        lost_answer_def asked_for_def last_reason_def same notify_callback_def)
  have "after \<noteq> []" using t(1) calls(1) by auto
  then have "answered s'" using t(2) by (auto split: if_splits)
  then show ?thesis using run calls(2) by blast
qed

text \<open>Two routes, one below the other; the admin's is for the owner.\<close>

definition toast :: handler where
  "toast action s = notify_callback (\<lambda>_. Inr sent) not_modified 5 action s"

definition two_routes :: "callback_route list" where
  "two_routes = register (register [] ''llm'' (\<lambda>action s. (Inr Nothing, s)) False) ''llm:edit'' toast True"

definition owner_env :: env where
  "owner_env = \<lparr>utc_now = 0, today = (2026, 1, 1), app_date = (\<lambda>_. (2026, 1, 1)), app_midnight = (\<lambda>_. 0), utc_date = (\<lambda>_. (2026, 1, 1)),
     utc_time = (\<lambda>_. ''''), sql_datetime_ok = (\<lambda>_. False), owner_id = 5, owner_bypass_limits = False\<rparr>"

theorem press_answered_once_witness:
  "\<exists>s'. dispatch (\<lambda>_. Inr sent) not_modified owner_env ''?'' ''no'' two_routes 5 ''llm:edit:3'' new_poster = (Inr Nothing, s') \<and>
     answers new_poster s' = 1 \<and> map fst (calls (wire s')) = [Call 5 ''answer'' (AsIs (Handle ''3''))]"
proof -
  have r: "longest_match two_routes ''llm:edit:3'' = Some (''llm:edit'', toast, True)"
    by (simp add: two_routes_def register_def longest_match_def starts_with_def)
  have o: "is_owner owner_env 5" by (simp add: is_owner_def owner_env_def)
  obtain res s' where run: "dispatch (\<lambda>_. Inr sent) not_modified owner_env ''?'' ''no'' two_routes 5 ''llm:edit:3'' new_poster = (res, s')"
    by fastforce
  obtain s1 where toasted: "toast ''3'' (new_poster\<lparr>answered := False\<rparr>) = (Inr Nothing, s1)" and s1: "answered s1"
    "map fst (calls (wire s1)) = [Call 5 ''answer'' (AsIs (Handle ''3''))]" "answers new_poster s1 = 1"
    by (simp add: toast_def notify_callback_def issue_def new_poster_def quiet_world_def answers_def Let_def)
  have "\<forall>(prefix, h, owner_only) \<in> set two_routes. \<forall>action s r s'. h action s = (r, s') \<longrightarrow> extends_log s s'"
    using notify_answers by (auto simp: two_routes_def register_def toast_def extends_log_def)
  from press_answered_once [OF run this, unfolded r option.case prod.case] o toasted s1(1,3)
  have "res = Inr Nothing" "s' = s1\<lparr>answered := answered new_poster\<rparr>" "answers new_poster s' = 1" by auto
  then show ?thesis using run s1(2) by simp
qed




end
