(* ===== verification/Provider.thy ===== *)
theory Provider imports Presets Cache Costs Cards "HOL-Library.Sublist" begin

text \<open>
  The calls of a language model: \<open>services/ai/ai.py\<close> with the JSON extraction of \<open>services/ai/json_codec.py\<close> and
  the ledger of calls in \<open>services/ai/telemetry.py\<close>. The provider is a parameter that answers the n-th request;
  Python's JSON decoder, the text of an exception and the measured latency are parameters too. Prompts are given, and
  the lines written to the log are left out.
\<close>

section \<open>JSON in an answer\<close>

definition fence :: string where
  "fence = ''```''"

abbreviation line_end :: char where
  "line_end \<equiv> CHR 0x0A"

text \<open>
  The substitution that removes code fences: a fence at the start of a line, with \<open>json\<close> and blanks behind it, or
  blanks and a fence at the end of a line. The flag says whether a line begins here.
\<close>

function drop_fences :: "bool \<Rightarrow> string \<Rightarrow> string" where
  "drop_fences bol t =
     (if t = [] then []
      else if bol \<and> prefix fence t then
        (let rest = drop 3 t; rest = (if prefix ''json'' rest then drop 4 rest else rest);
             blanks = takeWhile is_space rest
         in drop_fences (blanks \<noteq> [] \<and> last blanks = line_end) (drop (length blanks) rest))
      else let rest = dropWhile is_space t in
        if prefix fence rest \<and> (drop 3 rest = [] \<or> hd (drop 3 rest) = line_end) then drop_fences False (drop 3 rest)
        else hd t # drop_fences (hd t = line_end) (tl t))"
  by pat_completeness auto
termination
proof (relation "measure (\<lambda>(_, t). length t)", simp_all add: fence_def)
  fix t :: string
  assume "prefix ''```'' (dropWhile is_space t) \<and> (length (dropWhile is_space t) \<le> 3 \<or> hd (drop 3 (dropWhile is_space t)) = line_end)"
  then obtain r where "dropWhile is_space t = ''```'' @ r" by (auto simp: prefix_def)
  then show "length (dropWhile is_space t) - 3 < length t" using length_dropWhile_le [of is_space t] by simp
qed

declare drop_fences.simps [simp del]

text \<open>
  \<open>decode\<close> is \<open>raw_decode\<close>: the value a text begins with. \<open>None\<close> is the \<open>JSONDecodeError\<close>.
\<close>

fun first_value :: "(string \<Rightarrow> json option) \<Rightarrow> string \<Rightarrow> json option" where
  "first_value decode [] = None"
| "first_value decode (c # t) =
     (if c \<notin> {CHR ''['', CHR ''{''} then first_value decode t
      else case decode (c # t) of None \<Rightarrow> first_value decode t | Some v \<Rightarrow> Some v)"

definition extract_json :: "(string \<Rightarrow> json option) \<Rightarrow> string \<Rightarrow> json option" where
  "extract_json decode t = first_value decode (strip (drop_fences True (strip t)))"

section \<open>Which model and which interface\<close>

definition rstrip_slash :: "string \<Rightarrow> string" where
  "rstrip_slash t = rev (dropWhile (\<lambda>c. c = CHR ''/'') (rev t))"

definition lower :: "string \<Rightarrow> string" where
  "lower t = map lower_char t"

definition normalize_base_url :: "string \<Rightarrow> string" where
  "normalize_base_url base_url =
     (let b = rstrip_slash (strip base_url)
      in if suffix ''/responses'' (lower b) then rstrip_slash (take (length b - length ''/responses'') b) else b)"

definition model_of :: "preset_row \<Rightarrow> string" where
  "model_of p = (if prefix ''opencode/'' (p_model p) then drop (length ''opencode/'') (p_model p) else p_model p)"

definition resolve_model :: "ai_db \<Rightarrow> preset_row option \<Rightarrow> string py" where
  "resolve_model s p = (case p of Some p \<Rightarrow> Inr (model_of p) | None \<Rightarrow> map_sum id model_of (get_active_preset s))"

definition is_responses_preset :: "preset_row option \<Rightarrow> string option \<Rightarrow> bool" where
  "is_responses_preset p model =
     (if p = None \<and> model = None then False
      else let base = (case p of None \<Rightarrow> '''' | Some p \<Rightarrow> p_base_url p);
               m = or_else model '''';
               m = (if m = '''' then (case p of None \<Rightarrow> '''' | Some p \<Rightarrow> p_model p) else m);
               base_l = strip (lower base);
               m_l = strip (lower m)
           in suffix ''/responses'' (rstrip_slash base_l)
              \<or> sublist ''opencode.ai/zen'' base_l \<and> (sublist ''muse-spark'' m_l \<or> sublist ''gpt-'' m_l))"

text \<open>An absent effort is the default \<open>none\<close>; \<open>none\<close> and the empty text are never sent.\<close>

definition chosen_effort :: "bool \<Rightarrow> string \<Rightarrow> preset_row \<Rightarrow> string option" where
  "chosen_effort use_responses model p =
     (let e = (if p_effort p = '''' then ''none'' else p_effort p);
          e = (if use_responses \<and> sublist ''muse-spark'' (lower model) \<and> e = ''none'' then ''minimal'' else e)
      in if e = ''none'' then None else Some e)"

section \<open>The provider\<close>

record token_usage =
  tu_prompt :: "int option"
  tu_completion :: "int option"
  tu_total :: "int option"

record model_request =
  rq_responses :: bool
  rq_base :: string
  rq_key :: string
  rq_timeout :: real
  rq_model :: string
  rq_system :: string
  rq_user :: string
  rq_max_tokens :: int
  rq_temperature :: "real option"
  rq_effort :: "string option"

text \<open>
  What the client raises, with the name of its class and its HTTP status, or the parts of an answer the code reads: the
  contents of the choices of a chat, the two texts of the other interface.
\<close>

record model_answer =
  an_usage :: "token_usage option"
  an_choices :: "string option list"
  an_output_text :: "string option"
  an_first_text :: "string option"

datatype api_reply = ApiRaised string "int option" string | ApiAnswer model_answer

datatype ai_exc =
    FromClient string string
  | RateLimited string
  | NotJsonText
  | NoChoices
  | BadCard card_error
  | BadBatch
  | ClientFailed string
  | Raises py_error

text \<open>The proxy of the client: none, one that works, one that is refused, or a failure nobody expected.\<close>

datatype proxy = NoProxy | GoodProxy | BadProxy | BrokenProxy

record provider_env =
  pe_keys :: key_env
  pe_ai :: ai_db
  pe_proxy :: proxy
  pe_strict :: bool
  pe_ask :: "nat \<Rightarrow> model_request \<Rightarrow> api_reply"
  pe_latency :: "nat \<Rightarrow> real"
  pe_decode :: "string \<Rightarrow> json option"
  pe_unicode :: unicode
  pe_str :: "json \<Rightarrow> string"
  pe_text :: "ai_exc \<Rightarrow> string"
  pe_profile :: cost_profile
  pe_clock :: clock
  pe_request_id :: "nat \<Rightarrow> string"

record asked_world =
  asked :: "(model_request \<times> api_reply) list"
  costs :: cost_db

record telemetry =
  tm_model :: "string option"
  tm_usage :: "token_usage option"
  tm_latency :: "real option"

definition no_telemetry :: telemetry where
  "no_telemetry = \<lparr>tm_model = None, tm_usage = None, tm_latency = None\<rparr>"

text \<open>The base address, the key and the timeout of a client; a bad proxy is bypassed unless it is mandatory.\<close>

definition create_client :: "provider_env \<Rightarrow> preset_row option \<Rightarrow> string option \<Rightarrow> ai_exc + string \<times> string \<times> real" where
  "create_client E p api_key_override =
     (case (case p of Some p \<Rightarrow> Inr p | None \<Rightarrow> get_active_preset (pe_ai E)) of
        Inl e \<Rightarrow> Inl (Raises e)
      | Inr p \<Rightarrow>
          let api_key = (case api_key_override of
                Some k \<Rightarrow> if k \<noteq> '''' then k else resolve_preset_key (pe_keys E) (pe_ai E) p
              | None \<Rightarrow> resolve_preset_key (pe_keys E) (pe_ai E) p)
          in if pe_proxy E = BrokenProxy \<or> pe_proxy E = BadProxy \<and> pe_strict E then Inl (ClientFailed ''proxy'')
             else Inr (normalize_base_url (p_base_url p), api_key, p_timeout p))"

definition the_request :: "string \<times> string \<times> real \<Rightarrow> preset_row \<Rightarrow> string \<Rightarrow> string \<Rightarrow> model_request" where
  "the_request client p system_prompt user_prompt =
     (let model = model_of p; use_responses = is_responses_preset (Some p) (Some model) in
      \<lparr>rq_responses = use_responses, rq_base = fst client, rq_key = fst (snd client), rq_timeout = snd (snd client),
       rq_model = model, rq_system = system_prompt, rq_user = user_prompt, rq_max_tokens = p_max_output p,
       rq_temperature = (if use_responses then None else Some (p_temperature p)), rq_effort = chosen_effort use_responses model p\<rparr>)"

text \<open>A rate limit is recognised by the status or by the name of the class.\<close>

definition client_error :: "string \<Rightarrow> int option \<Rightarrow> string \<Rightarrow> ai_exc" where
  "client_error cls status msg = (if status = Some 429 \<or> sublist ''RateLimitError'' cls then RateLimited msg else FromClient cls msg)"

definition normal_usage :: "bool \<Rightarrow> token_usage option \<Rightarrow> token_usage option" where
  "normal_usage use_responses usage =
     (if use_responses then
        map_option (\<lambda>u. \<lparr>tu_prompt = Some (or_else (tu_prompt u) 0), tu_completion = Some (or_else (tu_completion u) 0),
          tu_total = Some (or_else (tu_total u) 0)\<rparr>) usage
      else usage)"

definition content_of :: "bool \<Rightarrow> model_answer \<Rightarrow> string option" where
  "content_of use_responses a =
     (if use_responses then
        Some (case an_output_text a of Some t \<Rightarrow> if t \<noteq> '''' then t else or_else (an_first_text a) '''' | None \<Rightarrow> or_else (an_first_text a) '''')
      else case an_choices a of [] \<Rightarrow> None | c # _ \<Rightarrow> Some (or_else c ''''))"

definition request_json ::
    "provider_env \<Rightarrow> preset_row option \<Rightarrow> string \<Rightarrow> string \<Rightarrow> telemetry \<Rightarrow> asked_world \<Rightarrow> (ai_exc + json) \<times> telemetry \<times> asked_world" where
  "request_json E preset system_prompt user_prompt tm w =
     (case (case preset of Some p \<Rightarrow> Inr p | None \<Rightarrow> get_active_preset (pe_ai E)) of
        Inl e \<Rightarrow> (Inl (Raises e), tm, w)
      | Inr p \<Rightarrow>
          case create_client E (Some p) None of
            Inl e \<Rightarrow> (Inl e, tm, w)
          | Inr client \<Rightarrow>
              let rq = the_request client p system_prompt user_prompt;
                  n = length (asked w);
                  reply = pe_ask E n rq;
                  w = w\<lparr>asked := asked w @ [(rq, reply)]\<rparr>;
                  tm = tm\<lparr>tm_model := Some (rq_model rq)\<rparr>
              in case reply of
                   ApiRaised cls status msg \<Rightarrow> (Inl (client_error cls status msg), tm, w)
                 | ApiAnswer a \<Rightarrow>
                     let tm = tm\<lparr>tm_usage := normal_usage (rq_responses rq) (an_usage a), tm_latency := Some (pe_latency E n)\<rparr>
                     in case content_of (rq_responses rq) a of
                          None \<Rightarrow> (Inl NoChoices, tm, w)
                        | Some t \<Rightarrow> (case extract_json (pe_decode E) t of None \<Rightarrow> (Inl NotJsonText, tm, w) | Some v \<Rightarrow> (Inr v, tm, w)))"

section \<open>The ledger\<close>

fun exc_class :: "ai_exc \<Rightarrow> string" where
  "exc_class (FromClient cls _) = cls"
| "exc_class (RateLimited _) = ''RateLimitError''"
| "exc_class NotJsonText = ''JSONDecodeError''"
| "exc_class NoChoices = ''IndexError''"
| "exc_class (BadCard _) = ''CardValidationError''"
| "exc_class BadBatch = ''BatchValidationError''"
| "exc_class (ClientFailed cls) = cls"
| "exc_class (Raises _) = ''RuntimeError''"

record asker =
  as_kind :: string
  as_user :: "int option"
  as_plan :: "string option"
  as_preset :: "preset_row option"

definition log_llm_request :: "provider_env \<Rightarrow> asker \<Rightarrow> string \<Rightarrow> telemetry \<Rightarrow> string \<Rightarrow> ai_exc option \<Rightarrow> cost_db \<Rightarrow> cost_db" where
  "log_llm_request E q model tm outcome err s =
     (case resolve_costs (map_option (\<lambda>p. (p_in_cost p, p_out_cost p)) (as_preset q)) (pe_profile E) of
        (in_rate, out_rate, toman) \<Rightarrow>
          add_llm_request (pe_clock E) (pe_request_id E (nat (next_llm_id s)))
            \<lparr>c_user = or_else (as_user q) 0, c_plan = (case as_plan q of None \<Rightarrow> ''unknown'' | Some p \<Rightarrow> if p = '''' then ''unknown'' else p),
             c_kind = as_kind q, c_model = model, c_outcome = outcome,
             c_prompt = Option.bind (tm_usage tm) tu_prompt, c_completion = Option.bind (tm_usage tm) tu_completion,
             c_total = Option.bind (tm_usage tm) tu_total, c_in_rate = in_rate, c_out_rate = out_rate, c_toman = toman,
             c_latency = map_option py_round (tm_latency tm), c_error_class = map_option exc_class err,
             c_error_message = map_option (pe_text E) err,
             c_preset = Some (case as_preset q of None \<Rightarrow> ''?'' | Some p \<Rightarrow> p_name p)\<rparr> s)"

type_synonym 'v ask_body = "telemetry \<Rightarrow> asked_world \<Rightarrow> (ai_exc + 'v) \<times> telemetry \<times> asked_world"

text \<open>The row is written whatever the call did; when no model can be named, that error takes the place of the result.
  The write is taken to succeed, requests that the client library repeats inside one call are one call here, and the
  log line of \<open>log_target\<close> is left out.\<close>

definition call_tracked :: "provider_env \<Rightarrow> asker \<Rightarrow> 'v ask_body \<Rightarrow> asked_world \<Rightarrow> (ai_exc + 'v \<times> telemetry) \<times> asked_world" where
  "call_tracked E q body w =
     (case body no_telemetry w of
        (r, tm, w1) \<Rightarrow>
          case (case tm_model tm of
                  Some m \<Rightarrow> if m \<noteq> '''' then Inr m else resolve_model (pe_ai E) (as_preset q)
                | None \<Rightarrow> resolve_model (pe_ai E) (as_preset q)) of
            Inl e \<Rightarrow> (Inl (Raises e), w1)
          | Inr model \<Rightarrow>
              let outcome = (if isl r then (if tm_usage tm \<noteq> None then ''failure_billed'' else ''failure_zero_cost'') else ''success'');
                  err = (case r of Inl e \<Rightarrow> Some e | Inr _ \<Rightarrow> None)
              in (map_sum id (\<lambda>v. (v, tm)) r, w1\<lparr>costs := log_llm_request E q model tm outcome err (costs w1)\<rparr>))"

section \<open>The four questions\<close>

definition checked_body :: "provider_env \<Rightarrow> asker \<Rightarrow> string \<Rightarrow> string \<Rightarrow> (json \<Rightarrow> ai_exc + 'v) \<Rightarrow> 'v ask_body" where
  "checked_body E q system_prompt user_prompt check tm w =
     (case request_json E (as_preset q) system_prompt user_prompt tm w of
        (Inl e, tm, w) \<Rightarrow> (Inl e, tm, w)
      | (Inr j, tm, w) \<Rightarrow> (check j, tm, w))"

definition as_mapping :: "json \<Rightarrow> ai_exc + json_dict" where
  "as_mapping j = (case j of JObj kvs \<Rightarrow> Inr kvs | _ \<Rightarrow> Inl (BadCard NotAnObject))"

definition ask_json :: "provider_env \<Rightarrow> asker \<Rightarrow> string \<Rightarrow> string \<Rightarrow> asked_world \<Rightarrow> (ai_exc + json_dict \<times> telemetry) \<times> asked_world" where
  "ask_json E q system_prompt user_prompt = call_tracked E q (checked_body E q system_prompt user_prompt as_mapping)"

definition as_card :: "provider_env \<Rightarrow> json \<Rightarrow> ai_exc + json_dict" where
  "as_card E j = map_sum BadCard id (validate_card (pe_unicode E) (pe_str E) j)"

definition ask_card :: "provider_env \<Rightarrow> asker \<Rightarrow> string \<Rightarrow> string \<Rightarrow> asked_world \<Rightarrow> (ai_exc + json_dict \<times> telemetry) \<times> asked_world" where
  "ask_card E q system_prompt user_prompt = call_tracked E q (checked_body E q system_prompt user_prompt (as_card E))"

definition as_patch :: "provider_env \<Rightarrow> string list \<Rightarrow> json \<Rightarrow> ai_exc + json_dict" where
  "as_patch E wanted j = map_sum BadCard id (validate_card_patch (pe_unicode E) j wanted)"

definition repair_card ::
    "provider_env \<Rightarrow> asker \<Rightarrow> string \<Rightarrow> string \<Rightarrow> string list \<Rightarrow> asked_world \<Rightarrow> (ai_exc + json_dict \<times> telemetry) \<times> asked_world" where
  "repair_card E q repair_prompt patch_request wanted =
     call_tracked E q (checked_body E q repair_prompt patch_request (as_patch E wanted))"

definition no_stats :: batch_stats where
  "no_stats = \<lparr>received = 0, accepted = 0, validation_rejected = 0, duplicates = 0, against_avoid = 0, within_batch = 0, avoid_words = 0\<rparr>"

definition as_batch :: "provider_env \<Rightarrow> int \<Rightarrow> string list \<Rightarrow> json \<Rightarrow> ai_exc + json_dict list" where
  "as_batch E expected used_words j =
     (case validate_batch (pe_unicode E) (pe_str E) j expected used_words no_stats (\<lambda>_. 0) of
        None \<Rightarrow> Inl BadBatch
      | Some (cards, _, _) \<Rightarrow> if cards = [] then Inl BadBatch else Inr cards)"

definition ask_batch ::
    "provider_env \<Rightarrow> asker \<Rightarrow> string \<Rightarrow> string \<Rightarrow> int \<Rightarrow> string list \<Rightarrow> asked_world \<Rightarrow> (ai_exc + json_dict list \<times> telemetry) \<times> asked_world" where
  "ask_batch E q system_prompt make_it expected used_words =
     call_tracked E q (checked_body E q system_prompt make_it (as_batch E expected used_words))"

section \<open>Every question is recorded\<close>

lemma request_json_outcome:
  assumes "request_json E (Some p) sp up no_telemetry w = (r, tm, w1)"
  shows "costs w1 = costs w \<and> tm_model tm \<in> {None, Some (model_of p)} \<and>
     ((asked w1 = asked w \<and> isl r \<and> tm = no_telemetry) \<or>
      (\<exists>rq. rq_model rq = model_of p \<and> rq_system rq = sp \<and> rq_user rq = up \<and>
         rq_key rq = resolve_preset_key (pe_keys E) (pe_ai E) p \<and> rq_base rq = normalize_base_url (p_base_url p) \<and>
         asked w1 = asked w @ [(rq, pe_ask E (length (asked w)) rq)] \<and>
         tm_usage tm = (case pe_ask E (length (asked w)) rq of ApiRaised _ _ _ \<Rightarrow> None | ApiAnswer a \<Rightarrow> normal_usage (rq_responses rq) (an_usage a)) \<and>
         (\<forall>v. r = Inr v \<longrightarrow> (\<exists>a t. pe_ask E (length (asked w)) rq = ApiAnswer a \<and> content_of (rq_responses rq) a = Some t \<and>
            extract_json (pe_decode E) t = Some v))))"
proof (cases "create_client E (Some p) None")
  case (Inl e)
  then show ?thesis using assms by (auto simp: request_json_def no_telemetry_def)
next
  case (Inr client)
  then have client: "client = (normalize_base_url (p_base_url p), resolve_preset_key (pe_keys E) (pe_ai E) p, p_timeout p)"
    by (auto simp: create_client_def Let_def split: if_splits)
  let ?rq = "the_request client p sp up"
  have rq: "rq_model ?rq = model_of p" "rq_system ?rq = sp" "rq_user ?rq = up"
    "rq_key ?rq = resolve_preset_key (pe_keys E) (pe_ai E) p" "rq_base ?rq = normalize_base_url (p_base_url p)"
    by (simp_all add: the_request_def Let_def client)
  show ?thesis
  proof (cases "pe_ask E (length (asked w)) ?rq")
    case (ApiRaised cls status msg)
    then have "r = Inl (client_error cls status msg)" "tm = no_telemetry\<lparr>tm_model := Some (model_of p)\<rparr>"
      "w1 = w\<lparr>asked := asked w @ [(?rq, ApiRaised cls status msg)]\<rparr>"
      using assms Inr rq(1) by (simp_all add: request_json_def Let_def)
    then show ?thesis using ApiRaised rq by (auto simp: no_telemetry_def intro!: exI [of _ ?rq])
  next
    case (ApiAnswer a)
    have out: "w1 = w\<lparr>asked := asked w @ [(?rq, ApiAnswer a)]\<rparr>" "tm_model tm = Some (model_of p)"
      "tm_usage tm = normal_usage (rq_responses ?rq) (an_usage a)"
      "\<forall>v. r = Inr v \<longrightarrow> (\<exists>t. content_of (rq_responses ?rq) a = Some t \<and> extract_json (pe_decode E) t = Some v)"
      using assms Inr ApiAnswer rq(1) by (auto simp: request_json_def Let_def split: option.splits)
    then show ?thesis using ApiAnswer rq by (auto intro!: exI [of _ ?rq])
  qed
qed

definition outcome_text :: "bool \<Rightarrow> bool \<Rightarrow> string" where
  "outcome_text ok used = (if ok then ''success'' else if used then ''failure_billed'' else ''failure_zero_cost'')"

definition charged_usage :: "(model_request \<times> api_reply) list \<Rightarrow> token_usage option" where
  "charged_usage asks =
     (case asks of [(rq, ApiAnswer a)] \<Rightarrow> normal_usage (rq_responses rq) (an_usage a) | _ \<Rightarrow> None)"

lemma logged_row:
  assumes "as_preset q = Some p"
  shows "\<exists>row. llm (log_llm_request E q model tm outcome err s) = llm s @ [row] \<and> lq_preset row = Some (p_name p) \<and>
     lq_model row = model \<and> lq_kind row = as_kind q \<and> lq_outcome row = outcome \<and>
     lq_prompt row = Some (or_else (Option.bind (tm_usage tm) tu_prompt) 0) \<and>
     lq_completion row = Some (or_else (Option.bind (tm_usage tm) tu_completion) 0) \<and>
     lq_in_rate row = or_else (p_in_cost p) (cp_input (pe_profile E)) \<and> lq_out_rate row = or_else (p_out_cost p) (cp_output (pe_profile E))"
  unfolding log_llm_request_def resolve_costs_def add_llm_request_def Let_def assms
  by (simp add: or_else_def)

text \<open>C15: no question to a language model escapes the ledger. Whatever check follows and however the question ends, the provider is asked
  at most once, with the model and the key of the preset, and exactly one row is added: it names the preset and its model, it is a
  success exactly when a value is returned, a failure that was billed exactly when the provider reported its tokens before
  the answer was found wanting, and free otherwise; its tokens are those reported, and its prices are those of the preset and otherwise
  those of the global profile.\<close>

theorem every_question_is_recorded:
  assumes "as_preset q = Some p" and "call_tracked E q (checked_body E q sp up check) w = (res, w')"
  shows "\<exists>asks row. asked w' = asked w @ asks \<and> length asks \<le> 1 \<and>
     (\<forall>(rq, reply) \<in> set asks. reply = pe_ask E (length (asked w)) rq \<and> rq_model rq = model_of p \<and> rq_system rq = sp \<and> rq_user rq = up \<and>
        rq_key rq = resolve_preset_key (pe_keys E) (pe_ai E) p) \<and>
     llm (costs w') = llm (costs w) @ [row] \<and> lq_preset row = Some (p_name p) \<and> lq_model row = model_of p \<and> lq_kind row = as_kind q \<and>
     lq_outcome row = outcome_text (\<not> isl res) (charged_usage asks \<noteq> None) \<and>
     lq_prompt row = Some (or_else (Option.bind (charged_usage asks) tu_prompt) 0) \<and>
     lq_completion row = Some (or_else (Option.bind (charged_usage asks) tu_completion) 0) \<and>
     lq_in_rate row = or_else (p_in_cost p) (cp_input (pe_profile E)) \<and> lq_out_rate row = or_else (p_out_cost p) (cp_output (pe_profile E))"
proof -
  obtain r tm w1 where req: "request_json E (Some p) sp up no_telemetry w = (r, tm, w1)" by (metis prod_cases3)
  let ?v = "case r of Inl e \<Rightarrow> Inl e | Inr j \<Rightarrow> check j"
  have body: "checked_body E q sp up check no_telemetry w = (?v, tm, w1)"
    using req assms(1) by (simp add: checked_body_def split: sum.splits)
  from request_json_outcome [OF req] have out: "costs w1 = costs w" "tm_model tm \<in> {None, Some (model_of p)}" by blast+
  have model: "(case tm_model tm of Some m \<Rightarrow> if m \<noteq> '''' then Inr m else resolve_model (pe_ai E) (as_preset q)
      | None \<Rightarrow> resolve_model (pe_ai E) (as_preset q)) = Inr (model_of p)"
    using out(2) by (auto simp: resolve_model_def assms(1))
  let ?outcome = "if isl ?v then (if tm_usage tm \<noteq> None then ''failure_billed'' else ''failure_zero_cost'') else ''success''"
  let ?err = "case ?v of Inl e \<Rightarrow> Some e | Inr _ \<Rightarrow> None"
  have run: "res = map_sum id (\<lambda>v. (v, tm)) ?v" "w' = w1\<lparr>costs := log_llm_request E q (model_of p) tm ?outcome ?err (costs w1)\<rparr>"
    using assms(2) by (simp_all add: call_tracked_def body model)
  obtain asks where asks: "asked w1 = asked w @ asks" "length asks \<le> 1" "charged_usage asks = tm_usage tm"
    "\<forall>(rq, reply) \<in> set asks. reply = pe_ask E (length (asked w)) rq \<and> rq_model rq = model_of p \<and> rq_system rq = sp \<and> rq_user rq = up \<and>
        rq_key rq = resolve_preset_key (pe_keys E) (pe_ai E) p"
  proof -
    from request_json_outcome [OF req] consider "asked w1 = asked w" "tm = no_telemetry"
      | rq where "rq_model rq = model_of p" "rq_system rq = sp" "rq_user rq = up" "rq_key rq = resolve_preset_key (pe_keys E) (pe_ai E) p"
          "asked w1 = asked w @ [(rq, pe_ask E (length (asked w)) rq)]"
          "tm_usage tm = (case pe_ask E (length (asked w)) rq of ApiRaised _ _ _ \<Rightarrow> None | ApiAnswer a \<Rightarrow> normal_usage (rq_responses rq) (an_usage a))"
      by (elim conjE disjE exE) (rule that; assumption)+
    then show ?thesis
    proof cases
      case 1
      then show ?thesis by (intro that [of "[]"]) (simp_all add: charged_usage_def no_telemetry_def)
    next
      case 2
      then show ?thesis by (intro that) (auto simp: charged_usage_def split: api_reply.splits)
    qed
  qed
  have ok: "isl res = isl ?v" using run(1) by (cases ?v) auto
  have outcome: "?outcome = outcome_text (\<not> isl res) (charged_usage asks \<noteq> None)" by (simp add: outcome_text_def ok asks(3))
  from logged_row [OF assms(1)] obtain row where
    "llm (log_llm_request E q (model_of p) tm ?outcome ?err (costs w1)) = llm (costs w1) @ [row]" "lq_preset row = Some (p_name p)"
    "lq_model row = model_of p" "lq_kind row = as_kind q" "lq_outcome row = ?outcome"
    "lq_prompt row = Some (or_else (Option.bind (tm_usage tm) tu_prompt) 0)"
    "lq_completion row = Some (or_else (Option.bind (tm_usage tm) tu_completion) 0)"
    "lq_in_rate row = or_else (p_in_cost p) (cp_input (pe_profile E))" "lq_out_rate row = or_else (p_out_cost p) (cp_output (pe_profile E))"
    by blast
  then show ?thesis
    using asks outcome by (intro exI [of _ asks] exI [of _ row]) (simp add: run(2) out(1))
qed

section \<open>What an answer must be\<close>

text \<open>Only a checked card is ever returned. When \<open>ask_card\<close> returns a card, the provider answered the one request, the card is what the
  validation makes of the JSON in the answer, and the row of the call is a success.\<close>

theorem asked_card_is_checked:
  assumes "ask_card E q sp up w = (Inr (c, tm), w')" and "as_preset q = Some p"
  shows "\<exists>rq a t j. asked w' = asked w @ [(rq, ApiAnswer a)] \<and> content_of (rq_responses rq) a = Some t \<and>
     extract_json (pe_decode E) t = Some j \<and> validate_card (pe_unicode E) (pe_str E) j = Inr c \<and>
     lq_outcome (last (llm (costs w'))) = ''success''"
proof -
  obtain r tm' w1 where req: "request_json E (Some p) sp up no_telemetry w = (r, tm', w1)" by (metis prod_cases3)
  let ?v = "case r of Inl e \<Rightarrow> Inl e | Inr j \<Rightarrow> as_card E j"
  have body: "checked_body E q sp up (as_card E) no_telemetry w = (?v, tm', w1)"
    using req assms(2) by (simp add: checked_body_def split: sum.splits)
  obtain model where model: "?v = Inr c" "asked w' = asked w1"
    "costs w' = log_llm_request E q model tm' ''success'' None (costs w1)"
    using assms(1) by (auto simp: ask_card_def call_tracked_def body Let_def split: sum.splits)
  then obtain j where j: "r = Inr j" "validate_card (pe_unicode E) (pe_str E) j = Inr c"
    by (cases r) (auto simp: as_card_def map_sum_Inr_iff split: sum.splits)
  from request_json_outcome [OF req] j(1) obtain rq a t where
    "asked w1 = asked w @ [(rq, ApiAnswer a)]" "content_of (rq_responses rq) a = Some t" "extract_json (pe_decode E) t = Some j"
    by auto
  moreover from logged_row [OF assms(2)] obtain row where "llm (costs w') = llm (costs w1) @ [row]" "lq_outcome row = ''success''"
    unfolding model(3) by blast
  ultimately show ?thesis using j(2) model(2) by auto
qed

section \<open>Fenced answers\<close>

lemma drop_fences_body:
  assumes "CHR ''`'' \<notin> set t" and "t \<noteq> []" and "\<not> is_space (last t)"
  shows "drop_fences bol (t @ line_end # fence) = t"
  using assms
proof (induction t arbitrary: bol)
  case (Cons c t)
  let ?r = "c # t @ line_end # fence"
  have no_fence: "\<not> prefix fence ?r" using Cons.prems(1) by (auto simp: fence_def)
  have "\<exists>x xs. dropWhile is_space ?r = x # xs \<and> x \<in> set (c # t)"
  proof -
    have "last (c # t) \<in> set (c # t)" by (rule last_in_set) simp
    then have "dropWhile is_space ((c # t) @ line_end # fence) = dropWhile is_space (c # t) @ line_end # fence"
      using Cons.prems(3) by (intro dropWhile_append1)
    moreover have "dropWhile is_space (c # t) \<noteq> []" using Cons.prems(3) \<open>last (c # t) \<in> set (c # t)\<close> by (auto simp del: dropWhile.simps simp: dropWhile_eq_Nil_conv)
    moreover have "set (dropWhile is_space (c # t)) \<subseteq> set (c # t)" by (metis set_dropWhileD subsetI)
    ultimately show ?thesis by (cases "dropWhile is_space (c # t)") auto
  qed
  then have "\<not> prefix fence (dropWhile is_space ?r)" using Cons.prems(1) by (auto simp: fence_def)
  then have step: "drop_fences bol ?r = c # drop_fences (c = line_end) (t @ line_end # fence)"
    using no_fence by (subst drop_fences.simps) (simp add: Let_def)
  show ?case
  proof (cases "t = []")
    case True
    have "is_space line_end" by (simp add: is_space_def)
    then have "drop_fences (c = line_end) (line_end # fence) = []"
      by (subst drop_fences.simps) (simp add: fence_def is_space_def drop_fences.simps [of False "[]"])
    then show ?thesis using step True by simp
  next
    case False
    then show ?thesis using step Cons.IH Cons.prems by simp
  qed
qed simp

lemma strip_both:
  assumes "t \<noteq> []" and "\<not> is_space (hd t)" and "\<not> is_space (last t)"
  shows "strip t = t"
proof -
  have front: "dropWhile is_space t = t" using assms(1,2) by (cases t) auto
  have "dropWhile is_space (rev t) = rev t" using assms(1,3) by (cases t rule: rev_cases) auto
  then show ?thesis by (simp add: strip_def front)
qed

text \<open>An answer in a code fence is read like the bare answer. Text before the JSON that has no bracket is skipped, so that the first value
  the answer contains is the one that is used.\<close>

theorem fenced_answer_reads_the_same:
  assumes "CHR ''`'' \<notin> set body" and "body \<noteq> []" and "\<not> is_space (hd body)" and "\<not> is_space (last body)"
    and "set before \<inter> {CHR ''['', CHR ''{''} = {}"
  shows "extract_json decode (fence @ ''json'' @ line_end # body @ line_end # fence) = first_value decode body \<and>
     first_value decode (before @ body) = first_value decode body"
proof
  let ?t = "fence @ ''json'' @ line_end # body @ line_end # fence"
  have "strip ?t = ?t" by (rule strip_both) (simp_all add: fence_def is_space_def)
  moreover have "drop_fences True ?t = drop_fences True (body @ line_end # fence)"
  proof -
    have "takeWhile is_space (body @ line_end # fence) = []" using assms(2,3) by (cases body) auto
    then show ?thesis by (subst drop_fences.simps) (simp add: fence_def is_space_def Let_def)
  qed
  ultimately show "extract_json decode ?t = first_value decode body"
    using drop_fences_body [OF assms(1,2,4)] strip_both [OF assms(2-4)] by (simp add: extract_json_def)
  show "first_value decode (before @ body) = first_value decode body" using assms(5) by (induction before) auto
qed

section \<open>Concrete questions\<close>

definition calm_provider :: "api_reply \<Rightarrow> provider_env" where
  "calm_provider reply = \<lparr>pe_keys = \<lparr>ke_fernet = None, ke_getenv = (\<lambda>_. None)\<rparr>, pe_ai = three_presets, pe_proxy = NoProxy, pe_strict = False,
     pe_ask = (\<lambda>_ _. reply), pe_latency = (\<lambda>_. 3 / 2), pe_decode = (\<lambda>t. if t = ''{}'' then Some (JObj (raw_card ''hi'')) else None),
     pe_unicode = plain_unicode, pe_str = (\<lambda>_. ''''), pe_text = (\<lambda>_. ''failed''),
     pe_profile = \<lparr>cp_input = 2, cp_output = 4, cp_rate = 100\<rparr>, pe_clock = clock_on (2026, 1, 1), pe_request_id = (\<lambda>_. ''r'')\<rparr>"

definition answer_with :: "string \<Rightarrow> api_reply" where
  "answer_with t = ApiAnswer \<lparr>an_usage = Some \<lparr>tu_prompt = Some 10, tu_completion = Some 20, tu_total = Some 30\<rparr>, an_choices = [Some t],
     an_output_text = None, an_first_text = None\<rparr>"

definition card_asker :: asker where
  "card_asker = \<lparr>as_kind = ''card'', as_user = Some 7, as_plan = None, as_preset = Some (sample_preset ''a'' 0 1)\<rparr>"

definition unasked :: asked_world where
  "unasked = \<lparr>asked = [], costs = empty_costs\<rparr>"

lemma calm_request:
  "is_responses_preset (Some (sample_preset ''a'' 0 1)) (Some '''') = False" "model_of (sample_preset ''a'' 0 1) = ''''"
  by code_simp+

lemma calm_request_json:
  "request_json (calm_provider (answer_with t)) (Some (sample_preset ''a'' 0 1)) sp up no_telemetry unasked =
     (let rq = the_request (normalize_base_url '''', resolve_preset_key (pe_keys (calm_provider (answer_with t))) three_presets (sample_preset ''a'' 0 1), 30)
            (sample_preset ''a'' 0 1) sp up;
          tm = \<lparr>tm_model = Some '''', tm_usage = Some \<lparr>tu_prompt = Some 10, tu_completion = Some 20, tu_total = Some 30\<rparr>, tm_latency = Some (3 / 2)\<rparr>
      in (case extract_json (pe_decode (calm_provider (answer_with t))) t of None \<Rightarrow> Inl NotJsonText | Some v \<Rightarrow> Inr v, tm,
          unasked\<lparr>asked := [(rq, answer_with t)]\<rparr>))"
proof -
  let ?E = "calm_provider (answer_with t)" and ?p = "sample_preset ''a'' 0 1"
  have client: "create_client ?E (Some ?p) None = Inr (normalize_base_url '''', resolve_preset_key (pe_keys ?E) three_presets ?p, 30)"
    by (simp add: create_client_def calm_provider_def sample_preset_def Let_def)
  show ?thesis
    by (cases "extract_json (pe_decode ?E) t")
      (simp_all add: request_json_def client Let_def the_request_def calm_request, simp_all add: calm_provider_def answer_with_def unasked_def
        no_telemetry_def content_of_def normal_usage_def)
qed

text \<open>A paid answer that is no card.\<close>

theorem every_question_is_recorded_witness:
  "\<exists>w' row. ask_card (calm_provider (answer_with ''oh no'')) card_asker ''s'' ''u'' unasked = (Inl NotJsonText, w') \<and>
     llm (costs w') = [row] \<and> lq_outcome row = ''failure_billed'' \<and> lq_prompt row = Some 10 \<and> lq_in_rate row = 2"
proof -
  let ?E = "calm_provider (answer_with ''oh no'')"
  have none: "extract_json (pe_decode ?E) ''oh no'' = None" by (simp add: calm_provider_def) code_simp
  have preset: "as_preset card_asker = Some (sample_preset ''a'' 0 1)" by (simp add: card_asker_def)
  obtain w' where run: "ask_card ?E card_asker ''s'' ''u'' unasked = (Inl NotJsonText, w')"
    and log: "\<exists>rq. rq_responses rq = False \<and> asked w' = [(rq, answer_with ''oh no'')]"
    by (simp add: ask_card_def call_tracked_def checked_body_def preset calm_request_json none Let_def resolve_model_def calm_request
        the_request_def)
  from every_question_is_recorded [OF preset run [unfolded ask_card_def]] obtain asks row where
    t: "asked w' = asked unasked @ asks" "llm (costs w') = llm (costs unasked) @ [row]"
      "lq_outcome row = outcome_text False (charged_usage asks \<noteq> None)" "lq_prompt row = Some (or_else (Option.bind (charged_usage asks) tu_prompt) 0)"
      "lq_in_rate row = or_else (p_in_cost (sample_preset ''a'' 0 1)) (cp_input (pe_profile ?E))" by auto
  have "charged_usage asks = Some \<lparr>tu_prompt = Some 10, tu_completion = Some 20, tu_total = Some 30\<rparr>"
    using log t(1) by (auto simp: unasked_def charged_usage_def answer_with_def normal_usage_def)
  then show ?thesis
    using run t by (simp add: outcome_text_def unasked_def empty_costs_def sample_preset_def calm_provider_def)
qed

theorem asked_card_is_checked_witness:
  "\<exists>tm w'. ask_card (calm_provider (answer_with ''{}'')) card_asker ''s'' ''u'' unasked = (Inr (good_card, tm), w') \<and>
     lq_outcome (last (llm (costs w'))) = ''success''"
proof -
  let ?E = "calm_provider (answer_with ''{}'')"
  have some: "extract_json (pe_decode ?E) ''{}'' = Some (JObj (raw_card ''hi''))"
  proof -
    have "strip (drop_fences True (strip ''{}'')) = ''{}''" by code_simp
    then show ?thesis by (simp add: extract_json_def calm_provider_def)
  qed
  have preset: "as_preset card_asker = Some (sample_preset ''a'' 0 1)" by (simp add: card_asker_def)
  have good: "as_card ?E (JObj (raw_card ''hi'')) = Inr good_card"
    unfolding as_card_def using raw_card_validates by (simp add: calm_provider_def)
  obtain tm w' where run: "ask_card ?E card_asker ''s'' ''u'' unasked = (Inr (good_card, tm), w')"
    by (simp add: ask_card_def call_tracked_def checked_body_def preset calm_request_json some good Let_def resolve_model_def calm_request)
  from asked_card_is_checked [OF run preset] run show ?thesis by blast
qed

theorem fenced_answer_reads_the_same_witness:
  "extract_json (\<lambda>t. if t = ''{}'' then Some (JObj []) else None) (fence @ ''json'' @ line_end # ''{}'' @ line_end # fence) = Some (JObj [])"
proof -
  have "CHR ''`'' \<notin> set ''{}''" "''{}'' \<noteq> ''''" "\<not> is_space (hd ''{}'')" "\<not> is_space (last ''{}'')" "set '''' \<inter> {CHR ''['', CHR ''{''} = {}"
    by (simp_all add: is_space_def)
  from fenced_answer_reads_the_same [OF this, of "\<lambda>t. if t = ''{}'' then Some (JObj []) else None"] show ?thesis by simp
qed

end
