(* ===== verification/Toggles.thy ===== *)
theory Toggles imports Users "HOL-Library.AList" begin

text \<open>
  What a learner sees of a card: the display toggles of \<open>services/db/display_toggles.py\<close> with the registry of
  \<open>config/catalog_toggles.py\<close>. The global defaults are a setting and the choices of a user two columns of the users
  table, each the text of a JSON value, or absent.
\<close>

section \<open>State\<close>

definition DISPLAY_TOGGLE_FIELDS :: "string list" where
  "DISPLAY_TOGGLE_FIELDS = [''explanation'', ''synonyms'', ''antonyms'', ''examples'', ''example_translations'', ''grammar_tip'']"

definition DISPLAY_TOGGLE_DEFAULTS :: "(string \<times> bool) list" where
  "DISPLAY_TOGGLE_DEFAULTS = map (\<lambda>f. (f, True)) DISPLAY_TOGGLE_FIELDS"

record toggle_row =
  tg_user :: int
  tg_own :: "json_text option"
  tg_forced :: "json_text option"

record toggle_db =
  tg_global :: "json_text option"
  tg_rows :: "toggle_row list"

type_synonym toggles = "(string \<times> bool) list"

section \<open>Reading\<close>

definition as_bool :: "json \<Rightarrow> bool" where
  "as_bool v = (case v of JStr s \<Rightarrow> map lower_char (strip s) \<in> {''1'', ''true'', ''yes'', ''on''} | _ \<Rightarrow> truthy v)"

definition known :: "string \<Rightarrow> bool" where
  "known f \<longleftrightarrow> f \<in> set DISPLAY_TOGGLE_FIELDS"

text \<open>\<open>json.loads\<close> of a missing or an empty text is not tried.\<close>

definition decode_toggles :: "json_text option \<Rightarrow> toggles" where
  "decode_toggles raw =
     (case raw of
        Some (JsonText (JObj kvs)) \<Rightarrow> map (\<lambda>(k, v). (k, as_bool v)) (filter (\<lambda>(k, v). known k) kvs)
      | _ \<Rightarrow> [])"

definition put_all :: "toggles \<Rightarrow> toggles \<Rightarrow> toggles" where
  "put_all base new = fold (\<lambda>(k, b) d. AList.update k b d) new base"

definition get_global_defaults :: "toggle_db \<Rightarrow> toggles" where
  "get_global_defaults s =
     (case tg_global s of
        Some (JsonText (JObj kvs)) \<Rightarrow>
          put_all DISPLAY_TOGGLE_DEFAULTS (map (\<lambda>(k, v). (k, truthy v)) (filter (\<lambda>(k, v). known k) kvs))
      | _ \<Rightarrow> DISPLAY_TOGGLE_DEFAULTS)"

definition get_toggle_row :: "toggle_db \<Rightarrow> int \<Rightarrow> toggle_row option" where
  "get_toggle_row s uid = find (\<lambda>r. tg_user r = uid) (tg_rows s)"

definition get_effective :: "toggle_db \<Rightarrow> int \<Rightarrow> toggles" where
  "get_effective s uid =
     (let base = get_global_defaults s;
          effective = (case get_toggle_row s uid of
              None \<Rightarrow> base
            | Some r \<Rightarrow> put_all (put_all base (decode_toggles (tg_own r))) (decode_toggles (tg_forced r)))
      in map (\<lambda>f. (f, or_else (map_of effective f) (or_else (map_of DISPLAY_TOGGLE_DEFAULTS f) True))) DISPLAY_TOGGLE_FIELDS)"

section \<open>Writing\<close>

definition dump_toggles :: "toggles \<Rightarrow> json_text" where
  "dump_toggles d = JsonText (JObj (map (\<lambda>(k, b). (k, JBool b)) d))"

definition set_global_defaults :: "(string \<times> json) list \<Rightarrow> toggle_db \<Rightarrow> toggle_db py" where
  "set_global_defaults values s =
     (if list_ex (\<lambda>(k, v). \<not> known k) values then Inl ValueError
      else Inr (s\<lparr>tg_global := Some (dump_toggles (put_all (get_global_defaults s) (map (\<lambda>(k, v). (k, truthy v)) values)))\<rparr>))"

definition set_user_toggle :: "int \<Rightarrow> string \<Rightarrow> json \<Rightarrow> toggle_db \<Rightarrow> toggle_db py" where
  "set_user_toggle uid f enabled s =
     (if \<not> known f then Inl ValueError
      else let current = (case get_toggle_row s uid of Some r \<Rightarrow> decode_toggles (tg_own r) | None \<Rightarrow> []);
               text_new = dump_toggles (AList.update f (as_bool enabled) current)
           in Inr (s\<lparr>tg_rows := update_where (\<lambda>r. tg_user r = uid) (\<lambda>r. r\<lparr>tg_own := Some text_new\<rparr>) (tg_rows s)\<rparr>))"

definition set_forced :: "int \<Rightarrow> string \<Rightarrow> json \<Rightarrow> toggle_db \<Rightarrow> toggle_db py" where
  "set_forced uid f enabled s =
     (if \<not> known f then Inl ValueError
      else let current = (case get_toggle_row s uid of Some r \<Rightarrow> decode_toggles (tg_forced r) | None \<Rightarrow> []);
               text_new = dump_toggles (AList.update f (as_bool enabled) current)
           in Inr (s\<lparr>tg_rows := update_where (\<lambda>r. tg_user r = uid) (\<lambda>r. r\<lparr>tg_forced := Some text_new\<rparr>) (tg_rows s)\<rparr>))"

section \<open>Layers\<close>

text \<open>
  The specification: for each field the first layer that says something. A dictionary has one entry for a key.
\<close>

definition layer :: "toggles \<Rightarrow> string \<Rightarrow> bool option" where
  "layer d f = map_of d f"

definition dictionary :: "json_text option \<Rightarrow> bool" where
  "dictionary raw = (case raw of Some (JsonText (JObj kvs)) \<Rightarrow> distinct (map fst kvs) | _ \<Rightarrow> True)"

definition layered :: "bool option list \<Rightarrow> bool" where
  "layered ls = (case find (\<lambda>l. l \<noteq> None) ls of Some (Some b) \<Rightarrow> b | _ \<Rightarrow> True)"

definition global_layer :: "toggle_db \<Rightarrow> string \<Rightarrow> bool option" where
  "global_layer s f =
     (case tg_global s of Some (JsonText (JObj kvs)) \<Rightarrow> map_option truthy (map_of kvs f) | _ \<Rightarrow> None)"

lemma map_of_update: "map_of (AList.update k v d) f = (if f = k then Some v else map_of d f)"
  by (simp add: update_conv')

lemma map_of_put_all:
  "distinct (map fst new) \<Longrightarrow> map_of (put_all base new) f = (case map_of new f of Some b \<Rightarrow> Some b | None \<Rightarrow> map_of base f)"
proof (induction new arbitrary: base)
  case (Cons a new)
  then show ?case by (cases a) (auto simp: put_all_def map_of_update map_of_eq_None_iff [symmetric] rev_image_eqI split: option.splits)
qed (simp add: put_all_def)

lemma map_of_known:
  "known f \<Longrightarrow> map_of (map (\<lambda>(k, v). (k, g v)) (filter (\<lambda>(k, v). known k) kvs)) f = map_option g (map_of kvs f)"
  by (induction kvs) auto

lemma distinct_known:
  assumes "distinct (map fst kvs)"
  shows "distinct (map fst (map (\<lambda>(k, v). (k, g v)) (filter (\<lambda>(k, v). known k) kvs)))"
proof -
  have "map fst (map (\<lambda>(k, v). (k, g v)) (filter (\<lambda>(k, v). known k) kvs)) = filter known (map fst kvs)"
    by (induction kvs) auto
  then show ?thesis using assms by simp
qed

lemma decode_distinct: "dictionary raw \<Longrightarrow> distinct (map fst (decode_toggles raw))"
  using distinct_known [of _ as_bool] by (auto simp: dictionary_def decode_toggles_def split: option.splits json_text.splits json.splits)

lemma map_of_defaults: "known f \<Longrightarrow> map_of DISPLAY_TOGGLE_DEFAULTS f = Some True"
  by (simp add: DISPLAY_TOGGLE_DEFAULTS_def known_def map_of_map_restrict restrict_map_def)

lemma global_effective:
  assumes "known f" and "dictionary (tg_global s)"
  shows "map_of (get_global_defaults s) f = Some (layered [global_layer s f])"
proof (cases "\<exists>kvs. tg_global s = Some (JsonText (JObj kvs))")
  case True
  then obtain kvs where kvs: "tg_global s = Some (JsonText (JObj kvs))" by blast
  then have "distinct (map fst kvs)" using assms(2) by (simp add: dictionary_def)
  from map_of_put_all [OF distinct_known [OF this, of truthy], of DISPLAY_TOGGLE_DEFAULTS f]
  show ?thesis
    using kvs assms(1) by (cases "map_of kvs f") (simp_all add: get_global_defaults_def global_layer_def map_of_known map_of_defaults layered_def)
next
  case False
  then show ?thesis
    using assms(1) by (auto simp: get_global_defaults_def global_layer_def map_of_defaults layered_def split: option.splits json_text.splits json.splits)
qed

definition own_layer :: "toggle_db \<Rightarrow> int \<Rightarrow> string \<Rightarrow> bool option" where
  "own_layer s uid f = (case get_toggle_row s uid of None \<Rightarrow> None | Some r \<Rightarrow> map_of (decode_toggles (tg_own r)) f)"

definition forced_layer :: "toggle_db \<Rightarrow> int \<Rightarrow> string \<Rightarrow> bool option" where
  "forced_layer s uid f = (case get_toggle_row s uid of None \<Rightarrow> None | Some r \<Rightarrow> map_of (decode_toggles (tg_forced r)) f)"

text \<open>Texts that \<open>json.loads\<close> reads have one entry for a key.\<close>

definition toggles_ok :: "toggle_db \<Rightarrow> bool" where
  "toggles_ok s \<longleftrightarrow> dictionary (tg_global s) \<and> (\<forall>r \<in> set (tg_rows s). dictionary (tg_own r) \<and> dictionary (tg_forced r))"

definition effective_toggle :: "toggle_db \<Rightarrow> int \<Rightarrow> string \<Rightarrow> bool" where
  "effective_toggle s uid f = layered [forced_layer s uid f, own_layer s uid f, global_layer s f]"

text \<open>What a learner sees is decided in four layers. The toggles of a user are exactly the six of the registry, in its order, and each has the value
  that an administrator forced on the user, or else the user's own, or else the global one, or else the built-in \<open>True\<close>,
  whatever texts are stored; a user who is not in the table gets the global toggles.\<close>

theorem toggles_resolve_in_layers:
  assumes "toggles_ok s"
  shows "get_effective s uid = map (\<lambda>f. (f, effective_toggle s uid f)) DISPLAY_TOGGLE_FIELDS"
proof -
  have "or_else (map_of eff f) (or_else (map_of DISPLAY_TOGGLE_DEFAULTS f) True) = effective_toggle s uid f"
    if f: "f \<in> set DISPLAY_TOGGLE_FIELDS"
      and eff: "eff = (case get_toggle_row s uid of None \<Rightarrow> get_global_defaults s
              | Some r \<Rightarrow> put_all (put_all (get_global_defaults s) (decode_toggles (tg_own r))) (decode_toggles (tg_forced r)))" for f eff
  proof -
    have base: "map_of (get_global_defaults s) f = Some (layered [global_layer s f])"
      using assms f by (intro global_effective) (simp_all add: toggles_ok_def known_def)
    show ?thesis
    proof (cases "get_toggle_row s uid")
      case None
      then show ?thesis using base by (simp add: eff effective_toggle_def forced_layer_def own_layer_def layered_def)
    next
      case (Some r)
      then have "r \<in> set (tg_rows s)" by (auto simp: get_toggle_row_def dest: find_Some_D)
      then have d: "distinct (map fst (decode_toggles (tg_own r)))" "distinct (map fst (decode_toggles (tg_forced r)))"
        using assms decode_distinct by (auto simp: toggles_ok_def)
      show ?thesis
        using base Some by (auto simp: eff map_of_put_all d effective_toggle_def forced_layer_def own_layer_def layered_def split: option.splits)
    qed
  qed
  then show ?thesis by (simp add: get_effective_def Let_def)
qed

section \<open>A choice takes effect\<close>

lemma decode_dump: "list_all (\<lambda>(k, b). known k) d \<Longrightarrow> decode_toggles (Some (dump_toggles d)) = d"
  by (induction d) (auto simp: decode_toggles_def dump_toggles_def as_bool_def)

lemma decode_known: "list_all (\<lambda>(k, b). known k) (decode_toggles raw)"
  by (auto simp: decode_toggles_def list_all_iff split: option.splits json_text.splits json.splits)

lemma known_update: "list_all (\<lambda>(k, b). known k) d \<Longrightarrow> known f \<Longrightarrow> list_all (\<lambda>(k, b). known k) (AList.update f v d)"
  by (induction d) auto

lemma dictionary_dump: "distinct (map fst d) \<Longrightarrow> dictionary (Some (dump_toggles d))"
proof -
  assume d: "distinct (map fst d)"
  have "map fst (map (\<lambda>(k, b). (k, JBool b)) d) = map fst d" by (induction d) auto
  then have "distinct (map fst (map (\<lambda>(k, b). (k, JBool b)) d))" using d by argo
  then show ?thesis unfolding dictionary_def dump_toggles_def by (simp del: map_map)
qed

lemma distinct_decode: "dictionary raw \<Longrightarrow> distinct (map fst (AList.update f v (decode_toggles raw)))"
  by (simp add: distinct_update decode_distinct)

lemma layered_own: "layered [a, Some b, c] = (case a of Some x \<Rightarrow> x | None \<Rightarrow> b)"
  by (simp add: layered_def split: option.splits)

text \<open>What the screens read is \<open>get_effective\<close>; after a change it still resolves the layers.\<close>

lemma map_of_fields: "map_of (map (\<lambda>f. (f, h f)) fs) f = (if f \<in> set fs then Some (h f) else None)"
  by (induction fs) auto

lemma effective_value:
  assumes "toggles_ok s"
  shows "map_of (get_effective s uid) f = (if f \<in> set DISPLAY_TOGGLE_FIELDS then Some (effective_toggle s uid f) else None)"
  by (simp only: toggles_resolve_in_layers [OF assms] map_of_fields)

lemma effective_fields: "map fst (get_effective s uid) = DISPLAY_TOGGLE_FIELDS"
  by (simp add: get_effective_def Let_def comp_def)

lemma set_user_toggle_layers:
  assumes "toggles_ok s" and "get_toggle_row s uid = Some r" and "known f"
  shows "\<exists>s'. set_user_toggle uid f enabled s = Inr s' \<and> toggles_ok s' \<and>
    effective_toggle s' uid f = (case forced_layer s uid f of Some b \<Rightarrow> b | None \<Rightarrow> as_bool enabled) \<and>
    (\<forall>u g. (u, g) \<noteq> (uid, f) \<longrightarrow> effective_toggle s' u g = effective_toggle s u g)"
proof -
  let ?d = "AList.update f (as_bool enabled) (decode_toggles (tg_own r))"
  let ?g = "\<lambda>r. r\<lparr>tg_own := Some (dump_toggles ?d)\<rparr>"
  note r = assms(2) and True = assms(3)
  define s' where "s' = s\<lparr>tg_rows := update_where (\<lambda>r. tg_user r = uid) ?g (tg_rows s)\<rparr>"
  have set: "set_user_toggle uid f enabled s = Inr s'" using True r by (simp add: set_user_toggle_def s'_def)
  have row: "get_toggle_row s' uid = Some (?g r)"
    using r unfolding get_toggle_row_def s'_def by (simp add: find_update_where_Some)
  have other: "get_toggle_row s' u = get_toggle_row s u" if "u \<noteq> uid" for u
    using that unfolding get_toggle_row_def s'_def by simp (rule find_update_where_other, auto)
  have decoded: "decode_toggles (Some (dump_toggles ?d)) = ?d" by (rule decode_dump [OF known_update [OF decode_known True]])
  have global: "global_layer s' g = global_layer s g" for g by (simp add: global_layer_def s'_def)
  have own: "own_layer s' uid g = (if g = f then Some (as_bool enabled) else own_layer s uid g)" for g
    using row r by (simp add: own_layer_def decoded map_of_update)
  have forced: "forced_layer s' uid g = forced_layer s uid g" for g using row r by (simp add: forced_layer_def)
  have "r \<in> set (tg_rows s)" using r by (auto simp: get_toggle_row_def dest: find_Some_D)
  then have "dictionary (Some (dump_toggles ?d))" using assms(1) by (intro dictionary_dump distinct_decode) (simp add: toggles_ok_def)
  then have ok: "toggles_ok s'" using assms(1) by (auto simp: toggles_ok_def s'_def set_update_where)
  have "effective_toggle s' u g = effective_toggle s u g" if "(u, g) \<noteq> (uid, f)" for u g
  proof (cases "u = uid")
    case True
    then show ?thesis using that own forced global by (simp add: effective_toggle_def)
  next
    case False
    then show ?thesis using other global by (simp add: effective_toggle_def own_layer_def forced_layer_def)
  qed
  moreover have "effective_toggle s' uid f = (case forced_layer s uid f of Some b \<Rightarrow> b | None \<Rightarrow> as_bool enabled)"
    using own [of f] forced [of f] by (simp add: effective_toggle_def layered_own)
  ultimately show ?thesis using set ok by blast
qed

text \<open>C32: a learner's choice takes effect at once. When the learner has a row and every stored text is a
  JSON dictionary with one entry for a key, setting a toggle of the registry makes \<open>get_effective\<close>,
  which the screens read, show that value, unless an administrator has forced another; it shows every
  other toggle of the learner and all toggles of other users as before, always exactly the fields of
  the registry in its order, each with the first layer that says something (forced, own, global,
  built-in \<open>True\<close>). A field that is not in the registry is refused and nothing is written.\<close>

theorem user_choice_takes_effect:
  assumes "toggles_ok s" and "get_toggle_row s uid \<noteq> None"
  shows "case set_user_toggle uid f enabled s of
      Inl e \<Rightarrow> e = ValueError \<and> f \<notin> set DISPLAY_TOGGLE_FIELDS
    | Inr s' \<Rightarrow> f \<in> set DISPLAY_TOGGLE_FIELDS \<and> toggles_ok s' \<and>
        map_of (get_effective s' uid) f = Some (case forced_layer s uid f of Some b \<Rightarrow> b | None \<Rightarrow> as_bool enabled) \<and>
        (\<forall>g. g \<noteq> f \<longrightarrow> map_of (get_effective s' uid) g = map_of (get_effective s uid) g) \<and>
        (\<forall>u. u \<noteq> uid \<longrightarrow> get_effective s' u = get_effective s u) \<and>
        (\<forall>u. get_effective s' u = map (\<lambda>g. (g, layered [forced_layer s' u g, own_layer s' u g, global_layer s' g])) DISPLAY_TOGGLE_FIELDS) \<and>
        effective_toggle s' uid f = (case forced_layer s uid f of Some b \<Rightarrow> b | None \<Rightarrow> as_bool enabled) \<and>
        (\<forall>u g. (u, g) \<noteq> (uid, f) \<longrightarrow> effective_toggle s' u g = effective_toggle s u g)"
proof (cases "known f")
  case False
  then show ?thesis by (simp add: set_user_toggle_def known_def)
next
  case True
  obtain r where "get_toggle_row s uid = Some r" using assms(2) by blast
  from set_user_toggle_layers [OF assms(1) this True, of enabled] obtain s' where
    set: "set_user_toggle uid f enabled s = Inr s'" and ok: "toggles_ok s'" and
    eff: "effective_toggle s' uid f = (case forced_layer s uid f of Some b \<Rightarrow> b | None \<Rightarrow> as_bool enabled)" and
    rest: "\<forall>u g. (u, g) \<noteq> (uid, f) \<longrightarrow> effective_toggle s' u g = effective_toggle s u g" by blast
  have f: "f \<in> set DISPLAY_TOGGLE_FIELDS" using True by (simp add: known_def)
  have "map_of (get_effective s' uid) f = Some (case forced_layer s uid f of Some b \<Rightarrow> b | None \<Rightarrow> as_bool enabled)"
    using f eff by (simp add: effective_value [OF ok])
  moreover have "\<forall>g. g \<noteq> f \<longrightarrow> map_of (get_effective s' uid) g = map_of (get_effective s uid) g"
    using rest by (simp add: effective_value [OF ok] effective_value [OF assms(1)])
  moreover have "\<forall>u. u \<noteq> uid \<longrightarrow> get_effective s' u = get_effective s u"
    using rest by (simp add: toggles_resolve_in_layers [OF ok] toggles_resolve_in_layers [OF assms(1)])
  moreover have "\<forall>u. get_effective s' u = map (\<lambda>g. (g, layered [forced_layer s' u g, own_layer s' u g, global_layer s' g])) DISPLAY_TOGGLE_FIELDS"
    by (simp only: toggles_resolve_in_layers [OF ok] effective_toggle_def) blast
  ultimately show ?thesis using set ok f eff rest by (simp only: sum.case) blast
qed

section \<open>A concrete learner\<close>

definition toggle_sample :: toggle_db where
  "toggle_sample = \<lparr>tg_global = Some (JsonText (JObj [(''synonyms'', JBool False), (''color'', JBool True)])),
     tg_rows = [\<lparr>tg_user = 7, tg_own = Some (JsonText (JObj [(''synonyms'', JStr ''Yes''), (''examples'', JStr ''no'')])),
       tg_forced = Some (JsonText (JObj [(''antonyms'', JInt 0)]))\<rparr>]\<rparr>"

lemma toggle_sample_ok: "toggles_ok toggle_sample"
  by (simp add: toggles_ok_def toggle_sample_def dictionary_def)

theorem toggles_resolve_in_layers_witness:
  "get_effective toggle_sample 7 = map (\<lambda>f. (f, f \<notin> {''antonyms'', ''examples''})) DISPLAY_TOGGLE_FIELDS"
proof -
  have "effective_toggle toggle_sample 7 f = (f \<notin> {''antonyms'', ''examples''})" if "f \<in> set DISPLAY_TOGGLE_FIELDS" for f
    using that unfolding DISPLAY_TOGGLE_FIELDS_def by simp (elim disjE; simp; code_simp)
  then show ?thesis using toggles_resolve_in_layers [OF toggle_sample_ok, of 7] by simp
qed

theorem user_choice_takes_effect_witness:
  "\<exists>s'. set_user_toggle 7 ''examples'' (JBool True) toggle_sample = Inr s' \<and>
     map_of (get_effective toggle_sample 7) ''examples'' = Some False \<and>
     map_of (get_effective s' 7) ''examples'' = Some True \<and> map_of (get_effective s' 7) ''antonyms'' = Some False \<and>
     get_effective s' 8 = get_effective toggle_sample 8"
proof -
  have row: "get_toggle_row toggle_sample 7 \<noteq> None" by (simp add: get_toggle_row_def toggle_sample_def)
  obtain s' where s': "set_user_toggle 7 ''examples'' (JBool True) toggle_sample = Inr s'"
    by (simp add: set_user_toggle_def known_def DISPLAY_TOGGLE_FIELDS_def)
  have facts: "forced_layer toggle_sample 7 ''examples'' = None"
    "map_of (get_effective toggle_sample 7) ''antonyms'' = Some False"
    "map_of (get_effective toggle_sample 7) ''examples'' = Some False" by code_simp+
  note th = user_choice_takes_effect [OF toggle_sample_ok row, of "''examples''" "JBool True", unfolded s' sum.case facts option.case]
  have "map_of (get_effective s' 7) ''examples'' = Some (as_bool (JBool True))" using th by blast
  moreover have same: "\<forall>g. g \<noteq> ''examples'' \<longrightarrow> map_of (get_effective s' 7) g = map_of (get_effective toggle_sample 7) g"
    using th by (elim conjE)
  have "map_of (get_effective s' 7) ''antonyms'' = Some False" using spec [OF same, of "''antonyms''"] facts(2) by simp
  moreover have "get_effective s' 8 = get_effective toggle_sample 8"
  proof -
    have "\<forall>u. u \<noteq> 7 \<longrightarrow> get_effective s' u = get_effective toggle_sample u" using th by (elim conjE)
    then show ?thesis by simp
  qed
  ultimately show ?thesis using s' facts(3) by (auto simp: as_bool_def)
qed

end
