(* ===== verification/Spec2Isabelle.thy ===== *)
theory Spec2Isabelle imports Lifecycle Quota Summary Gate Costs Router Queries Retention Posting Provider Toggles begin

text \<open>
  A verification library for HamZaban, a Telegram bot that teaches languages to Persian speakers.
  The bot keeps everything in one SQLite database (\<open>services/db/\<close>), schedules cards with a memory
  model (\<open>services/fsrs_core.py\<close>), runs study sessions (\<open>services/session/\<close>) and asks language
  models through a chain of presets (\<open>services/ai/\<close>). The theories model these parts as functions on
  explicit states; each operation is one definition with the name of its Python function, with the
  guards, early returns and exceptions of the source as branches.

  \<^bold>\<open>Shared vocabulary.\<close>
  \<^item> \<open>Prelude\<close>: exceptions as \<open>py_error\<close>, results as a sum with bind, float and text operations.
  \<^item> \<open>Calendar\<close>: dates, ISO texts, instants and the clock a computation reads.
  \<^item> \<open>Json\<close>: the JSON values that are stored.
  \<^item> \<open>Tables\<close>: rows of the database as records, settings, plans; updates and deletions of rows.

  \<^bold>\<open>Learning.\<close>
  \<^item> \<open>Fsrs\<close>: \<open>services/fsrs_core.py\<close> over the reals: recall probability, interval, stability and
    difficulty; inverse laws, bounds and monotonicity.
  \<^item> \<open>Users\<close>: \<open>services/db/users.py\<close>: profiles, card modes, quotas, streaks, statistics, reset.
  \<^item> \<open>Toggles\<close>: \<open>services/db/display_toggles.py\<close>: which parts of a card a learner sees, in four layers.
  \<^item> \<open>Words\<close>, \<open>Grading\<close>: \<open>services/db/words.py\<close> and \<open>services/grade_service.py\<close>: saving, deleting, the due list and
    the two grade operations, whose outcomes are characterised on every branch.
  \<^item> \<open>Reviews\<close>: \<open>services/db/reviews.py\<close>: review events, windowed reads, the three-pass pruning.
  \<^item> \<open>Lifecycle\<close>: all word operations together as a step relation, with the invariant of reachable databases.

  \<^bold>\<open>Sessions.\<close>
  \<^item> \<open>SessionEngine\<close>: assembly of a session, the one-card refill that refines it, grade policies.
  \<^item> \<open>SessionStore\<close>: navigation, persistence in JSON, stale sessions and the midnight sweep.
  \<^item> \<open>Summary\<close>: \<open>services/session/summary.py\<close> and \<open>services/db/session_reports.py\<close>.
  \<^item> \<open>Quota\<close>: \<open>services/scheduling.py\<close> and \<open>services/quota_service.py\<close>: session slots, rate windows; the
    locale \<open>quota_gate\<close> is the contract of a counter with a limit, interpreted for words, tips and slots.

  \<^bold>\<open>Administration and AI.\<close>
  \<^item> \<open>Gate\<close>: the readers-writer gate of \<open>services/db/schema.py\<close> as a step relation of threads.
  \<^item> \<open>Costs\<close>: \<open>services/db/cost_tracking.py\<close>: request rows, summaries, breakdowns, rollup purge.
  \<^item> \<open>Keys\<close>: \<open>services/db/key_crypto.py\<close> over an abstract cipher.
  \<^item> \<open>Presets\<close>: \<open>services/db/preset_registry.py\<close>: presets, group keys, ordering, hourly usage.
  \<^item> \<open>Cache\<close>: \<open>services/ai/cache.py\<close> and its facade, with a freshness bound over histories.
  \<^item> \<open>Limiter\<close>, \<open>Router\<close>: \<open>services/ai/limiter.py\<close> and \<open>services/ai/fallback_router.py\<close>. The locales
    \<open>chain_router\<close> and \<open>total_router\<close> say what the loop over the chain needs of one attempt; the
    interpretations give them the modelled attempt.
  \<^item> \<open>Provider\<close>: \<open>services/ai/ai.py\<close> and \<open>services/ai/telemetry.py\<close>: the requests to a provider that answers the n-th
    one, the questions for cards, batches and patches, and the ledger row that each of them leaves; \<open>services/ai/json_codec.py\<close>.
  \<^item> \<open>Cards\<close>: \<open>services/ai/card_validation.py\<close> and the preparation of a stored card in
    \<open>services/ai/generation.py\<close>: validation, repair patches and batches of generated cards.
  \<^item> \<open>Queries\<close>: \<open>services/db/query_results.py\<close> and \<open>services/word_query.py\<close>: the store of answers with its cap, the
    ask flow that pairs every reserved unit with an answer or a release, saving an answer, and the
    migration of old answers in \<open>services/db/schema.py\<close>.

  \<^bold>\<open>Telegram and upkeep.\<close>
  \<^item> \<open>Delivery\<close>: the send core of \<open>services/send_pretty.py\<close> and the retry loops of
    \<open>services/utils/helpers_retry.py\<close>. The Bot API says how its n-th call ends; the locale \<open>bounded_retry\<close> says what
    a loop owes to the rule that decides about another attempt, and each loop interprets it.
  \<^item> \<open>Markup\<close>: the span trees of \<open>services/send_pretty.py\<close>, their renderings as MarkdownV2, HTML, plain text and Rich
    markdown, and the escapes of \<open>services/utils/formatting_escape.py\<close>. Small readers of HTML and MarkdownV2 say what a
    user sees: exactly the texts of the spans.
  \<^item> \<open>Posting\<close>: the verbs \<open>send\<close>, \<open>say\<close> and \<open>edit\<close>, Rich messages with their fallback
    (\<open>services/telegram_rich.py\<close>), the answers to button presses and their routing (\<open>services/routing.py\<close>).
  \<^item> \<open>Speech\<close>: \<open>services/tts.py\<close>, \<open>services/tts_cache.py\<close> and \<open>services/tts_service.py\<close>: the voice cache in memory, table and
    files, its purge, the locks of the keys, and the paths on which a pronunciation is sent.
  \<^item> \<open>AuxTables\<close>: \<open>services/db/legacy_aux.py\<close>: the audit of configuration tests and the retired tips.
  \<^item> \<open>Retention\<close>: \<open>services/retention.py\<close>: the nightly job over the purges of ten components, and what it
    keeps and clears whatever is skipped, stopped or fails.

  \<^bold>\<open>Bounds.\<close> Loops are structural or have a measure. Loops that stop at a deadline count the checks of
  the deadline by a \<open>budget\<close> (\<open>None\<close> for no deadline). The midnight sweep, the pruning of the audit and the wait
  for the request window may not end in the code either; they are partial functions, and where they return is proved.

  \<^bold>\<open>Not modelled.\<close> SQL text, connections and migrations; float rounding (floats are reals); the
  Telegram handlers and keyboards, which only call these services; the prompts and
  the provider itself (a parameter of \<open>Router\<close> and \<open>Provider\<close>); the speech generator (a parameter of \<open>Speech\<close>);
  backups and other file work; the content factory, simulators, load tests and scripts, which are separate programs.
\<close>

end
